(* ===== verification/Prelude.thy ===== *)
theory Prelude
  imports Main "HOL-Library.Word"
begin

unbundle bit_operations_syntax

section \<open>Prelude: the C types and library calls the components share\<close>

text \<open>
  What every theory of the development uses: a C \<^verbatim>\<open>char\<close> as the 8-bit type
  \<^typ>\<open>char\<close> with its signed and unsigned readings (\<^verbatim>\<open>char\<close> is signed on
  the target, Linux amd64), C strings as \<^typ>\<open>string\<close> without a NUL, the
  \<^verbatim>\<open><ctype.h>\<close> classes in the C locale, and the parts of \<^verbatim>\<open><string.h>\<close>,
  \<^verbatim>\<open><strings.h>\<close>, \<^verbatim>\<open>atoi\<close> and \<^verbatim>\<open>sscanf\<close> the sources call.
  The generic lemmas on lists and characters stand at the end.
\<close>

named_theorems ctype_defs \<open>definitions of the character classes\<close>
named_theorems cstring_defs \<open>definitions of the C string primitives\<close>

type_synonym u8 = "8 word"
type_synonym u32 = "32 word"

abbreviation NUL :: char where "NUL \<equiv> CHR 0x00"
abbreviation TAB :: char where "TAB \<equiv> CHR 0x09"
abbreviation LF :: char where "LF \<equiv> CHR 0x0A"
abbreviation FF :: char where "FF \<equiv> CHR 0x0C"
abbreviation CR :: char where "CR \<equiv> CHR 0x0D"
abbreviation ESC :: char where "ESC \<equiv> CHR 0x1B"
abbreviation SP :: char where "SP \<equiv> CHR 0x20"
abbreviation DQ :: char where "DQ \<equiv> CHR 0x22"
abbreviation SQ :: char where "SQ \<equiv> CHR 0x27"
abbreviation BSL :: char where "BSL \<equiv> CHR 0x5C"

subsection \<open>Readings of a byte\<close>

text \<open>\<open>uc\<close> is \<^verbatim>\<open>(unsigned char)c\<close>, \<open>sc\<close> the value of a (signed) \<^verbatim>\<open>char\<close>.\<close>

definition uc :: "char \<Rightarrow> nat" where
  "uc c = of_char c"

definition sc :: "char \<Rightarrow> int" where
  "sc c = (if uc c < 128 then int (uc c) else int (uc c) - 256)"

text \<open>\<open>byte n\<close> is the conversion of an int to \<^verbatim>\<open>char\<close>: its low eight bits.\<close>

definition byte :: "int \<Rightarrow> char" where
  "byte n = char_of (nat (n mod 256))"

lemma uc_less [simp]: "uc c < 256"
  by (simp add: uc_def)

lemma uc_inject [simp]: "uc c = uc d \<longleftrightarrow> c = d"
  by (simp add: uc_def)

lemma uc_char_of [simp]: "n < 256 \<Longrightarrow> uc (char_of n) = n"
  by (simp add: uc_def)

lemma char_of_uc [simp]: "char_of (uc c) = c"
  by (simp add: uc_def)

lemma byte_uc [simp]: "byte (int (uc c)) = c"
  by (simp add: byte_def zmod_int [symmetric])

lemma byte_sc [simp]: "byte (sc c) = c"
proof -
  have "(int (uc c) - 256) mod 256 = int (uc c)"
    by (metis less_imp_of_nat_less minus_mod_self2 mod_pos_pos_trivial of_nat_0_le_iff
        of_nat_numeral uc_less)
  then show ?thesis by (simp add: sc_def byte_def zmod_int [symmetric])
qed

lemma uc_byte: "int (uc (byte n)) = n mod 256"
  by (simp add: byte_def uc_def)

lemma sc_range: "-128 \<le> sc c \<and> sc c \<le> 127"
  using uc_less [of c] unfolding sc_def by (auto simp del: uc_less)

lemma char_cases256: "(\<And>n. n < 256 \<Longrightarrow> P (char_of (n::nat))) \<Longrightarrow> P c"
  by (metis char_of_uc uc_less)

text \<open>A property of all bytes is checked by evaluation over \<open>[0..<256]\<close>.\<close>

lemma all_bytes: "list_all (\<lambda>n. P (char_of n)) [0..<256] \<Longrightarrow> P c"
  by (rule char_cases256) (auto simp: list_all_iff)

subsection \<open>Character classes (C locale)\<close>

definition isdigit :: "char \<Rightarrow> bool" where
  [ctype_defs]: "isdigit c \<longleftrightarrow> 48 \<le> uc c \<and> uc c \<le> 57"

definition isupper :: "char \<Rightarrow> bool" where
  [ctype_defs]: "isupper c \<longleftrightarrow> 65 \<le> uc c \<and> uc c \<le> 90"

definition islower :: "char \<Rightarrow> bool" where
  [ctype_defs]: "islower c \<longleftrightarrow> 97 \<le> uc c \<and> uc c \<le> 122"

definition isalpha :: "char \<Rightarrow> bool" where
  [ctype_defs]: "isalpha c \<longleftrightarrow> isupper c \<or> islower c"

definition isalnum :: "char \<Rightarrow> bool" where
  [ctype_defs]: "isalnum c \<longleftrightarrow> isalpha c \<or> isdigit c"

definition isspace :: "char \<Rightarrow> bool" where
  [ctype_defs]: "isspace c \<longleftrightarrow> uc c = 32 \<or> 9 \<le> uc c \<and> uc c \<le> 13"

definition iscntrl :: "char \<Rightarrow> bool" where
  [ctype_defs]: "iscntrl c \<longleftrightarrow> uc c < 32 \<or> uc c = 127"

definition isxdigit :: "char \<Rightarrow> bool" where
  [ctype_defs]: "isxdigit c \<longleftrightarrow>
     isdigit c \<or> 65 \<le> uc c \<and> uc c \<le> 70 \<or> 97 \<le> uc c \<and> uc c \<le> 102"

definition tolower :: "char \<Rightarrow> char" where
  [ctype_defs]: "tolower c = (if isupper c then char_of (uc c + 32) else c)"

definition toupper :: "char \<Rightarrow> char" where
  [ctype_defs]: "toupper c = (if islower c then char_of (uc c - 32) else c)"

lemma tolower_idem [simp]: "tolower (tolower c) = tolower c"
  by (auto simp: ctype_defs)

lemma toupper_tolower_eq: "toupper a = toupper b \<longleftrightarrow> tolower a = tolower b"
  by (auto simp: ctype_defs simp flip: uc_inject)

lemma tolower_NUL [simp]: "tolower c = NUL \<longleftrightarrow> c = NUL"
  by (auto simp: ctype_defs uc_def simp flip: uc_inject)

subsection \<open>C strings\<close>

text \<open>
  \<open>cstr m\<close> is the string a \<^verbatim>\<open>char*\<close> to the memory \<open>m\<close> denotes, \<open>chr_at s i\<close> is
  \<^verbatim>\<open>s[i]\<close> for an index up to the terminator.
\<close>

definition cstr :: "string \<Rightarrow> string" where
  "cstr m = takeWhile (\<lambda>c. c \<noteq> NUL) m"

definition chr_at :: "string \<Rightarrow> nat \<Rightarrow> char" where
  "chr_at s i = (if i < length s then s ! i else NUL)"

definition hd0 :: "string \<Rightarrow> char" where
  "hd0 s = (case s of [] \<Rightarrow> NUL | c # _ \<Rightarrow> c)"

definition nonul :: "string \<Rightarrow> bool" where
  "nonul s \<longleftrightarrow> NUL \<notin> set s"

lemma hd0_simps [simp]: "hd0 [] = NUL" "hd0 (c # s) = c"
  by (simp_all add: hd0_def)

lemma chr_at_simps [simp]:
  "chr_at [] i = NUL" "chr_at (c # s) 0 = c" "chr_at (c # s) (Suc i) = chr_at s i"
  "chr_at (c # s) (numeral k) = chr_at s (pred_numeral k)"
  by (simp_all add: chr_at_def numeral_eq_Suc)

lemma nonul_simps [simp]:
  "nonul []" "nonul (c # s) \<longleftrightarrow> c \<noteq> NUL \<and> nonul s" "nonul (s @ t) \<longleftrightarrow> nonul s \<and> nonul t"
  by (auto simp: nonul_def)

lemma nonul_take: "nonul s \<Longrightarrow> nonul (take n s)"
  by (auto simp: nonul_def dest: in_set_takeD)

lemma cstr_nonul [simp]: "nonul s \<Longrightarrow> cstr s = s"
  by (auto simp: cstr_def nonul_def takeWhile_eq_all_conv)

lemma cstr_terminated [simp]: "nonul s \<Longrightarrow> cstr (s @ NUL # t) = s"
  by (induction s) (auto simp: cstr_def)

lemma nonul_cstr [simp]: "nonul (cstr m)"
  by (auto simp: nonul_def cstr_def dest: set_takeWhileD)

text \<open>\<^verbatim>\<open>strchr(s,c) != 0\<close>; for \<^verbatim>\<open>c == 0\<close> the terminator is found.\<close>

definition strchr_in :: "string \<Rightarrow> char \<Rightarrow> bool" where
  "strchr_in s c \<longleftrightarrow> c = NUL \<or> c \<in> set s"

text \<open>\<^verbatim>\<open>strchr\<close>, \<^verbatim>\<open>strpbrk\<close> and \<^verbatim>\<open>strstr\<close> as the suffix found.\<close>

fun strchr :: "string \<Rightarrow> char \<Rightarrow> string option" where
  "strchr [] c = (if c = NUL then Some [] else None)"
| "strchr (x # xs) c = (if x = c then Some (x # xs) else strchr xs c)"

fun strpbrk :: "string \<Rightarrow> string \<Rightarrow> string option" where
  "strpbrk [] brk = None"
| "strpbrk (x # xs) brk = (if x \<in> set brk then Some (x # xs) else strpbrk xs brk)"

fun is_prefix :: "string \<Rightarrow> string \<Rightarrow> bool" where
  "is_prefix [] s = True"
| "is_prefix (p # ps) [] = False"
| "is_prefix (p # ps) (c # s) = (p = c \<and> is_prefix ps s)"

fun strstr :: "string \<Rightarrow> string \<Rightarrow> string option" where
  "strstr [] p = (if p = [] then Some [] else None)"
| "strstr (c # s) p = (if is_prefix p (c # s) then Some (c # s) else strstr s p)"

text \<open>\<^verbatim>\<open>strcmp\<close> (sign of the first difference, as unsigned bytes) and \<^verbatim>\<open>strcasecmp\<close>.\<close>

fun strcmp :: "string \<Rightarrow> string \<Rightarrow> int" where
  "strcmp [] [] = 0"
| "strcmp [] (d # ds) = - int (uc d)"
| "strcmp (c # cs) [] = int (uc c)"
| "strcmp (c # cs) (d # ds) =
     (if c = d then strcmp cs ds else int (uc c) - int (uc d))"

definition strcasecmp :: "string \<Rightarrow> string \<Rightarrow> int" where
  "strcasecmp a b = strcmp (map tolower a) (map tolower b)"

text \<open>\<^verbatim>\<open>strncmp(a,b,n) == 0\<close> and \<^verbatim>\<open>strncasecmp(a,b,n) == 0\<close>.\<close>

definition strneq :: "string \<Rightarrow> string \<Rightarrow> nat \<Rightarrow> bool" where
  "strneq a b n \<longleftrightarrow> take n a = take n b"

definition strncaseeq :: "string \<Rightarrow> string \<Rightarrow> nat \<Rightarrow> bool" where
  "strncaseeq a b n \<longleftrightarrow> map tolower (take n a) = map tolower (take n b)"

text \<open>\<^verbatim>\<open>strcasestr\<close> as the suffix found.\<close>

fun strcasestr :: "string \<Rightarrow> string \<Rightarrow> string option" where
  "strcasestr [] p = (if p = [] then Some [] else None)"
| "strcasestr (c # s) p = (if strncaseeq (c # s) p (length p) then Some (c # s) else strcasestr s p)"

lemma is_prefix_append [simp]: "is_prefix p (p @ s)"
  by (induction p) auto

lemma is_prefix_iff: "is_prefix p s \<longleftrightarrow> take (length p) s = p"
  by (induction p s rule: is_prefix.induct) auto

lemma strcmp_refl [simp]: "strcmp s s = 0"
  by (induction s) auto

lemma strcmp_0_iff: "nonul a \<Longrightarrow> nonul b \<Longrightarrow> strcmp a b = 0 \<longleftrightarrow> a = b"
proof (induction a b rule: strcmp.induct)
  case (2 d ds)
  have "uc d = 0 \<longleftrightarrow> d = NUL" by (simp add: uc_def flip: uc_inject)
  with 2 show ?case by auto
next
  case (3 c cs)
  have "uc c = 0 \<longleftrightarrow> c = NUL" by (simp add: uc_def flip: uc_inject)
  with 3 show ?case by auto
qed auto

lemma nonul_map_tolower [simp]: "nonul (map tolower s) \<longleftrightarrow> nonul s"
  by (induction s) auto

lemma strcasecmp_0_iff:
  "nonul a \<Longrightarrow> nonul b \<Longrightarrow> strcasecmp a b = 0 \<longleftrightarrow> map tolower a = map tolower b"
  by (simp add: strcasecmp_def strcmp_0_iff)

subsection \<open>Numbers: \<open>atoi\<close> and \<open>sscanf\<close>\<close>

text \<open>
  glibc reads \<^verbatim>\<open>%d\<close> and \<^verbatim>\<open>atoi\<close> through \<^verbatim>\<open>strtol\<close>: the value saturates at the
  64-bit limits and is then cut to 32 bits.
\<close>

definition i32 :: "int \<Rightarrow> int" where
  "i32 v = (v + 2 ^ 31) mod 2 ^ 32 - 2 ^ 31"

definition sat64 :: "int \<Rightarrow> int" where
  "sat64 v = max (- (2 ^ 63)) (min (2 ^ 63 - 1) v)"

fun dec_val :: "string \<Rightarrow> int \<Rightarrow> int" where
  "dec_val [] acc = acc"
| "dec_val (c # s) acc = dec_val s (acc * 10 + (int (uc c) - 48))"

definition xdig :: "char \<Rightarrow> int" where
  "xdig c = (if isdigit c then int (uc c) - 48
             else if 97 \<le> uc c then int (uc c) - 87 else int (uc c) - 55)"

fun hex_val :: "string \<Rightarrow> int \<Rightarrow> int" where
  "hex_val [] acc = acc"
| "hex_val (c # s) acc = hex_val s (acc * 16 + xdig c)"

definition skip_ws :: "string \<Rightarrow> string" where
  "skip_ws s = dropWhile isspace s"

text \<open>\<open>scan_d\<close>: one \<^verbatim>\<open>%d\<close> directive; the value and the rest, or \<open>None\<close>.\<close>

definition scan_d :: "string \<Rightarrow> (int \<times> string) option" where
  "scan_d s =
     (let s1 = skip_ws s;
          neg = (hd0 s1 = CHR ''-'');
          s2 = (if neg \<or> hd0 s1 = CHR ''+'' then tl s1 else s1);
          ds = takeWhile isdigit s2
      in if ds = [] then None
         else Some (i32 (sat64 (if neg then - dec_val ds 0 else dec_val ds 0)),
                    dropWhile isdigit s2))"

definition atoi :: "string \<Rightarrow> int" where
  "atoi s = (case scan_d s of None \<Rightarrow> 0 | Some (v, _) \<Rightarrow> v)"

lemma dec_val_append: "dec_val (s @ t) acc = dec_val t (dec_val s acc)"
  by (induction s arbitrary: acc) auto

lemma i32_id [simp]: "- (2 ^ 31) \<le> v \<Longrightarrow> v < 2 ^ 31 \<Longrightarrow> i32 v = v"
  by (simp add: i32_def)

lemma i32_range: "- (2 ^ 31) \<le> i32 v \<and> i32 v < 2 ^ 31"
proof -
  have "0 \<le> (v + 2 ^ 31) mod 2 ^ 32" "(v + 2 ^ 31) mod 2 ^ 32 < (2::int) ^ 32"
    by simp_all
  then show ?thesis unfolding i32_def by (simp add: algebra_simps)
qed

lemma sat64_id [simp]: "- (2 ^ 63) \<le> v \<Longrightarrow> v < 2 ^ 63 \<Longrightarrow> sat64 v = v"
  by (simp add: sat64_def)

subsection \<open>Printing decimal numbers\<close>

text \<open>\<open>show_nat\<close> is \<^verbatim>\<open>sprintf("%d")\<close> of a non-negative int.\<close>

fun show_nat :: "nat \<Rightarrow> string" where
  "show_nat n = (if n < 10 then [char_of (48 + n)] else show_nat (n div 10) @ [char_of (48 + n mod 10)])"

declare show_nat.simps [simp del]

text \<open>\<^verbatim>\<open>sprintf("%d")\<close> of any int.\<close>

definition print_int :: "int \<Rightarrow> string" where
  "print_int n = (if n < 0 then CHR ''-'' # show_nat (nat (- n)) else show_nat (nat n))"

lemma show_nat_digits: "list_all isdigit (show_nat n)"
  by (induction n rule: show_nat.induct)
    (subst show_nat.simps, auto simp: isdigit_def [of "char_of _"])

lemma show_nat_nonempty [simp]: "show_nat n \<noteq> []"
  by (subst show_nat.simps) simp

lemma dec_val_show_nat: "dec_val (show_nat n) 0 = int n"
proof (induction n rule: show_nat.induct)
  case (1 n)
  show ?case
  proof (cases "n < 10")
    case True
    then show ?thesis by (subst show_nat.simps) simp
  next
    case False
    with 1 have "dec_val (show_nat (n div 10)) 0 = int (n div 10)" by simp
    moreover have "int (n div 10) * 10 + int (n mod 10) = int n"
      by (metis div_mult_mod_eq of_nat_add of_nat_mult of_nat_numeral)
    ultimately show ?thesis using False by (subst show_nat.simps) (simp add: dec_val_append)
  qed
qed

text \<open>A number that was printed is read back, up to the character that ends it.\<close>

lemma takeWhile_digits:
  "list_all isdigit ds \<Longrightarrow> \<not> isdigit (hd0 t) \<Longrightarrow>
   takeWhile isdigit (ds @ t) = ds \<and> dropWhile isdigit (ds @ t) = t"
  by (induction ds) (cases t; auto)+

lemma scan_d_show_nat:
  assumes "n < 2 ^ 31" and "\<not> isdigit (hd0 t)"
  shows "scan_d (show_nat n @ t) = Some (int n, t)"
proof -
  have digs: "list_all isdigit (show_nat n)" by (rule show_nat_digits)
  obtain c cs where c: "show_nat n = c # cs" by (meson list.exhaust show_nat_nonempty)
  have cd: "isdigit c" using digs c by simp
  then have ws: "\<not> isspace c" "c \<noteq> CHR ''-''" "c \<noteq> CHR ''+''" by (auto simp: ctype_defs uc_def)
  have tw: "takeWhile isdigit (show_nat n @ t) = show_nat n" "dropWhile isdigit (show_nat n @ t) = t"
    using takeWhile_digits [OF digs assms(2)] digs assms(2)
    by (cases t; simp add: list_all_iff dropWhile_append2)+
  have "sat64 (int n) = int n" using assms(1) by (intro sat64_id) auto
  moreover have "i32 (int n) = int n" using assms(1) by (intro i32_id) auto
  ultimately show ?thesis
    using ws tw dec_val_show_nat [of n] c by (simp add: scan_d_def skip_ws_def Let_def)
qed

lemma atoi_number: "n < 2 ^ 31 \<Longrightarrow> \<not> isdigit (hd0 t) \<Longrightarrow> atoi (show_nat n @ t) = int n"
  by (simp add: atoi_def scan_d_show_nat)

end
