(* ===== verification/VStr.thy ===== *)
theory VStr
  imports Prelude
begin

section \<open>VStr: the bounds-checked string buffers\<close>

text \<open>
  \<^verbatim>\<open>include/ystring.h\<close> passes a string buffer together with the address and size of
  the object it lies in (\<^verbatim>\<open>PVStr\<close>, \<^verbatim>\<open>refQStr\<close>), and \<^verbatim>\<open>rary/ystring.cpp\<close> checks
  every store against them. A buffer is a record: the bytes of the object, the offset
  of the current pointer from its base, whether the base is the null pointer, and a
  flag that a store outside the object sets. The flag is not in the code: it makes an
  out-of-bounds store visible, and the theorems show that it stays unset. The
  environment variable \<^verbatim>\<open>DEBUG_VSTR\<close>, which turns an overflow into \<^verbatim>\<open>abort()\<close>, is
  taken as unset; the log lines of \<^verbatim>\<open>VStr_overflow\<close> are left out.
\<close>

record vstr =
  vmem :: string
  vpos :: int
  vnull :: bool
  vbad :: bool

named_theorems vstr_simps \<open>rewrite rules for buffers\<close>

definition vsize :: "vstr \<Rightarrow> int" where
  "vsize v = int (length (vmem v))"

text \<open>\<^verbatim>\<open>UTail(p)\<close>, the offset of the last byte.\<close>

definition UTail :: "vstr \<Rightarrow> int" where
  "UTail v = vsize v - 1"

text \<open>A machine store at an offset from the base.\<close>

definition vstore :: "vstr \<Rightarrow> int \<Rightarrow> char \<Rightarrow> vstr" where
  "vstore v i c = (if 0 \<le> i \<and> i < vsize v then v\<lparr>vmem := (vmem v)[nat i := c]\<rparr>
                   else v\<lparr>vbad := True\<rparr>)"

definition new_vstr :: "nat \<Rightarrow> vstr" where
  "new_vstr n = \<lparr>vmem = replicate n NUL, vpos = 0, vnull = False, vbad = False\<rparr>"

subsection \<open>Range checks\<close>

definition rangeOK :: "vstr \<Rightarrow> int \<Rightarrow> bool" where
  "rangeOK v x \<longleftrightarrow> 0 < vsize v \<and> 0 \<le> vpos v + x \<and> vpos v + x \<le> UTail v"

definition outofrange :: "vstr \<Rightarrow> int \<Rightarrow> bool" where
  "outofrange v z \<longleftrightarrow>
     (vpos v < 0 \<or> UTail v < vpos v)
     \<or> (z \<noteq> 0 \<and> (vpos v + z < 0 \<or> UTail v + 1 < vpos v + z))"

text \<open>\<^verbatim>\<open>XcheckPtr\<close> aborts (\<open>None\<close>) on a pointer outside the object.\<close>

definition XcheckPtr :: "vstr \<Rightarrow> int \<Rightarrow> int option" where
  "XcheckPtr v p = (if p < 0 then None else if UTail v < p then None else Some p)"

definition Xassert :: "vstr \<Rightarrow> int \<Rightarrow> int" where
  "Xassert v p = (if p < 0 then -1 else if UTail v \<le> p then -1 else 0)"

definition XQVSSize :: "vstr \<Rightarrow> int \<Rightarrow> int" where
  "XQVSSize v z =
     (if outofrange v z then 0
      else let rem = vsize v - vpos v
           in if rem < z then (if rem < 0 then 0 else rem) else z)"

subsection \<open>Terminating and storing through a checked pointer\<close>

definition XsetVStrEnd :: "vstr \<Rightarrow> int \<Rightarrow> vstr \<times> int" where
  "XsetVStrEnd v x =
     (if vnull v \<and> vsize v = 0 then (v, 0)
      else if outofrange v 0 then (vstore v (UTail v) NUL, 0)
      else if UTail v < vpos v + x then (vstore v (UTail v) NUL, UTail v - vpos v)
      else (vstore v (vpos v + x) NUL, x))"

definition setVStrEnd :: "vstr \<Rightarrow> int \<Rightarrow> vstr" where
  "setVStrEnd v x =
     (if rangeOK v x then vstore v (vpos v + x) NUL else fst (XsetVStrEnd v x))"

definition setVStrElem :: "vstr \<Rightarrow> int \<Rightarrow> char \<Rightarrow> vstr" where
  "setVStrElem v x c =
     (if rangeOK v x then vstore v (vpos v + x) c else fst (XsetVStrEnd v x))"

text \<open>The index is a variable of the caller: it comes back incremented.\<close>

definition setVStrElemInc :: "vstr \<Rightarrow> int \<Rightarrow> char \<Rightarrow> vstr \<times> int" where
  "setVStrElemInc v x c =
     (if rangeOK v x then (vstore v (vpos v + x) c, x + 1) else (fst (XsetVStrEnd v x), x))"

definition setVStrPtrInc :: "vstr \<Rightarrow> char \<Rightarrow> vstr" where
  "setVStrPtrInc v c =
     (if rangeOK v 0 then (vstore v (vpos v) c)\<lparr>vpos := vpos v + 1\<rparr>
      else fst (XsetVStrEnd v 0))"

subsection \<open>Copying\<close>

text \<open>
  \<open>n\<close> is \<^verbatim>\<open>z - i\<close>, the turns left of \<^verbatim>\<open>for(i = 1; i < z; i++)\<close>; the source is a C
  string that does not overlap the destination.
\<close>

fun Xstrcpy_loop :: "vstr \<Rightarrow> int \<Rightarrow> nat \<Rightarrow> string \<Rightarrow> vstr" where
  "Xstrcpy_loop v e 0 s = vstore v e NUL"
| "Xstrcpy_loop v e (Suc n) [] = vstore v e NUL"
| "Xstrcpy_loop v e (Suc n) (c # s) = Xstrcpy_loop (vstore v e c) (e + 1) n s"

definition Xstrcpy :: "vstr \<Rightarrow> string \<Rightarrow> vstr" where
  "Xstrcpy v s =
     (if outofrange v 0 then v
      else let z = UTail v - vpos v + 1
           in Xstrcpy_loop v (vpos v) (nat (z - 1)) s)"

text \<open>\<open>n\<close> is the counter of \<^verbatim>\<open>while( 1 < n-- )\<close>.\<close>

fun XStrncpy_loop :: "vstr \<Rightarrow> int \<Rightarrow> nat \<Rightarrow> string \<Rightarrow> vstr" where
  "XStrncpy_loop v dp (Suc (Suc n)) [] = vstore (vstore v dp NUL) (dp + 1) NUL"
| "XStrncpy_loop v dp (Suc (Suc n)) (c # s) = XStrncpy_loop (vstore v dp c) (dp + 1) (Suc n) s"
| "XStrncpy_loop v dp n s = vstore v dp NUL"

definition XStrncpy :: "vstr \<Rightarrow> string \<Rightarrow> int \<Rightarrow> vstr" where
  "XStrncpy v s z =
     (if outofrange v 0 then v
      else let n = (if UTail v + 1 < vpos v + z then UTail v - vpos v + 1 else z)
           in XStrncpy_loop v (vpos v) (nat n) s)"

text \<open>
  The block moves of the C library: \<open>store_all\<close> stores a list of bytes at increasing
  addresses. A negative length is a huge \<^verbatim>\<open>size_t\<close> there, which runs out of the object.
\<close>

fun store_all :: "vstr \<Rightarrow> int \<Rightarrow> string \<Rightarrow> vstr" where
  "store_all v e [] = v"
| "store_all v e (c # s) = store_all (vstore v e c) (e + 1) s"

definition strncpy_bytes :: "string \<Rightarrow> nat \<Rightarrow> string" where
  "strncpy_bytes s n = take n (s @ replicate n NUL)"

definition Xstrncpy :: "vstr \<Rightarrow> string \<Rightarrow> int \<Rightarrow> vstr" where
  "Xstrncpy v s sz =
     (if outofrange v sz then v
      else let z = UTail v - vpos v + 1;
               sz' = (if z < sz then z else sz)
           in if sz' < 0 then v\<lparr>vbad := True\<rparr>
              else store_all v (vpos v) (strncpy_bytes s (nat sz')))"

definition Xbcopy :: "string \<Rightarrow> vstr \<Rightarrow> int \<Rightarrow> vstr" where
  "Xbcopy s v z =
     (if outofrange v z then v
      else let z' = (if UTail v + 1 < vpos v + z then UTail v - vpos v else z)
           in if z' < 0 then v\<lparr>vbad := True\<rparr>
              else store_all v (vpos v) (take (nat z') s))"

definition Xmemmove :: "vstr \<Rightarrow> string \<Rightarrow> int \<Rightarrow> vstr" where
  "Xmemmove v s sz =
     (if outofrange v sz then v
      else if UTail v + 1 < vpos v + sz then
        (let sz' = UTail v - vpos v
         in if sz' < 0 then v else store_all v (vpos v) (take (nat sz') s))
      else if sz < 0 then v\<lparr>vbad := True\<rparr>
      else store_all v (vpos v) (take (nat sz) s))"

text \<open>
  \<^verbatim>\<open>Xstrcat\<close> first walks to the terminator; a buffer without one makes it read past the
  object, which the flag records as well.
\<close>

definition Xstrcat :: "vstr \<Rightarrow> string \<Rightarrow> vstr" where
  "Xstrcat v s =
     (if outofrange v 0 then v
      else let rest = drop (nat (vpos v)) (vmem v)
           in if NUL \<notin> set rest then v\<lparr>vbad := True\<rparr>
              else (Xstrcpy (v\<lparr>vpos := vpos v + int (length (cstr rest))\<rparr>) s)\<lparr>vpos := vpos v\<rparr>)"

text \<open>\<^verbatim>\<open>Xsprintf\<close> on the text the format yields: \<^verbatim>\<open>vsnprintf(d,z,...)\<close>.\<close>

definition Xsprintf :: "vstr \<Rightarrow> string \<Rightarrow> vstr \<times> int" where
  "Xsprintf v txt =
     (if outofrange v 0 then (v, 0)
      else let z = UTail v - vpos v + 1
           in (if 0 < z then store_all v (vpos v) (take (nat (z - 1)) txt @ [NUL]) else v,
               int (length txt)))"

subsection \<open>Stores stay inside the object\<close>

text \<open>The invariant: a real object, and no store has left it.\<close>

definition vok :: "vstr \<Rightarrow> bool" where
  "vok v \<longleftrightarrow> 0 < vsize v \<and> \<not> vbad v"

lemma vstore_simps [simp, vstr_simps]:
  "vsize (vstore v i c) = vsize v" "vpos (vstore v i c) = vpos v"
  "vnull (vstore v i c) = vnull v" "UTail (vstore v i c) = UTail v"
  by (simp_all add: vstore_def vsize_def UTail_def)

lemma vsize_vpos_upd [simp]: "vsize (v\<lparr>vpos := p\<rparr>) = vsize v"
  by (simp add: vsize_def)

lemma vsize_vbad_upd [simp]: "vsize (v\<lparr>vbad := b\<rparr>) = vsize v"
  by (simp add: vsize_def)

lemma vok_vpos_upd [simp]: "vok (v\<lparr>vpos := p\<rparr>) = vok v"
  by (simp add: vok_def)

lemma vok_vstore [simp]: "0 \<le> i \<Longrightarrow> i < vsize v \<Longrightarrow> vok (vstore v i c) = vok v"
  by (simp add: vok_def vstore_def vsize_def)

lemma store_all_simps [simp, vstr_simps]:
  "vsize (store_all v e s) = vsize v" "vpos (store_all v e s) = vpos v"
  by (induction s arbitrary: v e) auto

lemma vok_store_all [simp]:
  "0 \<le> e \<Longrightarrow> e + int (length s) \<le> vsize v \<Longrightarrow> vok (store_all v e s) = vok v"
  by (induction s arbitrary: v e) auto

lemma vok_store_take [simp]:
  "0 \<le> e \<Longrightarrow> e + int n \<le> vsize v \<Longrightarrow> vok (store_all v e (take n s)) = vok v"
  by (rule vok_store_all) (auto simp: min_def)

lemma vok_store_take_nul [simp]:
  "0 \<le> e \<Longrightarrow> e + int n < vsize v \<Longrightarrow> vok (store_all v e (take n s @ [NUL])) = vok v"
  by (rule vok_store_all) (auto simp: min_def)

lemma store_all_mem:
  "0 \<le> e \<Longrightarrow> e + int (length s) \<le> vsize v \<Longrightarrow>
   vmem (store_all v e s) =
     take (nat e) (vmem v) @ s @ drop (nat e + length s) (vmem v)"
proof (induction s arbitrary: v e)
  case Nil
  then show ?case by simp
next
  case (Cons c s)
  have ne: "nat (e + 1) = Suc (nat e)" using Cons.prems by simp
  have lt: "nat e < length (vmem v)" using Cons.prems by (simp add: vsize_def)
  have st: "vmem (vstore v e c) = (vmem v)[nat e := c]"
    using Cons.prems by (simp add: vstore_def)
  have "vmem (store_all (vstore v e c) (e + 1) s) =
      take (Suc (nat e)) ((vmem v)[nat e := c]) @ s @ drop (Suc (nat e) + length s) ((vmem v)[nat e := c])"
    using Cons.IH [of "e + 1" "vstore v e c"] Cons.prems by (simp add: st ne)
  then show ?case using lt
    by (simp add: take_Suc_conv_app_nth take_update_cancel)
qed

text \<open>The copy loops as block stores.\<close>

lemma Xstrcpy_loop_store_all: "Xstrcpy_loop v e n s = store_all v e (take n s @ [NUL])"
  by (induction v e n s rule: Xstrcpy_loop.induct) auto

lemma Xstrcpy_store_all:
  "\<not> outofrange v 0 \<Longrightarrow>
   Xstrcpy v s = store_all v (vpos v) (take (nat (UTail v - vpos v)) s @ [NUL])"
  by (simp add: Xstrcpy_def Xstrcpy_loop_store_all)

lemma XStrncpy_loop_last: "XStrncpy_loop v dp (Suc 0) s = vstore v dp NUL"
  by (cases s) simp_all

lemma XStrncpy_loop_store_all:
  "XStrncpy_loop v e n s =
     (if Suc (length s) < n then store_all v e (s @ [NUL, NUL])
      else store_all v e (take (n - 1) s @ [NUL]))"
  by (induction v e n s rule: XStrncpy_loop.induct) (simp_all add: XStrncpy_loop_last)

lemma not_outofrangeD:
  "\<not> outofrange v z \<Longrightarrow> 0 \<le> vpos v \<and> vpos v \<le> UTail v"
  by (auto simp: outofrange_def)

lemma vok_XsetVStrEnd:
  "vok v \<Longrightarrow> 0 \<le> vpos v + x \<or> vpos v < 0 \<Longrightarrow> vok (fst (XsetVStrEnd v x))"
  by (auto simp: XsetVStrEnd_def outofrange_def UTail_def vok_def vstore_def vsize_def)

lemma vok_setVStrEnd: "vok v \<Longrightarrow> 0 \<le> vpos v + x \<or> vpos v < 0 \<Longrightarrow> vok (setVStrEnd v x)"
  by (auto simp: setVStrEnd_def rangeOK_def UTail_def intro: vok_XsetVStrEnd)

lemma vok_setVStrElem: "vok v \<Longrightarrow> 0 \<le> vpos v + x \<or> vpos v < 0 \<Longrightarrow> vok (setVStrElem v x c)"
  by (auto simp: setVStrElem_def rangeOK_def UTail_def intro: vok_XsetVStrEnd)

lemma vok_setVStrPtrInc: "vok v \<Longrightarrow> vok (setVStrPtrInc v c)"
proof -
  assume "vok v"
  then have "vok (fst (XsetVStrEnd v 0))" by (intro vok_XsetVStrEnd) auto
  with \<open>vok v\<close> show ?thesis by (auto simp: setVStrPtrInc_def rangeOK_def UTail_def)
qed

lemma vok_Xstrcpy: "vok v \<Longrightarrow> vok (Xstrcpy v s)"
proof (cases "outofrange v 0")
  case False
  assume "vok v"
  have "vpos v + int (length (take (nat (UTail v - vpos v)) s @ [NUL])) \<le> vsize v"
    using not_outofrangeD [OF False] by (auto simp: UTail_def min_def)
  with \<open>vok v\<close> not_outofrangeD [OF False] False show ?thesis
    by (simp add: Xstrcpy_store_all)
qed (simp add: Xstrcpy_def)

lemma vok_XStrncpy: "vok v \<Longrightarrow> vok (XStrncpy v s z)"
proof (cases "outofrange v 0")
  case False
  assume ok: "vok v"
  define n where "n = (if UTail v + 1 < vpos v + z then UTail v - vpos v + 1 else z)"
  have n: "vpos v + n \<le> vsize v" using not_outofrangeD [OF False] by (auto simp: n_def UTail_def)
  have p: "0 \<le> vpos v" "vpos v < vsize v"
    using not_outofrangeD [OF False] by (auto simp: UTail_def)
  have "vok (XStrncpy_loop v (vpos v) (nat n) s)"
    using ok n p by (subst XStrncpy_loop_store_all) auto
  with False show ?thesis by (simp add: XStrncpy_def n_def Let_def)
qed (simp add: XStrncpy_def)

lemma vok_Xstrncpy: "vok v \<Longrightarrow> 0 \<le> sz \<Longrightarrow> vok (Xstrncpy v s sz)"
  by (auto simp: Xstrncpy_def Let_def outofrange_def UTail_def strncpy_bytes_def min_def)

lemma vok_Xbcopy: "vok v \<Longrightarrow> 0 \<le> z \<Longrightarrow> vok (Xbcopy s v z)"
  by (auto simp: Xbcopy_def Let_def outofrange_def UTail_def)

lemma vok_Xmemmove: "vok v \<Longrightarrow> 0 \<le> z \<Longrightarrow> vok (Xmemmove v s z)"
  by (auto simp: Xmemmove_def Let_def outofrange_def UTail_def)

lemma vok_Xsprintf: "vok v \<Longrightarrow> vok (fst (Xsprintf v txt))"
  by (auto simp: Xsprintf_def Let_def outofrange_def UTail_def)

subsection \<open>Sequences of buffer operations\<close>

text \<open>
  A routine that fills a buffer is a sequence of these operations; \<open>Back\<close> is pointer
  arithmetic on the checked pointer (\<^verbatim>\<open>dp += strlen(dp)\<close>, \<^verbatim>\<open>dp = str\<close>), which is unchecked.
\<close>

datatype vop =
    PtrInc char
  | PutEnd int
  | PutElem int char
  | Move int
  | Strcpy string
  | StrncpyQ string int
  | Strncpy string int
  | Bcopy string int
  | Memmove string int
  | Sprintf string

fun vexec :: "vstr \<Rightarrow> vop \<Rightarrow> vstr" where
  "vexec v (PtrInc c) = setVStrPtrInc v c"
| "vexec v (PutEnd x) = setVStrEnd v x"
| "vexec v (PutElem x c) = setVStrElem v x c"
| "vexec v (Move p) = v\<lparr>vpos := p\<rparr>"
| "vexec v (Strcpy s) = Xstrcpy v s"
| "vexec v (StrncpyQ s z) = XStrncpy v s z"
| "vexec v (Strncpy s z) = Xstrncpy v s z"
| "vexec v (Bcopy s z) = Xbcopy s v z"
| "vexec v (Memmove s z) = Xmemmove v s z"
| "vexec v (Sprintf t) = fst (Xsprintf v t)"

text \<open>Lengths and indices relative to the pointer are not negative.\<close>

fun vop_nonneg :: "vop \<Rightarrow> bool" where
  "vop_nonneg (PutEnd x) \<longleftrightarrow> 0 \<le> x"
| "vop_nonneg (PutElem x c) \<longleftrightarrow> 0 \<le> x"
| "vop_nonneg (Strncpy s z) \<longleftrightarrow> 0 \<le> z"
| "vop_nonneg (Bcopy s z) \<longleftrightarrow> 0 \<le> z"
| "vop_nonneg (Memmove s z) \<longleftrightarrow> 0 \<le> z"
| "vop_nonneg _ \<longleftrightarrow> True"

lemma vok_vexec: "vok v \<Longrightarrow> vop_nonneg op \<Longrightarrow> vok (vexec v op)"
  by (cases op)
    (auto intro!: vok_setVStrPtrInc vok_setVStrEnd vok_setVStrElem vok_Xstrcpy vok_XStrncpy
       vok_Xstrncpy vok_Xbcopy vok_Xmemmove vok_Xsprintf)

lemma vok_foldl_vexec:
  "vok v \<Longrightarrow> list_all vop_nonneg ops \<Longrightarrow> vok (foldl vexec v ops)"
  by (induction ops arbitrary: v) (auto simp: vok_vexec)

lemma vok_new_vstr [simp]: "0 < n \<Longrightarrow> vok (new_vstr n)"
  by (simp add: vok_def new_vstr_def vsize_def)

subsection \<open>What the copies leave in the buffer\<close>

lemma drop_store_all:
  "0 \<le> e \<Longrightarrow> e + int (length s) \<le> vsize v \<Longrightarrow>
   drop (nat e) (vmem (store_all v e s)) = s @ drop (nat e + length s) (vmem v)"
  by (simp add: store_all_mem vsize_def)

lemma take_store_all:
  "0 \<le> e \<Longrightarrow> e + int (length s) \<le> vsize v \<Longrightarrow>
   take (nat e) (vmem (store_all v e s)) = take (nat e) (vmem v)"
  by (simp add: store_all_mem vsize_def)

lemma Xstrcpy_text:
  assumes "\<not> outofrange v 0" and "nonul s"
  shows "cstr (drop (nat (vpos v)) (vmem (Xstrcpy v s))) = take (nat (UTail v - vpos v)) s"
proof -
  let ?t = "take (nat (UTail v - vpos v)) s"
  have "drop (nat (vpos v)) (vmem (Xstrcpy v s)) =
      (?t @ [NUL]) @ drop (nat (vpos v) + length (?t @ [NUL])) (vmem v)"
    unfolding Xstrcpy_store_all [OF assms(1)] using not_outofrangeD [OF assms(1)]
    by (intro drop_store_all) (auto simp: UTail_def min_def)
  with assms(2) show ?thesis by (simp add: nonul_take)
qed

lemma Xstrcpy_frame:
  assumes "\<not> outofrange v 0"
  shows "take (nat (vpos v)) (vmem (Xstrcpy v s)) = take (nat (vpos v)) (vmem v)"
  unfolding Xstrcpy_store_all [OF assms(1)] using not_outofrangeD [OF assms(1)]
  by (intro take_store_all) (auto simp: UTail_def min_def)

lemma XStrncpy_text:
  assumes "\<not> outofrange v 0" and "nonul s" and "0 < z"
  shows "cstr (drop (nat (vpos v)) (vmem (XStrncpy v s z))) =
           take (nat (min z (UTail v - vpos v + 1) - 1)) s"
proof -
  define n where "n = min z (UTail v - vpos v + 1)"
  have p: "0 \<le> vpos v" "vpos v \<le> UTail v" using not_outofrangeD [OF assms(1)] by auto
  have n: "0 < n" "vpos v + n \<le> vsize v" using p assms(3) by (auto simp: n_def UTail_def)
  have eq: "XStrncpy v s z = XStrncpy_loop v (vpos v) (nat n) s"
    using assms(1) p by (auto simp: XStrncpy_def n_def Let_def min_def)
  show ?thesis
  proof (cases "Suc (length s) < nat n")
    case True
    have "drop (nat (vpos v)) (vmem (XStrncpy v s z)) =
        (s @ [NUL, NUL]) @ drop (nat (vpos v) + length (s @ [NUL, NUL])) (vmem v)"
      unfolding eq XStrncpy_loop_store_all using True p n by (simp only: if_True, intro drop_store_all) auto
    with assms(2) True show ?thesis unfolding n_def [symmetric] by simp
  next
    case False
    let ?t = "take (nat n - 1) s"
    have len: "length ?t + 1 \<le> nat n" using n by simp
    have "drop (nat (vpos v)) (vmem (XStrncpy v s z)) =
        (?t @ [NUL]) @ drop (nat (vpos v) + length (?t @ [NUL])) (vmem v)"
      unfolding eq XStrncpy_loop_store_all using False p n len
      by (simp only: if_False, intro drop_store_all) (auto simp: min_def)
    with assms(2) show ?thesis
      unfolding n_def [symmetric] using n by (simp add: nonul_take nat_diff_distrib)
  qed
qed

subsection \<open>Sinks: emitting characters one by one\<close>

text \<open>
  The encoders emit their output a character at a time, to a stdio stream or through a
  checked pointer. What a client may rely on is one contract: after any puts and a
  close, the text is what was put, cut to the capacity of the sink.
\<close>

locale char_sink =
  fixes put :: "'o \<Rightarrow> char \<Rightarrow> 'o"
    and close :: "'o \<Rightarrow> 'o"
    and text_of :: "'o \<Rightarrow> string"
    and cut :: "string \<Rightarrow> string"
    and wrote :: "'o \<Rightarrow> string \<Rightarrow> bool"
  assumes wrote_put: "wrote v s \<Longrightarrow> wrote (put v c) (s @ [c])"
    and close_text: "wrote v s \<Longrightarrow> nonul s \<Longrightarrow> text_of (close v) = cut s"
begin

lemma wrote_puts: "wrote v s \<Longrightarrow> wrote (foldl put v t) (s @ t)"
proof (induction t arbitrary: v s)
  case (Cons c t)
  then have "wrote (put v c) (s @ [c])" by (simp add: wrote_put)
  from Cons.IH [OF this] show ?case by simp
qed simp

lemma puts_text: "wrote v [] \<Longrightarrow> nonul t \<Longrightarrow> text_of (close (foldl put v t)) = cut t"
  using wrote_puts [of v "[]" t] close_text by simp

end

text \<open>The checked pointer: what has been put so far, for a buffer of \<open>n\<close> bytes.\<close>

definition vwrote :: "nat \<Rightarrow> vstr \<Rightarrow> string \<Rightarrow> bool" where
  "vwrote n v s \<longleftrightarrow> vok v \<and> length (vmem v) = n \<and> vpos v = int (min n (length s))
     \<and> take (min (n - 1) (length s)) (vmem v) = take (n - 1) s"

lemma vwrote_new: "0 < n \<Longrightarrow> vwrote n (new_vstr n) []"
  by (simp add: vwrote_def new_vstr_def vok_def vsize_def)

lemma vwrote_put:
  assumes "vwrote n v s"
  shows "vwrote n (setVStrPtrInc v c) (s @ [c])"
proof (cases "length s < n")
  case True
  have r: "rangeOK v 0" and p: "vpos v = int (length s)" and m: "length (vmem v) = n"
    using True assms by (auto simp: vwrote_def rangeOK_def UTail_def vsize_def vok_def)
  have st: "vmem (setVStrPtrInc v c) = (vmem v)[length s := c]"
    using r p m True by (simp add: setVStrPtrInc_def vstore_def vsize_def)
  have pos: "vpos (setVStrPtrInc v c) = int (length s) + 1"
    using r p by (simp add: setVStrPtrInc_def)
  have "take (min (n - 1) (Suc (length s))) ((vmem v)[length s := c]) = take (n - 1) (s @ [c])"
  proof (cases "length s < n - 1")
    case True
    then have "take (length s) (vmem v) = s" using assms by (simp add: vwrote_def)
    then show ?thesis using True m by (simp add: take_Suc_conv_app_nth)
  next
    case False
    with \<open>length s < n\<close> have eq: "length s = n - 1" by simp
    then show ?thesis using assms by (simp add: vwrote_def)
  qed
  then show ?thesis using assms True st pos m vok_setVStrPtrInc [of v c]
    by (simp add: vwrote_def)
next
  case False
  have r: "\<not> rangeOK v 0" and o: "outofrange v 0" and m: "length (vmem v) = n" and z: "0 < n"
    using False assms by (auto simp: vwrote_def rangeOK_def outofrange_def UTail_def vsize_def vok_def)
  have st: "setVStrPtrInc v c = vstore v (UTail v) NUL"
    using r o z m by (simp add: setVStrPtrInc_def XsetVStrEnd_def vsize_def)
  have "vmem (setVStrPtrInc v c) = (vmem v)[n - 1 := NUL]"
    using z m by (simp add: st vstore_def vsize_def UTail_def nat_diff_distrib')
  then show ?thesis using assms False st vok_setVStrPtrInc [of v c]
    by (auto simp: vwrote_def)
qed

lemma vwrote_end:
  assumes "vwrote n v s" and "nonul s"
  shows "cstr (vmem (setVStrEnd v 0)) = take (n - 1) s"
proof (cases "length s < n")
  case True
  have r: "rangeOK v 0" and p: "vpos v = int (length s)" and m: "length (vmem v) = n"
    using True assms by (auto simp: vwrote_def rangeOK_def UTail_def vsize_def vok_def)
  have st: "vmem (setVStrEnd v 0) = (vmem v)[length s := NUL]"
    using r p m True by (simp add: setVStrEnd_def vstore_def vsize_def)
  have "take (length s) (vmem v) = s"
    using True assms by (auto simp: vwrote_def min_def split: if_splits)
  then have "vmem (setVStrEnd v 0) = s @ NUL # drop (Suc (length s)) (vmem v)"
    using True m by (simp add: st upd_conv_take_nth_drop)
  then show ?thesis using assms(2) True by simp
next
  case False
  have r: "\<not> rangeOK v 0" and o: "outofrange v 0" and m: "length (vmem v) = n" and z: "0 < n"
    using False assms by (auto simp: vwrote_def rangeOK_def outofrange_def UTail_def vsize_def vok_def)
  have st: "vmem (setVStrEnd v 0) = (vmem v)[n - 1 := NUL]"
    using r o z m by (simp add: setVStrEnd_def XsetVStrEnd_def vsize_def vstore_def UTail_def nat_diff_distrib')
  have "take (n - 1) (vmem v) = take (n - 1) s"
    using False assms by (simp add: vwrote_def min_def split: if_splits)
  then have "vmem (setVStrEnd v 0) = take (n - 1) s @ [NUL]"
    using z m by (simp add: st upd_conv_take_nth_drop)
  then show ?thesis using assms(2) by (simp add: nonul_take)
qed

interpretation vsink: char_sink setVStrPtrInc "\<lambda>v. setVStrEnd v 0" "\<lambda>v. cstr (vmem v)"
  "take (n - 1)" "vwrote n" for n
  by unfold_locales (simp_all add: vwrote_put vwrote_end)

text \<open>A stdio stream keeps every character.\<close>

definition putc :: "string \<Rightarrow> char \<Rightarrow> string" where
  "putc out ch = out @ [ch]"

interpretation fsink: char_sink putc "\<lambda>f. f" "\<lambda>f. f" "\<lambda>f. f" "(=)"
  by unfold_locales (simp_all add: putc_def)

text \<open>Emitting a list of characters, and what the buffer and the pointer are afterwards.\<close>

definition vputs :: "vstr \<Rightarrow> string \<Rightarrow> vstr" where
  "vputs v s = foldl setVStrPtrInc v s"

lemma vputs_text: "vwrote n v [] \<Longrightarrow> nonul s \<Longrightarrow> cstr (vmem (setVStrEnd (vputs v s) 0)) = take (n - 1) s"
  unfolding vputs_def by (rule vsink.puts_text)

lemma vputs_pos: "vwrote n v [] \<Longrightarrow> vpos (vputs v s) = int (min n (length s))"
  using vsink.wrote_puts [of n v "[]" s] by (simp add: vputs_def vwrote_def)

lemma vputs_ok: "vwrote n v [] \<Longrightarrow> vok (vputs v s)"
  using vsink.wrote_puts [of n v "[]" s] by (simp add: vputs_def vwrote_def)

subsection \<open>Guarantees for the callers\<close>

text \<open>
  C6: whatever sequence of buffer operations a caller runs on a fresh buffer, with indexes and
  lengths that are not negative and whatever moves of the pointer in between, no byte outside
  of the buffer is ever written. (A negative index is not checked for, see below.)
\<close>

theorem buffer_ops_stay_inside:
  "0 < n \<Longrightarrow> list_all vop_nonneg ops \<Longrightarrow> \<not> vbad (foldl vexec (new_vstr n) ops)"
  using vok_foldl_vexec [of "new_vstr n" ops] by (simp add: vok_def vsize_def new_vstr_def)

theorem buffer_ops_stay_inside_witness:
  "\<not> vbad (foldl vexec (new_vstr 4)
     [Strcpy ''overflow'', Move 9, PutElem 2 CHR ''x'', Move 2, Memmove ''abcdef'' 6, PutEnd 1])"
  by (rule buffer_ops_stay_inside) simp_all

text \<open>
  \<open>Xstrcpy\<close> at a pointer inside its object leaves there the longest prefix of the source
  that fits with its terminator, and changes nothing in front of the pointer.
\<close>

theorem Xstrcpy_truncates:
  assumes "\<not> outofrange v 0" and "nonul s"
  shows "cstr (drop (nat (vpos v)) (vmem (Xstrcpy v s))) = take (nat (UTail v - vpos v)) s
    \<and> take (nat (vpos v)) (vmem (Xstrcpy v s)) = take (nat (vpos v)) (vmem v)"
  using Xstrcpy_text [OF assms] Xstrcpy_frame [OF assms(1)] by simp

theorem Xstrcpy_truncates_witness:
  "cstr (drop 3 (vmem (Xstrcpy ((new_vstr 8)\<lparr>vpos := 3\<rparr>) ''abcdefgh''))) = ''abcd''
    \<and> take 3 (vmem (Xstrcpy ((new_vstr 8)\<lparr>vpos := 3\<rparr>) ''abcdefgh'')) = [NUL, NUL, NUL]"
  using Xstrcpy_truncates [of "(new_vstr 8)\<lparr>vpos := 3\<rparr>" "''abcdefgh''"]
  by (simp add: outofrange_def UTail_def vsize_def new_vstr_def numeral_eq_Suc)

text \<open>
  Characters emitted one by one through a checked pointer and closed give the text cut to
  one less than the size of the buffer; the pointer counts at most that size.
\<close>

theorem vputs_closed_text:
  assumes "0 < n" and "nonul s"
  shows "cstr (vmem (setVStrEnd (vputs (new_vstr n) s) 0)) = take (n - 1) s
    \<and> vpos (vputs (new_vstr n) s) = int (min n (length s)) \<and> \<not> vbad (vputs (new_vstr n) s)"
  using vputs_text [OF vwrote_new [OF assms(1)] assms(2)] vputs_pos [OF vwrote_new [OF assms(1)]]
    vputs_ok [OF vwrote_new [OF assms(1)]] by (simp add: vok_def)

theorem vputs_closed_text_witness:
  "cstr (vmem (setVStrEnd (vputs (new_vstr 4) ''overflow'') 0)) = ''ove''
    \<and> vpos (vputs (new_vstr 4) ''overflow'') = 4 \<and> \<not> vbad (vputs (new_vstr 4) ''overflow'')"
  using vputs_closed_text [of 4 "''overflow''"] by simp

text \<open>
  \<open>XsetVStrEnd\<close> checks an index against the end of the object only: at the start of an
  object a negative index puts the terminator in front of it.
\<close>

theorem XsetVStrEnd_negative_index:
  "0 < n \<Longrightarrow> i < 0 \<Longrightarrow> vbad (fst (XsetVStrEnd (new_vstr n) i))"
  by (auto simp: XsetVStrEnd_def outofrange_def UTail_def vsize_def new_vstr_def vstore_def)

theorem XsetVStrEnd_negative_index_witness: "vbad (fst (XsetVStrEnd (new_vstr 16) (- 1)))"
  by (rule XsetVStrEnd_negative_index) simp_all

end
