(* ===== verification/StrLib.thy ===== *)
theory StrLib
  imports VStr
begin

section \<open>StrLib: the string routines of \<open>rary/String.cpp\<close>\<close>

text \<open>
  Classification and conversion of numbers, case folding, the glob matcher that host and
  user patterns use, head and tail comparisons, the word and line scanners, and the
  vectors of strings. A pointer into a string is the suffix it points to, \<open>None\<close> the null
  pointer. Scanners that fill a buffer do so on a checked buffer of theory \<open>VStr\<close>.
\<close>

subsection \<open>Numbers\<close>

definition isdigits :: "string \<Rightarrow> bool" where
  "isdigits s = (if s = [] then False else list_all isdigit s)"

definition isdigit2 :: "string \<Rightarrow> bool" where
  "isdigit2 s \<longleftrightarrow> isdigit (chr_at s 0) \<and> isdigit (chr_at s 1)"

definition Isnumber :: "string \<Rightarrow> string option" where
  "Isnumber s =
     (let s' = (if (hd0 s = CHR ''-'' \<or> hd0 s = CHR ''+'') \<and> isdigit (chr_at s 1)
                then tl s else s)
      in if isdigit (hd0 s') then Some (dropWhile isdigit s') else None)"

text \<open>
  \<^verbatim>\<open>std::from_chars\<close> on \<open>[bp,dp)\<close> and \<^verbatim>\<open>__builtin_mul_overflow\<close> on 64-bit values.
\<close>

definition in_i64 :: "int \<Rightarrow> bool" where
  "in_i64 v \<longleftrightarrow> - (2 ^ 63) \<le> v \<and> v < 2 ^ 63"

definition lim64 :: "bool \<Rightarrow> int" where
  "lim64 neg = (if neg then - (2 ^ 63) else 2 ^ 63 - 1)"

definition kmx_unit :: "char \<Rightarrow> int" where
  "kmx_unit c = (if c = CHR ''k'' \<or> c = CHR ''K'' then 1024
                 else if c = CHR ''m'' \<or> c = CHR ''M'' then 1024 * 1024
                 else if c = CHR ''g'' \<or> c = CHR ''G'' then 1024 * 1024 * 1024 else 1)"

definition kmxatoi :: "string \<Rightarrow> int" where
  "kmxatoi ai =
     (let neg = (hd0 ai = CHR ''-'')
      in case Isnumber ai of
           None \<Rightarrow> 0
         | Some dp \<Rightarrow>
             (let bp = (if hd0 ai = CHR ''+'' then tl ai else ai);
                  ds = takeWhile isdigit (if neg then tl bp else bp);
                  v = (if neg then - dec_val ds 0 else dec_val ds 0);
                  n = (if in_i64 v then v else lim64 neg);
                  m = n * kmx_unit (hd0 dp)
              in if in_i64 m then m else lim64 neg))"

text \<open>\<open>scanint\<close>: the rest of the string and the value, kept at \<^verbatim>\<open>INT_MAX\<close> once it overflows.\<close>

fun scanint_loop :: "string \<Rightarrow> int \<Rightarrow> string \<times> int" where
  "scanint_loop [] val = ([], val)"
| "scanint_loop (ch # sp) val =
     (if \<not> isdigit ch then (ch # sp, val)
      else let m = val * 10; d = int (uc ch) - 48
           in if 2 ^ 31 \<le> m \<or> m < - (2 ^ 31) \<or> 2 ^ 31 \<le> m + d
              then scanint_loop sp (2 ^ 31 - 1) else scanint_loop sp (m + d))"

definition scanint :: "string \<Rightarrow> string \<times> int" where
  "scanint s = scanint_loop s 0"

subsection \<open>Comparisons without regard to case\<close>

definition strcaseeq :: "string \<Rightarrow> string \<Rightarrow> bool" where
  "strcaseeq a b = (if toupper (hd0 a) \<noteq> toupper (hd0 b) then False else strcasecmp a b = 0)"

definition chrcaseeq :: "char \<Rightarrow> char \<Rightarrow> bool" where
  "chrcaseeq a b \<longleftrightarrow>
     (if isupper a then tolower a else a) = (if isupper b then tolower b else b)"

text \<open>\<^verbatim>\<open>strtolowerX\<close> into a buffer of \<open>siz\<close> bytes; \<open>k\<close> counts \<^verbatim>\<open>xp - s2\<close>.\<close>

fun strcase_loop :: "(char \<Rightarrow> char) \<Rightarrow> nat \<Rightarrow> string \<Rightarrow> vstr \<Rightarrow> vstr" where
  "strcase_loop f 0 s v = v"
| "strcase_loop f (Suc k) [] v = v"
| "strcase_loop f (Suc k) (c # s) v = strcase_loop f k s (setVStrPtrInc v (f c))"

definition strtolowerX :: "string \<Rightarrow> vstr \<Rightarrow> nat \<Rightarrow> vstr" where
  "strtolowerX s v siz =
     setVStrPtrInc (strcase_loop (\<lambda>ch. if isupper ch then tolower ch else ch) (siz - 1) s v) NUL"

definition strtoupperX :: "string \<Rightarrow> vstr \<Rightarrow> nat \<Rightarrow> vstr" where
  "strtoupperX s v siz =
     setVStrPtrInc (strcase_loop (\<lambda>ch. if islower ch then toupper ch else ch) (siz - 1) s v) NUL"

definition skipspaces :: "string \<Rightarrow> string" where
  "skipspaces s = dropWhile isspace s"

definition nextword :: "string \<Rightarrow> string" where
  "nextword s = skipspaces (dropWhile (\<lambda>c. \<not> isspace c) s)"

subsection \<open>The glob matcher \<open>rexpmatchX\<close>\<close>

text \<open>
  The state of the loop: the pattern and subject pointers \<^verbatim>\<open>rp\<close> and \<^verbatim>\<open>sp\<close>, and, once a
  star has been passed, the pattern after the last star (\<^verbatim>\<open>star + 1\<close>) and \<^verbatim>\<open>mark\<close>.
\<close>

definition rx_chareq :: "bool \<Rightarrow> char \<Rightarrow> char \<Rightarrow> bool" where
  "rx_chareq ign r s \<longleftrightarrow> r = s \<or> ign \<and> r \<noteq> NUL \<and> chrcaseeq s r"

function rexp_loop :: "bool \<Rightarrow> string \<Rightarrow> string \<Rightarrow> (string \<times> string) option \<Rightarrow> bool" where
  "rexp_loop ign rp [] star = (dropWhile (\<lambda>c. c = CHR ''*'') rp = [])"
| "rexp_loop ign rp (s # sp) star =
     (if hd0 rp = CHR ''*'' then rexp_loop ign (tl rp) (s # sp) (Some (tl rp, s # sp))
      else if rp \<noteq> [] \<and> rx_chareq ign (hd0 rp) s then rexp_loop ign (tl rp) sp star
      else case star of
             Some (r, mark) \<Rightarrow> rexp_loop ign r (tl mark) (Some (r, tl mark))
           | None \<Rightarrow> False)"
  by pat_completeness auto
termination
  by (relation "measures
      [\<lambda>(ign, rp, sp, star). max (length rp) (case star of None \<Rightarrow> 0 | Some (r, m) \<Rightarrow> length r),
       \<lambda>(ign, rp, sp, star). max (length sp) (case star of None \<Rightarrow> 0 | Some (r, m) \<Rightarrow> length m),
       \<lambda>(ign, rp, sp, star). length sp]")
    (auto split: option.splits simp: hd0_def max_def split: list.splits)

text \<open>The options string: a \<^verbatim>\<open>c\<close> in it ignores case.\<close>

definition rexpmatchX :: "string \<Rightarrow> string \<Rightarrow> string \<Rightarrow> bool" where
  "rexpmatchX rexp str ropts = rexp_loop (CHR ''c'' \<in> set ropts) rexp str None"

definition rexpmatch :: "string \<Rightarrow> string \<Rightarrow> bool" where
  "rexpmatch rexp str = rexpmatchX rexp str []"


subsection \<open>The glob matcher decides the glob relation\<close>

text \<open>
  What a pattern means: a star stands for any string, every other character for itself
  (or, when case is ignored, for both of its cases).
\<close>

inductive glob :: "bool \<Rightarrow> string \<Rightarrow> string \<Rightarrow> bool" for ign where
  glob_Nil: "glob ign [] []"
| glob_star: "glob ign p t \<Longrightarrow> glob ign (CHR ''*'' # p) (s @ t)"
| glob_chr: "r \<noteq> CHR ''*'' \<Longrightarrow> rx_chareq ign r c \<Longrightarrow> glob ign p t \<Longrightarrow> glob ign (r # p) (c # t)"

inductive_simps glob_empty_pat: "glob ign [] s"
inductive_simps glob_Cons_pat: "glob ign (r # p) s"

lemma glob_star_iff:
  "glob ign (CHR ''*'' # p) s \<longleftrightarrow> (\<exists>k \<le> length s. glob ign p (drop k s))"
proof
  assume "glob ign (CHR ''*'' # p) s"
  then obtain u t where "s = u @ t" "glob ign p t" by (auto simp: glob_Cons_pat)
  then show "\<exists>k \<le> length s. glob ign p (drop k s)" by (intro exI [of _ "length u"]) auto
next
  assume "\<exists>k \<le> length s. glob ign p (drop k s)"
  then obtain k where "glob ign p (drop k s)" by blast
  from glob_star [OF this, of "take k s"] show "glob ign (CHR ''*'' # p) s" by simp
qed

lemma glob_chr_iff:
  "r \<noteq> CHR ''*'' \<Longrightarrow>
   glob ign (r # p) s \<longleftrightarrow> (\<exists>c t. s = c # t \<and> rx_chareq ign r c \<and> glob ign p t)"
  by (auto simp: glob_Cons_pat)

lemma glob_empty_subject: "glob ign p [] \<longleftrightarrow> dropWhile (\<lambda>c. c = CHR ''*'') p = []"
proof (induction p)
  case Nil
  show ?case by (simp add: glob_empty_pat)
next
  case (Cons r p)
  then show ?case
    by (cases "r = CHR ''*''") (simp_all add: glob_star_iff glob_chr_iff)
qed

text \<open>A literal piece of a pattern consumes as many characters as it has.\<close>

lemma glob_literal_prefix:
  "CHR ''*'' \<notin> set q \<Longrightarrow> glob ign (q @ p) y \<Longrightarrow>
   \<exists>x z. y = x @ z \<and> length x = length q \<and> glob ign p z"
proof (induction q arbitrary: y)
  case (Cons r q)
  then obtain c t where y: "y = c # t" and "glob ign (q @ p) t"
    by (auto simp: glob_chr_iff)
  with Cons.IH [of t] Cons.prems(1) obtain x z where "t = x @ z" "length x = length q" "glob ign p z"
    by (metis list.set_intros(2))
  with y show ?case by (intro exI [of _ "c # x"] exI [of _ z]) auto
qed simp

lemma glob_star_prepend: "glob ign (CHR ''*'' # p) t \<Longrightarrow> glob ign (CHR ''*'' # p) (s @ t)"
proof -
  assume "glob ign (CHR ''*'' # p) t"
  then obtain k where "k \<le> length t" "glob ign p (drop k t)" by (auto simp: glob_star_iff)
  then show ?thesis by (auto simp: glob_star_iff intro!: exI [of _ "length s + k"])
qed

text \<open>
  Backtracking to the last star only is enough: between the last star and \<^verbatim>\<open>rp\<close> the
  pattern is literal and has matched the subject from \<^verbatim>\<open>mark\<close> to \<^verbatim>\<open>sp\<close>.
\<close>

definition rexp_inv :: "bool \<Rightarrow> string \<Rightarrow> string \<Rightarrow> (string \<times> string) option \<Rightarrow> bool" where
  "rexp_inv ign rp sp star = (case star of None \<Rightarrow> True
     | Some (r, m) \<Rightarrow> \<exists>q x. r = q @ rp \<and> m = x @ sp \<and> CHR ''*'' \<notin> set q \<and> length q = length x)"

definition rexp_alt :: "bool \<Rightarrow> (string \<times> string) option \<Rightarrow> bool" where
  "rexp_alt ign star = (case star of None \<Rightarrow> False
     | Some (r, m) \<Rightarrow> \<exists>k. 1 \<le> k \<and> k \<le> length m \<and> glob ign r (drop k m))"

lemma rexp_alt_consumes:
  assumes "rexp_inv ign rp sp star" and "rexp_alt ign star"
  shows "\<exists>j. 1 \<le> j \<and> j \<le> length sp \<and> glob ign rp (drop j sp)"
proof -
  obtain r m q x k where star: "star = Some (r, m)" and r: "r = q @ rp" and m: "m = x @ sp"
    and q: "CHR ''*'' \<notin> set q" "length q = length x"
    and k: "1 \<le> k" "k \<le> length m" "glob ign r (drop k m)"
    using assms by (auto simp: rexp_inv_def rexp_alt_def split: option.splits)
  obtain u z where uz: "drop k m = u @ z" "length u = length q" "glob ign rp z"
    using glob_literal_prefix [OF q(1)] k(3) r by blast
  have "z = drop (k + length x) m" using uz q(2) by (metis add.commute append_eq_conv_conj drop_drop)
  then have z: "z = drop k sp" by (simp add: m)
  have "length (drop k m) \<ge> length x" using uz q(2) by simp
  then have "k \<le> length sp" using m k by simp
  with z uz k show ?thesis by auto
qed

lemma rexp_alt_glob_star:
  assumes "rexp_inv ign (CHR ''*'' # p) sp star" and "rexp_alt ign star"
  shows "glob ign (CHR ''*'' # p) sp"
proof -
  obtain j where "glob ign (CHR ''*'' # p) (drop j sp)"
    using rexp_alt_consumes [OF assms] by blast
  from glob_star_prepend [OF this, of "take j sp"] show ?thesis by simp
qed

lemma glob_star_step:
  "glob ign (CHR ''*'' # p) s \<longleftrightarrow> glob ign p s \<or> rexp_alt ign (Some (p, s))"
proof -
  have "(\<exists>k\<le>length s. P k) \<longleftrightarrow> P 0 \<or> (\<exists>k. 1 \<le> k \<and> k \<le> length s \<and> P k)" for P
    by (metis One_nat_def Suc_leI gr0I zero_le)
  then show ?thesis by (simp add: glob_star_iff rexp_alt_def)
qed

lemma rexp_alt_step:
  assumes "m \<noteq> []"
  shows "rexp_alt ign (Some (r, m)) \<longleftrightarrow> glob ign r (tl m) \<or> rexp_alt ign (Some (r, tl m))"
proof -
  have "rexp_alt ign (Some (r, m)) \<longleftrightarrow> glob ign (CHR ''*'' # r) (tl m)"
  proof -
    have "(\<exists>k. 1 \<le> k \<and> k \<le> length m \<and> glob ign r (drop k m)) \<longleftrightarrow>
          (\<exists>j. j \<le> length (tl m) \<and> glob ign r (drop j (tl m)))"
      using assms
      by (metis One_nat_def Suc_le_mono add.commute drop_Suc length_Cons list.collapse nat_le_iff_add
          not0_implies_Suc not_one_le_zero plus_1_eq_Suc le_add1)
    then show ?thesis by (auto simp: rexp_alt_def glob_star_iff)
  qed
  then show ?thesis by (simp add: glob_star_step)
qed

lemma rexp_loop_glob:
  "rexp_inv ign rp sp star \<Longrightarrow>
   rexp_loop ign rp sp star \<longleftrightarrow> glob ign rp sp \<or> rexp_alt ign star"
proof (induction ign rp sp star rule: rexp_loop.induct)
  case (1 ign rp star)
  have "\<not> rexp_alt ign star" using rexp_alt_consumes [OF 1] by auto
  then show ?case by (simp add: glob_empty_subject)
next
  case (2 ign rp s sp star)
  consider (star) p where "rp = CHR ''*'' # p"
    | (lit) "hd0 rp \<noteq> CHR ''*''" "rp \<noteq> []" "rx_chareq ign (hd0 rp) s"
    | (fail) "hd0 rp \<noteq> CHR ''*''" "\<not> (rp \<noteq> [] \<and> rx_chareq ign (hd0 rp) s)"
    by (cases rp) auto
  then show ?case
  proof cases
    case star
    have "rexp_loop ign p (s # sp) (Some (p, s # sp)) \<longleftrightarrow> glob ign rp (s # sp)"
      using 2(1) star by (simp add: rexp_inv_def glob_star_step)
    moreover have "rexp_alt ign star \<Longrightarrow> glob ign rp (s # sp)"
      using rexp_alt_glob_star 2(4) star by simp
    ultimately show ?thesis using star by auto
  next
    case lit
    then obtain r p where rp: "rp = r # p" by (cases rp) auto
    have "rexp_inv ign p sp star"
    proof (cases star)
      case (Some a)
      with 2(4) obtain q x where "a = ((q @ [r]) @ p, (x @ [s]) @ sp)" "CHR ''*'' \<notin> set (q @ [r])"
        "length (q @ [r]) = length (x @ [s])"
        using lit rp by (auto simp: rexp_inv_def split: prod.splits)
      then show ?thesis unfolding Some rexp_inv_def option.case prod.case by blast
    qed (simp add: rexp_inv_def)
    with 2(2) lit rp have "rexp_loop ign p sp star \<longleftrightarrow> glob ign p sp \<or> rexp_alt ign star" by simp
    with lit rp show ?thesis by (simp add: glob_chr_iff)
  next
    case fail
    have ng: "\<not> glob ign rp (s # sp)"
      using fail by (cases rp) (auto simp: glob_empty_pat glob_chr_iff)
    show ?thesis
    proof (cases star)
      case None
      with fail ng show ?thesis by (auto simp: rexp_alt_def)
    next
      case (Some a)
      obtain r m where a: "a = (r, m)" by (cases a)
      with Some 2(4) have "m \<noteq> []" by (auto simp: rexp_inv_def)
      have inv: "rexp_inv ign r (tl m) (Some (r, tl m))" by (simp add: rexp_inv_def)
      have "rexp_loop ign r (tl m) (Some (r, tl m)) \<longleftrightarrow>
            glob ign r (tl m) \<or> rexp_alt ign (Some (r, tl m))"
        by (rule 2(3) [OF _ _ Some a [symmetric, THEN trans, OF refl] inv, simplified])
          (use fail in auto)
      then show ?thesis using fail ng Some a \<open>m \<noteq> []\<close> rexp_alt_step [of m ign r] by auto
    qed
  qed
qed


text \<open>C9: the glob matcher with its single backtracking point decides exactly the glob
  relation: it accepts a subject if and only if the pattern, with each star standing for
  any string, matches it, for both settings of case and for every pattern and subject.\<close>

theorem rexpmatchX_glob:
  "rexpmatchX rexp str ropts \<longleftrightarrow> glob (CHR ''c'' \<in> set ropts) rexp str"
  by (simp add: rexpmatchX_def rexp_loop_glob rexp_inv_def rexp_alt_def)

lemma rexpmatch_star: "rexpmatch ''*'' s"
  using glob_star [OF glob_Nil, of False s]
  by (simp add: rexpmatch_def rexpmatchX_def rexp_loop_glob rexp_inv_def rexp_alt_def)

subsection \<open>Numbers saturate\<close>

lemma dec_val_nonneg: "list_all isdigit ds \<Longrightarrow> 0 \<le> acc \<Longrightarrow> acc \<le> dec_val ds acc"
proof (induction ds arbitrary: acc)
  case (Cons c ds)
  then have c: "0 \<le> int (uc c) - 48" by (simp add: isdigit_def)
  then have "acc * 10 + (int (uc c) - 48) \<le> dec_val ds (acc * 10 + (int (uc c) - 48))"
    using Cons by simp
  moreover have "acc \<le> acc * 10 + (int (uc c) - 48)" using c Cons.prems by linarith
  ultimately show ?case by simp
qed simp

lemma scanint_loop_sat:
  "list_all isdigit ds \<Longrightarrow> \<not> isdigit (hd0 t) \<Longrightarrow> 0 \<le> acc \<Longrightarrow>
   scanint_loop (ds @ t) (min acc (2 ^ 31 - 1)) = (t, min (dec_val ds acc) (2 ^ 31 - 1))"
proof (induction ds arbitrary: acc)
  case Nil
  then show ?case by (cases t) auto
next
  case (Cons c ds)
  define d where "d = int (uc c) - 48"
  have d: "0 \<le> d" "d \<le> 9" using Cons.prems by (auto simp: d_def isdigit_def)
  have step: "scanint_loop (c # ds @ t) (min acc (2 ^ 31 - 1)) =
      scanint_loop (ds @ t) (min (acc * 10 + d) (2 ^ 31 - 1))"
    using Cons.prems d by (auto simp: Let_def min_def simp flip: d_def)
  have "0 \<le> acc * 10 + d" using Cons.prems d by simp
  from Cons.IH [OF _ _ this] Cons.prems
  have "scanint_loop (ds @ t) (min (acc * 10 + d) (2 ^ 31 - 1)) =
      (t, min (dec_val ds (acc * 10 + d)) (2 ^ 31 - 1))"
    by simp
  then show ?case unfolding append_Cons step dec_val.simps d_def [symmetric] .
qed

text \<open>\<open>scanint\<close> reads the longest run of digits at the head of a string and returns its
  decimal value, saturated at \<open>INT_MAX\<close> for every longer number, together with the rest.\<close>

theorem scanint_saturates:
  assumes "list_all isdigit ds" and "\<not> isdigit (hd0 t)"
  shows "scanint (ds @ t) = (t, min (dec_val ds 0) (2 ^ 31 - 1))"
  using scanint_loop_sat [OF assms, of 0] by (simp add: scanint_def)

theorem scanint_saturates_witness:
  "scanint ''99999999999 k'' = ('' k'', 2147483647)"
  using scanint_saturates [of "''99999999999''" "'' k''"] by (simp add: isdigit_def uc_def)

lemma Isnumber_digits:
  assumes "ds \<noteq> []" and "list_all isdigit ds" and "\<not> isdigit (hd0 t)"
    and "sg \<in> {[], ''+'', ''-''}"
  shows "Isnumber (sg @ ds @ t) = Some t"
proof -
  obtain d ds' where ds: "ds = d # ds'" using assms(1) by (cases ds) auto
  have nd: "\<not> isdigit CHR ''-''" "\<not> isdigit CHR ''+''" by (auto simp: isdigit_def uc_def)
  have "d \<noteq> CHR ''-''" "d \<noteq> CHR ''+''" using assms(2) ds nd by auto
  then show ?thesis
    using assms ds takeWhile_digits [OF assms(2,3)] by (auto simp: Isnumber_def)
qed

lemma kmx_unit_pos: "1 \<le> kmx_unit c"
  by (simp add: kmx_unit_def)

lemma in_i64_sat: "sat64 v = (if in_i64 v then v else lim64 (v < 0))"
  by (auto simp: sat64_def in_i64_def lim64_def max_def min_def)

text \<open>Saturating before and after the multiplication by the unit is saturating once.\<close>

lemma saturate_scaled:
  assumes "1 \<le> u" and "0 \<le> w"
  defines "sg neg x \<equiv> (if neg then - x else (x :: int))"
  shows "(let n = (if in_i64 (sg neg w) then sg neg w else lim64 neg); m = n * u
          in if in_i64 m then m else lim64 neg) = sat64 (sg neg w * u)"
proof (cases "in_i64 (sg neg w)")
  case True
  have "0 \<le> w * u" using assms by simp
  then have "\<not> in_i64 (sg neg w * u) \<Longrightarrow> (sg neg w * u < 0) = neg"
    by (auto simp: sg_def in_i64_def)
  with True show ?thesis by (auto simp: in_i64_sat Let_def)
next
  case False
  have wu: "w \<le> w * u" using assms by (simp add: mult_le_cancel_left1)
  have big: "2 ^ 63 - 1 < w" using False assms(2) by (auto simp: sg_def in_i64_def split: if_splits)
  have 1: "\<not> in_i64 (lim64 neg * u) \<or> lim64 neg * u = lim64 neg"
  proof (cases "u = 1")
    case False
    then have "2 \<le> u" using assms(1) by simp
    then have "(2 ^ 63 - 1) * 2 \<le> (2 ^ 63 - 1) * u" by (intro mult_left_mono) auto
    then show ?thesis by (auto simp: lim64_def in_i64_def algebra_simps)
  qed simp
  define x where "x = w * u"
  have x: "sg neg w * u = sg neg x" "w \<le> x" using wu by (auto simp: x_def sg_def)
  have 2: "sat64 (sg neg w * u) = lim64 neg"
    unfolding x(1) using x(2) big False
    by (auto simp: sat64_def lim64_def sg_def max_def min_def in_i64_def)
  show ?thesis using False 1 2 by (auto simp: Let_def)
qed

text \<open>\<open>kmxatoi\<close> on an optionally signed number with a unit letter returns the number
  times the unit (1024, 1024 squared or cubed), saturated at the limits of the 64-bit
  file size type; no multiplication wraps around.\<close>

theorem kmxatoi_saturates:
  assumes "ds \<noteq> []" and "list_all isdigit ds" and "\<not> isdigit (hd0 t)"
    and "sg \<in> {[], ''+'', ''-''}"
  shows "kmxatoi (sg @ ds @ t) =
           sat64 ((if sg = ''-'' then - dec_val ds 0 else dec_val ds 0) * kmx_unit (hd0 t))"
proof -
  obtain d ds' where ds: "ds = d # ds'" using assms(1) by (cases ds) auto
  have nd: "\<not> isdigit CHR ''-''" "\<not> isdigit CHR ''+''" by (auto simp: isdigit_def uc_def)
  then have d: "d \<noteq> CHR ''-''" "d \<noteq> CHR ''+''" using assms(2) ds by auto
  have num: "Isnumber (sg @ ds @ t) = Some t" by (rule Isnumber_digits [OF assms])
  have tw: "takeWhile isdigit (ds @ t) = ds" using takeWhile_digits [OF assms(2,3)] by simp
  have w: "0 \<le> dec_val ds 0" using dec_val_nonneg [OF assms(2), of 0] by simp
  let ?v = "if sg = ''-'' then - dec_val ds 0 else dec_val ds 0"
  have "kmxatoi (sg @ ds @ t) =
      (let n = (if in_i64 ?v then ?v else lim64 (sg = ''-'')); m = n * kmx_unit (hd0 t)
       in if in_i64 m then m else lim64 (sg = ''-''))"
  proof -
    have ds': "hd0 (ds @ t) = d" by (simp add: ds)
    consider "sg = []" | "sg = ''+''" | "sg = ''-''" using assms(4) by auto
    then show ?thesis
      using num d tw by cases (simp_all add: kmxatoi_def ds' Let_def del: takeWhile_append)
  qed
  then show ?thesis using saturate_scaled [OF kmx_unit_pos w, of "sg = ''-''" "hd0 t"] by simp
qed

theorem kmxatoi_saturates_witness: "kmxatoi ''-16kB'' = - 16384"
  using kmxatoi_saturates [of "''16''" "''kB''" "''-''"]
  by (simp add: isdigit_def uc_def kmx_unit_def)

subsection \<open>Case folding\<close>

lemma strcaseeq_iff:
  assumes "nonul a" and "nonul b"
  shows "strcaseeq a b \<longleftrightarrow> map tolower a = map tolower b"
proof -
  have "map tolower a = map tolower b \<Longrightarrow> toupper (hd0 a) = toupper (hd0 b)"
    by (cases a; cases b) (auto simp: toupper_tolower_eq)
  then show ?thesis using assms by (auto simp: strcaseeq_def strcasecmp_0_iff)
qed

lemma chrcaseeq_iff: "chrcaseeq a b \<longleftrightarrow> tolower a = tolower b"
  by (auto simp: chrcaseeq_def tolower_def)

lemma strcase_loop_vputs: "strcase_loop f k s v = vputs v (map f (take k s))"
  by (induction f k s v rule: strcase_loop.induct) (auto simp: vputs_def)

end
