(* ===== verification/StrScan.thy ===== *)
theory StrScan
  imports StrLib
begin

section \<open>StrScan: scanners and string vectors of \<open>rary/String.cpp\<close>\<close>

text \<open>
  The routines that cut words, lines and numbers out of a string into a checked buffer,
  the bracket matcher \<open>RexpMatch\<close>, the searches that respect nesting, and the vectors of
  \<^verbatim>\<open>name=value\<close> strings the configuration is kept in. A scanner returns the pointer it
  stopped at (the rest of the string) and the buffer.
\<close>

subsection \<open>Searching with nesting\<close>

fun strchrX_loop :: "char \<Rightarrow> string \<Rightarrow> string \<Rightarrow> nat \<Rightarrow> string \<Rightarrow> string option" where
  "strchrX_loop fch inc dec lev [] = None"
| "strchrX_loop fch inc dec lev (ch # sp) =
     (if ch = chr_at inc 0 \<or> chr_at inc 1 \<noteq> NUL \<and> ch = chr_at inc 1
         \<or> chr_at inc 2 \<noteq> NUL \<and> ch = chr_at inc 2
      then strchrX_loop fch inc dec (lev + 1) sp
      else if ch = chr_at dec 0 \<or> chr_at dec 1 \<noteq> NUL \<and> ch = chr_at dec 1
         \<or> chr_at dec 2 \<noteq> NUL \<and> ch = chr_at dec 2
      then strchrX_loop fch inc dec (if 0 < lev then lev - 1 else lev) sp
      else if ch = fch \<and> lev = 0 then Some (ch # sp)
      else strchrX_loop fch inc dec lev sp)"

definition strchrX :: "string \<Rightarrow> char \<Rightarrow> string \<Rightarrow> string \<Rightarrow> string option" where
  "strchrX str fch inc dec = strchrX_loop fch inc dec 0 str"

fun xstrchr_loop :: "char \<Rightarrow> int \<Rightarrow> string \<Rightarrow> string option" where
  "xstrchr_loop del lev [] = None"
| "xstrchr_loop del lev (ch # sp) =
     (if ch = CHR ''{'' then xstrchr_loop del (lev + 1) sp
      else if ch = CHR ''}'' then xstrchr_loop del (lev - 1) sp
      else if ch = del \<and> lev \<le> 0 then Some (ch # sp)
      else xstrchr_loop del lev sp)"

definition xstrchr :: "string \<Rightarrow> char \<Rightarrow> string option" where
  "xstrchr str del = xstrchr_loop del 0 str"

subsection \<open>Splitting at a separator: \<open>stoVX\<close>\<close>

text \<open>
  \<open>k\<close> is \<^verbatim>\<open>mac - ac\<close>, the entries left in the vector, which the code requires to be
  positive at entry. The separator the search found is overwritten by NUL.
\<close>

lemma strchr_suffix: "strchr s c = Some t \<Longrightarrow> c \<noteq> NUL \<Longrightarrow> \<exists>p. s = p @ t \<and> hd0 t = c \<and> t \<noteq> [] \<and> c \<notin> set p"
proof (induction s)
  case (Cons x s)
  show ?case
  proof (cases "x = c")
    case False
    with Cons obtain p where "s = p @ t" "hd0 t = c" "t \<noteq> []" "c \<notin> set p" by auto
    with False show ?thesis by (intro exI [of _ "x # p"]) auto
  qed (use Cons in auto)
qed (auto split: if_splits)

lemma xstrchr_loop_suffix:
  "xstrchr_loop c lev s = Some t \<Longrightarrow> \<exists>p. s = p @ t \<and> hd0 t = c \<and> t \<noteq> []"
proof (induction c lev s rule: xstrchr_loop.induct)
  case (2 del lev ch sp)
  show ?case
  proof (cases "t = ch # sp")
    case True
    with "2.prems" have "ch = del"
      using "2.IH" by (auto split: if_splits dest!: arg_cong [of _ _ length])
    with True show ?thesis by (intro exI [of _ "[]"]) auto
  next
    case False
    with 2 have "\<exists>p. sp = p @ t \<and> hd0 t = del \<and> t \<noteq> []"
      by (auto split: if_splits)
    then obtain p where "sp = p @ t" "hd0 t = del" "t \<noteq> []" by auto
    then show ?thesis by (intro exI [of _ "ch # p"]) auto
  qed
qed simp

definition stoV_find :: "bool \<Rightarrow> string \<Rightarrow> char \<Rightarrow> string option" where
  "stoV_find depth s sep = (if depth then xstrchr s sep else strchr s sep)"

lemma stoV_find_suffix:
  "stoV_find depth s sep = Some t \<Longrightarrow> sep \<noteq> NUL \<Longrightarrow> \<exists>p. s = p @ sep # tl t"
  using strchr_suffix [of s sep t] xstrchr_loop_suffix [of sep 0 s t]
  by (cases t) (auto simp: stoV_find_def xstrchr_def split: if_splits)

lemma stoV_find_shorter:
  "stoV_find depth s sep = Some t \<Longrightarrow> s \<noteq> [] \<Longrightarrow> length (tl t) < length s"
proof -
  assume a: "stoV_find depth s sep = Some t" and s: "s \<noteq> []"
  have "strchr s c = Some u \<Longrightarrow> length u \<le> length s" for s c u
    by (induction s) (auto split: if_splits)
  moreover have "xstrchr_loop c l s = Some u \<Longrightarrow> length u \<le> length s" for s c l u
    using xstrchr_loop_suffix by fastforce
  ultimately have "length t \<le> length s" using a by (auto simp: stoV_find_def xstrchr_def split: if_splits)
  with s show ?thesis by (cases t) auto
qed

function stoV_loop :: "string \<Rightarrow> nat \<Rightarrow> char \<Rightarrow> bool \<Rightarrow> string list" where
  "stoV_loop ap k sep depth =
     (if ap = [] then []
      else if k \<le> 1 then [ap]
      else case stoV_find depth ap sep of
             None \<Rightarrow> [ap]
           | Some np \<Rightarrow> take (length ap - length np) ap # stoV_loop (tl np) (k - 1) sep depth)"
  by pat_completeness auto
termination
  by (relation "measure (\<lambda>(ap, k, sep, depth). length ap)") (auto dest: stoV_find_shorter)

declare stoV_loop.simps [simp del]

definition stoVX :: "string \<Rightarrow> nat \<Rightarrow> char \<Rightarrow> bool \<Rightarrow> string list" where
  "stoVX abuf mac sep depth = stoV_loop abuf mac sep depth"

definition stoV :: "string \<Rightarrow> nat \<Rightarrow> char \<Rightarrow> string list" where
  "stoV abuf mac sep = stoVX abuf mac sep False"

subsection \<open>Head and tail comparisons\<close>

definition strtailchr :: "string \<Rightarrow> char" where
  "strtailchr s = (if s = [] then NUL else last s)"

text \<open>The two strings walk backwards: the loop gets them reversed.\<close>

fun tailstr_loop :: "bool \<Rightarrow> string \<Rightarrow> string \<Rightarrow> string \<Rightarrow> string option" where
  "tailstr_loop ign [] r2 acc = None"
| "tailstr_loop ign (c # r1) [] acc = None"
| "tailstr_loop ign (c # r1) (d # r2) acc =
     (if c \<noteq> d \<and> (\<not> ign \<or> \<not> chrcaseeq c d) then None
      else if r2 = [] then Some (c # acc) else tailstr_loop ign r1 r2 (c # acc))"

definition strtailstrX :: "string \<Rightarrow> string \<Rightarrow> bool \<Rightarrow> string option" where
  "strtailstrX str1 str2 ign =
     (if str2 = [] then Some [] else tailstr_loop ign (rev str1) (rev str2) [])"

definition strtailstr :: "string \<Rightarrow> string \<Rightarrow> string option" where
  "strtailstr str1 str2 = strtailstrX str1 str2 False"

fun headstr_loop :: "bool \<Rightarrow> string \<Rightarrow> string \<Rightarrow> string option" where
  "headstr_loop ign s1 [] = Some s1"
| "headstr_loop ign [] (d # s2) = None"
| "headstr_loop ign (c # s1) (d # s2) =
     (if c = d \<or> ign \<and> chrcaseeq c d then headstr_loop ign s1 s2 else None)"

definition strheadstrX :: "string \<Rightarrow> string \<Rightarrow> bool \<Rightarrow> string option" where
  "strheadstrX str1 str2 ign = headstr_loop ign str1 str2"

subsection \<open>Bracket patterns: \<open>RexpMatch\<close>\<close>

text \<open>
  One character class, from the character after the opening bracket (and the caret) up to
  the bracket that closes it: the verdict and the pattern pointer where the loop stopped.
\<close>

function rexp_class :: "bool \<Rightarrow> bool \<Rightarrow> nat \<Rightarrow> string \<Rightarrow> bool \<times> string" where
  "rexp_class neg match sch [] = (match, [])"
| "rexp_class neg match sch (r # rs) =
     (let look = (neg \<and> match \<or> \<not> neg \<and> \<not> match);
          range = (look \<and> chr_at rs 0 = CHR ''-'' \<and> chr_at rs 1 \<noteq> NUL);
          r2 = (if range then chr_at rs 1 else r);
          rp = (if range then drop 1 rs else r # rs);
          m = (uc r \<le> sch \<and> sch \<le> uc r2);
          match' = (if look then (if neg then \<not> m else m) else match)
      in if r = CHR '']'' then (match', rp) else rexp_class neg match' sch (drop 1 rp))"
  by pat_completeness auto
termination
  by (relation "measure (\<lambda>(neg, match, sch, rp). length rp)") (auto simp: Let_def)

lemma rexp_class_shorter: "length (snd (rexp_class neg match sch rp)) \<le> length rp"
proof (induction neg match sch rp rule: rexp_class.induct)
  case (2 neg match sch r rs)
  show ?case
    by (subst rexp_class.simps, unfold Let_def, rule if_split [THEN iffD2], safe)
      (use 2 [OF refl refl refl refl refl refl] in \<open>auto simp: Let_def intro: le_trans split: if_splits\<close>)
qed simp

text \<open>
  \<open>sp\<close> is the subject with its terminator; reading the subject or the pattern past the
  terminator is \<open>None\<close>.
\<close>

function RexpMatch_loop :: "string \<Rightarrow> string \<Rightarrow> bool option" where
  "RexpMatch_loop [] sp = Some True"
| "RexpMatch_loop (r # rp) sp =
     (case sp of
        [] \<Rightarrow> None
      | s # sp' \<Rightarrow>
          (if r = CHR ''['' then
             (let neg = (hd0 rp = CHR ''^'');
                  res = rexp_class neg neg (uc s) (if neg then tl rp else rp)
              in if \<not> fst res then Some False
                 else if snd res = [] then None
                 else RexpMatch_loop (tl (snd res)) sp')
           else if r = s then RexpMatch_loop rp sp' else Some False))"
  by pat_completeness auto
termination
proof (relation "measure (\<lambda>(rp, sp). length rp)", goal_cases)
  case (2 r rp sp s sp' neg res)
  have "length (snd res) \<le> length (if neg then tl rp else rp)"
    unfolding 2 by (rule rexp_class_shorter)
  then show ?case by (auto split: if_splits)
qed auto

definition RexpMatch :: "string \<Rightarrow> string \<Rightarrow> bool option" where
  "RexpMatch str rexp = RexpMatch_loop rexp (str @ [NUL])"

subsection \<open>Vectors of strings\<close>

definition nv_match :: "string \<Rightarrow> string \<Rightarrow> bool" where
  "nv_match name val \<longleftrightarrow> hd0 name = hd0 val \<and> strneq name val (length name)
     \<and> chr_at val (length name) = CHR ''=''"

fun getvX_loop :: "string list \<Rightarrow> string \<Rightarrow> int \<Rightarrow> string option \<times> int \<Rightarrow> string option \<times> int" where
  "getvX_loop [] name ai res = res"
| "getvX_loop (val # av) name ai res =
     getvX_loop av name (ai + 1)
       (if nv_match name val then (Some (drop (length name + 1) val), ai) else res)"

definition getvX :: "string list \<Rightarrow> string \<Rightarrow> string option \<times> int" where
  "getvX av name = getvX_loop av name 0 (None, -1)"

definition getv :: "string list \<Rightarrow> string \<Rightarrow> string option" where
  "getv av name = fst (getvX av name)"

text \<open>\<^verbatim>\<open>scanv\<close> threads the state of the callback; the count of hits comes with it.\<close>

fun scanv :: "string list \<Rightarrow> string \<Rightarrow> ('st \<Rightarrow> string \<Rightarrow> 'st) \<Rightarrow> 'st \<Rightarrow> nat \<times> 'st" where
  "scanv [] name func st = (0, st)"
| "scanv (val # av) name func st =
     (if nv_match name val
      then (let r = scanv av name func (func st (drop (length name + 1) val)) in (Suc (fst r), snd r))
      else scanv av name func st)"

text \<open>\<^verbatim>\<open>cmpv\<close>, with \<open>len\<close> 0 for a comparison of whole strings.\<close>

fun cmpv :: "string list \<Rightarrow> string list \<Rightarrow> nat \<Rightarrow> int" where
  "cmpv [] [] len = 0"
| "cmpv [] (y # ys) len = 1"
| "cmpv (x # xs) [] len = 1"
| "cmpv (x # xs) (y # ys) len =
     (if (if len \<noteq> 0 then take len x \<noteq> take len y else strcmp x y \<noteq> 0) then 1
      else cmpv xs ys len)"

subsection \<open>Words, lines and numbers\<close>

fun awordscanX_loop :: "int \<Rightarrow> string \<Rightarrow> vstr \<Rightarrow> string \<times> vstr" where
  "awordscanX_loop ox [] v = ([], v)"
| "awordscanX_loop ox (ch # sp) v =
     (if vpos v < ox \<and> isalpha ch then awordscanX_loop ox sp (setVStrPtrInc v ch) else (ch # sp, v))"

definition awordscanX :: "string \<Rightarrow> vstr \<Rightarrow> int \<Rightarrow> string \<times> vstr" where
  "awordscanX str v siz =
     (let r = awordscanX_loop (vpos v + (siz - 1)) str v in (fst r, setVStrEnd (snd r) 0))"

definition is_blank :: "char \<Rightarrow> bool" where
  "is_blank ch \<longleftrightarrow> ch \<in> {SP, TAB, CR, LF, FF}"

fun wordscanX_loop :: "nat \<Rightarrow> nat \<Rightarrow> string \<Rightarrow> vstr \<Rightarrow> string \<times> vstr" where
  "wordscanX_loop siz cc [] v = ([], v)"
| "wordscanX_loop siz cc (ch # s) v =
     (if (siz = 0 \<or> cc < siz) \<and> \<not> is_blank ch
      then wordscanX_loop siz (cc + 1) s (setVStrPtrInc v ch) else (ch # s, v))"

definition wordscanX :: "string \<Rightarrow> vstr \<Rightarrow> nat \<Rightarrow> string \<times> vstr" where
  "wordscanX s v siz =
     (let r = wordscanX_loop siz 1 (dropWhile is_blank s) v in (fst r, setVStrEnd (snd r) 0))"

fun linescanX_loop :: "nat \<Rightarrow> nat \<Rightarrow> string \<Rightarrow> vstr \<Rightarrow> string \<times> vstr" where
  "linescanX_loop siz cc [] v = ([], v)"
| "linescanX_loop siz cc (ch # s) v =
     (if cc < siz \<and> \<not> (ch = LF \<or> ch = CR \<and> (hd0 s = LF \<or> s = []))
      then linescanX_loop siz (cc + 1) s (setVStrPtrInc v ch) else (ch # s, v))"

definition linescanX :: "string \<Rightarrow> vstr \<Rightarrow> nat \<Rightarrow> string \<times> vstr" where
  "linescanX s v siz =
     (let r = linescanX_loop siz 1 (dropWhile (\<lambda>c. c = SP \<or> c = TAB) s) v
      in (fst r, setVStrEnd (snd r) 0))"

fun sgetsX_loop :: "bool \<Rightarrow> bool \<Rightarrow> string \<Rightarrow> vstr \<Rightarrow> string \<times> vstr" where
  "sgetsX_loop cr lf [] v = ([], v)"
| "sgetsX_loop cr lf (ch # sp) v =
     (if ch = CR then sgetsX_loop cr lf sp (if cr then setVStrPtrInc v ch else v)
      else if ch = LF then (sp, if lf then setVStrPtrInc v ch else v)
      else sgetsX_loop cr lf sp (setVStrPtrInc v ch))"

definition sgetsX :: "string \<Rightarrow> vstr \<Rightarrow> bool \<Rightarrow> bool \<Rightarrow> string \<times> vstr" where
  "sgetsX src v cr lf = (let r = sgetsX_loop cr lf src v in (fst r, setVStrEnd (snd r) 0))"

text \<open>\<open>keep\<close> decides on a character by the pattern, a leading caret negates.\<close>

definition wordscanY_keep :: "string option \<Rightarrow> char \<Rightarrow> bool" where
  "wordscanY_keep pat ch = (case pat of
       None \<Rightarrow> True
     | Some p \<Rightarrow> (if hd0 p = CHR ''^'' then ch \<notin> set (tl p) else ch \<in> set p))"

fun wordscanY_loop :: "int \<Rightarrow> (char \<Rightarrow> bool) \<Rightarrow> string \<Rightarrow> vstr \<Rightarrow> string \<times> vstr" where
  "wordscanY_loop xp keep [] v = ([], v)"
| "wordscanY_loop xp keep (ch # sp) v =
     (if vpos v < xp \<and> keep ch then wordscanY_loop xp keep sp (setVStrPtrInc v ch)
      else (ch # sp, v))"

definition wordscanY :: "string \<Rightarrow> vstr \<Rightarrow> int \<Rightarrow> string option \<Rightarrow> string \<times> vstr" where
  "wordscanY str v siz pat =
     (let r = wordscanY_loop (vpos v + (siz - 1)) (wordscanY_keep pat) str v
      in (fst r, setVStrEnd (snd r) 0))"

definition valuescanX :: "string \<Rightarrow> vstr \<Rightarrow> int \<Rightarrow> string \<times> vstr" where
  "valuescanX str v siz =
     (if hd0 str = DQ then wordscanY (tl str) v siz (Some (CHR ''^'' # [DQ]))
      else wordscanY str v siz (Some (''^; '' @ [TAB, CR, LF] @ ''>'' @ [DQ])))"

definition valuescanY :: "string \<Rightarrow> vstr \<Rightarrow> int \<Rightarrow> string \<times> vstr" where
  "valuescanY str v siz =
     (if hd0 str = SQ then wordscanY (tl str) v siz (Some (CHR ''^'' # [SQ]))
      else valuescanX str v siz)"

definition numscanX :: "string \<Rightarrow> vstr \<Rightarrow> int \<Rightarrow> string \<times> vstr" where
  "numscanX str v siz =
     (if hd0 str = CHR ''-''
      then wordscanY (tl str) (setVStrPtrInc v CHR ''-'') (siz - 1) (Some ''.0123456789'')
      else wordscanY str v siz (Some ''.0123456789''))"

fun numscan_loop :: "string \<Rightarrow> int \<Rightarrow> int \<times> string" where
  "numscan_loop [] width = (width, [])"
| "numscan_loop (c # sp) width =
     (if isdigit c then numscan_loop sp (i32 (width * 10 + (int (uc c) - 48)))
      else (width, c # sp))"

definition numscan :: "string \<Rightarrow> int \<times> string" where
  "numscan sp =
     (let neg = (hd0 sp = CHR ''-'');
          r = numscan_loop (if neg then tl sp else sp) 0
      in (i32 (if neg then - fst r else fst r), snd r))"

subsection \<open>Deleting, trimming, flags\<close>

text \<open>
  \<^verbatim>\<open>strdelchr\<close> between separate buffers; \<^verbatim>\<open>assertVStr\<close> leaves the loop when the next store
  and a terminator would not fit.
\<close>

fun strdelchr_loop :: "string \<Rightarrow> string \<Rightarrow> vstr \<Rightarrow> vstr" where
  "strdelchr_loop del [] v = v"
| "strdelchr_loop del (ch # sp) v =
     (if UTail v < vpos v + 1 then v
      else strdelchr_loop del sp (if ch \<in> set del then v else setVStrPtrInc v ch))"

definition strdelchr :: "string \<Rightarrow> vstr \<Rightarrow> string \<Rightarrow> vstr" where
  "strdelchr src v del = setVStrEnd (strdelchr_loop del src v) 0"

definition strrpbrk :: "string \<Rightarrow> string \<Rightarrow> string option" where
  "strrpbrk str brk =
     (if brk = [] then Some str
      else if str = [] then None
      else let after = takeWhile (\<lambda>c. c \<notin> set brk) (rev str)
           in if length after = length str then None
              else Some (drop (length str - length after - 1) str))"

definition strip_spaces :: "string \<Rightarrow> string" where
  "strip_spaces value =
     rev (dropWhile (\<lambda>c. c = SP) (rev (dropWhile (\<lambda>c. c = SP \<or> c = TAB) value)))"

text \<open>\<^verbatim>\<open>onoff_flags\<close>: the table \<^verbatim>\<open>map\<close> of 256 flags, indexed by unsigned characters.\<close>

definition onoff_mark :: "bool \<Rightarrow> string \<Rightarrow> bool list \<Rightarrow> bool list" where
  "onoff_mark on s m = foldl (\<lambda>m c. m[uc c := on]) m s"

definition onoff_flags :: "vstr \<Rightarrow> string \<Rightarrow> bool \<Rightarrow> vstr" where
  "onoff_flags v delta on =
     (let flags = cstr (drop (nat (vpos v)) (vmem v));
          m1 = onoff_mark on flags (replicate 256 False);
          m2 = onoff_mark on delta m1
      in setVStrEnd (vputs v (map char_of (filter (\<lambda>i. m2 ! i) [1..<256]))) 0)"

subsection \<open>Splitting loses nothing\<close>

fun join :: "char \<Rightarrow> string list \<Rightarrow> string" where
  "join sep [] = []"
| "join sep [x] = x"
| "join sep (x # y # ys) = x @ sep # join sep (y # ys)"

lemma join_Cons: "ys \<noteq> [] \<Longrightarrow> join sep (x # ys) = x @ sep # join sep ys"
  by (cases ys) auto

lemma stoV_loop_nonempty: "ap \<noteq> [] \<Longrightarrow> stoV_loop ap k sep depth \<noteq> []"
  by (subst stoV_loop.simps) (auto split: option.splits)

text \<open>One step of the split: the piece, the separator, the rest.\<close>

lemma stoV_find_split:
  assumes "stoV_find depth ap sep = Some np" and "sep \<noteq> NUL"
  shows "ap = take (length ap - length np) ap @ sep # tl np"
proof -
  have "\<exists>p. ap = p @ np \<and> hd0 np = sep \<and> np \<noteq> []"
    using assms strchr_suffix [of ap sep np] xstrchr_loop_suffix [of sep 0 ap np]
    by (auto simp: stoV_find_def xstrchr_def split: if_splits)
  then show ?thesis by (cases np) auto
qed

lemma stoV_loop_join:
  "sep \<noteq> NUL \<Longrightarrow>
   ap = join sep (stoV_loop ap k sep depth) \<or> ap = join sep (stoV_loop ap k sep depth) @ [sep]"
proof (induction ap k sep depth rule: stoV_loop.induct)
  case (1 ap k sep depth)
  show ?case
  proof (cases "ap = [] \<or> k \<le> 1 \<or> stoV_find depth ap sep = None")
    case True
    then show ?thesis by (subst (1 2) stoV_loop.simps) (auto split: option.splits)
  next
    case False
    then obtain np where np: "stoV_find depth ap sep = Some np" by auto
    let ?w = "take (length ap - length np) ap"
    let ?r = "stoV_loop (tl np) (k - 1) sep depth"
    have eq: "stoV_loop ap k sep depth = ?w # ?r"
      using False np by (subst stoV_loop.simps) simp
    have split: "ap = ?w @ sep # tl np" by (rule stoV_find_split [OF np 1(2)])
    show ?thesis
    proof (cases "tl np = []")
      case True
      then have "?r = []" by (subst stoV_loop.simps) simp
      then show ?thesis using split True unfolding eq by simp
    next
      case False': False
      have "tl np = join sep ?r \<or> tl np = join sep ?r @ [sep]"
        using 1 False np by auto
      moreover have "join sep (?w # ?r) = ?w @ sep # join sep ?r"
        by (rule join_Cons) (rule stoV_loop_nonempty [OF False'])
      ultimately show ?thesis using split unfolding eq by (metis append.assoc append_Cons)
    qed
  qed
qed

lemma stoV_loop_length: "1 \<le> k \<Longrightarrow> length (stoV_loop ap k sep depth) \<le> k"
proof (induction ap k sep depth rule: stoV_loop.induct)
  case (1 ap k sep depth)
  show ?case
  proof (cases "ap = [] \<or> k \<le> 1")
    case False
    then have "\<And>np. stoV_find depth ap sep = Some np \<Longrightarrow>
        length (stoV_loop (tl np) (k - 1) sep depth) \<le> k - 1"
      using 1 by auto
    then show ?thesis using False
      by (subst stoV_loop.simps, cases "stoV_find depth ap sep") fastforce+
  qed (subst stoV_loop.simps, use 1 in auto)
qed

text \<open>Splitting a string at a separator fills at most as many entries as the vector
  has and loses nothing: joining the pieces with the separator gives the string back,
  except that one separator at the very end has no piece after it.\<close>

theorem stoVX_join:
  assumes "sep \<noteq> NUL" and "1 \<le> mac"
  shows "length (stoVX abuf mac sep depth) \<le> mac \<and>
    (abuf = join sep (stoVX abuf mac sep depth) \<or>
     abuf = join sep (stoVX abuf mac sep depth) @ [sep])"
  using stoV_loop_join [OF assms(1), of abuf mac depth] stoV_loop_length [OF assms(2), of abuf sep depth]
  unfolding stoVX_def by blast

theorem stoVX_join_witness:
  "length (stoVX ''a,{b,c},d,e'' 3 CHR '','' True) \<le> 3 \<and>
   (''a,{b,c},d,e'' = join CHR '','' (stoVX ''a,{b,c},d,e'' 3 CHR '','' True) \<or>
    ''a,{b,c},d,e'' = join CHR '','' (stoVX ''a,{b,c},d,e'' 3 CHR '','' True) @ '','')
   \<and> stoVX ''a,{b,c},d,e'' 3 CHR '','' True = [''a'', ''{b,c}'', ''d,e'']"
  using stoVX_join [of "CHR '',''" 3 "''a,{b,c},d,e''" True]
  by (simp add: stoVX_def stoV_loop.simps stoV_find_def xstrchr_def)

subsection \<open>Suffixes and prefixes\<close>

lemma tailstr_loop_exact:
  "r2 \<noteq> [] \<Longrightarrow> tailstr_loop False r1 r2 acc = Some t \<longleftrightarrow> (\<exists>q. r1 = r2 @ q) \<and> t = rev r2 @ acc"
proof (induction "False" r1 r2 acc rule: tailstr_loop.induct)
  case (3 c r1 d r2 acc)
  then show ?case by (cases "r2 = []") auto
qed auto

text \<open>\<open>strtailstr\<close> finds the second string at the end of the first exactly when it is a
  suffix of it, and then points to that suffix.\<close>

theorem strtailstr_suffix:
  "strtailstr str1 str2 = Some t \<longleftrightarrow> t = str2 \<and> (\<exists>p. str1 = p @ str2)"
proof (cases "str2 = []")
  case True
  then show ?thesis by (auto simp: strtailstr_def strtailstrX_def)
next
  case False
  have "(\<exists>q. rev str1 = rev str2 @ q) \<longleftrightarrow> (\<exists>p. str1 = p @ str2)"
    by (metis rev_append rev_rev_ident)
  then show ?thesis using False
    by (auto simp: strtailstr_def strtailstrX_def tailstr_loop_exact)
qed

subsection \<open>Word scanning\<close>

lemma wordscanY_loop_split:
  assumes "vwrote n v t" and "0 < n" and "xp \<le> int n - 1" and "int (length t) \<le> xp"
  shows "\<exists>w rest. wordscanY_loop xp keep s v = (rest, vputs v w) \<and> s = w @ rest
     \<and> list_all keep w \<and> int (length t + length w) \<le> xp
     \<and> (rest = [] \<or> \<not> keep (hd rest) \<or> int (length t + length w) = xp)"
  using assms
proof (induction s arbitrary: v t)
  case Nil
  then show ?case by (intro exI [of _ "[]"]) (auto simp: vputs_def)
next
  case (Cons c s)
  have pos: "vpos v = int (length t)" using Cons.prems by (auto simp: vwrote_def min_def)
  show ?case
  proof (cases "vpos v < xp \<and> keep c")
    case True
    have "vwrote n (setVStrPtrInc v c) (t @ [c])" by (rule vwrote_put [OF Cons.prems(1)])
    from Cons.IH [OF this Cons.prems(2,3)] True pos obtain w rest where
      "wordscanY_loop xp keep s (setVStrPtrInc v c) = (rest, vputs (setVStrPtrInc v c) w)"
      "s = w @ rest" "list_all keep w" "int (length (t @ [c]) + length w) \<le> xp"
      "rest = [] \<or> \<not> keep (hd rest) \<or> int (length (t @ [c]) + length w) = xp"
      by auto
    then show ?thesis using True by (intro exI [of _ "c # w"] exI [of _ rest]) (auto simp: vputs_def)
  next
    case False
    then show ?thesis using pos Cons.prems
      by (intro exI [of _ "[]"] exI [of _ "c # s"]) (auto simp: vputs_def)
  qed
qed

text \<open>\<open>wordscanY\<close> into a buffer it is given the size of cuts the string in two: the text
  left in the buffer followed by the returned rest is the string, every character of
  the text is one the pattern allows, and the scan stops only at the end of the string,
  at a character the pattern does not allow, or when the buffer is full.\<close>

theorem wordscanY_split:
  assumes "1 \<le> n" and "nonul str"
  shows "\<exists>w rest v. wordscanY str (new_vstr n) (int n) pat = (rest, v) \<and> vok v \<and> cstr (vmem v) = w
     \<and> str = w @ rest \<and> list_all (wordscanY_keep pat) w
     \<and> (rest = [] \<or> \<not> wordscanY_keep pat (hd rest) \<or> length w = n - 1)"
proof -
  have w0: "vwrote n (new_vstr n) []" using assms(1) by (intro vwrote_new) simp
  obtain w rest where r:
    "wordscanY_loop (int n - 1) (wordscanY_keep pat) str (new_vstr n) = (rest, vputs (new_vstr n) w)"
    "str = w @ rest" "list_all (wordscanY_keep pat) w" "int (length w) \<le> int n - 1"
    "rest = [] \<or> \<not> wordscanY_keep pat (hd rest) \<or> int (length w) = int n - 1"
    using wordscanY_loop_split [OF w0, of "int n - 1" "wordscanY_keep pat" str] assms(1) by auto
  have nn: "nonul w" using assms(2) r(2) by simp
  have p0: "vpos (new_vstr n) = 0" by (simp add: new_vstr_def)
  have "cstr (vmem (setVStrEnd (vputs (new_vstr n) w) 0)) = w"
    using vputs_text [OF w0 nn] r(4) by simp
  moreover have "vok (setVStrEnd (vputs (new_vstr n) w) 0)"
    using vputs_ok [OF w0] vputs_pos [OF w0] by (intro vok_setVStrEnd) auto
  ultimately show ?thesis using r assms(1)
    by (intro exI [of _ w] exI [of _ rest]) (auto simp: wordscanY_def p0)
qed

theorem wordscanY_split_witness:
  "\<exists>w rest v. wordscanY ''host:80'' (new_vstr 32) 32 (Some ''^:'') = (rest, v) \<and> vok v
     \<and> cstr (vmem v) = w \<and> ''host:80'' = w @ rest
     \<and> list_all (wordscanY_keep (Some ''^:'')) w
     \<and> (rest = [] \<or> \<not> wordscanY_keep (Some ''^:'') (hd rest) \<or> length w = 32 - 1)"
  using wordscanY_split [of 32 "''host:80''" "Some ''^:''"] by simp

subsection \<open>Configuration vectors\<close>

lemma getvX_loop_snoc:
  "getvX_loop (av @ [val]) name ai res =
     (if nv_match name val then (Some (drop (length name + 1) val), ai + int (length av))
      else getvX_loop av name ai res)"
  by (induction av arbitrary: ai res) (auto simp: algebra_simps)

text \<open>A lookup in a vector of \<open>name=value\<close> strings returns the value of the last entry
  for the name: entries before it are overridden and later entries for other names do
  not matter; without an entry it returns nothing.\<close>

theorem getv_last:
  assumes "name \<noteq> []" and "list_all (\<lambda>e. \<not> nv_match name e) later"
  shows "getv (earlier @ [name @ ''='' @ value] @ later) name = Some value
    \<and> getv later name = None"
proof -
  have m: "nv_match name (name @ ''='' @ value)"
    using assms(1) by (cases name) (auto simp: nv_match_def strneq_def chr_at_def nth_append)
  have skip: "getvX_loop (xs @ later) name ai res = getvX_loop xs name ai res" for xs ai res
    using assms(2) by (induction later rule: rev_induct)
      (auto simp: getvX_loop_snoc simp flip: append_assoc)
  have "getvX_loop ((earlier @ [name @ ''='' @ value]) @ later) name 0 (None, -1) =
      getvX_loop (earlier @ [name @ ''='' @ value]) name 0 (None, -1)"
    by (rule skip)
  moreover have "getvX_loop ([] @ later) name 0 (None, -1) = (None, -1)"
    unfolding skip by simp
  ultimately show ?thesis using m by (simp add: getv_def getvX_def getvX_loop_snoc)
qed

theorem getv_last_witness:
  "getv ([''SERVER=ftp''] @ [''SERVER'' @ ''='' @ ''http''] @ [''SERVERS=x'']) ''SERVER'' = Some ''http''
    \<and> getv [''SERVERS=x''] ''SERVER'' = None"
  using getv_last [of "''SERVER''" "[''SERVERS=x'']" "[''SERVER=ftp'']" "''http''"]
  by (simp add: nv_match_def strneq_def)

lemma scanv_count:
  "fst (scanv av name func st) = length (filter (nv_match name) av)"
  by (induction av name func st rule: scanv.induct) (auto simp: Let_def)

lemma scanv_state:
  "snd (scanv av name func st) =
     foldl func st (map (drop (length name + 1)) (filter (nv_match name) av))"
  by (induction av name func st rule: scanv.induct) (auto simp: Let_def)

subsection \<open>Bracket patterns and flags: what the code does\<close>

lemma rexp_class_closing:
  "list_all (\<lambda>c. c \<noteq> CHR '']'' \<and> c \<noteq> CHR ''-'') cs \<Longrightarrow>
   rexp_class False m 93 (cs @ '']'') = (True, '']'')"
proof (induction cs arbitrary: m)
  case Nil
  then show ?case by (simp add: uc_def)
next
  case (Cons c cs)
  have "chr_at (cs @ '']'') 0 \<noteq> CHR ''-''" using Cons.prems by (cases cs) auto
  then show ?case using Cons by (simp add: Let_def)
qed

text \<open>A bracket expression also accepts its own closing bracket: the loop of \<open>RexpMatch\<close>
  tests the subject against every character up to and including the bracket that ends
  the class, so any class of single characters matches a closing bracket.\<close>

theorem RexpMatch_accepts_closing_bracket:
  assumes "list_all (\<lambda>c. c \<noteq> CHR '']'' \<and> c \<noteq> CHR ''-'') cs" and "hd0 cs \<noteq> CHR ''^''"
  shows "RexpMatch '']'' (''['' @ cs @ '']'') = Some True"
proof -
  have h: "hd0 (cs @ '']'') \<noteq> CHR ''^''" using assms(2) by (cases cs) auto
  have u: "uc CHR '']'' = 93" by (simp add: uc_def)
  show ?thesis using h by (simp add: RexpMatch_def u rexp_class_closing [OF assms(1)])
qed

theorem RexpMatch_accepts_closing_bracket_witness: "RexpMatch '']'' ''[abc]'' = Some True"
  using RexpMatch_accepts_closing_bracket [of "''abc''"] by simp

lemma onoff_mark_False: "onoff_mark False s (replicate 256 False) = replicate 256 False"
  unfolding onoff_mark_def
  by (induction s rule: rev_induct) (auto simp: list_update_same_conv simp flip: list_update_id)

text \<open>Switching flags off clears all of them: \<open>onoff_flags\<close> with \<open>on\<close> zero marks the
  present flags with the same value as the ones to remove, and leaves the empty string
  whatever the flags were.\<close>

theorem onoff_flags_off_clears_all:
  assumes "vwrote n v []"
  shows "cstr (vmem (onoff_flags v delta False)) = []"
  using vputs_text [OF assms, of "[]"]
  by (simp add: onoff_flags_def onoff_mark_False cong: filter_cong)

theorem onoff_flags_off_clears_all_witness:
  "cstr (vmem (onoff_flags \<lparr>vmem = ''AB'' @ replicate 6 NUL, vpos = 0, vnull = False, vbad = False\<rparr>
     ''A'' False)) = []"
  using onoff_flags_off_clears_all
    [of 8 "\<lparr>vmem = ''AB'' @ replicate 6 NUL, vpos = 0, vnull = False, vbad = False\<rparr>" "''A''"]
  by (simp add: vwrote_def vok_def vsize_def)

end
