(* ===== verification/MimeCodes.thy ===== *)
theory MimeCodes
  imports VStr
begin

section \<open>MimeCodes: Base64 and Quoted-Printable (\<open>mimekit/mimecodes.cpp\<close>)\<close>

text \<open>
  The stream encoders and decoders: an input \<^verbatim>\<open>FILE*\<close> is the list of bytes still to be
  read, the output the list of bytes written. The same source file is compiled a second
  time by \<^verbatim>\<open>str_codes.cpp\<close> with stdio redirected to memory. \<open>strtoB64\<close> and \<open>B64tostr\<close> are
  the versions on buffers.
\<close>

subsection \<open>Tables\<close>

definition B64CH :: string where
  "B64CH = ''ABCDEFGHIJKLMNOPQRSTUVWXYZabcdefghijklmnopqrstuvwxyz0123456789+/''"

definition NON64 :: int where "NON64 = -1"
definition WHITE :: int where "WHITE = -2"
definition PADDCH :: int where "PADDCH = -3"

definition init_64 :: "int list" where
  "init_64 =
     foldl (\<lambda>t ix. t[uc (B64CH ! ix) := int ix])
       ((replicate 256 NON64)
          [uc SP := WHITE, uc TAB := WHITE, uc CR := WHITE, uc LF := WHITE, uc CHR ''='' := PADDCH])
       [0..<64]"

definition B64IX :: "char \<Rightarrow> int" where
  "B64IX c = init_64 ! uc c"

text \<open>\<^verbatim>\<open>QPIX\<close>: the characters that are escaped, with those \<^verbatim>\<open>MIME_setQP\<close> adds.\<close>

definition init_QP :: "bool list" where
  "init_QP = map (\<lambda>ix. 0x80 \<le> ix \<or> iscntrl (char_of ix) \<and> \<not> isspace (char_of ix) \<or> ix = uc CHR ''='')
               [0..<256]"

text \<open>
  \<^verbatim>\<open>MIME_setQP\<close> uses the (signed) \<^verbatim>\<open>char\<close> of its argument as an index: for a byte of 0x80 or more
  it is negative, and the store is in front of the table (\<open>None\<close>).
\<close>

definition set_QPIX :: "bool list \<Rightarrow> char \<Rightarrow> bool list option" where
  "set_QPIX t ch = (if sc ch < 0 then None else Some (t[nat (sc ch) := True]))"

definition MIME_setQP :: "string \<Rightarrow> bool list option" where
  "MIME_setQP qpchars = foldl (\<lambda>t ch. Option.bind t (\<lambda>t. set_QPIX t ch)) (Some init_QP) qpchars"

subsection \<open>Base64 encoding\<close>

text \<open>
  The three-byte read with its optional length limit: the bytes, the input left, the
  counter \<^verbatim>\<open>icc\<close> and \<^verbatim>\<open>gotEOF\<close>.
\<close>

fun to64_get3 :: "nat \<Rightarrow> nat \<Rightarrow> nat \<Rightarrow> string \<Rightarrow> string \<Rightarrow> string \<times> string \<times> nat \<times> bool" where
  "to64_get3 0 leng icc inp acc = (acc, inp, icc, False)"
| "to64_get3 (Suc k) leng icc inp acc =
     (let icc' = (if 0 < leng then icc + 1 else icc)
      in if 0 < leng \<and> leng < icc' then (acc, inp, icc', True)
         else case inp of
                [] \<Rightarrow> (acc, [], icc', True)
              | c # inp' \<Rightarrow> to64_get3 k leng icc' inp' (acc @ [c]))"

text \<open>\<^verbatim>\<open>oint |= ich << shifts\<close> for shifts 16, 8, 0.\<close>

fun to64_pack :: "nat \<Rightarrow> string \<Rightarrow> u32" where
  "to64_pack shifts [] = 0"
| "to64_pack shifts (c # cs) = push_bit shifts (of_nat (uc c)) OR to64_pack (shifts - 8) cs"

definition to64_quad :: "string \<Rightarrow> string" where
  "to64_quad bs =
     (let oint = to64_pack 16 bs; ix = length bs
      in map (\<lambda>ox. B64CH ! unat (drop_bit (18 - 6 * ox) oint AND 0x3F)) [0..<ix + 1]
         @ replicate (3 - ix) CHR ''='')"

lemma to64_get3_shrinks:
  "to64_get3 k leng icc inp acc = (bs, inp', icc', eof) \<Longrightarrow>
   length bs + length inp' = length acc + length inp"
  by (induction k leng icc inp acc arbitrary: bs inp' icc' eof rule: to64_get3.induct)
    (auto simp: Let_def split: if_splits list.splits)

function to64_loop :: "nat \<Rightarrow> nat \<Rightarrow> nat \<Rightarrow> string \<Rightarrow> string" where
  "to64_loop leng icc ocol inp =
     (case to64_get3 3 leng icc inp [] of (bs, inp', icc', eof) \<Rightarrow>
        if bs = [] then (if 0 < ocol then [LF] else [])
        else let brk = (71 < ocol); ocol' = (if brk then 0 else ocol) + 4
             in (if brk then [LF] else []) @ to64_quad bs
                @ (if eof then (if 0 < ocol' then [LF] else [])
                   else to64_loop leng icc' ocol' inp'))"
  by pat_completeness auto
termination
  by (relation "measure (\<lambda>(leng, icc, ocol, inp). length inp)")
    (auto simp: neq_Nil_conv dest!: to64_get3_shrinks [OF sym])

declare to64_loop.simps [simp del]

definition MIME_to64X :: "string \<Rightarrow> nat \<Rightarrow> string" where
  "MIME_to64X inp leng = to64_loop leng 0 0 inp"

definition MIME_to64 :: "string \<Rightarrow> string" where
  "MIME_to64 inp = MIME_to64X inp 0"

text \<open>
  \<open>strtoB64\<close>: the emitted characters in order; they go through the checked pointer, and
  the result is \<^verbatim>\<open>bp - b64\<close>.
\<close>

function strtoB64_loop :: "string \<Rightarrow> nat \<Rightarrow> bool \<Rightarrow> string" where
  "strtoB64_loop str ocol withnl =
     (if str = [] then (if withnl \<and> 0 < ocol then [LF] else [])
      else let bs = take 3 str; brk = (71 < ocol); ocol' = (if brk then 0 else ocol) + 4
           in (if brk \<and> withnl then [LF] else []) @ to64_quad bs
              @ strtoB64_loop (drop 3 str) ocol' withnl)"
  by pat_completeness auto
termination
  by (relation "measure (\<lambda>(str, ocol, withnl). length str)") auto

declare strtoB64_loop.simps [simp del]

definition strtoB64 :: "string \<Rightarrow> nat \<Rightarrow> vstr \<Rightarrow> bool \<Rightarrow> vstr \<times> int" where
  "strtoB64 str slen b64 withnl =
     (let v = vputs b64 (strtoB64_loop (take slen str) 0 withnl)
      in (setVStrEnd v 0, vpos v - vpos b64))"

subsection \<open>Base64 decoding\<close>

text \<open>One group: the six-bit values read, the input left, and \<^verbatim>\<open>gotEOF\<close>.\<close>

function from64_group :: "nat \<Rightarrow> string \<Rightarrow> int list \<Rightarrow> int list \<times> string \<times> bool" where
  "from64_group ii inp vals =
     (if 4 \<le> ii then (vals, inp, False)
      else case inp of
             [] \<Rightarrow> (vals, [], True)
           | ich # inp' \<Rightarrow>
               (let i1 = B64IX ich
                in if i1 = NON64 then (vals, inp, True)
                   else if i1 = WHITE then from64_group ii inp' vals
                   else if i1 = PADDCH then from64_group (ii + 1) inp' vals
                   else from64_group (ii + 1) inp' (vals @ [i1])))"
  by pat_completeness auto
termination
  by (relation "measure (\<lambda>(ii, inp, vals). length inp)") auto

declare from64_group.simps [simp del]

fun from64_pack :: "nat \<Rightarrow> int list \<Rightarrow> u32" where
  "from64_pack shifts [] = 0"
| "from64_pack shifts (i1 # is) = push_bit shifts (of_int i1) OR from64_pack (shifts - 6) is"

definition from64_bytes :: "int list \<Rightarrow> string" where
  "from64_bytes vals =
     (let oint = from64_pack 18 vals
      in map (\<lambda>ox. char_of (unat (drop_bit (16 - 8 * (ox - 1)) oint AND 0xFF))) [1..<length vals])"

lemma from64_group_shrinks:
  "from64_group ii inp vals = (vals', inp', eof) \<Longrightarrow>
   length inp' \<le> length inp \<and> (\<not> eof \<and> ii < 4 \<longrightarrow> length inp' < length inp)"
proof (induction ii inp vals arbitrary: vals' inp' eof rule: from64_group.induct)
  case (1 ii inp vals)
  show ?case
  proof (cases inp)
    case Nil
    with 1(4) show ?thesis by (subst (asm) from64_group.simps) (auto split: if_splits)
  next
    case (Cons c cs)
    show ?thesis
      using 1(4) 1(1,2,3) [OF _ Cons refl] Cons
      by (subst (asm) from64_group.simps) (force simp: Let_def split: if_splits)
  qed
qed

function from64_loop :: "string \<Rightarrow> string \<times> string" where
  "from64_loop inp =
     (case from64_group 0 inp [] of (vals, inp', eof) \<Rightarrow>
        if vals = [] then ([], inp')
        else if eof then (from64_bytes vals, inp')
        else (case from64_loop inp' of (out, rest) \<Rightarrow> (from64_bytes vals @ out, rest)))"
  by pat_completeness auto
termination
  by (relation "measure length") (auto dest: from64_group_shrinks [OF sym])

declare from64_loop.simps [simp del]

text \<open>The bytes written and the input left (the character pushed back by \<^verbatim>\<open>ungetc\<close>).\<close>

definition MIME_from64 :: "string \<Rightarrow> string \<times> string" where
  "MIME_from64 inp = from64_loop inp"


text \<open>
  \<open>B64tostr\<close> reads its characters through a (signed) \<^verbatim>\<open>char\<close> pointer and uses them as an
  index: a byte of 0x80 or more indexes the table below its start. Such a read is \<open>None\<close>.
\<close>

function B64tostr_group :: "nat \<Rightarrow> string \<Rightarrow> int list \<Rightarrow> (int list \<times> string \<times> bool) option" where
  "B64tostr_group ii inp vals =
     (if 4 \<le> ii then Some (vals, inp, False)
      else case inp of
             [] \<Rightarrow> Some (vals, [], True)
           | ich # inp' \<Rightarrow>
               (if sc ich < 0 then None
                else let i1 = B64IX ich
                     in if i1 = NON64 then Some (vals, inp', True)
                        else if i1 = WHITE then B64tostr_group ii inp' vals
                        else if i1 = PADDCH then B64tostr_group (ii + 1) inp' vals
                        else B64tostr_group (ii + 1) inp' (vals @ [i1])))"
  by pat_completeness auto
termination
  by (relation "measure (\<lambda>(ii, inp, vals). length inp)") auto

declare B64tostr_group.simps [simp del]

lemma B64tostr_group_shrinks:
  "B64tostr_group ii inp vals = Some (vals', inp', eof) \<Longrightarrow>
   length inp' \<le> length inp \<and> (\<not> eof \<and> ii < 4 \<longrightarrow> length inp' < length inp)"
proof (induction ii inp vals arbitrary: vals' inp' eof rule: B64tostr_group.induct)
  case (1 ii inp vals)
  show ?case
  proof (cases inp)
    case Nil
    with 1(4) show ?thesis by (subst (asm) B64tostr_group.simps) (auto split: if_splits)
  next
    case (Cons c cs)
    show ?thesis
      using 1(4) 1(1,2,3) [OF _ Cons _ refl] Cons
      by (subst (asm) B64tostr_group.simps) (force simp: Let_def split: if_splits)
  qed
qed

function B64tostr_loop :: "string \<Rightarrow> string option" where
  "B64tostr_loop inp =
     (if inp = [] then Some []
      else case B64tostr_group 0 inp [] of
             None \<Rightarrow> None
           | Some (vals, inp', eof) \<Rightarrow>
               if vals = [] then Some []
               else if eof then Some (from64_bytes vals)
               else map_option (\<lambda>out. from64_bytes vals @ out) (B64tostr_loop inp'))"
  by pat_completeness auto
termination
  by (relation "measure length") (auto dest: B64tostr_group_shrinks)

declare B64tostr_loop.simps [simp del]

definition B64tostr :: "string \<Rightarrow> nat \<Rightarrow> vstr \<Rightarrow> (vstr \<times> int) option" where
  "B64tostr b64 blen str =
     (case B64tostr_loop (take blen b64) of
        None \<Rightarrow> None
      | Some out \<Rightarrow> (let v = vputs str out in Some (setVStrEnd v 0, vpos v - vpos str)))"

subsection \<open>Quoted-Printable\<close>

definition hexd :: string where "hexd = ''0123456789ABCDEF''"

definition qp_esc :: "char \<Rightarrow> string" where
  "qp_esc ich = [CHR ''='', hexd ! (uc ich div 16 mod 16), hexd ! (uc ich mod 16)]"

fun toQP_loop :: "bool list \<Rightarrow> nat \<Rightarrow> string \<Rightarrow> string" where
  "toQP_loop qpix ocol [] = (if 0 < ocol then [CHR ''='', LF] else [])"
| "toQP_loop qpix ocol (ich # inp) =
     (let esc = (qpix ! uc ich \<or> ocol = 0 \<and> ich = CHR ''.'');
          out = (if esc then qp_esc ich else [ich]);
          ocol1 = (if esc then ocol + 3 else if ich = LF then 0 else ocol + 1)
      in if 72 < ocol1 then out @ [CHR ''='', LF] @ toQP_loop qpix 0 inp
         else out @ toQP_loop qpix ocol1 inp)"

definition MIME_toQP :: "bool list \<Rightarrow> string \<Rightarrow> string" where
  "MIME_toQP qpix inp = toQP_loop qpix 0 inp"

text \<open>
  A failing \<^verbatim>\<open>GETC1\<close> leaves the loop. After \<^verbatim>\<open>=\<close> and CR, a character other than LF is
  pushed back and the CR is handled as the character after the equals sign.
\<close>

function MIME_fromQP :: "string \<Rightarrow> string" where
  "MIME_fromQP [] = []"
| "MIME_fromQP (ch1 # inp) =
     (if ch1 \<noteq> CHR ''='' then ch1 # MIME_fromQP inp
      else case inp of
             [] \<Rightarrow> []
           | c1 # in1 \<Rightarrow>
               (if c1 = CR \<and> in1 = [] then []
                else let crlf = (c1 = CR \<and> hd in1 = LF);
                         d1 = (if crlf then LF else c1);
                         in2 = (if crlf then tl in1 else in1)
                     in if d1 = LF then MIME_fromQP in2
                        else if \<not> isxdigit d1 then CHR ''='' # d1 # MIME_fromQP in2
                        else case in2 of
                               [] \<Rightarrow> []
                             | c2 # in3 \<Rightarrow>
                                 (if \<not> isxdigit c2
                                  then CHR ''='' # d1 # c2 # MIME_fromQP in3
                                  else byte (hex_val [d1, c2] 0) # MIME_fromQP in3)))"
  by pat_completeness auto
termination
  by (relation "measure length") (auto simp: Let_def split: if_splits)

subsection \<open>Six-bit groups and bytes\<close>

lemma mask6_eq: "(63 :: u32) = mask 6"
  by (simp add: mask_eq_exp_minus_1)

lemma mask8_eq: "(255 :: u32) = mask 8"
  by (simp add: mask_eq_exp_minus_1)

lemma bit_byte_less: "take_bit 8 (a :: u32) = a \<Longrightarrow> bit a n \<Longrightarrow> n < 8"
  by (metis bit_take_bit_iff)

lemma take_bit_uc [simp]: "take_bit 8 (of_nat (uc c) :: u32) = of_nat (uc c)"
proof -
  have "take_bit 8 (uc c) = uc c" by (simp add: take_bit_nat_eq_self_iff)
  then show ?thesis by (metis take_bit_of_nat)
qed

lemma sextets_recombine:
  fixes w :: u32
  assumes "\<And>n. bit w n \<Longrightarrow> n < 24"
  shows "push_bit 18 (drop_bit 18 w AND 63) OR (push_bit 12 (drop_bit 12 w AND 63) OR
    (push_bit 6 (drop_bit 6 w AND 63) OR (w AND 63))) = w"
proof (rule bit_word_eqI)
  fix n assume n: "n < LENGTH(32)"
  consider "n < 6" | "6 \<le> n" "n < 12" | "12 \<le> n" "n < 18" | "18 \<le> n" "n < 24" | "24 \<le> n"
    by linarith
  then show "bit (push_bit 18 (drop_bit 18 w AND 63) OR (push_bit 12 (drop_bit 12 w AND 63) OR
    (push_bit 6 (drop_bit 6 w AND 63) OR (w AND 63)))) n = bit w n"
    using n assms [of n] by cases (auto simp: bit_simps mask6_eq simp del: mask_numeral)
qed

lemma packed_bytes:
  fixes a b c :: u32
  assumes "take_bit 8 a = a" "take_bit 8 b = b" "take_bit 8 c = c"
  defines "w \<equiv> push_bit 16 a OR (push_bit 8 b OR c)"
  shows "drop_bit 16 w AND 255 = a" "drop_bit 8 w AND 255 = b" "w AND 255 = c"
    "\<And>n. bit w n \<Longrightarrow> n < 24"
proof -
  have ba: "bit a n \<Longrightarrow> n < 8" and bb: "bit b n \<Longrightarrow> n < 8" and bc: "bit c n \<Longrightarrow> n < 8" for n
    using bit_byte_less assms(1-3) by blast+
  show "drop_bit 16 w AND 255 = a" unfolding w_def mask8_eq
    by (rule bit_word_eqI) (auto simp: bit_simps simp del: mask_numeral dest: ba bb bc)
  show "drop_bit 8 w AND 255 = b" unfolding w_def mask8_eq
    by (rule bit_word_eqI) (auto simp: bit_simps simp del: mask_numeral dest: ba bb bc)
  show "w AND 255 = c" unfolding w_def mask8_eq
    by (rule bit_word_eqI) (auto simp: bit_simps simp del: mask_numeral dest: ba bb bc)
  show "\<And>n. bit w n \<Longrightarrow> n < 24" unfolding w_def by (force simp: bit_simps dest: ba bb bc)
qed

text \<open>Missing bytes are zero: the sextets that are not sent carry no bits.\<close>

lemma low_sextet_zero:
  fixes w :: u32
  assumes "\<And>n. bit w n \<Longrightarrow> k + 6 \<le> n"
  shows "drop_bit k w AND 63 = 0"
  by (rule bit_word_eqI) (use assms in \<open>force simp: bit_simps mask6_eq simp del: mask_numeral\<close>)

definition sextets :: "string \<Rightarrow> int list" where
  "sextets bs = map (\<lambda>ox. int (unat (drop_bit (18 - 6 * ox) (to64_pack 16 bs) AND 0x3F)))
                  [0..<length bs + 1]"

lemma sextet_value: "of_int (int (unat (w :: u32))) = w"
  by simp

lemma byte_value: "char_of (unat (of_nat (uc c) :: u32)) = c"
  by (simp add: unat_of_nat less_trans [OF uc_less])

lemma from64_pack_sextets:
  fixes bs :: string
  defines "w \<equiv> to64_pack 16 bs"
  assumes "length bs \<in> {1, 2, 3}" and w24: "\<And>n. bit w n \<Longrightarrow> n < 24"
    and z6: "length bs = 1 \<Longrightarrow> drop_bit 6 w AND 63 = 0" and z0: "length bs < 3 \<Longrightarrow> w AND 63 = 0"
  shows "from64_pack 18 (sextets bs) = w"
proof -
  have e: "sextets bs = map (\<lambda>ox. int (unat (drop_bit (18 - 6 * ox) w AND 63))) [0..<length bs + 1]"
    by (simp add: sextets_def w_def)
  have u: "[0..<2] = [0, 1 :: nat]" "[0..<3] = [0, 1, 2 :: nat]" "[0..<4] = [0, 1, 2, 3 :: nat]"
    by (simp_all add: upt_rec)
  have r: "push_bit 18 (drop_bit 18 w AND 63) OR (push_bit 12 (drop_bit 12 w AND 63) OR
    (push_bit 6 (drop_bit 6 w AND 63) OR (w AND 63))) = w"
    by (rule sextets_recombine) (rule w24)
  from assms(2) consider "length bs = 1" | "length bs = 2" | "length bs = 3" by auto
  then show ?thesis
  proof cases
    case 1
    have "[0..<length bs + 1] = [0, 1]" using 1 u by (simp add: numeral_2_eq_2)
    then have "from64_pack 18 (sextets bs) =
        push_bit 18 (drop_bit 18 w AND 63) OR (push_bit 12 (drop_bit 12 w AND 63) OR 0)"
      unfolding e by (simp only: list.map from64_pack.simps sextet_value) simp
    moreover have "w AND 63 = 0" using z0 1 by simp
    ultimately show ?thesis using r z6 [OF 1] by (simp only: push_bit_of_0 or.right_neutral)
  next
    case 2
    have "[0..<length bs + 1] = [0, 1, 2]" using 2 u by simp
    then have "from64_pack 18 (sextets bs) =
        push_bit 18 (drop_bit 18 w AND 63) OR (push_bit 12 (drop_bit 12 w AND 63) OR
          (push_bit 6 (drop_bit 6 w AND 63) OR 0))"
      unfolding e by (simp only: list.map from64_pack.simps sextet_value) simp
    moreover have "w AND 63 = 0" using z0 2 by simp
    ultimately show ?thesis using r by (simp only: push_bit_of_0 or.right_neutral)
  next
    case 3
    have "[0..<length bs + 1] = [0, 1, 2, 3]" using 3 u by simp
    then have "from64_pack 18 (sextets bs) =
        push_bit 18 (drop_bit 18 w AND 63) OR (push_bit 12 (drop_bit 12 w AND 63) OR
          (push_bit 6 (drop_bit 6 w AND 63) OR (w AND 63)))"
      unfolding e by (simp only: list.map from64_pack.simps sextet_value) simp
    then show ?thesis using r by (simp only:)
  qed
qed

lemma from64_bytes_sextets:
  assumes "bs \<noteq> []" and "length bs \<le> 3"
  shows "from64_bytes (sextets bs) = bs"
proof -
  define w where "w = to64_pack 16 bs"
  have len: "length (sextets bs) = length bs + 1" by (simp add: sextets_def)
  have lt: "n < 8" if "bit (of_nat (uc c) :: u32) n" for c n
    using bit_byte_less [OF take_bit_uc that] .
  have u: "[1..<2] = [1 :: nat]" "[1..<3] = [1, 2 :: nat]" "[1..<4] = [1, 2, 3 :: nat]"
    by (simp_all add: upt_rec)
  consider a where "bs = [a]" | a b where "bs = [a, b]" | a b c where "bs = [a, b, c]"
    using assms by (cases bs; cases "tl bs"; cases "tl (tl bs)"; cases "tl (tl (tl bs))") auto
  then show ?thesis
  proof cases
    case 1
    have w: "w = push_bit 16 (of_nat (uc a)) OR (push_bit 8 0 OR 0)" by (simp add: w_def 1)
    note pk = packed_bytes [of "of_nat (uc a)" 0 0, folded w, simplified]
    have "from64_pack 18 (sextets bs) = w"
      by (rule from64_pack_sextets [of bs, folded w_def])
        (use 1 pk(4) low_sextet_zero [of w 6] low_sextet_zero [of w 0] in \<open>auto simp: w bit_simps\<close>)
    then show ?thesis using pk len by (simp add: from64_bytes_def 1 u byte_value)
  next
    case 2
    have w: "w = push_bit 16 (of_nat (uc a)) OR (push_bit 8 (of_nat (uc b)) OR 0)"
      by (simp add: w_def 2)
    note pk = packed_bytes [of "of_nat (uc a)" "of_nat (uc b)" 0, folded w, simplified]
    have "drop_bit 0 w AND 63 = 0"
      by (rule low_sextet_zero) (auto simp: w bit_simps)
    then have z: "w AND 63 = 0" by simp
    have "from64_pack 18 (sextets bs) = w"
      by (rule from64_pack_sextets [of bs, folded w_def])
        (use 2 pk(4) z in auto)
    then show ?thesis using pk len by (simp add: from64_bytes_def 2 u byte_value)
  next
    case 3
    have w: "w = push_bit 16 (of_nat (uc a)) OR (push_bit 8 (of_nat (uc b)) OR of_nat (uc c))"
      by (simp add: w_def 3)
    note pk = packed_bytes [of "of_nat (uc a)" "of_nat (uc b)" "of_nat (uc c)", folded w, simplified]
    have "from64_pack 18 (sextets bs) = w"
      by (rule from64_pack_sextets [of bs, folded w_def]) (use 3 pk(4) in auto)
    then show ?thesis using pk len by (simp add: from64_bytes_def 3 u byte_value)
  qed
qed

subsection \<open>The Base64 round trip\<close>

lemma length_B64CH [simp]: "length B64CH = 64"
  by (simp add: B64CH_def)

lemma foldl_table_length [simp]: "length (foldl (\<lambda>t i. t[f i := g i]) t is) = length t"
  by (induction "is" arbitrary: t) simp_all

lemma foldl_table_other:
  "k \<notin> f ` set is \<Longrightarrow> foldl (\<lambda>t i. t[f i := g i]) t is ! k = t ! k"
  by (induction "is" arbitrary: t) auto

lemma foldl_table_hit:
  "inj_on f {..<n} \<Longrightarrow> k < n \<Longrightarrow> f k < length t \<Longrightarrow>
   foldl (\<lambda>t i. t[f i := g i]) t [0..<n] ! f k = g k"
proof (induction n)
  case (Suc n)
  have "inj_on f {..<n}" using Suc.prems(1) by (rule inj_on_subset) auto
  moreover have "f k \<noteq> f n" if "k < n"
    using Suc.prems(1) that by (auto simp: inj_on_def)
  ultimately show ?case using Suc.IH Suc.prems(2,3) by (cases "k = n") auto
qed simp

lemma distinct_B64CH: "distinct B64CH"
  by code_simp

lemma B64IX_B64CH: "k < 64 \<Longrightarrow> B64IX (B64CH ! k) = int k"
  unfolding B64IX_def init_64_def
  by (rule foldl_table_hit)
    (auto simp: inj_on_def nth_eq_iff_index_eq [OF distinct_B64CH])

lemma B64IX_other: "c \<notin> set B64CH \<Longrightarrow> B64IX c = ((replicate 256 NON64)
    [uc SP := WHITE, uc TAB := WHITE, uc CR := WHITE, uc LF := WHITE, uc CHR ''='' := PADDCH]) ! uc c"
  unfolding B64IX_def init_64_def
  by (rule foldl_table_other) (auto simp: in_set_conv_nth)

lemma B64CH_not_signed: "k < 64 \<Longrightarrow> 0 \<le> sc (B64CH ! k)"
proof -
  have "list_all (\<lambda>k. 0 \<le> sc (B64CH ! k)) [0..<64]" by code_simp
  then show "k < 64 \<Longrightarrow> ?thesis" by (auto simp: list_all_iff)
qed

lemma B64IX_marks: "B64IX CHR ''='' = PADDCH" "B64IX LF = WHITE" "B64IX NUL = NON64"
  by (simp_all add: B64IX_other B64CH_def nth_list_update)

lemma from64_group_values:
  "\<forall>k \<in> set ks. k < 64 \<Longrightarrow> ii + length ks \<le> 4 \<Longrightarrow>
   from64_group ii (map ((!) B64CH) ks @ rest) vals
   = from64_group (ii + length ks) rest (vals @ map int ks)"
  by (induction ks arbitrary: ii vals)
    (simp, subst from64_group.simps, simp add: B64IX_B64CH NON64_def WHITE_def PADDCH_def Let_def)

lemma from64_group_pads:
  "ii + n \<le> 4 \<Longrightarrow>
   from64_group ii (replicate n CHR ''='' @ rest) vals = from64_group (ii + n) rest vals"
  by (induction n arbitrary: ii)
    (simp, subst from64_group.simps, simp add: B64IX_marks NON64_def WHITE_def PADDCH_def Let_def)

lemma from64_group_full [simp]: "from64_group 4 inp vals = (vals, inp, False)"
  by (simp add: from64_group.simps)

lemma from64_group_LF: "ii < 4 \<Longrightarrow> from64_group ii (LF # rest) vals = from64_group ii rest vals"
  by (subst from64_group.simps) (simp add: B64IX_marks NON64_def WHITE_def Let_def)

lemma sextet_less: "unat (x AND 63 :: u32) < 64"
proof -
  have "x AND 63 \<le> 63" by (rule word_and_le1)
  then show ?thesis by (simp add: word_le_nat_alt)
qed

lemma to64_quad_sextets:
  obtains ks where "sextets bs = map int ks" "\<forall>k \<in> set ks. k < 64" "length ks = length bs + 1"
    "to64_quad bs = map ((!) B64CH) ks @ replicate (3 - length bs) CHR ''=''"
proof
  let ?ks = "map (\<lambda>ox. unat (drop_bit (18 - 6 * ox) (to64_pack 16 bs) AND 0x3F)) [0..<length bs + 1]"
  show "sextets bs = map int ?ks" by (simp add: sextets_def)
  show "\<forall>k \<in> set ?ks. k < 64" using sextet_less by auto
  show "length ?ks = length bs + 1" by simp
  show "to64_quad bs = map ((!) B64CH) ?ks @ replicate (3 - length bs) CHR ''=''"
    by (simp add: to64_quad_def Let_def)
qed

text \<open>One group of the decoder undoes one group of the encoder, also after a line break.\<close>

lemma from64_group_quad:
  assumes "length bs \<le> 3"
  shows "from64_group 0 (to64_quad bs @ rest) [] = (sextets bs, rest, False)"
proof -
  obtain ks where ks: "sextets bs = map int ks" "\<forall>k \<in> set ks. k < 64" "length ks = length bs + 1"
    "to64_quad bs = map ((!) B64CH) ks @ replicate (3 - length bs) CHR ''=''"
    by (rule to64_quad_sextets)
  show ?thesis
    using assms ks(2,3) unfolding ks(1,4)
    by (simp add: from64_group_values from64_group_pads)
qed

lemma sextets_nonempty [simp]: "sextets bs \<noteq> []"
  by (simp add: sextets_def)

lemma from64_loop_quad:
  assumes "bs \<noteq> []" "length bs \<le> 3"
  shows "from64_loop (to64_quad bs @ rest) = apfst ((@) bs) (from64_loop rest)"
  by (subst from64_loop.simps)
    (simp add: from64_group_quad assms from64_bytes_sextets apfst_def map_prod_def)

lemma from64_loop_LF: "from64_loop (LF # rest) = from64_loop rest"
  by (subst (1 2) from64_loop.simps) (simp add: from64_group_LF)

lemma from64_loop_Nil [simp]: "from64_loop [] = ([], [])"
  by (simp add: from64_loop.simps from64_group.simps)

text \<open>What \<open>leng\<close> leaves of the input once \<open>icc\<close> bytes are read; 0 is no limit.\<close>

definition limited :: "nat \<Rightarrow> nat \<Rightarrow> string \<Rightarrow> string" where
  "limited leng icc inp = (if 0 < leng then take (leng - icc) inp else inp)"

lemma to64_get3_limited:
  assumes "to64_get3 k leng icc inp acc = (bs, inp', icc', eof)"
  shows "bs = acc @ take k (limited leng icc inp) \<and> eof = (length (limited leng icc inp) < k)
    \<and> (\<not> eof \<longrightarrow> limited leng icc' inp' = drop k (limited leng icc inp))"
  using assms
proof (induction k leng icc inp acc arbitrary: bs inp' icc' eof rule: to64_get3.induct)
  case (2 k leng icc inp acc)
  show ?case
  proof (cases inp)
    case Nil
    with 2(2) show ?thesis by (auto simp: limited_def split: if_splits)
  next
    case (Cons c cs)
    have icc: "limited leng (if 0 < leng then icc + 1 else icc) cs = tl (limited leng icc inp)"
      and ne: "\<not> (0 < leng \<and> leng < icc + 1) \<Longrightarrow> limited leng icc inp = c # tl (limited leng icc inp)"
      using Cons by (auto simp: limited_def take_Cons' drop_Suc [symmetric] Suc_diff_le)
    show ?thesis
    proof (cases "0 < leng \<and> leng < icc + 1")
      case True
      with 2(2) Cons show ?thesis by (auto simp: limited_def)
    next
      case False
      with 2(2) Cons have "to64_get3 k leng (if 0 < leng then icc + 1 else icc) cs (acc @ [c])
          = (bs, inp', icc', eof)"
        by (auto simp: Let_def split: if_splits)
      from 2(1) [OF refl _ Cons this] False have "bs = (acc @ [c]) @ take k (tl (limited leng icc inp))
        \<and> eof = (length (tl (limited leng icc inp)) < k)
        \<and> (\<not> eof \<longrightarrow> limited leng icc' inp' = drop k (tl (limited leng icc inp)))"
        by (auto simp: icc [simplified] split: if_splits)
      with ne [OF False] show ?thesis by (metis Suc_less_eq append_Cons append_assoc append_Nil
          drop_Suc_Cons length_Cons take_Suc_Cons)
    qed
  qed
qed auto

lemma from64_to64_loop: "from64_loop (to64_loop leng icc ocol inp) = (limited leng icc inp, [])"
proof (induction leng icc ocol inp rule: to64_loop.induct)
  case (1 leng icc ocol inp)
  obtain bs inp' icc' eof where g: "to64_get3 3 leng icc inp [] = (bs, inp', icc', eof)"
    using prod_cases4 by blast
  let ?lim = "limited leng icc inp"
  have bs: "bs = take 3 ?lim" and eof: "eof = (length ?lim < 3)"
    and more: "\<not> eof \<Longrightarrow> limited leng icc' inp' = drop 3 ?lim"
    using to64_get3_limited [OF g] by auto
  show ?case
  proof (cases "bs = []")
    case True
    then show ?thesis using bs by (subst to64_loop.simps) (simp add: g from64_loop_LF)
  next
    case False
    have len: "length bs \<le> 3" using bs by simp
    have IH: "\<not> eof \<Longrightarrow> from64_loop (to64_loop leng icc' (if 71 < ocol then 4 else ocol + 4) inp')
        = (drop 3 ?lim, [])"
      using 1 [OF g [symmetric] refl refl False refl refl] more by auto
    have "to64_loop leng icc ocol inp = (if 71 < ocol then [LF] else []) @ to64_quad bs
        @ (if eof then [LF] else to64_loop leng icc' (if 71 < ocol then 4 else ocol + 4) inp')"
      using False by (subst to64_loop.simps) (simp add: g Let_def)
    moreover have "?lim = bs @ drop 3 ?lim" by (simp add: bs)
    ultimately show ?thesis
      using IH eof False len by (auto simp: from64_loop_LF from64_loop_quad)
  qed
qed

text \<open>
  C11: decoding what \<open>MIME_to64X\<close> wrote gives back the input (its first \<open>leng\<close> bytes where a
  limit is set), whatever bytes it holds, and leaves nothing unread.
\<close>

theorem base64_roundtrip:
  "MIME_from64 (MIME_to64X inp leng) = (if 0 < leng then take leng inp else inp, [])"
  by (simp add: MIME_from64_def MIME_to64X_def from64_to64_loop limited_def)

subsection \<open>The Base64 round trip in buffers\<close>

definition b64_char :: "char \<Rightarrow> bool" where
  "b64_char c \<longleftrightarrow> 0 \<le> sc c \<and> B64IX c \<noteq> NON64"

lemma B64tostr_group_eq:
  "list_all b64_char inp \<Longrightarrow> B64tostr_group ii inp vals = Some (from64_group ii inp vals)"
proof (induction ii inp vals rule: from64_group.induct)
  case (1 ii inp vals)
  show ?case
    using 1 by (subst B64tostr_group.simps, subst from64_group.simps)
      (auto simp: b64_char_def Let_def split: list.splits)
qed

lemma from64_group_rest: "\<exists>k. fst (snd (from64_group ii inp vals)) = drop k inp"
proof (induction ii inp vals rule: from64_group.induct)
  case (1 ii inp vals)
  show ?case
  proof (cases "4 \<le> ii \<or> inp = []")
    case True
    then show ?thesis by (subst from64_group.simps) (auto intro: exI [of _ 0])
  next
    case False
    then obtain c cs where c: "inp = c # cs" by (cases inp) auto
    let ?r = "\<lambda>t. fst (snd t)"
    have step: "\<exists>k. ?r t = drop k inp" if "\<exists>j. ?r t = drop j cs" for t :: "int list \<times> string \<times> bool"
      using that c by (metis drop_Suc_Cons)
    have "\<exists>k. inp = drop k inp" by (rule exI [of _ 0]) simp
    then show ?thesis
      using 1(1,2,3) [OF _ c refl, THEN step] False c
      by (subst from64_group.simps) (simp add: Let_def)
  qed
qed

lemma B64tostr_loop_eq: "list_all b64_char inp \<Longrightarrow> B64tostr_loop inp = Some (fst (from64_loop inp))"
proof (induction inp rule: from64_loop.induct)
  case (1 inp)
  obtain vals inp' eof where g: "from64_group 0 inp [] = (vals, inp', eof)"
    using prod_cases3 by blast
  obtain k where "inp' = drop k inp" using from64_group_rest [of 0 inp "[]"] g by auto
  then have "list_all b64_char inp'" using 1(2) by (auto simp: list_all_iff dest: in_set_dropD)
  then have IH: "vals \<noteq> [] \<Longrightarrow> \<not> eof \<Longrightarrow> B64tostr_loop inp' = Some (fst (from64_loop inp'))"
    using 1(1) g by auto
  show ?case
  proof (cases "inp = []")
    case True then show ?thesis by (simp add: B64tostr_loop.simps)
  next
    case False
    then show ?thesis using IH B64tostr_group_eq [OF 1(2), of 0 "[]"]
      by (subst B64tostr_loop.simps, subst from64_loop.simps) (simp add: g split: prod.split)
  qed
qed

lemma to64_quad_b64_chars: "list_all b64_char (to64_quad bs)"
proof -
  obtain ks where ks: "\<forall>k \<in> set ks. k < 64"
    "to64_quad bs = map ((!) B64CH) ks @ replicate (3 - length bs) CHR ''=''"
    by (rule to64_quad_sextets)
  have "b64_char CHR ''=''"
    by (simp add: b64_char_def B64IX_marks PADDCH_def NON64_def sc_def uc_def)
  then show ?thesis using ks B64CH_not_signed B64IX_B64CH
    by (auto simp: list_all_iff b64_char_def NON64_def)
qed

lemma b64_char_LF: "b64_char LF"
  by (simp add: b64_char_def B64IX_marks WHITE_def NON64_def sc_def uc_def)

lemma strtoB64_loop_facts:
  "from64_loop (strtoB64_loop str ocol nl) = (str, []) \<and> list_all b64_char (strtoB64_loop str ocol nl)
   \<and> length (strtoB64_loop str ocol nl) \<le> 5 * ((length str + 2) div 3) + 1"
proof (induction str ocol nl rule: strtoB64_loop.induct)
  case (1 str ocol nl)
  show ?case
  proof (cases "str = []")
    case True
    then show ?thesis by (subst (1 2 3) strtoB64_loop.simps) (simp add: from64_loop_LF b64_char_LF)
  next
    case False
    let ?bs = "take 3 str" and ?rest = "strtoB64_loop (drop 3 str) (if 71 < ocol then 4 else ocol + 4) nl"
    have e: "strtoB64_loop str ocol nl = (if 71 < ocol \<and> nl then [LF] else []) @ to64_quad ?bs @ ?rest"
      using False by (subst strtoB64_loop.simps) simp
    have IH: "from64_loop ?rest = (drop 3 str, [])" "list_all b64_char ?rest"
      "length ?rest \<le> 5 * ((length (drop 3 str) + 2) div 3) + 1"
      using 1 [OF False refl refl refl] by auto
    have q: "length (to64_quad ?bs) = 4" by (simp add: to64_quad_def Let_def)
    have "5 * ((length (drop 3 str) + 2) div 3) + 5 = 5 * ((length str + 2) div 3)"
      if "3 \<le> length str"
    proof -
      have "(length str - 3 + 2) div 3 + 1 = (length str - 3 + 2 + 3) div 3" by simp
      then show ?thesis using that by (simp add: algebra_simps)
    qed
    moreover have "(length str + 2) div 3 = 1" if "length str < 3"
    proof -
      have "length str = 1 \<or> length str = 2" using that False length_0_conv [of str] by linarith
      then show ?thesis by auto
    qed
    ultimately have "length (strtoB64_loop str ocol nl) \<le> 5 * ((length str + 2) div 3) + 1"
      using IH(3) q unfolding e by (cases "3 \<le> length str") auto
    then show ?thesis
      using IH(1,2) False from64_loop_quad [of ?bs ?rest] unfolding e
      by (auto simp: from64_loop_LF b64_char_LF to64_quad_b64_chars simp del: strtoB64_loop.simps)
  qed
qed

lemma b64_chars_nonul: "list_all b64_char s \<Longrightarrow> nonul s"
proof -
  have "\<not> b64_char NUL" by (simp add: b64_char_def B64IX_marks)
  then show "list_all b64_char s \<Longrightarrow> ?thesis" by (auto simp: list_all_iff nonul_def)
qed

text \<open>
  A string encoded by \<open>strtoB64\<close> into a buffer that is large enough, with or without
  line breaks, and decoded by \<open>B64tostr\<close> from there is the string again, cut only by the
  size of the destination; neither call touches a byte outside its buffer.
\<close>

theorem B64_buffer_roundtrip:
  fixes withnl :: bool
  assumes "nonul str" and "slen = length str" and "5 * ((slen + 2) div 3) + 1 < n" and "0 < m"
  defines "enc \<equiv> fst (strtoB64 str slen (new_vstr n) withnl)"
  shows "\<not> vbad enc \<and> (\<exists>dec len. B64tostr (cstr (vmem enc)) (length (cstr (vmem enc))) (new_vstr m)
      = Some (dec, len) \<and> cstr (vmem dec) = take (m - 1) str \<and> \<not> vbad dec)"
proof -
  let ?l = "strtoB64_loop str 0 withnl"
  have l: "from64_loop ?l = (str, [])" "list_all b64_char ?l" "length ?l < n"
    using strtoB64_loop_facts [of str 0 withnl] assms(2,3) by auto
  have w: "vwrote n (new_vstr n) []" "vwrote m (new_vstr m) []"
    using assms(3,4) by (auto intro: vwrote_new)
  have enc: "enc = setVStrEnd (vputs (new_vstr n) ?l) 0"
    by (simp add: enc_def strtoB64_def Let_def assms(2))
  have ok: "\<not> vbad (setVStrEnd (vputs (new_vstr k) t) 0)" if "vwrote k (new_vstr k) []" for k t
    using vok_setVStrEnd [OF vputs_ok [OF that, of t], of 0] vputs_pos [OF that, of t]
    by (simp add: vok_def)
  have "cstr (vmem enc) = ?l"
    unfolding enc vputs_text [OF w(1) b64_chars_nonul [OF l(2)]] using l(3) by simp
  then show ?thesis
    using ok [OF w(1)] ok [OF w(2)] vputs_text [OF w(2) assms(1)] l(1) B64tostr_loop_eq [OF l(2)]
    by (simp add: enc B64tostr_def Let_def)
qed

theorem B64_buffer_roundtrip_witness:
  "\<not> vbad (fst (strtoB64 ''Aladdin:open'' 12 (new_vstr 40) True)) \<and>
   (\<exists>dec len. B64tostr (cstr (vmem (fst (strtoB64 ''Aladdin:open'' 12 (new_vstr 40) True))))
      (length (cstr (vmem (fst (strtoB64 ''Aladdin:open'' 12 (new_vstr 40) True))))) (new_vstr 20)
      = Some (dec, len) \<and> cstr (vmem dec) = ''Aladdin:open'' \<and> \<not> vbad dec)"
  using B64_buffer_roundtrip [of "''Aladdin:open''" 12 40 20 True] by simp

text \<open>
  \<open>B64tostr\<close> uses the signed character as its table index: an encoded text that starts
  with a byte of 0x80 or more is read outside of \<^verbatim>\<open>B64IX\<close> (the model has no result).
\<close>

theorem B64tostr_signed_index:
  "sc c < 0 \<Longrightarrow> 0 < n \<Longrightarrow> B64tostr (c # s) n v = None"
  by (cases n) (simp_all add: B64tostr_def B64tostr_loop.simps B64tostr_group.simps)

theorem B64tostr_signed_index_witness: "B64tostr (CHR 0xE9 # ''QUJD'') 5 (new_vstr 16) = None"
  using B64tostr_signed_index [of "CHR 0xE9" 5 "''QUJD''" "new_vstr 16"]
  by (simp add: sc_def uc_def)

subsection \<open>Quoted-Printable: round trip and line length\<close>

lemma hexd_digit:
  "k < 16 \<Longrightarrow> isxdigit (hexd ! k) \<and> hexd ! k \<noteq> LF \<and> hexd ! k \<noteq> CR \<and> xdig (hexd ! k) = int k"
proof -
  have "list_all (\<lambda>k. isxdigit (hexd ! k) \<and> hexd ! k \<noteq> LF \<and> hexd ! k \<noteq> CR
      \<and> xdig (hexd ! k) = int k) [0..<16]" by code_simp
  then show "k < 16 \<Longrightarrow> ?thesis" by (auto simp: list_all_iff)
qed

lemma qp_esc_decode: "MIME_fromQP (qp_esc c @ s) = c # MIME_fromQP s"
proof -
  have lt: "uc c div 16 mod 16 < 16" "uc c mod 16 < 16" by simp_all
  have "uc c div 16 mod 16 = uc c div 16" using uc_less [of c]
    by (simp add: less_mult_imp_div_less)
  then have "int (uc c div 16 mod 16) * 16 + int (uc c mod 16) = int (uc c)"
    by (metis div_mult_mod_eq of_nat_add of_nat_mult of_nat_numeral)
  then have "byte (int (uc c div 16 mod 16) * 16 + int (uc c mod 16)) = c" by (simp only: byte_uc)
  then show ?thesis using hexd_digit [OF lt(1)] hexd_digit [OF lt(2)]
    by (simp add: qp_esc_def Let_def del: zmod_int of_nat_mod)
qed

lemma fromQP_soft_break: "MIME_fromQP (CHR ''='' # LF # s) = MIME_fromQP s"
  by simp

lemma fromQP_plain: "c \<noteq> CHR ''='' \<Longrightarrow> MIME_fromQP (c # s) = c # MIME_fromQP s"
  by simp

lemma fromQP_toQP_loop:
  "qpix ! uc CHR ''='' \<Longrightarrow> MIME_fromQP (toQP_loop qpix ocol s) = s"
proof (induction qpix ocol s rule: toQP_loop.induct)
  case (1 qpix ocol)
  then show ?case by simp
next
  case (2 qpix ocol ich inp)
  have one: "MIME_fromQP ((if qpix ! uc ich \<or> ocol = 0 \<and> ich = CHR ''.'' then qp_esc ich else [ich]) @ t)
      = ich # MIME_fromQP t" for t
  proof (cases "ich = CHR ''=''")
    case True
    then show ?thesis using 2(3) by (simp add: qp_esc_decode)
  next
    case False
    then show ?thesis by (simp add: qp_esc_decode)
  qed
  define col where "col = (if qpix ! uc ich \<or> ocol = 0 \<and> ich = CHR ''.'' then ocol + 3
      else if ich = LF then 0 else ocol + 1)"
  have IH: "72 < col \<Longrightarrow> MIME_fromQP (toQP_loop qpix 0 inp) = inp"
    "\<not> 72 < col \<Longrightarrow> MIME_fromQP (toQP_loop qpix col inp) = inp"
    using 2(1,2) [OF refl refl refl] 2(3) unfolding col_def by blast+
  show ?case
  proof (cases "72 < col")
    case True
    then show ?thesis using IH(1)
      by (simp only: toQP_loop.simps Let_def col_def [symmetric] one if_True append_Cons append_Nil
          fromQP_soft_break)
  next
    case False
    then show ?thesis using IH(2) [OF False]
      by (simp only: toQP_loop.simps Let_def col_def [symmetric] one if_False)
  qed
qed

text \<open>The column after each character, against a bound on the length of every line.\<close>

fun lines_within :: "nat \<Rightarrow> nat \<Rightarrow> string \<Rightarrow> bool" where
  "lines_within w col [] \<longleftrightarrow> col \<le> w"
| "lines_within w col (c # s) \<longleftrightarrow>
     (if c = LF then col \<le> w \<and> lines_within w 0 s else lines_within w (col + 1) s)"

lemma lines_within_append:
  "LF \<notin> set s \<Longrightarrow> lines_within w col (s @ t) = lines_within w (col + length s) t"
  by (induction s arbitrary: col) auto

lemma hexd_not_LF: "LF \<notin> set (qp_esc c)"
  using hexd_digit [of "uc c div 16 mod 16"] hexd_digit [of "uc c mod 16"]
  by (auto simp: qp_esc_def dest: sym)

lemma toQP_loop_width: "ocol \<le> 72 \<Longrightarrow> lines_within 76 ocol (toQP_loop qpix ocol s)"
proof (induction qpix ocol s rule: toQP_loop.induct)
  case (2 qpix ocol ich inp)
  define esc where "esc = (qpix ! uc ich \<or> ocol = 0 \<and> ich = CHR ''.'')"
  define col where "col = (if esc then ocol + 3 else if ich = LF then 0 else ocol + 1)"
  have IH: "72 < col \<Longrightarrow> lines_within 76 0 (toQP_loop qpix 0 inp)"
    "\<not> 72 < col \<Longrightarrow> lines_within 76 col (toQP_loop qpix col inp)"
    using 2(1,2) [OF refl refl refl, folded esc_def, folded col_def] by auto
  have out: "lines_within 76 ocol ((if esc then qp_esc ich else [ich]) @ t) = lines_within 76 col t" for t
    using 2(3) by (simp add: lines_within_append [OF hexd_not_LF] col_def, simp add: qp_esc_def numeral_3_eq_3)
  have col: "col \<le> 75" using 2(3) by (auto simp: col_def)
  have e: "toQP_loop qpix ocol (ich # inp) = (if esc then qp_esc ich else [ich]) @
      (if 72 < col then CHR ''='' # LF # toQP_loop qpix 0 inp else toQP_loop qpix col inp)"
    by (simp add: Let_def flip: esc_def col_def)
  show ?case unfolding e out using IH col by simp
qed simp

text \<open>
  No line of the Quoted-Printable encoder's output is longer than the 76 characters of
  RFC 2045, the soft line break included.
\<close>

theorem QP_line_width: "lines_within 76 0 (MIME_toQP qpix inp)"
  by (simp add: MIME_toQP_def toQP_loop_width)

lemma to64_quad_plain: "LF \<notin> set (to64_quad bs)" 
proof -
  obtain ks where "\<forall>k \<in> set ks. k < 64"
    "to64_quad bs = map ((!) B64CH) ks @ replicate (3 - length bs) CHR ''=''"
    by (rule to64_quad_sextets)
  then show ?thesis using B64IX_B64CH B64IX_marks(2) by (auto simp: WHITE_def)
qed

lemma to64_loop_width:
  "ocol \<le> 72 \<Longrightarrow> ocol mod 4 = 0 \<Longrightarrow> lines_within 72 ocol (to64_loop leng icc ocol inp)"
proof (induction leng icc ocol inp rule: to64_loop.induct)
  case (1 leng icc ocol inp)
  obtain bs inp' icc' eof where g: "to64_get3 3 leng icc inp [] = (bs, inp', icc', eof)"
    using prod_cases4 by blast
  let ?col = "(if 71 < ocol then 0 else ocol) + 4"
  have bs: "bs \<noteq> [] \<Longrightarrow> length (to64_quad bs) = 4"
    using to64_get3_limited [OF g] by (simp add: to64_quad_def Let_def)
  have col: "?col \<le> 72" "?col mod 4 = 0" using 1(2,3) by auto
  have IH: "lines_within 72 ?col (to64_loop leng icc' ?col inp')" if "bs \<noteq> []" "\<not> eof"
    by (rule 1(1) [OF g [symmetric] refl refl that(1) refl refl that(2) col])
  show ?case
    using bs IH col 1(2)
    by (subst to64_loop.simps) (auto simp: g Let_def lines_within_append [OF to64_quad_plain])
qed

text \<open>No line of the Base64 encoder's output is longer than 72 characters.\<close>

theorem base64_line_width: "lines_within 72 0 (MIME_to64X inp leng)"
  by (simp add: MIME_to64X_def to64_loop_width)

lemma setQP_fold_None: "foldl (\<lambda>t ch. Option.bind t (\<lambda>t. set_QPIX t ch)) None qs = None"
  by (induction qs) simp_all

lemma setQP_fold:
  "t ! uc CHR ''='' \<Longrightarrow> length t = 256 \<Longrightarrow>
   (case foldl (\<lambda>t ch. Option.bind t (\<lambda>t. set_QPIX t ch)) (Some t) qs of
      None \<Rightarrow> list_ex (\<lambda>c. sc c < 0) qs
    | Some t' \<Rightarrow> \<not> list_ex (\<lambda>c. sc c < 0) qs \<and> t' ! uc CHR ''='')"
proof (induction qs arbitrary: t)
  case (Cons q qs)
  show ?case
  proof (cases "sc q < 0")
    case True
    then have "set_QPIX t q = None" by (simp add: set_QPIX_def)
    then show ?thesis using True by (simp add: setQP_fold_None)
  next
    case False
    then have q: "set_QPIX t q = Some (t[nat (sc q) := True])" by (simp add: set_QPIX_def)
    have "t[nat (sc q) := True] ! uc CHR ''=''" using Cons.prems
      by (cases "nat (sc q) = uc CHR ''=''") simp_all
    with Cons.IH [of "t[nat (sc q) := True]"] Cons.prems(2) False show ?thesis by (simp add: q split: option.splits)
  qed
qed simp

text \<open>
  C25: setting the additional characters to escape either stores in front of the table, which is when
  one of them is a byte of 0x80 or more, or gives a table with which decoding what the
  Quoted-Printable encoder wrote gives back every byte of the input.
\<close>

theorem QP_roundtrip:
  "case MIME_setQP qpchars of
     None \<Rightarrow> list_ex (\<lambda>c. sc c < 0) qpchars
   | Some qpix \<Rightarrow> \<not> list_ex (\<lambda>c. sc c < 0) qpchars \<and> MIME_fromQP (MIME_toQP qpix inp) = inp"
proof -
  have "init_QP ! uc CHR ''=''" "length init_QP = 256" by (simp_all add: init_QP_def)
  from setQP_fold [OF this, of qpchars] show ?thesis
    by (auto simp: MIME_setQP_def MIME_toQP_def fromQP_toQP_loop split: option.splits)
qed

end
