(* ===== verification/ListScan.thy ===== *)
theory ListScan
  imports VStr
begin

section \<open>ListScan: scanning configuration lists (\<open>rary/String.cpp\<close>)\<close>

text \<open>
  \<^verbatim>\<open>scan_ListX\<close> cuts a list such as \<^verbatim>\<open>a,{b,c},d\<close> at a separator and calls a function on
  each element: access lists, mount tables and options are all read through it. It works
  in place on a copy of the list (or on the list itself): escaping backslashes are removed
  by shifting the rest of the string, and separators and the outer braces of an element are
  overwritten by NUL. The model keeps the bytes before the scanning pointer of the current
  element in \<open>acc\<close> and those after it in the rest, so that the element the callback sees is
  the C string at \<^verbatim>\<open>lp\<close> in that memory. The separator is never NUL.
\<close>

subsection \<open>One element\<close>

text \<open>
  \<open>inq\<close> is \<^verbatim>\<open>in_quote\<close> (NUL for 0), \<open>lpo\<close> the number of times \<^verbatim>\<open>lp\<close> was advanced. The
  result: the bytes up to \<^verbatim>\<open>np\<close>, the rest, \<open>lpo\<close>, \<open>inq\<close>, and whether the end was reached
  (\<^verbatim>\<open>cch == 0\<close>).
\<close>

fun scan_elem :: "char \<Rightarrow> bool \<Rightarrow> bool \<Rightarrow> char \<Rightarrow> int \<Rightarrow> nat \<Rightarrow> nat \<Rightarrow> string \<Rightarrow> string
    \<Rightarrow> string \<times> string \<times> nat \<times> char \<times> bool" where
  "scan_elem sep ro care inq lev npa lpo acc [] = (acc, [], lpo, inq, True)"
| "scan_elem sep ro care inq lev npa lpo acc (cch # r) =
     (if care \<and> inq \<noteq> NUL then
        scan_elem sep ro care (if cch = inq then NUL else inq) lev npa lpo (acc @ [cch]) r
      else if care \<and> cch = DQ then
        scan_elem sep ro care cch lev npa lpo (acc @ [cch]) r
      else if cch = BSL then
        (case r of
           nch # r' \<Rightarrow>
             if nch = sep \<or> nch = CHR ''{'' \<or> nch = CHR ''}''
             then scan_elem sep ro care inq lev npa lpo (acc @ [nch]) r'
             else scan_elem sep ro care inq lev npa lpo (acc @ [cch]) r
         | [] \<Rightarrow> scan_elem sep ro care inq lev npa lpo (acc @ [cch]) r)
      else if cch = CHR ''{'' then
        scan_elem sep ro care inq (lev + 1) npa lpo (acc @ [cch]) r
      else if cch = CHR ''}'' then
        (let lev' = lev - 1;
             open1 = (lev' = 0 \<and> hd0 (drop lpo (acc @ cch # r)) = CHR ''{'');
             npa' = (if open1 then npa + 1 else npa)
         in if open1 \<and> npa = 0 \<and> (hd0 r = sep \<or> r = [])
            then scan_elem sep ro care inq lev' npa' (lpo + 1) (acc @ [if ro then cch else NUL]) r
            else scan_elem sep ro care inq lev' npa' lpo (acc @ [cch]) r)
      else if lev = 0 \<and> cch = sep then (acc @ [if ro then cch else NUL], r, lpo, inq, False)
      else scan_elem sep ro care inq lev npa lpo (acc @ [cch]) r)"

declare scan_elem.simps(2) [simp del]

text \<open>The branches, as rewrite rules.\<close>

definition quoting :: "bool \<Rightarrow> char \<Rightarrow> char \<Rightarrow> bool" where
  "quoting care inq cch \<longleftrightarrow> care \<and> (inq \<noteq> NUL \<or> cch = DQ)"

lemma scan_elem_quoted:
  "quoting care inq cch \<Longrightarrow> scan_elem sep ro care inq lev npa lpo acc (cch # r) =
     scan_elem sep ro care (if inq = NUL then cch else if cch = inq then NUL else inq) lev npa lpo
       (acc @ [cch]) r"
  by (auto simp: scan_elem.simps(2) quoting_def)

lemma scan_elem_escape:
  "\<not> quoting care inq BSL \<Longrightarrow> nch = sep \<or> nch = CHR ''{'' \<or> nch = CHR ''}'' \<Longrightarrow>
   scan_elem sep ro care inq lev npa lpo acc (BSL # nch # r) =
     scan_elem sep ro care inq lev npa lpo (acc @ [nch]) r"
  by (auto simp: scan_elem.simps(2) quoting_def)

lemma scan_elem_backslash:
  "\<not> quoting care inq BSL \<Longrightarrow>
   r = [] \<or> hd r \<noteq> sep \<and> hd r \<noteq> CHR ''{'' \<and> hd r \<noteq> CHR ''}'' \<Longrightarrow>
   scan_elem sep ro care inq lev npa lpo acc (BSL # r) =
     scan_elem sep ro care inq lev npa lpo (acc @ [BSL]) r"
  by (cases r) (auto simp: scan_elem.simps(2) [of _ _ _ _ _ _ _ _ BSL] quoting_def)

lemma scan_elem_open:
  "\<not> quoting care inq CHR ''{'' \<Longrightarrow> scan_elem sep ro care inq lev npa lpo acc (CHR ''{'' # r) =
     scan_elem sep ro care inq (lev + 1) npa lpo (acc @ ''{'') r"
  by (auto simp: scan_elem.simps(2) quoting_def)

lemma scan_elem_close_outer:
  "\<not> quoting care inq CHR ''}'' \<Longrightarrow> hd0 (drop lpo (acc @ CHR ''}'' # r)) = CHR ''{'' \<Longrightarrow>
   hd0 r = sep \<or> r = [] \<Longrightarrow>
   scan_elem sep ro care inq 1 0 lpo acc (CHR ''}'' # r) =
     scan_elem sep ro care inq 0 1 (lpo + 1) (acc @ [if ro then CHR ''}'' else NUL]) r"
  by (auto simp: scan_elem.simps(2) quoting_def Let_def)

lemma scan_elem_close_inner:
  "\<not> quoting care inq CHR ''}'' \<Longrightarrow> lev \<noteq> 1 \<Longrightarrow>
   scan_elem sep ro care inq lev npa lpo acc (CHR ''}'' # r) =
     scan_elem sep ro care inq (lev - 1) npa lpo (acc @ ''}'') r"
  by (auto simp: scan_elem.simps(2) quoting_def Let_def)

lemma scan_elem_sep:
  "\<not> quoting care inq sep \<Longrightarrow> sep \<notin> {BSL, CHR ''{'', CHR ''}''} \<Longrightarrow>
   scan_elem sep ro care inq 0 npa lpo acc (sep # r) =
     (acc @ [if ro then sep else NUL], r, lpo, inq, False)"
  by (auto simp: scan_elem.simps(2) quoting_def)

lemma scan_elem_plain:
  "\<not> quoting care inq cch \<Longrightarrow> cch \<notin> {BSL, CHR ''{'', CHR ''}''} \<Longrightarrow> lev \<noteq> 0 \<or> cch \<noteq> sep \<Longrightarrow>
   scan_elem sep ro care inq lev npa lpo acc (cch # r) =
     scan_elem sep ro care inq lev npa lpo (acc @ [cch]) r"
  by (auto simp: scan_elem.simps(2) quoting_def)

lemma scan_elem_close_any:
  "\<not> quoting care inq CHR ''}'' \<Longrightarrow> \<exists>npa' lpo' c.
   scan_elem sep ro care inq lev npa lpo acc (CHR ''}'' # r) =
     scan_elem sep ro care inq (lev - 1) npa' lpo' (acc @ [c]) r \<and> (c = CHR ''}'' \<or> c = NUL)"
  by (simp add: scan_elem.simps(2) quoting_def Let_def) blast

lemma scan_elem_step:
  "(\<exists>c l i. scan_elem sep ro care inq lev npa lpo acc (cch # r) = (acc @ [c], r, l, i, False) \<and> (c = cch \<or> c = NUL)) \<or>
   (\<exists>inq' lev' npa' lpo' c r'. 
      scan_elem sep ro care inq lev npa lpo acc (cch # r)
      = scan_elem sep ro care inq' lev' npa' lpo' (acc @ [c]) r'
      \<and> (r' = r \<or> r' = tl r) \<and> c \<in> {cch, NUL} \<union> set r)"
proof -
  consider "quoting care inq cch" | "\<not> quoting care inq cch" "cch = BSL"
    | "\<not> quoting care inq cch" "cch = CHR ''{''" | "\<not> quoting care inq cch" "cch = CHR ''}''"
    | "\<not> quoting care inq cch" "cch \<notin> {BSL, CHR ''{'', CHR ''}''}" by blast
  then show ?thesis
  proof cases
    case 1
    show ?thesis unfolding scan_elem_quoted [OF 1] by (rule disjI2, intro exI conjI, rule refl) simp_all
  next
    case 2
    show ?thesis
    proof (cases "r = [] \<or> hd r \<noteq> sep \<and> hd r \<noteq> CHR ''{'' \<and> hd r \<noteq> CHR ''}''")
      case True
      show ?thesis unfolding scan_elem_backslash [OF 2(1) [unfolded 2(2)] True] 2(2)
        by (rule disjI2, intro exI conjI, rule refl) simp_all
    next
      case False
      then obtain n r1 where r: "r = n # r1" "n = sep \<or> n = CHR ''{'' \<or> n = CHR ''}''" by (cases r) auto
      show ?thesis unfolding r(1) 2(2) scan_elem_escape [OF 2(1) [unfolded 2(2)] r(2)]
        by (rule disjI2, intro exI conjI, rule refl) simp_all
    qed
  next
    case 3
    show ?thesis unfolding 3(2) scan_elem_open [OF 3(1) [unfolded 3(2)]]
      by (rule disjI2, intro exI conjI, rule refl) simp_all
  next
    case 4
    obtain npa2 lpo2 d where d: "scan_elem sep ro care inq lev npa lpo acc (CHR ''}'' # r) =
        scan_elem sep ro care inq (lev - 1) npa2 lpo2 (acc @ [d]) r" "d = CHR ''}'' \<or> d = NUL"
      using scan_elem_close_any [OF 4(1) [unfolded 4(2)]] by blast
    show ?thesis unfolding 4(2) d(1) by (rule disjI2, intro exI conjI, rule refl) (use d(2) in auto)
  next
    case 5
    show ?thesis
    proof (cases "lev \<noteq> 0 \<or> cch \<noteq> sep")
      case True
      show ?thesis unfolding scan_elem_plain [OF 5 True] by (rule disjI2, intro exI conjI, rule refl) simp_all
    next
      case False
      then have c: "lev = 0" "cch = sep" by auto
      show ?thesis unfolding c scan_elem_sep [OF 5 [unfolded c(2)]] by (rule disjI1, intro exI conjI, rule refl) simp
    qed
  qed
qed

lemma scan_elem_rest:
  "length (fst (snd (scan_elem sep ro care inq lev npa lpo acc r))) \<le> length r - 1"
proof (induction r arbitrary: inq lev npa lpo acc rule: length_induct)
  case (1 r)
  show ?case
  proof (cases r)
    case (Cons c r1)
    from scan_elem_step [of sep ro care inq lev npa lpo acc c r1] show ?thesis
    proof (rule disjE; elim exE conjE)
      fix inq' lev' npa' lpo' d r'
      assume "r' = r1 \<or> r' = tl r1" and
        e: "scan_elem sep ro care inq lev npa lpo acc (c # r1)
          = scan_elem sep ro care inq' lev' npa' lpo' (acc @ [d]) r'"
      then have "length r' < length r" "length r' - 1 \<le> length r - 1" using Cons by auto
      with 1 show ?thesis unfolding Cons e by (metis Cons le_trans)
    qed (use Cons in simp)
  qed simp
qed

lemma scan_elem_shrinks:
  "scan_elem sep ro care inq lev npa lpo acc r = (acc', r', lpo', inq', fin) \<Longrightarrow> r \<noteq> [] \<Longrightarrow>
   length r' < length r"
  using scan_elem_rest [of sep ro care inq lev npa lpo acc r] by (cases r) auto

subsection \<open>The list\<close>

text \<open>
  The callback gets the element and the start of the next one (\<^verbatim>\<open>SLNEP\<close>), and may stop the
  scan with a non-zero code. In the volatile mode that start is computed in the original
  list at the offset reached in the copy (\<open>base\<close>).
\<close>

type_synonym 's scanListFunc = "'s \<Rightarrow> string \<Rightarrow> string option \<Rightarrow> int \<times> 's"

function scan_list_loop :: "char \<Rightarrow> bool \<Rightarrow> bool \<Rightarrow> string option \<Rightarrow> 's scanListFunc option \<Rightarrow> nat
    \<Rightarrow> char \<Rightarrow> int \<Rightarrow> 's \<Rightarrow> string \<Rightarrow> int \<times> 's" where
  "scan_list_loop sep ro care vola func base inq nelm st rest =
     (if rest = [] then (if func = None then nelm else 0, st)
      else case scan_elem sep ro care inq 0 0 0 [] rest of (acc, rest', lpo, inq', fin) \<Rightarrow>
        let base' = base + length acc;
            slnep = (if fin then None
                     else Some (case vola of Some alist \<Rightarrow> drop base' alist | None \<Rightarrow> rest'));
            elm = cstr (drop lpo (acc @ rest'))
        in case func of
             None \<Rightarrow> scan_list_loop sep ro care vola func base' inq' (nelm + 1) st rest'
           | Some f \<Rightarrow>
               (case f st elm slnep of (rcode, st') \<Rightarrow>
                  if rcode \<noteq> 0 then (rcode, st')
                  else scan_list_loop sep ro care vola func base' inq' (nelm + 1) st' rest'))"
  by pat_completeness auto
termination
  by (relation "measure (\<lambda>(sep, ro, care, vola, func, base, inq, nelm, st, rest). length rest)")
    (auto dest!: scan_elem_shrinks [OF sym])

declare scan_list_loop.simps [simp del]

definition STR_VOLA :: nat where "STR_VOLA = 0"
definition STR_ALLOC :: nat where "STR_ALLOC = 1"
definition STR_OVWR :: nat where "STR_OVWR = 2"
definition STR_RO :: nat where "STR_RO = 4"
definition STR_QUOTE :: nat where "STR_QUOTE = 0x8000"

definition scan_ListX :: "string \<Rightarrow> char \<Rightarrow> nat \<Rightarrow> 's scanListFunc option \<Rightarrow> 's \<Rightarrow> int \<times> 's" where
  "scan_ListX a_list sep allocm func st =
     (if a_list = [] then (0, st)
      else let care = bit allocm 15;
               allocm' = (if care then allocm - STR_QUOTE else allocm)
           in scan_list_loop sep (bit allocm' 2) care
                (if allocm' = STR_VOLA then Some a_list else None) func 0 NUL 0 st a_list)"

definition num_ListElems :: "string \<Rightarrow> char \<Rightarrow> int" where
  "num_ListElems list sep = fst (scan_ListX list sep 0 (None :: unit scanListFunc option) ())"

text \<open>
  \<^verbatim>\<open>scan_ListLX\<close> removes one pair of braces around the whole list, when the first closing
  brace is the last character; the brace is put back afterwards.
\<close>

definition scan_ListLX :: "string \<Rightarrow> char \<Rightarrow> nat \<Rightarrow> 's scanListFunc option \<Rightarrow> 's \<Rightarrow> int \<times> 's" where
  "scan_ListLX list sep allocm func st =
     (if hd0 list = CHR ''{'' then
        (case strchr list CHR ''}'' of
           Some tp \<Rightarrow>
             if tl tp = []
             then scan_ListX (butlast (tl list)) sep allocm func st
             else scan_ListX list sep allocm func st
         | None \<Rightarrow> scan_ListX (tl list) sep allocm func st)
      else scan_ListX list sep allocm func st)"

definition scan_commaList :: "string \<Rightarrow> nat \<Rightarrow> 's scanListFunc option \<Rightarrow> 's \<Rightarrow> int \<times> 's" where
  "scan_commaList list allocm func st = scan_ListX list CHR '','' allocm func st"

definition scan_commaListL :: "string \<Rightarrow> nat \<Rightarrow> 's scanListFunc option \<Rightarrow> 's \<Rightarrow> int \<times> 's" where
  "scan_commaListL list allocm func st = scan_ListLX list CHR '','' allocm func st"

subsection \<open>Splitting into buffers\<close>

text \<open>
  The state of \<^verbatim>\<open>list1\<close>: the number of elements stored, the destination buffers (\<^verbatim>\<open>mac\<close> is
  their number) and \<^verbatim>\<open>SLNEP\<close> as the scan leaves it.
\<close>

type_synonym list1_state = "nat \<times> vstr list \<times> string option"

definition list1 :: "list1_state scanListFunc" where
  "list1 st l1 slnep =
     (case st of (ac, qv, _) \<Rightarrow>
        if length qv \<le> ac then (-1, (ac, qv, slnep))
        else let qv' = qv[ac := Xstrcpy (qv ! ac) l1]; ac' = ac + 1
             in if ac' = length qv \<and> slnep \<noteq> None then (-1, (ac', qv', slnep))
                else (0, (ac', qv', slnep)))"

text \<open>\<^verbatim>\<open>Xsprintf(TVStr(q),...)\<close> prints at the end of the text already in the buffer.\<close>

definition append_tail :: "vstr \<Rightarrow> string \<Rightarrow> vstr" where
  "append_tail q txt =
     (let p = vpos q; t = length (cstr (drop (nat p) (vmem q)))
      in (fst (Xsprintf (q\<lparr>vpos := p + int t\<rparr>) txt))\<lparr>vpos := p\<rparr>)"

definition scan_Listlist :: "string \<Rightarrow> char \<Rightarrow> vstr list \<Rightarrow> nat \<times> vstr list" where
  "scan_Listlist list sep qv =
     (case snd (scan_ListX list sep 0 (Some list1) (0, qv, None)) of (ac, qv', slnep) \<Rightarrow>
        (ac, if ac = length qv
             then (case slnep of
                     Some rest \<Rightarrow> qv'[ac - 1 := append_tail (qv' ! (ac - 1)) (sep # rest)]
                   | None \<Rightarrow> qv')
             else qv'))"

definition scan_ListElem1 :: "string \<Rightarrow> char \<Rightarrow> vstr \<Rightarrow> vstr \<times> string" where
  "scan_ListElem1 list sep e1 =
     (case snd (scan_ListX list sep 0 (Some list1) (0, [e1], None)) of (ac, qv', slnep) \<Rightarrow>
        (qv' ! 0, case slnep of Some next \<Rightarrow> next | None \<Rightarrow> []))"

subsection \<open>The elements of a list\<close>

text \<open>The callback that collects: what any callback is given, in order.\<close>

definition collect :: "string list scanListFunc" where
  "collect st e slnep = (0, st @ [e])"

definition elems :: "string \<Rightarrow> char \<Rightarrow> nat \<Rightarrow> string list" where
  "elems list sep allocm = snd (scan_ListX list sep allocm (Some collect) [])"

lemma scan_list_loop_count:
  "fst (scan_list_loop sep ro care vola (None :: unit scanListFunc option) base inq nelm u rest)
     - nelm
   = int (length (snd (scan_list_loop sep ro care vola (Some collect) base inq n0 st rest)))
     - int (length st)"
proof (induction sep ro care vola "Some collect" base inq n0 st rest arbitrary: nelm u
    rule: scan_list_loop.induct)
  case (1 sep ro care vola base inq n0 st rest)
  show ?case
  proof (cases "rest = []")
    case True
    then show ?thesis by (simp add: scan_list_loop.simps)
  next
    case False
    obtain acc rest' lpo inq' fin where
      e: "scan_elem sep ro care inq 0 0 0 [] rest = (acc, rest', lpo, inq', fin)"
      by (metis prod_cases5)
    show ?thesis
      by (subst (1 2) scan_list_loop.simps)
        (use False 1(2) [OF False e [symmetric] refl refl refl refl refl refl refl,
            where nelm = "nelm + 1" and u = u] in \<open>simp add: e Let_def collect_def\<close>)
  qed
qed

text \<open>
  Counting the elements (a null callback) gives the number of elements a scan calls its
  function on, for every list, separator and braces.
\<close>

theorem num_ListElems_counts: "num_ListElems list sep = int (length (elems list sep 0))"
  using scan_list_loop_count [of sep _ _ _ _ _ 0 "()" list 0 "[]"]
  by (auto simp: num_ListElems_def elems_def scan_ListX_def Let_def)

subsection \<open>Scans as folds\<close>

text \<open>
  A callback that never stops the scan is folded over the elements, and an element has no
  character that the list has not.
\<close>

lemma scan_list_loop_fold:
  "\<exists>es. (\<forall>acc. snd (scan_list_loop sep ro care vola (Some collect) base inq k acc rest) = acc @ es)
    \<and> (\<forall>st. snd (scan_list_loop sep ro care vola (Some (\<lambda>st e slnep. (0, g e st))) base inq k st rest)
       = fold g es st)"
proof (induction "length rest" arbitrary: base inq k rest rule: less_induct)
  case less
  show ?case
  proof (cases "rest = []")
    case True
    then show ?thesis by (simp add: scan_list_loop.simps)
  next
    case False
    obtain acc rest' lpo inq' fin where
      e: "scan_elem sep ro care inq 0 0 0 [] rest = (acc, rest', lpo, inq', fin)"
      by (metis prod_cases5)
    obtain es where es:
      "\<And>a. snd (scan_list_loop sep ro care vola (Some collect) (base + length acc) inq' (k + 1) a rest') = a @ es"
      "\<And>st. snd (scan_list_loop sep ro care vola (Some (\<lambda>st e slnep. (0, g e st))) (base + length acc) inq'
         (k + 1) st rest') = fold g es st"
      using less [OF scan_elem_shrinks [OF e False], of "base + length acc" inq' "k + 1"] by blast
    show ?thesis
      by (rule exI [of _ "cstr (drop lpo (acc @ rest')) # es"], subst (1 2) scan_list_loop.simps)
        (simp add: False e Let_def collect_def es)
  qed
qed

lemma scan_ListX_fold:
  "snd (scan_ListX list sep allocm (Some (\<lambda>st e slnep. (0, g e st))) st) = fold g (elems list sep allocm) st"
proof -
  obtain es where "\<And>acc. snd (scan_list_loop sep (bit (if bit allocm 15 then allocm - STR_QUOTE else allocm) 2)
      (bit allocm 15) (if (if bit allocm 15 then allocm - STR_QUOTE else allocm) = STR_VOLA then Some list else None)
      (Some collect) 0 NUL 0 acc list) = acc @ es"
    "\<And>st. snd (scan_list_loop sep (bit (if bit allocm 15 then allocm - STR_QUOTE else allocm) 2)
      (bit allocm 15) (if (if bit allocm 15 then allocm - STR_QUOTE else allocm) = STR_VOLA then Some list else None)
      (Some (\<lambda>st e slnep. (0, g e st))) 0 NUL 0 st list) = fold g es st"
    using scan_list_loop_fold by blast
  then show ?thesis by (simp add: elems_def scan_ListX_def Let_def)
qed

lemma scan_elem_set:
  "scan_elem sep ro care inq lev npa lpo acc r = (acc', r', lpo', inq', fin) \<Longrightarrow>
   set acc' \<subseteq> set acc \<union> set r \<union> {NUL} \<and> set r' \<subseteq> set r"
proof (induction r arbitrary: inq lev npa lpo acc rule: length_induct)
  case (1 r)
  show ?case
  proof (cases r)
    case (Cons c r1)
    from scan_elem_step [of sep ro care inq lev npa lpo acc c r1] show ?thesis
    proof (rule disjE; elim exE conjE)
      fix inq2 lev2 npa2 lpo2 d r2
      assume s: "scan_elem sep ro care inq lev npa lpo acc (c # r1)
          = scan_elem sep ro care inq2 lev2 npa2 lpo2 (acc @ [d]) r2"
        "r2 = r1 \<or> r2 = tl r1" "d \<in> {c, NUL} \<union> set r1"
      then have "length r2 < length r" "set r2 \<subseteq> set r1" using Cons
        by (cases r1; auto)+
      with 1 s Cons have "set acc' \<subseteq> set (acc @ [d]) \<union> set r2 \<union> {NUL} \<and> set r' \<subseteq> set r2" by metis
      then show ?thesis using s(3) \<open>set r2 \<subseteq> set r1\<close> Cons by auto
    qed (use 1 Cons in auto)
  qed (use 1 in auto)
qed

lemma elems_loop_set:
  "nonul rest \<Longrightarrow>
   set rest \<subseteq> B \<Longrightarrow> \<Union> (set ` set acc) \<subseteq> B \<Longrightarrow>
   \<Union> (set ` set (snd (scan_list_loop sep ro care vola (Some collect) base inq k acc rest))) \<subseteq> B"
proof (induction "length rest" arbitrary: base inq k acc rest rule: less_induct)
  case less
  show ?case
  proof (cases "rest = []")
    case True
    then show ?thesis using less.prems by (simp add: scan_list_loop.simps)
  next
    case False
    obtain a rest' lpo inq' fin where
      e: "scan_elem sep ro care inq 0 0 0 [] rest = (a, rest', lpo, inq', fin)"
      by (metis prod_cases5)
    note s = scan_elem_set [OF e]
    have elm: "set (cstr (drop lpo (a @ rest'))) \<subseteq> set rest"
    proof -
      have "set (cstr (drop lpo (a @ rest'))) \<subseteq> set (a @ rest') - {NUL}"
        using nonul_cstr [of "drop lpo (a @ rest')"]
        by (auto simp: nonul_def cstr_def dest!: set_takeWhileD in_set_dropD)
      then show ?thesis using s by auto
    qed
    have "nonul rest'" "set rest' \<subseteq> B" "\<Union> (set ` set (acc @ [cstr (drop lpo (a @ rest'))])) \<subseteq> B"
      using s elm less.prems by (auto simp: nonul_def)
    note less.hyps [OF scan_elem_shrinks [OF e False] this, of "base + length a" inq' "k + 1"]
    then show ?thesis
      by (subst scan_list_loop.simps) (use False e in \<open>simp add: Let_def collect_def\<close>)
  qed
qed

lemma elems_set: "nonul list \<Longrightarrow> e \<in> set (elems list sep allocm) \<Longrightarrow> set e \<subseteq> set list"
proof -
  assume "nonul list" "e \<in> set (elems list sep allocm)"
  then obtain ro care vola where
    "e \<in> set (snd (scan_list_loop sep ro care vola (Some collect) 0 NUL 0 [] list))"
    by (auto simp: elems_def scan_ListX_def Let_def simp del: not_None_eq split: if_split_asm)
  moreover have "\<Union> (set ` set (snd (scan_list_loop sep ro care vola (Some collect) 0 NUL 0 [] list))) \<subseteq> set list"
    by (rule elems_loop_set) (use \<open>nonul list\<close> in auto)
  ultimately show ?thesis by blast
qed

text \<open>No character of the list occurs more often in an element than in the list.\<close>

lemma scan_elem_count:
  "c \<noteq> NUL \<Longrightarrow> scan_elem sep ro care inq lev npa lpo acc r = (acc', r', lpo', inq', fin) \<Longrightarrow>
   count_list acc' c + count_list r' c \<le> count_list acc c + count_list r c"
proof (induction sep ro care inq lev npa lpo acc r rule: scan_elem.induct)
  case (2 sep ro care inq lev npa lpo acc cch r)
  note IH = "2.IH" and e = "2.prems"(2) [unfolded scan_elem.simps(2)]
  consider "care \<and> inq \<noteq> NUL" | "\<not> (care \<and> inq \<noteq> NUL)" "care \<and> cch = DQ"
    | "\<not> (care \<and> inq \<noteq> NUL)" "\<not> (care \<and> cch = DQ)" "cch = BSL"
    | "\<not> (care \<and> inq \<noteq> NUL)" "\<not> (care \<and> cch = DQ)" "cch \<noteq> BSL" "cch = CHR ''{''"
    | "\<not> (care \<and> inq \<noteq> NUL)" "\<not> (care \<and> cch = DQ)" "cch \<noteq> BSL" "cch \<noteq> CHR ''{''" "cch = CHR ''}''"
    | "\<not> (care \<and> inq \<noteq> NUL)" "\<not> (care \<and> cch = DQ)" "cch \<noteq> BSL" "cch \<noteq> CHR ''{''" "cch \<noteq> CHR ''}''" by blast
  then show ?case
  proof cases
    case 1
    then show ?thesis using IH(1) [OF 1 "2.prems"(1)] e by (auto split: if_splits)
  next
    case 2
    then show ?thesis using IH(2) [OF 2 "2.prems"(1)] e by (auto split: if_splits)
  next
    case 3
    show ?thesis
    proof (cases r)
      case Nil
      then show ?thesis using e 3 by (auto split: if_splits)
    next
      case (Cons nch r1)
      then show ?thesis using IH(4) [OF 3 Cons _ "2.prems"(1)] IH(5) [OF 3 Cons _ "2.prems"(1)] e 3
        by (auto split: if_splits)
    qed
  next
    case 4
    then show ?thesis using IH(6) [OF 4 "2.prems"(1)] e by (auto split: if_splits)
  next
    case 5
    note I1 = IH(7) [OF 5 refl refl refl _ "2.prems"(1)] and I2 = IH(8) [OF 5 refl refl refl _ "2.prems"(1)]
    let ?q = "(lev - 1 = 0 \<and> hd0 (drop lpo (acc @ cch # r)) = CHR ''{'') \<and> npa = 0 \<and> (hd0 r = sep \<or> r = [])"
    show ?thesis
    proof (cases ?q)
      case True
      then show ?thesis using e 5 I1 "2.prems"(1) by (simp add: Let_def split: if_splits)
    next
      case False
      then show ?thesis using e 5 I2 "2.prems"(1) by (simp only: Let_def if_False if_True simp_thms count_list_append) (auto split: if_splits)
    qed
  next
    case 6
    then show ?thesis using IH(9) [OF 6 _ "2.prems"(1)] e "2.prems"(1) by (auto split: if_splits)
  qed
qed simp

lemma count_drop: "count_list (drop n xs) c \<le> count_list xs c"
  by (induction xs arbitrary: n) (auto simp: drop_Cons' intro: le_SucI)

lemma count_cstr: "count_list (cstr xs) c \<le> count_list xs c"
  by (induction xs) (auto simp: cstr_def)

lemma elems_loop_count:
  assumes "c \<noteq> NUL"
  shows "count_list rest c \<le> B \<Longrightarrow> \<forall>e \<in> set acc. count_list e c \<le> B \<Longrightarrow>
   \<forall>e \<in> set (snd (scan_list_loop sep ro care vola (Some collect) base inq k acc rest)). count_list e c \<le> B"
proof (induction "length rest" arbitrary: base inq k acc rest rule: less_induct)
  case less
  show ?case
  proof (cases "rest = []")
    case True
    then show ?thesis using less.prems by (simp add: scan_list_loop.simps)
  next
    case False
    obtain a rest' lpo inq' fin where
      e: "scan_elem sep ro care inq 0 0 0 [] rest = (a, rest', lpo, inq', fin)"
      by (metis prod_cases5)
    have s: "count_list (a @ rest') c \<le> B" using scan_elem_count [OF assms e] less.prems(1) by simp
    have "count_list (cstr (drop lpo (a @ rest'))) c \<le> B"
      using count_cstr [of "drop lpo (a @ rest')" c] count_drop [of lpo "a @ rest'" c] s by linarith
    then have "count_list rest' c \<le> B" "\<forall>e \<in> set (acc @ [cstr (drop lpo (a @ rest'))]). count_list e c \<le> B"
      using s less.prems(2) by auto
    note less.hyps [OF scan_elem_shrinks [OF e False] this, of "base + length a" inq' "k + 1"]
    then show ?thesis
      by (subst scan_list_loop.simps) (use False e in \<open>simp add: Let_def collect_def\<close>)
  qed
qed

lemma elems_count: "c \<noteq> NUL \<Longrightarrow> e \<in> set (elems list sep allocm) \<Longrightarrow> count_list e c \<le> count_list list c"
  using elems_loop_count [of c list "count_list list c" "[]" sep _ _ _ 0 NUL 0]
  by (auto simp: elems_def scan_ListX_def Let_def simp del: not_None_eq split: if_split_asm)

subsection \<open>Escaped lists\<close>

definition special :: "char \<Rightarrow> char \<Rightarrow> bool" where
  "special sep c \<longleftrightarrow> c = sep \<or> c = CHR ''{'' \<or> c = CHR ''}''"

definition sep_ok :: "char \<Rightarrow> bool" where
  "sep_ok sep \<longleftrightarrow> sep \<notin> {NUL, BSL, CHR ''{'', CHR ''}''}"

definition esc_elem :: "char \<Rightarrow> string \<Rightarrow> string" where
  "esc_elem sep e = concat (map (\<lambda>c. if special sep c then [BSL, c] else [c]) e)"

fun join_with :: "(string \<Rightarrow> string) \<Rightarrow> char \<Rightarrow> string list \<Rightarrow> string" where
  "join_with f sep [] = []"
| "join_with f sep [e] = f e"
| "join_with f sep (e # es) = f e @ sep # join_with f sep es"

lemma not_quoting [simp]: "\<not> quoting False inq c"
  by (simp add: quoting_def)

lemma esc_elem_simps [simp]:
  "esc_elem sep [] = []"
  "esc_elem sep (c # e) = (if special sep c then [BSL, c] else [c]) @ esc_elem sep e"
  by (simp_all add: esc_elem_def)

lemma scan_elem_esc:
  assumes "sep_ok sep"
  shows "e = [] \<or> last e \<noteq> BSL \<Longrightarrow>
    scan_elem sep ro False inq 0 npa lpo acc (esc_elem sep e @ t) =
    scan_elem sep ro False inq 0 npa lpo (acc @ e) t"
proof (induction e arbitrary: acc)
  case (Cons c e)
  have IH: "scan_elem sep ro False inq 0 npa lpo (acc @ [c]) (esc_elem sep e @ t) =
    scan_elem sep ro False inq 0 npa lpo (acc @ c # e) t"
    using Cons.IH [of "acc @ [c]"] Cons.prems by (auto split: if_splits)
  consider "special sep c" | "c = BSL" | "\<not> special sep c" "c \<noteq> BSL" by blast
  then show ?case
  proof cases
    case 1
    then show ?thesis using IH by (simp add: special_def scan_elem_escape)
  next
    case 2
    then have ns: "\<not> special sep BSL" using assms by (auto simp: special_def sep_ok_def)
    from Cons.prems 2 obtain d e' where e: "e = d # e'" by (cases e) auto
    have "hd (esc_elem sep e @ t) \<noteq> sep \<and> hd (esc_elem sep e @ t) \<noteq> CHR ''{''
      \<and> hd (esc_elem sep e @ t) \<noteq> CHR ''}''"
      using assms by (auto simp: e special_def sep_ok_def)
    then show ?thesis using IH 2 ns by (simp add: scan_elem_backslash)
  next
    case 3
    then show ?thesis using IH by (simp add: special_def scan_elem_plain)
  qed
qed simp

text \<open>
  What a join written by \<open>f\<close> must give for one element: the scan of \<open>f e\<close> followed by the
  end or a separator leaves the element at \<^verbatim>\<open>lp\<close>, terminated.
\<close>

locale list_writer =
  fixes sep :: char and f :: "string \<Rightarrow> string" and good :: "string \<Rightarrow> bool"
  assumes scan_end: "good e \<Longrightarrow> f e \<noteq> [] \<Longrightarrow> \<exists>acc lpo.
      scan_elem sep False False inq 0 0 0 [] (f e) = (acc, [], lpo, inq, True) \<and> cstr (drop lpo acc) = e"
    and scan_sep: "good e \<Longrightarrow> \<exists>acc lpo.
      scan_elem sep False False inq 0 0 0 [] (f e @ sep # t) = (acc, t, lpo, inq, False)
      \<and> (\<forall>u. cstr (drop lpo (acc @ u)) = e)"
begin

lemma join_nonempty: "es \<noteq> [] \<Longrightarrow> f (last es) \<noteq> [] \<Longrightarrow> join_with f sep es \<noteq> []"
  by (induction f sep es rule: join_with.induct) auto

lemma scan_join:
  assumes "\<forall>e \<in> set es. good e" and "es \<noteq> []" and "f (last es) \<noteq> []"
  shows "snd (scan_list_loop sep False False vola (Some collect) base inq n st (join_with f sep es))
    = st @ es"
  using assms
proof (induction es arbitrary: base n st)
  case (Cons e es)
  have ne: "join_with f sep (e # es) \<noteq> []" using Cons.prems join_nonempty by blast
  show ?case
  proof (cases es)
    case Nil
    obtain acc lpo where "scan_elem sep False False inq 0 0 0 [] (f e) = (acc, [], lpo, inq, True)"
      "cstr (drop lpo acc) = e"
      using scan_end Cons.prems Nil by fastforce
    then show ?thesis using ne Nil
      by (subst scan_list_loop.simps) (simp add: collect_def Let_def, simp add: scan_list_loop.simps)
  next
    case (Cons e' es')
    have j: "join_with f sep (e # es) = f e @ sep # join_with f sep es" by (simp add: Cons)
    obtain acc lpo where "scan_elem sep False False inq 0 0 0 [] (f e @ sep # join_with f sep es)
        = (acc, join_with f sep es, lpo, inq, False)" "cstr (drop lpo (acc @ join_with f sep es)) = e"
      using scan_sep [of e inq "join_with f sep es"] Cons.prems by auto
    then show ?thesis using Cons.IH Cons.prems Cons unfolding j
      by (subst scan_list_loop.simps) (simp add: collect_def [of st e] Let_def)
  qed
qed simp

lemma elems_join:
  assumes "\<forall>e \<in> set es. good e" and "es \<noteq> []" and "f (last es) \<noteq> []" and "allocm < 4"
  shows "elems (join_with f sep es) sep allocm = es"
proof -
  have "allocm \<in> {0, 1, 2, 3}" using assms(4) by auto
  then have "\<not> bit allocm 15" "\<not> bit allocm 2" by (auto simp: bit_nat_def)
  then show ?thesis using scan_join [OF assms(1-3)] join_nonempty [OF assms(2,3)]
    by (simp add: elems_def scan_ListX_def Let_def)
qed

end

definition esc_good :: "char \<Rightarrow> string \<Rightarrow> bool" where
  "esc_good sep e \<longleftrightarrow> sep_ok sep \<and> nonul e \<and> (e = [] \<or> last e \<noteq> BSL)"

interpretation escaped: list_writer sep "esc_elem sep" "esc_good sep" for sep
proof
  fix e inq
  assume g: "esc_good sep e"
  then show "\<exists>acc lpo. scan_elem sep False False inq 0 0 0 [] (esc_elem sep e) = (acc, [], lpo, inq, True)
      \<and> cstr (drop lpo acc) = e"
    using scan_elem_esc [of sep e False inq 0 0 "[]" "[]"] by (simp add: esc_good_def)
next
  fix e inq t
  assume g: "esc_good sep e"
  then show "\<exists>acc lpo. scan_elem sep False False inq 0 0 0 [] (esc_elem sep e @ sep # t)
      = (acc, t, lpo, inq, False) \<and> (\<forall>u. cstr (drop lpo (acc @ u)) = e)"
    using scan_elem_esc [of sep e False inq 0 0 "[]" "sep # t"]
    by (simp add: esc_good_def sep_ok_def scan_elem_sep)
qed



subsection \<open>Braces\<close>

text \<open>Balanced braces at a depth, without backslashes.\<close>

fun balanced :: "nat \<Rightarrow> string \<Rightarrow> bool" where
  "balanced n [] \<longleftrightarrow> n = 0"
| "balanced n (c # s) \<longleftrightarrow>
     (if c = CHR ''{'' then balanced (n + 1) s
      else if c = CHR ''}'' then 0 < n \<and> balanced (n - 1) s
      else c \<noteq> BSL \<and> balanced n s)"

definition braced :: "string \<Rightarrow> string" where
  "braced e = CHR ''{'' # e @ ''}''"

lemma scan_elem_balanced:
  "balanced n e \<Longrightarrow> scan_elem sep ro False inq (1 + int n) npa lpo acc (e @ t) =
    scan_elem sep ro False inq 1 npa lpo (acc @ e) t"
proof (induction n e arbitrary: acc rule: balanced.induct)
  case (2 n c s)
  consider "c = CHR ''{''" | "c = CHR ''}''" | "c \<notin> {BSL, CHR ''{'', CHR ''}''}"
    using 2(4) by fastforce
  then show ?case
  proof cases
    case 1
    then show ?thesis using 2(1) [of "acc @ ''{''"] 2(4) by (simp add: scan_elem_open algebra_simps)
  next
    case 2
    then show ?thesis using "2.IH"(2) [of "acc @ ''}''"] "2.prems"
      by (simp add: scan_elem_close_inner of_nat_diff algebra_simps)
  next
    case 3
    then show ?thesis using 2(3) [of "acc @ [c]"] 2(4) by (auto simp: scan_elem_plain)
  qed
qed simp

interpretation grouped: list_writer sep braced "\<lambda>e. sep_ok sep \<and> nonul e \<and> balanced 0 e" for sep
proof
  fix e inq
  assume g: "sep_ok sep \<and> nonul e \<and> balanced 0 e"
  then show "\<exists>acc lpo. scan_elem sep False False inq 0 0 0 [] (braced e) = (acc, [], lpo, inq, True)
      \<and> cstr (drop lpo acc) = e"
    using scan_elem_balanced [of 0 e sep False inq 0 0 "''{''" "''}''"]
    by (simp add: braced_def scan_elem_open scan_elem_close_outer)
next
  fix e inq t
  assume g: "sep_ok sep \<and> nonul e \<and> balanced 0 e"
  then show "\<exists>acc lpo. scan_elem sep False False inq 0 0 0 [] (braced e @ sep # t)
      = (acc, t, lpo, inq, False) \<and> (\<forall>u. cstr (drop lpo (acc @ u)) = e)"
    using scan_elem_balanced [of 0 e sep False inq 0 0 "''{''" "CHR ''}'' # sep # t"]
    by (simp add: braced_def scan_elem_open scan_elem_close_outer sep_ok_def scan_elem_sep)
qed

text \<open>
  A group in braces is one element whatever separators it holds: a list of groups with
  balanced contents is scanned into exactly those contents.
\<close>

theorem elems_of_groups:
  assumes "sep_ok sep" and "\<forall>e \<in> set es. nonul e \<and> balanced 0 e" and "es \<noteq> []" and "allocm < 4"
  shows "elems (join_with braced sep es) sep allocm = es"
  using assms grouped.elems_join [where es = es and sep = sep and allocm = allocm]
  by (auto simp: braced_def)

theorem elems_of_groups_witness:
  "elems (join_with braced CHR '':'' [''a:b'', '''', ''c:{d:e}'']) CHR '':'' 0
   = [''a:b'', '''', ''c:{d:e}'']"
  by (rule elems_of_groups) (simp_all add: sep_ok_def)

subsection \<open>The start of the next element\<close>

text \<open>
  The last of the buffers of \<open>scan_Listlist\<close> is to hold all that remains
  (\<^verbatim>\<open>A:B:C:D:E\<close> into three gives \<^verbatim>\<open>C:D:E\<close>), but the remainder is located in the original
  list at an offset of the copy, from which escaping backslashes were removed: after one
  escaped separator the remainder starts one character early.
\<close>

theorem scan_Listlist_remainder_shifted:
  "map (cstr \<circ> vmem) (snd (scan_Listlist ''A:B:C:D:E'' CHR '':'' [new_vstr 16, new_vstr 16, new_vstr 16]))
     = [''A'', ''B'', ''C:D:E'']
   \<and> map (cstr \<circ> vmem) (snd (scan_Listlist (CHR ''A'' # BSL # '':B:C:D'') CHR '':'' [new_vstr 16, new_vstr 16]))
     = [''A:B'', ''C::D'']"
  by (simp add: scan_Listlist_def scan_ListX_def scan_list_loop.simps scan_elem.simps(2) list1_def
      Let_def STR_VOLA_def cstr_def [of "_ # _"]) code_simp

end
