(* ===== verification/UrlEsc.thy ===== *)
theory UrlEsc
  imports VStr
begin

section \<open>UrlEsc: percent escaping (\<open>rary/urlesc.cpp\<close>)\<close>

text \<open>
  The escaping and unescaping of URLs. The routines that work in place only ever write
  behind the position they read, so they are functions of the text; memory in which a
  decoded \<^verbatim>\<open>%00\<close> has put a NUL is kept as a byte list, and the C string is its \<open>cstr\<close>.
  Destinations that the caller declares large enough (\<open>siz\<close>) hold the text given here; the
  routines without a size write through checked pointers (\<open>vputs\<close>).
\<close>

subsection \<open>Hexadecimal digits\<close>

definition ishex :: "char \<Rightarrow> bool" where
  "ishex ch \<longleftrightarrow> ch \<in> set ''0123456789abcdefABCDEF''"

definition tonum :: "char \<Rightarrow> int" where
  "tonum hc = (if 48 \<le> uc hc \<and> uc hc \<le> 57 then int (uc hc) - 48
               else if 97 \<le> uc hc \<and> uc hc \<le> 102 then int (uc hc) - 97 + 10
               else if 65 \<le> uc hc \<and> uc hc \<le> 70 then int (uc hc) - 65 + 10 else -1)"

text \<open>\<^verbatim>\<open>sscanf(sx,"%x",&x)\<close> on two hexadecimal digits.\<close>

definition scan_hex2 :: "char \<Rightarrow> char \<Rightarrow> int" where
  "scan_hex2 a b = hex_val [a, b] 0"

subsection \<open>Unescaping in place\<close>

definition unescape_specials :: "string \<Rightarrow> string \<Rightarrow> string \<Rightarrow> string" where
  "unescape_specials str set1 succ =
     (case strchr str CHR ''%'' of
        None \<Rightarrow> str
      | Some ep \<Rightarrow>
          if ishex (chr_at ep 1) \<and> ishex (chr_at ep 2) \<and> strneq (drop 3 ep) succ (length succ)
          then let x = byte (scan_hex2 (chr_at ep 1) (chr_at ep 2))
               in if strchr_in set1 x
                  then cstr (take (length str - length ep) str @ x # drop 3 ep)
                  else str
          else str)"

text \<open>
  \<open>lim\<close> is \<open>siz - 1\<close>, \<open>dp\<close> and \<open>sp\<close> the offsets of the two pointers; the result is the
  memory, the text when the terminator is found in it, and the number of sequences decoded
  (those left as they are count as well).
\<close>

function url_unescape_loop :: "string \<Rightarrow> int \<Rightarrow> nat \<Rightarrow> nat \<Rightarrow> string \<Rightarrow> string \<Rightarrow> int \<Rightarrow> string \<times> int" where
  "url_unescape_loop set1 lim dp sp out s unesc =
     (if s = [] \<or> lim \<le> int dp
      then (if dp \<noteq> sp then out else out @ s, unesc)
      else let ch = hd s; x1 = chr_at s 1; x2 = chr_at s 2
           in if ch = CHR ''%'' \<and> ishex x1 \<and> ishex x2
              then let dch = byte (tonum x1 * 16 + tonum x2)
                   in if set1 \<noteq> [] \<and> \<not> strchr_in set1 dch
                      then url_unescape_loop set1 lim (dp + 3) (sp + 3) (out @ [CHR ''%'', x1, x2])
                             (drop 3 s) (unesc + 1)
                      else url_unescape_loop set1 lim (dp + 1) (sp + 3) (out @ [dch]) (drop 3 s)
                             (unesc + 1)
              else url_unescape_loop set1 lim (dp + 1) (sp + 1) (out @ [ch]) (tl s) unesc)"
  by pat_completeness auto
termination
  by (relation "measure (\<lambda>(set1, lim, dp, sp, out, s, unesc). length s)") (auto simp: neq_Nil_conv)

declare url_unescape_loop.simps [simp del]

definition url_unescape :: "string \<Rightarrow> int \<Rightarrow> string \<Rightarrow> string \<times> int" where
  "url_unescape url siz set1 =
     (case url_unescape_loop set1 (siz - 1) 0 0 [] url 0 of (mem, unesc) \<Rightarrow> (cstr mem, unesc))"

text \<open>\<^verbatim>\<open>nonxalpha_unescape\<close>: the loop goes on behind a decoded NUL.\<close>

function nonxalpha_loop :: "bool \<Rightarrow> string \<Rightarrow> string \<times> int" where
  "nonxalpha_loop spacealso [] = ([], 0)"
| "nonxalpha_loop spacealso (ch # s) =
     (if ch = CHR ''%'' \<and> ishex (chr_at s 0) \<and> ishex (chr_at s 1)
         \<and> (spacealso \<or> \<not> strchr_in [SP, TAB, CR, LF] (byte (scan_hex2 (chr_at s 0) (chr_at s 1))))
      then (case nonxalpha_loop spacealso (drop 2 s) of (out, num) \<Rightarrow>
              (byte (scan_hex2 (chr_at s 0) (chr_at s 1)) # out, num + 1))
      else (case nonxalpha_loop spacealso s of (out, num) \<Rightarrow> (ch # out, num)))"
  by pat_completeness auto
termination
  by (relation "measure (\<lambda>(sa, s). length s)") auto

definition nonxalpha_unescape :: "string \<Rightarrow> nat \<Rightarrow> bool \<Rightarrow> string \<times> int" where
  "nonxalpha_unescape src dstsiz spacealso =
     (case nonxalpha_loop spacealso (take (dstsiz - 1) src) of (mem, num) \<Rightarrow> (cstr mem, num))"

subsection \<open>Escaping\<close>

record esc_flags =
  nodflt :: bool
  escctl :: bool
  escbin :: bool
  escspc :: bool
  escurl :: bool
  eschtm :: bool
  escqpt :: bool
  escdel :: bool

definition no_flags :: esc_flags where
  "no_flags = \<lparr>nodflt = False, escctl = False, escbin = False, escspc = False, escurl = False,
    eschtm = False, escqpt = False, escdel = False\<rparr>"

fun parse_escs :: "esc_flags \<Rightarrow> string \<Rightarrow> esc_flags \<times> string" where
  "parse_escs fl (p # k # escs) =
     (if p \<noteq> CHR ''%'' then (fl, p # k # escs)
      else if k = CHR ''%'' then parse_escs (fl\<lparr>nodflt := \<not> nodflt fl\<rparr>) escs
      else if k = CHR ''C'' then parse_escs (fl\<lparr>escctl := True\<rparr>) escs
      else if k = CHR ''H'' then parse_escs (fl\<lparr>escbin := True\<rparr>) escs
      else if k = CHR ''S'' then parse_escs (fl\<lparr>escspc := True\<rparr>) escs
      else if k = CHR ''U'' then parse_escs (fl\<lparr>escurl := True\<rparr>) escs
      else if k = CHR ''&'' then parse_escs (fl\<lparr>eschtm := True\<rparr>) escs
      else if k = CHR ''='' then parse_escs (fl\<lparr>escqpt := True\<rparr>) escs
      else if k = CHR ''#'' then parse_escs (fl\<lparr>escdel := True\<rparr>) escs
      else (fl, p # k # escs))"
| "parse_escs fl escs = (fl, escs)"

definition hex_lower :: string where "hex_lower = ''0123456789abcdef''"
definition hex_upper :: string where "hex_upper = ''0123456789ABCDEF''"

definition pct_lower :: "char \<Rightarrow> string" where
  "pct_lower ch = [CHR ''%'', hex_lower ! (uc ch div 16), hex_lower ! (uc ch mod 16)]"

definition pct_upper :: "char \<Rightarrow> string" where
  "pct_upper ch = [CHR ''%'', hex_upper ! (uc ch div 16), hex_upper ! (uc ch mod 16)]"

definition must_escape :: "esc_flags \<Rightarrow> string \<Rightarrow> bool \<Rightarrow> char \<Rightarrow> bool" where
  "must_escape fl escs in2byte ch \<longleftrightarrow>
     \<not> nodflt fl \<and> (128 \<le> uc ch \<or> iscntrl ch \<or> ch = CHR ''%'')
     \<or> escctl fl \<and> iscntrl ch
     \<or> escbin fl \<and> 128 \<le> uc ch
     \<or> escspc fl \<and> isspace ch
     \<or> (\<not> in2byte \<or> escurl fl) \<and> ch \<in> set escs"

definition esc_text :: "esc_flags \<Rightarrow> char \<Rightarrow> string" where
  "esc_text fl ch =
     (if escdel fl then []
      else if escqpt fl then [CHR ''='', hex_upper ! (uc ch div 16), hex_upper ! (uc ch mod 16)]
      else if eschtm fl then
        (if ch = DQ then ''%26quot%3B'' else ''%26%23'' @ show_nat (uc ch) @ ''%3B'')
      else pct_lower ch)"

text \<open>
  The loop of \<^verbatim>\<open>url_escapeY\<close>. \<open>out\<close> is \<open>None\<close> while \<^verbatim>\<open>dp == 0\<close> and the text of \<^verbatim>\<open>dst\<close> up to
  \<^verbatim>\<open>dp\<close> afterwards; \<open>pre\<close> is the source already passed. The size is at least one.
\<close>

fun url_escape_loop :: "esc_flags \<Rightarrow> string \<Rightarrow> string option \<Rightarrow> nat \<Rightarrow> bool \<Rightarrow> string \<Rightarrow> string option
    \<Rightarrow> int \<Rightarrow> string \<Rightarrow> string option \<times> int" where
  "url_escape_loop fl escs sbrk siz in2byte pre out nesc [] = (out, nesc)"
| "url_escape_loop fl escs sbrk siz in2byte pre out nesc (ch # s) =
     (if (case sbrk of Some b \<Rightarrow> ch \<in> set b | None \<Rightarrow> False)
      then (map_option (\<lambda>t. t @ take (siz - 1 - length t - 1) (ch # s)) out, nesc)
      else if (case out of Some t \<Rightarrow> siz - 1 \<le> length t | None \<Rightarrow> False) then (out, nesc)
      else let in2 = (if ch = ESC \<and> hd0 s = CHR ''$'' then True
                      else if ch = ESC \<and> hd0 s = CHR ''('' then False else in2byte)
           in if must_escape fl escs in2 ch
              then (case (case out of Some t \<Rightarrow> Some t
                                    | None \<Rightarrow> if siz \<le> length pre then None else Some pre) of
                      None \<Rightarrow> (Some (take (siz - 1) (pre @ ch # s)), nesc)
                    | Some t \<Rightarrow>
                        let buf = esc_text fl ch
                        in if buf \<noteq> [] \<and> siz - 1 \<le> length t + length buf then (Some t, nesc)
                           else url_escape_loop fl escs sbrk siz in2 (pre @ [ch]) (Some (t @ buf))
                                  (nesc + 1) s)
              else url_escape_loop fl escs sbrk siz in2 (pre @ [ch])
                     (map_option (\<lambda>t. t @ [ch]) out) nesc s)"

definition url_escapeY :: "string \<Rightarrow> nat \<Rightarrow> string \<Rightarrow> string option \<Rightarrow> string option \<times> int" where
  "url_escapeY src siz escs sbrk =
     (case parse_escs no_flags escs of (fl, escs') \<Rightarrow>
        url_escape_loop fl escs' sbrk siz False [] None 0 src)"

text \<open>The text of \<^verbatim>\<open>dst\<close> afterwards; \<open>same\<close> is \<^verbatim>\<open>src == dst\<close>.\<close>

definition url_escapeX :: "bool \<Rightarrow> string \<Rightarrow> nat \<Rightarrow> string \<Rightarrow> string option \<Rightarrow> string \<times> int" where
  "url_escapeX same src siz escs sbrk =
     (let siz1 = (if same \<and> 4 * 1024 < siz then 4 * 1024 else siz)
      in case url_escapeY src siz1 escs sbrk of (out, nesc) \<Rightarrow>
           (if nesc = 0 then (if same then src else take (siz1 - 1) src)
            else (case out of Some t \<Rightarrow> t | None \<Rightarrow> src), nesc))"

definition logurl_escapeX :: "bool \<Rightarrow> string \<Rightarrow> nat \<Rightarrow> string" where
  "logurl_escapeX same src siz =
     fst (url_escapeX same src siz [SP, TAB, CR, LF, CHR ''%'', DQ, CHR ''<'', CHR ''>''] None)"

definition nonxalpha_escapeX :: "bool \<Rightarrow> string \<Rightarrow> nat \<Rightarrow> string" where
  "nonxalpha_escapeX same src siz =
     fst (url_escapeX same src siz [SP, TAB, LF, CHR ''%'', CHR ''?'', CHR ''#''] None)"

definition safe_escapeX :: "bool \<Rightarrow> string \<Rightarrow> nat \<Rightarrow> string" where
  "safe_escapeX same src siz =
     fst (url_escapeX same src siz
       [SP, TAB, LF, DQ, CHR ''#'', CHR ''%'', CHR ''&'', SQ, CHR ''/'', CHR ''<'', CHR ''>'', CHR ''?''] None)"

subsection \<open>Comparing a URL with a pattern\<close>

definition h2toi :: "string \<Rightarrow> int" where
  "h2toi h2 = (if ishex (chr_at h2 0) \<and> ishex (chr_at h2 1)
               then scan_hex2 (chr_at h2 0) (chr_at h2 1) else -1)"

text \<open>
  Characters are compared as (signed) ints. One turn of the loop: how far the URL and the
  pattern are advanced, or \<open>None\<close> for the \<^verbatim>\<open>break\<close>.
\<close>

definition url_chr_match :: "string \<Rightarrow> string \<Rightarrow> bool \<Rightarrow> (nat \<times> nat) option" where
  "url_chr_match url pat nocase =
     (let uch = hd0 url; pch = hd0 pat; xuch = h2toi (tl url); xpch = h2toi (tl pat)
      in if uch = pch \<and> uch \<noteq> CHR ''%'' then Some (1, 1)
         else if uch \<noteq> CHR ''%'' \<and> nocase \<and> tolower uch = tolower pch then Some (1, 1)
         else if uch = CHR ''%'' \<and> xuch = sc pch then Some (3, 1)
         else if pch = CHR ''%'' \<and> xpch = sc uch then Some (1, 3)
         else if uch = CHR ''%'' \<and> pch = CHR ''%'' \<and> xuch = xpch then Some (3, 3)
         else None)"

lemma url_chr_match_advances: "url_chr_match url pat nocase = Some (du, dp) \<Longrightarrow> 0 < du \<and> 0 < dp"
  by (auto simp: url_chr_match_def Let_def split: if_splits)

text \<open>\<open>None\<close>: a read behind a terminator.\<close>

function url_strstr_loop :: "string \<Rightarrow> string \<Rightarrow> bool \<Rightarrow> nat \<Rightarrow> nat \<Rightarrow> nat option" where
  "url_strstr_loop url pat nocase ulen plen =
     (if length pat < plen then None
      else if plen = length pat then Some ulen
      else if length url < ulen then None
      else case url_chr_match (drop ulen url) (drop plen pat) nocase of
             None \<Rightarrow> Some 0
           | Some (du, dp) \<Rightarrow> url_strstr_loop url pat nocase (ulen + du) (plen + dp))"
  by pat_completeness auto
termination
  by (relation "measure (\<lambda>(url, pat, nocase, ulen, plen). length pat - plen)")
    (auto dest: url_chr_match_advances)

declare url_strstr_loop.simps [simp del]

definition url_strstrX :: "string \<Rightarrow> string \<Rightarrow> bool \<Rightarrow> nat option" where
  "url_strstrX url pat nocase = url_strstr_loop url pat nocase 0 0"

subsection \<open>Reserved characters and double-byte text\<close>

definition isRESERVED :: "char \<Rightarrow> bool" where
  "isRESERVED ch = strchr_in '':/@.?&=+#'' ch"

definition isHEX :: "char \<Rightarrow> bool" where
  "isHEX c \<longleftrightarrow> 48 \<le> uc c \<and> uc c \<le> 57 \<or> 65 \<le> uc c \<and> uc c \<le> 70 \<or> 97 \<le> uc c \<and> uc c \<le> 102"

definition dec2X :: "string \<Rightarrow> int" where
  "dec2X str = (if isHEX (chr_at str 0) \<and> isHEX (chr_at str 1)
                then scan_hex2 (chr_at str 0) (chr_at str 1) else -1)"

text \<open>\<^verbatim>\<open>set2B\<close> looks at the three characters before the pointer; \<open>rpre\<close> is the text before it, reversed.\<close>

definition set2B :: "string \<Rightarrow> bool \<Rightarrow> bool" where
  "set2B rpre in2byte =
     (if 3 \<le> length rpre \<and> rpre ! 2 = ESC
      then (if rpre ! 1 = CHR ''$'' then True else if rpre ! 1 = CHR ''('' then False else in2byte)
      else in2byte)"

text \<open>
  \<open>rin\<close> and \<open>rout\<close> are the input passed and the output written, reversed; the destination
  is large enough for the output.
\<close>

function URL_unescape_loop :: "bool \<Rightarrow> bool \<Rightarrow> bool \<Rightarrow> bool \<Rightarrow> string \<Rightarrow> string \<Rightarrow> int \<Rightarrow> string
    \<Rightarrow> string \<times> int" where
  "URL_unescape_loop isform escrsvd in2byte out2byte rin rout nesc [] = (rev rout, nesc)"
| "URL_unescape_loop isform escrsvd in2byte out2byte rin rout nesc (ch # s) =
     (let in2 = set2B rin in2byte; out2 = set2B rout out2byte
      in if in2 then URL_unescape_loop isform escrsvd in2 out2 (ch # rin) (ch # rout) nesc s
         else if ch = CHR ''%'' \<and> isHEX (chr_at s 0) \<and> isHEX (chr_at s 1)
         then let d = byte (dec2X s)
              in if escrsvd \<and> d = CHR ''%''
                 then URL_unescape_loop isform escrsvd in2 out2 (ch # rin) (d # rout) nesc s
                 else URL_unescape_loop isform escrsvd in2 out2 (chr_at s 1 # chr_at s 0 # ch # rin)
                        (d # rout) (nesc + 1) (drop 2 s)
         else if out2 then URL_unescape_loop isform escrsvd in2 out2 (ch # rin) (ch # rout) nesc s
         else if escrsvd \<and> (ch = CHR ''%'' \<or> isRESERVED ch)
         then URL_unescape_loop isform escrsvd in2 out2 (ch # rin) (rev (pct_upper ch) @ rout)
                (nesc + 1) s
         else if \<not> escrsvd \<and> ch = CHR ''+'' \<and> isform
         then URL_unescape_loop isform escrsvd in2 out2 (ch # rin) (SP # rout) (nesc + 1) s
         else URL_unescape_loop isform escrsvd in2 out2 (ch # rin) (ch # rout) nesc s)"
  by pat_completeness auto
termination
  by (relation "measure (\<lambda>(isform, escrsvd, in2byte, out2byte, rin, rout, nesc, s). length s)") auto

declare URL_unescape_loop.simps(2) [simp del]

definition URL_unescape :: "string \<Rightarrow> vstr \<Rightarrow> bool \<Rightarrow> bool \<Rightarrow> vstr \<times> int" where
  "URL_unescape src dst isform escrsvd =
     (case URL_unescape_loop isform escrsvd False False [] [] 0 src of (out, nesc) \<Rightarrow>
        (setVStrEnd (vputs dst out) 0, nesc))"

function URL_reescape_loop :: "bool \<Rightarrow> bool \<Rightarrow> bool \<Rightarrow> string \<Rightarrow> string \<Rightarrow> string \<times> int" where
  "URL_reescape_loop isform rstrsvd in2byte rin [] = ([], 0)"
| "URL_reescape_loop isform rstrsvd in2byte rin (ch # s) =
     (let in2 = set2B rin in2byte; xch = byte (dec2X s);
          seq = (\<not> in2 \<and> rstrsvd \<and> ch = CHR ''%'' \<and> isHEX (chr_at s 0) \<and> isHEX (chr_at s 1))
      in if seq \<and> isRESERVED xch
         then apfst ((#) xch)
                (URL_reescape_loop isform rstrsvd in2 (chr_at s 1 # chr_at s 0 # ch # rin) (drop 2 s))
         else if seq \<and> xch = CHR ''%''
         then apfst ((#) ch) (URL_reescape_loop isform rstrsvd in2 (ch # rin) s)
         else if \<not> rstrsvd \<and> \<not> in2 \<and> isRESERVED ch
         then apfst ((#) ch) (URL_reescape_loop isform rstrsvd in2 (ch # rin) s)
         else if isalnum ch \<or> ch = CHR ''_'' \<or> ch = CHR ''-''
         then apfst ((#) ch) (URL_reescape_loop isform rstrsvd in2 (ch # rin) s)
         else if \<not> rstrsvd \<and> \<not> in2 \<and> ch = SP \<and> isform
         then map_prod ((#) CHR ''+'') ((+) 1) (URL_reescape_loop isform rstrsvd in2 (ch # rin) s)
         else map_prod ((@) (pct_upper ch)) ((+) 1) (URL_reescape_loop isform rstrsvd in2 (ch # rin) s))"
  by pat_completeness auto
termination
  by (relation "measure (\<lambda>(isform, rstrsvd, in2byte, rin, s). length s)") auto

declare URL_reescape_loop.simps(2) [simp del]

definition URL_reescape :: "string \<Rightarrow> vstr \<Rightarrow> bool \<Rightarrow> bool \<Rightarrow> vstr \<times> int" where
  "URL_reescape src dst isform rstrsvd =
     (case URL_reescape_loop isform rstrsvd False [] src of (out, nesc) \<Rightarrow>
        (setVStrEnd (vputs dst out) 0, nesc))"

text \<open>The two functions for double-byte text: only bytes with the top bit are escaped.\<close>

function unescape2B_text :: "string \<Rightarrow> string" where
  "unescape2B_text [] = []"
| "unescape2B_text (ch # s) =
     (if ch = CHR ''%'' \<and> isHEX (chr_at s 0) \<and> isHEX (chr_at s 1) \<and> 128 \<le> dec2X s
      then byte (dec2X s) # unescape2B_text (drop 2 s)
      else ch # unescape2B_text s)"
  by pat_completeness auto
termination
  by (relation "measure length") auto

definition URL_unescape2B :: "string \<Rightarrow> vstr \<Rightarrow> vstr \<times> int" where
  "URL_unescape2B src dst = (setVStrEnd (vputs dst (unescape2B_text src)) 0, 0)"

definition escape2B_text :: "string \<Rightarrow> string" where
  "escape2B_text src = concat (map (\<lambda>ch. if 128 \<le> uc ch then pct_upper ch else [ch]) src)"

definition URL_escape2B :: "string \<Rightarrow> vstr \<Rightarrow> vstr \<times> int" where
  "URL_escape2B src dst =
     (setVStrEnd (vputs dst (escape2B_text src)) 0,
      int (length (filter (\<lambda>ch. 128 \<le> uc ch) src)))"

subsection \<open>Decoding an escape\<close>

lemma hex_digit_facts:
  assumes "k < 16" "h \<in> {hex_lower, hex_upper}"
  shows "ishex (h ! k) \<and> isHEX (h ! k) \<and> xdig (h ! k) = int k \<and> tonum (h ! k) = int k"
proof -
  have "list_all (\<lambda>k. ishex (h ! k) \<and> isHEX (h ! k) \<and> xdig (h ! k) = int k \<and> tonum (h ! k) = int k) [0..<16]"
    if "h = hex_lower" for h unfolding that by code_simp
  moreover have "list_all (\<lambda>k. ishex (h ! k) \<and> isHEX (h ! k) \<and> xdig (h ! k) = int k \<and> tonum (h ! k) = int k) [0..<16]"
    if "h = hex_upper" for h unfolding that by code_simp
  ultimately show ?thesis using assms by (auto simp: list_all_iff)
qed

lemma byte_nibbles:
  "int (uc c div 16) * 16 + int (uc c mod 16) = int (uc c)" "uc c div 16 < 16" "uc c mod 16 < 16"
proof -
  show "int (uc c div 16) * 16 + int (uc c mod 16) = int (uc c)"
    by (metis div_mult_mod_eq of_nat_add of_nat_mult of_nat_numeral)
  show "uc c div 16 < 16" using uc_less [of c] by (simp add: less_mult_imp_div_less)
qed simp

lemmas nibble_facts = hex_digit_facts [OF byte_nibbles(2)] hex_digit_facts [OF byte_nibbles(3)]

lemma scan_hex2_nibbles:
  "h \<in> {hex_lower, hex_upper} \<Longrightarrow>
   scan_hex2 (h ! (uc c div 16)) (h ! (uc c mod 16)) = int (uc c)"
  using nibble_facts [where c = c and h = h] byte_nibbles(1) [of c] by (simp add: scan_hex2_def)

lemma nonxalpha_pct: "nonxalpha_loop True (pct_lower c @ s) = map_prod ((#) c) ((+) 1) (nonxalpha_loop True s)"
  using nibble_facts [where c = c and h = hex_lower] scan_hex2_nibbles [of hex_lower c]
  by (simp add: pct_lower_def split: prod.split)

lemma nonxalpha_plain: "c \<noteq> CHR ''%'' \<Longrightarrow> nonxalpha_loop sa (c # s) = apfst ((#) c) (nonxalpha_loop sa s)"
  by (simp split: prod.split)

subsection \<open>Escaping and unescaping\<close>

definition default_esc :: "esc_flags \<Rightarrow> bool" where
  "default_esc fl \<longleftrightarrow> \<not> nodflt fl \<and> \<not> escdel fl \<and> \<not> escqpt fl \<and> \<not> eschtm fl"

lemma esc_text_default [simp]: "default_esc fl \<Longrightarrow> esc_text fl ch = pct_lower ch"
  by (simp add: default_esc_def esc_text_def)

lemma percent_is_escaped: "default_esc fl \<Longrightarrow> \<not> must_escape fl escs in2 c \<Longrightarrow> c \<noteq> CHR ''%''"
  by (auto simp: default_esc_def must_escape_def)

lemma length_pct_lower [simp]: "length (pct_lower c) = 3"
  by (simp add: pct_lower_def)

lemma pct_lower_nonempty [simp]: "pct_lower c \<noteq> []"
  by (simp add: pct_lower_def)

lemma escape_loop_writing:
  assumes "default_esc fl"
  shows "length t + 3 * length s < siz - 1 \<Longrightarrow>
    \<exists>u n. url_escape_loop fl escs None siz in2 pre (Some t) nesc s = (Some (t @ u), nesc + int n)
      \<and> length u \<le> 3 * length s \<and> fst (nonxalpha_loop True u) = s"
proof (induction s arbitrary: in2 pre t nesc)
  case Nil
  then show ?case by (intro exI [of _ "[]"] exI [of _ 0]) simp
next
  case (Cons c s)
  define in2' where "in2' = (if c = ESC \<and> hd0 s = CHR ''$'' then True
    else if c = ESC \<and> hd0 s = CHR ''('' then False else in2)"
  show ?case
  proof (cases "must_escape fl escs in2' c")
    case True
    obtain u n where "url_escape_loop fl escs None siz in2' (pre @ [c]) (Some (t @ pct_lower c)) (nesc + 1) s
        = (Some ((t @ pct_lower c) @ u), nesc + 1 + int n)" "length u \<le> 3 * length s"
        "fst (nonxalpha_loop True u) = s"
      using Cons.IH [of "t @ pct_lower c"] Cons.prems by fastforce
    then show ?thesis using True Cons.prems assms
      by (intro exI [of _ "pct_lower c @ u"] exI [of _ "Suc n"])
        (simp add: Let_def nonxalpha_pct flip: in2'_def)
  next
    case False
    obtain u n where "url_escape_loop fl escs None siz in2' (pre @ [c]) (Some (t @ [c])) nesc s
        = (Some ((t @ [c]) @ u), nesc + int n)" "length u \<le> 3 * length s"
        "fst (nonxalpha_loop True u) = s"
      using Cons.IH [of "t @ [c]"] Cons.prems by fastforce
    then show ?thesis using False Cons.prems percent_is_escaped [OF assms False]
      by (intro exI [of _ "c # u"] exI [of _ n])
        (simp add: Let_def nonxalpha_plain del: nonxalpha_loop.simps(2) flip: in2'_def)
  qed
qed

lemma nonxalpha_append:
  "CHR ''%'' \<notin> set p \<Longrightarrow> fst (nonxalpha_loop sa (p @ s)) = p @ fst (nonxalpha_loop sa s)"
  by (induction p) (auto simp: nonxalpha_plain simp del: nonxalpha_loop.simps(2))

lemma escape_loop_reading:
  assumes "default_esc fl"
  shows "length pre + 3 * length s < siz - 1 \<Longrightarrow> CHR ''%'' \<notin> set pre \<Longrightarrow>
    url_escape_loop fl escs None siz in2 pre None 0 s = (None, 0) \<and> CHR ''%'' \<notin> set s
    \<or> (\<exists>t n. url_escape_loop fl escs None siz in2 pre None 0 s = (Some t, int n) \<and> 0 < n
        \<and> length t \<le> length pre + 3 * length s \<and> fst (nonxalpha_loop True t) = pre @ s)"
proof (induction s arbitrary: in2 pre)
  case (Cons c s)
  define in2' where "in2' = (if c = ESC \<and> hd0 s = CHR ''$'' then True
    else if c = ESC \<and> hd0 s = CHR ''('' then False else in2)"
  show ?case
  proof (cases "must_escape fl escs in2' c")
    case True
    obtain u n where u: "url_escape_loop fl escs None siz in2' (pre @ [c]) (Some (pre @ pct_lower c)) 1 s
        = (Some ((pre @ pct_lower c) @ u), 1 + int n)" "length u \<le> 3 * length s"
        "fst (nonxalpha_loop True u) = s"
      using escape_loop_writing [OF assms, of "pre @ pct_lower c" s siz escs in2' "pre @ [c]" 1]
        Cons.prems by fastforce
    have "url_escape_loop fl escs None siz in2 pre None 0 (c # s) = (Some (pre @ pct_lower c @ u), int (Suc n))"
      using True Cons.prems assms u(1) by (simp add: Let_def flip: in2'_def)
    moreover have "fst (nonxalpha_loop True (pre @ pct_lower c @ u)) = pre @ c # s"
      using Cons.prems u(3) by (simp add: nonxalpha_append nonxalpha_pct)
    ultimately show ?thesis using u(2)
      by (intro disjI2 exI [of _ "pre @ pct_lower c @ u"] exI [of _ "Suc n"]) simp
  next
    case False
    have e: "url_escape_loop fl escs None siz in2 pre None 0 (c # s)
        = url_escape_loop fl escs None siz in2' (pre @ [c]) None 0 s"
      using False by (simp add: Let_def flip: in2'_def)
    have c: "c \<noteq> CHR ''%''" by (rule percent_is_escaped [OF assms False])
    show ?thesis unfolding e using Cons.IH [of "pre @ [c]" in2'] Cons.prems c by fastforce
  qed
qed simp

lemma parse_escs_none: "hd0 escs \<noteq> CHR ''%'' \<Longrightarrow> parse_escs fl escs = (fl, escs)"
  by (induction fl escs rule: parse_escs.induct) auto

text \<open>
  C26: a text escaped by \<open>url_escapeX\<close> with the default rules and any further set of
  characters, in place or not, into a buffer of the size the worst case needs, is restored by
  \<open>nonxalpha_unescape\<close>: percent signs, controls, bytes above 0x7F and JIS escape sequences
  included. The default rules are those without option flags (a percent sign that starts the set of
  characters) and without a character to stop at (\<open>sbrk\<close>); the decoder is called to decode spaces
  too, into a buffer of that size.
\<close>

theorem url_escape_roundtrip:
  assumes "nonul src" and "hd0 escs \<noteq> CHR ''%''" and "3 * length src + 2 \<le> siz"
    and "same \<longrightarrow> 3 * length src + 2 \<le> 4096" and "3 * length src + 2 \<le> dstsiz"
  shows "fst (nonxalpha_unescape (fst (url_escapeX same src siz escs None)) dstsiz True) = src"
proof -
  define z where "z = (if same \<and> 4 * 1024 < siz then 4 * 1024 else siz)"
  have z: "3 * length src < z - 1" using assms(3,4) by (auto simp: z_def)
  let ?r = "url_escape_loop no_flags escs None z False [] None 0 src"
  have x: "url_escapeX same src siz escs None =
      (case ?r of (out, nesc) \<Rightarrow>
         (if nesc = 0 then (if same then src else take (z - 1) src)
          else (case out of Some t \<Rightarrow> t | None \<Rightarrow> src), nesc))"
    unfolding url_escapeX_def url_escapeY_def parse_escs_none [OF assms(2)] Let_def z_def by simp
  have "default_esc no_flags" by (simp add: default_esc_def no_flags_def)
  from escape_loop_reading [OF this, of "[]" src z escs False] z consider
    (plain) "?r = (None, 0)" "CHR ''%'' \<notin> set src"
    | (esc) t n where "?r = (Some t, int n)" "0 < n" "length t \<le> 3 * length src"
      "fst (nonxalpha_loop True t) = src"
    by auto
  then show ?thesis
  proof cases
    case plain
    then have "fst (nonxalpha_loop True src) = src" using nonxalpha_append [of src True "[]"] by simp
    then show ?thesis using plain z assms(1,5)
      by (simp add: x nonxalpha_unescape_def case_prod_unfold)
  next
    case esc
    then show ?thesis using assms(1,5) by (simp add: x nonxalpha_unescape_def case_prod_unfold)
  qed
qed

theorem url_escape_roundtrip_witness:
  "fst (nonxalpha_unescape (fst (url_escapeX True ''a b%c/d?e'' 64 '' ?#'' None)) 64 True) = ''a b%c/d?e''"
  by (rule url_escape_roundtrip) simp_all

subsection \<open>Double-byte text and forms\<close>

lemma dec2X_nibbles:
  "dec2X (hex_upper ! (uc c div 16) # hex_upper ! (uc c mod 16) # s) = int (uc c)"
  using nibble_facts [where c = c and h = hex_upper] scan_hex2_nibbles [of hex_upper c]
  by (simp add: dec2X_def)

lemma unescape2B_pct: "128 \<le> uc c \<Longrightarrow> unescape2B_text (pct_upper c @ s) = c # unescape2B_text s"
  using nibble_facts [where c = c and h = hex_upper] by (simp add: pct_upper_def dec2X_nibbles)

lemma unescape2B_escape2B: "CHR ''%'' \<notin> set s \<Longrightarrow> unescape2B_text (escape2B_text s) = s"
proof (induction s)
  case (Cons c s)
  then have IH: "unescape2B_text (concat (map (\<lambda>ch. if 128 \<le> uc ch then pct_upper ch else [ch]) s)) = s"
    by (simp add: escape2B_text_def)
  have "c \<noteq> CHR ''%''" using Cons.prems by auto
  then show ?case using IH unescape2B_pct [of c] by (simp add: escape2B_text_def)
qed (simp add: escape2B_text_def)

lemma length_escape2B: "length (escape2B_text s) \<le> 3 * length s"
  by (induction s) (auto simp: escape2B_text_def pct_upper_def)

lemma hex_upper_nonul: "k < 16 \<Longrightarrow> hex_upper ! k \<noteq> NUL \<and> hex_upper ! k \<noteq> ESC"
  using hex_digit_facts [of k hex_upper] by (auto simp: isHEX_def uc_def)

lemma nonul_pct_upper: "nonul (pct_upper c)"
  using hex_upper_nonul [OF byte_nibbles(2)] hex_upper_nonul [OF byte_nibbles(3)]
  by (simp add: pct_upper_def)

lemma nonul_escape2B: "nonul s \<Longrightarrow> nonul (escape2B_text s)"
  by (induction s) (auto simp: escape2B_text_def nonul_pct_upper)

text \<open>
  \<open>URL_unescape2B\<close> undoes \<open>URL_escape2B\<close> on every text without a percent sign, in
  buffers that are large enough.
\<close>

theorem URL_2B_roundtrip:
  assumes "nonul s" and "CHR ''%'' \<notin> set s" and "3 * length s < n" and "length s < m"
  shows "cstr (vmem (fst (URL_unescape2B (cstr (vmem (fst (URL_escape2B s (new_vstr n))))) (new_vstr m)))) = s"
proof -
  have w: "vwrote n (new_vstr n) []" "vwrote m (new_vstr m) []"
    using assms(3,4) by (auto intro: vwrote_new)
  show ?thesis
    using assms length_escape2B [of s] unescape2B_escape2B [OF assms(2)]
    by (simp add: URL_unescape2B_def URL_escape2B_def vputs_text [OF w(1)] vputs_text [OF w(2)]
        nonul_escape2B)
qed

theorem URL_2B_roundtrip_witness:
  "cstr (vmem (fst (URL_unescape2B (cstr (vmem (fst
     (URL_escape2B (CHR 0xA4 # CHR 0xE9 # ''/x'') (new_vstr 32))))) (new_vstr 16))))
   = CHR 0xA4 # CHR 0xE9 # ''/x''"
  by (rule URL_2B_roundtrip) simp_all

lemma set2B_no_ESC: "ESC \<notin> set rin \<Longrightarrow> set2B rin b = b"
proof -
  assume "ESC \<notin> set rin"
  then have "\<not> (3 \<le> length rin \<and> rin ! 2 = ESC)" by (metis Suc_le_lessD eval_nat_numeral(3) nth_mem)
  then show ?thesis by (auto simp: set2B_def)
qed

lemma unescape_pct:
  assumes "ESC \<notin> set rin"
  shows "\<exists>n rin'. ESC \<notin> set rin' \<and>
    URL_unescape_loop isform False False o2 rin rout nesc (pct_upper c @ s)
      = URL_unescape_loop isform False False (set2B rout o2) rin' (c # rout) n s"
proof -
  let ?a = "hex_upper ! (uc c div 16)" and ?b = "hex_upper ! (uc c mod 16)"
  have "ESC \<notin> set (?b # ?a # CHR ''%'' # rin)"
    using assms hex_upper_nonul [OF byte_nibbles(2)] hex_upper_nonul [OF byte_nibbles(3)]
    by (auto dest: sym)
  moreover have "URL_unescape_loop isform False False o2 rin rout nesc (pct_upper c @ s)
      = URL_unescape_loop isform False False (set2B rout o2) (?b # ?a # CHR ''%'' # rin) (c # rout) (nesc + 1) s"
    using nibble_facts [where c = c and h = hex_upper] assms
    by (simp add: pct_upper_def URL_unescape_loop.simps(2) set2B_no_ESC dec2X_nibbles Let_def)
  ultimately show ?thesis by blast
qed

lemma unescape_raw:
  assumes "ESC \<notin> set rin" and "c \<noteq> CHR ''%''" and "c \<noteq> CHR ''+'' \<or> \<not> isform \<or> set2B rout o2"
  shows "URL_unescape_loop isform False False o2 rin rout nesc (c # s)
      = URL_unescape_loop isform False False (set2B rout o2) (c # rin) (c # rout) nesc s"
  using assms by (auto simp: URL_unescape_loop.simps(2) set2B_no_ESC Let_def)

lemma unescape_plus:
  assumes "ESC \<notin> set rin" and "\<not> set2B rout o2"
  shows "URL_unescape_loop True False False o2 rin rout nesc (CHR ''+'' # s)
      = URL_unescape_loop True False False False (CHR ''+'' # rin) (SP # rout) (nesc + 1) s"
  using assms by (simp add: URL_unescape_loop.simps(2) set2B_no_ESC Let_def)

lemma unescape_reescape_loop:
  assumes "isform \<longrightarrow> CHR ''+'' \<notin> set s" and "ESC \<notin> set rin"
  shows "fst (URL_unescape_loop isform False False o2 rin r nesc (fst (URL_reescape_loop isform False o2 r s)))
    = rev r @ s"
  using assms
proof (induction s arbitrary: o2 rin r nesc)
  case (Cons c s)
  let ?o = "set2B r o2"
  have IH: "fst (URL_unescape_loop isform False False ?o rin' (c # r) n
      (fst (URL_reescape_loop isform False ?o (c # r) s))) = rev r @ c # s" if "ESC \<notin> set rin'" for rin' n
    using Cons.IH [OF _ that, of ?o "c # r" n] Cons.prems(1) by simp
  consider (raw) "\<not> ?o \<and> isRESERVED c \<or> isalnum c \<or> c = CHR ''_'' \<or> c = CHR ''-''"
    | (spc) "\<not> (\<not> ?o \<and> isRESERVED c \<or> isalnum c \<or> c = CHR ''_'' \<or> c = CHR ''-'')"
        "\<not> ?o" "c = SP" "isform"
    | (pct) "\<not> (\<not> ?o \<and> isRESERVED c \<or> isalnum c \<or> c = CHR ''_'' \<or> c = CHR ''-'')"
        "\<not> (\<not> ?o \<and> c = SP \<and> isform)" by blast
  then show ?case
  proof cases
    case raw
    then have c: "c \<noteq> CHR ''%''" "c \<noteq> ESC" "c = CHR ''+'' \<longrightarrow> \<not> isform"
      using Cons.prems(1) by (auto simp: isRESERVED_def strchr_in_def ctype_defs uc_def)
    have "fst (URL_reescape_loop isform False o2 r (c # s)) = c # fst (URL_reescape_loop isform False ?o (c # r) s)"
      using raw by (auto simp: URL_reescape_loop.simps(2) Let_def)
    then show ?thesis using unescape_raw [OF Cons.prems(2), of c isform r o2] c IH [of "c # rin"] Cons.prems(2)
      by auto
  next
    case spc
    then have "fst (URL_reescape_loop isform False o2 r (c # s))
        = CHR ''+'' # fst (URL_reescape_loop isform False ?o (c # r) s)"
      by (simp add: URL_reescape_loop.simps(2) Let_def)
    then show ?thesis using spc unescape_plus [OF Cons.prems(2), of r o2] IH [of "CHR ''+'' # rin"] Cons.prems(2)
      by simp
  next
    case pct
    then have "fst (URL_reescape_loop isform False o2 r (c # s))
        = pct_upper c @ fst (URL_reescape_loop isform False ?o (c # r) s)"
      by (auto simp: URL_reescape_loop.simps(2) Let_def)
    then show ?thesis using unescape_pct [OF Cons.prems(2), of isform o2 r nesc c] IH by metis
  qed
qed simp

lemma reescape_nonul_length:
  "nonul s \<Longrightarrow> nonul (fst (URL_reescape_loop isform False o2 r s))
    \<and> length (fst (URL_reescape_loop isform False o2 r s)) \<le> 3 * length s"
proof (induction s arbitrary: o2 r)
  case (Cons c s)
  have "nonul (fst (URL_reescape_loop isform False (set2B r o2) (c # r) s))"
    "length (fst (URL_reescape_loop isform False (set2B r o2) (c # r) s)) \<le> 3 * length s"
    using Cons by auto
  then show ?case using Cons.prems nonul_pct_upper [of c]
    by (auto simp: URL_reescape_loop.simps(2) Let_def pct_upper_def)
qed simp

text \<open>
  \<open>URL_unescape\<close> undoes \<open>URL_reescape\<close> on every text, JIS double-byte runs included; for
  a form, on every text without a plus sign, which \<open>URL_reescape\<close> leaves as it is.
\<close>

theorem URL_reescape_roundtrip:
  assumes "nonul s" and "isform \<longrightarrow> CHR ''+'' \<notin> set s" and "3 * length s < n" and "length s < m"
  shows "cstr (vmem (fst (URL_unescape (cstr (vmem (fst (URL_reescape s (new_vstr n) isform False))))
    (new_vstr m) isform False))) = s"
proof -
  let ?out = "fst (URL_reescape_loop isform False False [] s)"
  have w: "vwrote n (new_vstr n) []" "vwrote m (new_vstr m) []"
    using assms(3,4) by (auto intro: vwrote_new)
  have "cstr (vmem (fst (URL_reescape s (new_vstr n) isform False))) = ?out"
    using reescape_nonul_length [OF assms(1), of isform False "[]"] assms(3)
    by (auto simp: URL_reescape_def vputs_text [OF w(1)] case_prod_unfold)
  moreover have "fst (URL_unescape_loop isform False False False [] [] 0 ?out) = s"
    using unescape_reescape_loop [OF assms(2), of "[]" False "[]" 0] by simp
  ultimately show ?thesis
    using assms(1,4) vputs_text [OF w(2) assms(1)] by (simp add: URL_unescape_def case_prod_unfold)
qed

theorem URL_reescape_roundtrip_witness:
  "cstr (vmem (fst (URL_unescape (cstr (vmem (fst (URL_reescape ''q=a b&%41'' (new_vstr 64) True False))))
    (new_vstr 32) True False))) = ''q=a b&%41''"
  by (rule URL_reescape_roundtrip) simp_all

subsection \<open>Prefixes of URLs\<close>

text \<open>
  Two malformed escapes count as equal: \<open>h2toi\<close> yields -1 for both, and the comparison
  skips the two characters behind each percent sign unseen. A pattern that ends in a percent
  sign is read behind its terminator.
\<close>

theorem url_strstrX_malformed:
  "url_strstrX ''%zz/private/x'' ''%yy/private'' False = Some 11
   \<and> url_strstrX ''%zz'' ''%'' False = None"
  by code_simp

lemma url_strstr_step:
  "plen < length pat \<Longrightarrow> ulen < length url \<Longrightarrow> url ! ulen = pat ! plen \<Longrightarrow> pat ! plen \<noteq> CHR ''%'' \<Longrightarrow>
   url_strstr_loop url pat nocase ulen plen = url_strstr_loop url pat nocase (ulen + 1) (plen + 1)"
  by (subst url_strstr_loop.simps)
    (simp add: url_chr_match_def hd0_def drop_eq_Nil Cons_nth_drop_Suc [symmetric])

lemma url_strstr_loop_plain:
  "CHR ''%'' \<notin> set pat \<Longrightarrow> plen \<le> length pat \<Longrightarrow>
   url_strstr_loop (pat @ rest) pat nocase plen plen = Some (length pat)"
proof (induction "length pat - plen" arbitrary: plen)
  case 0
  then show ?case by (subst url_strstr_loop.simps) simp
next
  case (Suc k)
  then have lt: "plen < length pat" by simp
  have "pat ! plen \<noteq> CHR ''%''" using Suc.prems lt by (metis nth_mem)
  then have "url_strstr_loop (pat @ rest) pat nocase plen plen
      = url_strstr_loop (pat @ rest) pat nocase (plen + 1) (plen + 1)"
    using lt by (intro url_strstr_step) (simp_all add: nth_append)
  with Suc lt show ?case by simp
qed

text \<open>
  A pattern without a percent sign matches every URL that starts with it, and the length
  returned is its own.
\<close>

theorem url_strstrX_prefix:
  "CHR ''%'' \<notin> set pat \<Longrightarrow> url_strstrX (pat @ rest) pat nocase = Some (length pat)"
  using url_strstr_loop_plain [of pat 0 rest nocase] by (simp add: url_strstrX_def)

theorem url_strstrX_prefix_witness: "url_strstrX (''/cgi-bin/'' @ ''a%20b'') ''/cgi-bin/'' False = Some 9"
  using url_strstrX_prefix [of "''/cgi-bin/''" "''a%20b''" False] by simp

end
