(* ===== verification/HashTab.thy ===== *)
theory HashTab
  imports Prelude
begin

section \<open>HashTab: string tables (\<open>rary/hash.cpp\<close>, \<open>rary/strid.cpp\<close>)\<close>

text \<open>
  Open addressing with linear probing. A table is the array of its entries; a null key is
  \<open>None\<close>. \<^verbatim>\<open>Hsearch\<close> both looks up and stores: with the null value as data it only looks up.
  Keys are C strings, so \<^verbatim>\<open>strcmp(a,b) == 0\<close> is equality. The counters of \<^verbatim>\<open>HTable\<close> and \<^verbatim>\<open>strid\<close>
  are statistics and are left out, as is the storage of the key strings.
\<close>

type_synonym htab = "(string \<times> int) option list"

definition NULLVAL :: int where "NULLVAL = -1"

definition Hcreate :: "nat \<Rightarrow> htab" where
  "Hcreate nelem = replicate nelem None"

text \<open>\<^verbatim>\<open>unsigned long\<close> has 64 bits.\<close>

fun elfhash_loop :: "64 word \<Rightarrow> string \<Rightarrow> 64 word" where
  "elfhash_loop kx [] = kx"
| "elfhash_loop kx (c # key) =
     (let k1 = push_bit 4 kx + of_nat (uc c); g = k1 AND 0xF0000000;
          k2 = (if g \<noteq> 0 then k1 XOR drop_bit 24 g else k1)
      in elfhash_loop (k2 AND NOT g) key)"

definition elfhash :: "string \<Rightarrow> 64 word" where
  "elfhash key = elfhash_loop 0 key"

text \<open>\<^verbatim>\<open>kx\<close> is an \<^verbatim>\<open>unsigned int\<close>; \<open>n\<close> is \<^verbatim>\<open>hsize - kn\<close>.\<close>

fun Hsearch_loop :: "string \<Rightarrow> int \<Rightarrow> htab \<Rightarrow> nat \<Rightarrow> nat \<Rightarrow> htab \<times> int" where
  "Hsearch_loop key data arr kx 0 = (arr, NULLVAL)"
| "Hsearch_loop key data arr kx (Suc n) =
     (let i = (if length arr \<le> kx then kx mod length arr else kx)
      in case arr ! i of
           None \<Rightarrow> if data = NULLVAL then (arr, NULLVAL) else (arr[i := Some (key, data)], data)
         | Some (k, d) \<Rightarrow>
             if key = k then (if data \<noteq> NULLVAL then (arr[i := Some (k, data)], data) else (arr, d))
             else Hsearch_loop key data arr (i + 1) n)"

declare Hsearch_loop.simps(2) [simp del]

definition Hsearch :: "htab \<Rightarrow> string \<Rightarrow> int \<Rightarrow> htab \<times> int" where
  "Hsearch arr key data = Hsearch_loop key data arr (unat (ucast (elfhash key) :: u32)) (length arr)"

text \<open>\<^verbatim>\<open>Hnext\<close>: the next entry in use after \<open>kx\<close> (from the start for a negative one).\<close>

definition Hnext :: "htab \<Rightarrow> int \<Rightarrow> (nat \<times> string \<times> int) option" where
  "Hnext arr kx =
     (let start = (if kx < 0 then 0 else nat (kx + 1))
      in case filter (\<lambda>i. arr ! i \<noteq> None) [start..<length arr] of
           [] \<Rightarrow> None
         | i # _ \<Rightarrow> Some (i, the (arr ! i)))"

text \<open>\<^verbatim>\<open>strid\<close>: the value already bound to the string, else bind it; -1 only asks.\<close>

definition strid :: "htab \<Rightarrow> string \<Rightarrow> int \<Rightarrow> htab \<times> int" where
  "strid tab str i =
     (let sid = snd (Hsearch tab str NULLVAL)
      in if sid \<noteq> NULLVAL then (tab, sid) else (fst (Hsearch tab str i), i))"

lemma Hnext_bounds: "Hnext arr kx = Some (i, s, d) \<Longrightarrow> kx < int i \<and> i < length arr \<and> arr ! i = Some (s, d)"
proof -
  assume h: "Hnext arr kx = Some (i, s, d)"
  define start where "start = (if kx < 0 then 0 else nat (kx + 1))"
  from h obtain js where f: "filter (\<lambda>i. arr ! i \<noteq> None) [start..<length arr] = i # js"
    and e: "the (arr ! i) = (s, d)"
    by (auto simp: Hnext_def Let_def start_def split: list.splits)
  have "i \<in> set (filter (\<lambda>i. arr ! i \<noteq> None) [start..<length arr])" unfolding f by simp
  then show ?thesis using e by (auto simp: start_def split: if_splits)
qed

text \<open>\<^verbatim>\<open>strid_find\<close> starts its walk at index 0, that is behind the entry 0.\<close>

function strid_find_loop :: "htab \<Rightarrow> int \<Rightarrow> nat \<Rightarrow> string option" where
  "strid_find_loop tab i hx =
     (case Hnext tab (int hx) of
        None \<Rightarrow> None
      | Some (nhx, str, id1) \<Rightarrow> if id1 = i then Some str else strid_find_loop tab i nhx)"
  by pat_completeness auto
termination
  by (relation "measure (\<lambda>(tab, i, hx). length tab - hx)") (auto dest: Hnext_bounds)

declare strid_find_loop.simps [simp del]

definition strid_find :: "htab \<Rightarrow> int \<Rightarrow> string option" where
  "strid_find tab i = strid_find_loop tab i 0"

subsection \<open>Probing\<close>

definition home :: "string \<Rightarrow> nat" where
  "home key = unat (ucast (elfhash key) :: u32)"

definition probe :: "htab \<Rightarrow> string \<Rightarrow> nat \<Rightarrow> nat" where
  "probe arr key j = (home key + j) mod length arr"

lemma probe_less [simp]: "arr \<noteq> [] \<Longrightarrow> probe arr key j < length arr"
  by (simp add: probe_def)

text \<open>The slots before \<open>j\<close> on the way of a key are taken by other keys.\<close>

definition passed :: "htab \<Rightarrow> string \<Rightarrow> nat \<Rightarrow> bool" where
  "passed arr key j \<longleftrightarrow> (\<forall>i < j. \<exists>k d. arr ! probe arr key i = Some (k, d) \<and> k \<noteq> key)"

lemma Hsearch_loop_step:
  assumes "arr \<noteq> []" and "arr ! (kx mod length arr) = Some (k, d)" and "k \<noteq> key"
  shows "Hsearch_loop key data arr kx (Suc n) = Hsearch_loop key data arr (kx mod length arr + 1) n"
  using assms by (auto simp: Hsearch_loop.simps(2) Let_def)

text \<open>The search arrives at the first slot of the way that is free or holds the key.\<close>

lemma Hsearch_loop_passed:
  assumes "arr \<noteq> []"
  shows "kx mod length arr = probe arr key i \<Longrightarrow>
    (\<forall>i' \<in> {i..<j}. \<exists>k d. arr ! probe arr key i' = Some (k, d) \<and> k \<noteq> key) \<Longrightarrow> i \<le> j \<Longrightarrow>
    \<exists>kx'. kx' mod length arr = probe arr key j \<and>
      Hsearch_loop key data arr kx (j - i + n) = Hsearch_loop key data arr kx' n"
proof (induction "j - i" arbitrary: i kx)
  case 0
  then show ?case by (intro exI [of _ kx]) simp
next
  case (Suc m)
  then have lt: "i < j" by simp
  then obtain k d where "arr ! probe arr key i = Some (k, d)" "k \<noteq> key" using Suc.prems(2) by force
  then have "Hsearch_loop key data arr kx (Suc (j - Suc i + n))
      = Hsearch_loop key data arr (kx mod length arr + 1) (j - Suc i + n)"
    using Hsearch_loop_step assms Suc.prems(1) by metis
  moreover have "(kx mod length arr + 1) mod length arr = probe arr key (Suc i)"
    unfolding Suc.prems(1) by (simp add: probe_def mod_Suc_eq)
  then have "\<exists>kx'. kx' mod length arr = probe arr key j \<and>
      Hsearch_loop key data arr (kx mod length arr + 1) (j - Suc i + n) = Hsearch_loop key data arr kx' n"
    using Suc lt by (intro Suc.hyps(1)) auto
  moreover have "j - i + n = Suc (j - Suc i + n)" using lt by simp
  ultimately show ?case by simp
qed

lemma Hsearch_at:
  assumes "j < length arr" and "passed arr key j"
  shows "\<exists>kx n. kx mod length arr = probe arr key j \<and> Hsearch arr key data = Hsearch_loop key data arr kx (Suc n)"
proof -
  have "home key mod length arr = probe arr key 0" by (simp add: probe_def)
  moreover have "arr \<noteq> []" using assms(1) by auto
  moreover have "\<forall>i' \<in> {0..<j}. \<exists>k d. arr ! probe arr key i' = Some (k, d) \<and> k \<noteq> key"
    using assms(2) by (simp add: passed_def)
  ultimately obtain kx where "kx mod length arr = probe arr key j"
    "Hsearch_loop key data arr (home key) (j - 0 + Suc (length arr - j - 1))
      = Hsearch_loop key data arr kx (Suc (length arr - j - 1))"
    using Hsearch_loop_passed [of arr "home key" key 0 j data "Suc (length arr - j - 1)"] by blast
  moreover have "j - 0 + Suc (length arr - j - 1) = length arr" using assms(1) by simp
  ultimately show ?thesis by (metis Hsearch_def home_def)
qed

lemma Hsearch_hit:
  assumes "j < length arr" "passed arr key j" "arr ! probe arr key j = Some (key, d)"
  shows "Hsearch arr key data = (if data \<noteq> NULLVAL then (arr[probe arr key j := Some (key, data)], data)
    else (arr, d))"
  using Hsearch_at [OF assms(1,2), of data] assms(3) by (auto simp: Hsearch_loop.simps(2) Let_def)

lemma Hsearch_free:
  assumes "j < length arr" "passed arr key j" "arr ! probe arr key j = None"
  shows "Hsearch arr key data = (if data = NULLVAL then (arr, NULLVAL)
    else (arr[probe arr key j := Some (key, data)], data))"
  using Hsearch_at [OF assms(1,2), of data] assms(3) by (auto simp: Hsearch_loop.simps(2) Let_def)

subsection \<open>The table as a map\<close>

text \<open>The invariant: every entry is on the way of its key, behind slots of other keys.\<close>

definition ht_ok :: "htab \<Rightarrow> bool" where
  "ht_ok arr \<longleftrightarrow> arr \<noteq> [] \<and> (\<forall>p k d. p < length arr \<and> arr ! p = Some (k, d) \<longrightarrow>
     d \<noteq> NULLVAL \<and> (\<exists>j < length arr. probe arr k j = p \<and> passed arr k j))"

definition bound :: "htab \<Rightarrow> string \<Rightarrow> int \<Rightarrow> bool" where
  "bound arr k d \<longleftrightarrow> Some (k, d) \<in> set arr"

lemma ht_ok_entry:
  assumes "ht_ok arr" "bound arr k d"
  obtains j where "j < length arr" "passed arr k j" "arr ! probe arr k j = Some (k, d)"
  using assms unfolding ht_ok_def bound_def in_set_conv_nth by metis

lemma probes_cover: "arr \<noteq> [] \<Longrightarrow> p < length arr \<Longrightarrow> \<exists>j < length arr. probe arr k j = p"
proof -
  assume ne: "arr \<noteq> []" and p: "p < length arr"
  define N where "N = length arr"
  have N: "0 < N" "p < N" using ne p by (auto simp: N_def)
  define j where "j = (p + N - home k mod N) mod N"
  have "(home k + j) mod N = (home k mod N + (p + N - home k mod N)) mod N"
    by (simp add: j_def mod_add_left_eq mod_add_right_eq)
  also have "home k mod N + (p + N - home k mod N) = p + N" using N mod_less_divisor [of N "home k"] by linarith
  finally show ?thesis using N by (auto simp: probe_def j_def simp flip: N_def intro!: exI [of _ j])
qed

text \<open>A key that is not bound, in a table with a free slot, comes to a free slot.\<close>

lemma free_slot:
  assumes "ht_ok arr" "None \<in> set arr" "\<forall>d. \<not> bound arr key d"
  obtains j where "j < length arr" "passed arr key j" "arr ! probe arr key j = None"
proof -
  have ne: "arr \<noteq> []" using assms(1) by (simp add: ht_ok_def)
  obtain p where "p < length arr" "arr ! p = None" using assms(2) by (auto simp: in_set_conv_nth)
  then have ex: "\<exists>j. j < length arr \<and> arr ! probe arr key j = None" using probes_cover [OF ne] by metis
  define j where "j = (LEAST j. j < length arr \<and> arr ! probe arr key j = None)"
  have j: "j < length arr" "arr ! probe arr key j = None" using LeastI_ex [OF ex] by (auto simp: j_def)
  have "passed arr key j" unfolding passed_def
  proof (intro allI impI)
    fix i assume i: "i < j"
    then have "\<not> (i < length arr \<and> arr ! probe arr key i = None)"
      unfolding j_def by (rule not_less_Least)
    then have "arr ! probe arr key i \<noteq> None" using i j(1) by simp
    then obtain k d where kd: "arr ! probe arr key i = Some (k, d)" by auto
    have "bound arr k d" unfolding bound_def using kd probe_less [OF ne] by (metis nth_mem)
    with assms(3) kd show "\<exists>k d. arr ! probe arr key i = Some (k, d) \<and> k \<noteq> key" by auto
  qed
  with j that show ?thesis by blast
qed

lemma find_bound: "ht_ok arr \<Longrightarrow> bound arr k d \<Longrightarrow> Hsearch arr k NULLVAL = (arr, d)"
  by (erule (1) ht_ok_entry) (simp add: Hsearch_hit)

lemma find_unbound:
  assumes "ht_ok arr" "\<forall>d. \<not> bound arr k d"
  shows "Hsearch arr k NULLVAL = (arr, NULLVAL)"
proof (cases "None \<in> set arr")
  case True
  then show ?thesis using free_slot [OF assms(1) True assms(2)] Hsearch_free by metis
next
  case False
  have ne: "arr \<noteq> []" using assms(1) by (simp add: ht_ok_def)
  have p: "\<forall>i \<in> {0..<length arr}. \<exists>k' d. arr ! probe arr k i = Some (k', d) \<and> k' \<noteq> k"
  proof
    fix i assume "i \<in> {0..<length arr}"
    obtain k' d where "arr ! probe arr k i = Some (k', d)"
      using False probe_less [OF ne] by (metis nth_mem option.exhaust surj_pair)
    moreover then have "bound arr k' d" unfolding bound_def using probe_less [OF ne] by (metis nth_mem)
    ultimately show "\<exists>k' d. arr ! probe arr k i = Some (k', d) \<and> k' \<noteq> k" using assms(2) by auto
  qed
  have "home k mod length arr = probe arr k 0" by (simp add: probe_def)
  from Hsearch_loop_passed [OF ne this p, of NULLVAL 0] show ?thesis
    by (auto simp: Hsearch_def home_def)
qed

text \<open>Binding a key keeps the invariant and every other binding.\<close>

lemma passed_update:
  assumes "passed arr k j" and "\<And>i. i < j \<Longrightarrow> probe arr k i \<noteq> p \<or> key \<noteq> k" and "p < length arr"
  shows "passed (arr[p := Some (key, d)]) k j"
  unfolding passed_def
proof (intro allI impI)
  fix i assume i: "i < j"
  obtain k' d' where "arr ! probe arr k i = Some (k', d')" "k' \<noteq> k" using assms(1) i unfolding passed_def by blast
  then show "\<exists>k' d'. arr[p := Some (key, d)] ! probe (arr[p := Some (key, d)]) k i = Some (k', d') \<and> k' \<noteq> k"
    using assms(2) [OF i] assms(3) by (cases "probe arr k i = p") (auto simp: probe_def)
qed

lemma put_at:
  assumes ok: "ht_ok arr" and d: "d \<noteq> NULLVAL" and j: "j < length arr" "passed arr key j"
    and slot: "arr ! probe arr key j = None \<and> (\<forall>d. \<not> bound arr key d) \<or> (\<exists>d0. arr ! probe arr key j = Some (key, d0))"
  defines "arr' \<equiv> arr[probe arr key j := Some (key, d)]"
  shows "ht_ok arr' \<and> (\<forall>k e. bound arr' k e \<longleftrightarrow> (if k = key then e = d else bound arr k e))"
proof -
  let ?p = "probe arr key j"
  have ne: "arr \<noteq> []" and p: "?p < length arr" using ok by (auto simp: ht_ok_def)
  have probe': "probe arr' = probe arr" by (intro ext) (simp add: probe_def arr'_def)
  have other: "q = ?p" if ql: "q < length arr" and qe: "arr ! q = Some (key, e)" for q e
  proof -
    obtain i where i: "i < length arr" "probe arr key i = q" "passed arr key i"
      using ok ql qe unfolding ht_ok_def by blast
    have b: "bound arr key e" unfolding bound_def using ql qe by (metis nth_mem)
    with slot obtain d0 where s: "arr ! ?p = Some (key, d0)" by blast
    have "\<not> i < j" using j(2) i(2) qe unfolding passed_def by force
    moreover have "\<not> j < i" using i(3) s unfolding passed_def by force
    ultimately have "i = j" by simp
    then show ?thesis using i(2) by simp
  qed
  have "ht_ok arr'" unfolding ht_ok_def
  proof (intro conjI allI impI)
    show "arr' \<noteq> []" using ne by (simp add: arr'_def)
    fix q k e assume q: "q < length arr' \<and> arr' ! q = Some (k, e)"
    show "e \<noteq> NULLVAL" using q d ok by (cases "q = ?p") (auto simp: arr'_def ht_ok_def)
    show "\<exists>i<length arr'. probe arr' k i = q \<and> passed arr' k i"
    proof (cases "q = ?p")
      case True
      then have "k = key" using q p by (auto simp: arr'_def)
      moreover have "probe arr key i \<noteq> ?p" if "i < j" for i
        using j(2) that slot unfolding passed_def by force
      then have "passed arr' key j" unfolding arr'_def using j(2) p by (intro passed_update) auto
      ultimately show ?thesis using True j(1) unfolding probe' by (metis arr'_def length_list_update)
    next
      case False
      then have ek: "arr ! q = Some (k, e)" "q < length arr" using q by (auto simp: arr'_def)
      then have "k \<noteq> key" using other False by blast
      obtain i where "i < length arr" "probe arr k i = q" "passed arr k i"
        using ok ek unfolding ht_ok_def by blast
      moreover have "passed arr' k i" unfolding arr'_def
        using \<open>passed arr k i\<close> \<open>k \<noteq> key\<close> p by (intro passed_update) auto
      ultimately show ?thesis unfolding probe' by (metis arr'_def length_list_update)
    qed
  qed
  moreover have "bound arr' k e \<longleftrightarrow> (if k = key then e = d else bound arr k e)" for k e
  proof -
    have "bound arr' k e \<longleftrightarrow> (\<exists>q < length arr. arr' ! q = Some (k, e))"
      by (auto simp: bound_def in_set_conv_nth arr'_def)
    also have "\<dots> \<longleftrightarrow> (if k = key then e = d else (\<exists>q < length arr. arr ! q = Some (k, e)))"
    proof (cases "k = key")
      case True
      have "arr' ! q = Some (key, e) \<longleftrightarrow> q = ?p \<and> e = d" if "q < length arr" for q
        using other [OF that, of e] p that by (cases "q = ?p") (auto simp: arr'_def)
      then show ?thesis using True p by auto
    next
      case False
      have "arr' ! q = Some (k, e) \<longleftrightarrow> arr ! q = Some (k, e)" if "q < length arr" for q
        using slot False p by (cases "q = ?p") (auto simp: arr'_def)
      then show ?thesis using False by auto
    qed
    also have "\<dots> \<longleftrightarrow> (if k = key then e = d else bound arr k e)"
      by (simp add: bound_def in_set_conv_nth)
    finally show ?thesis .
  qed
  ultimately show ?thesis by blast
qed

lemma put_bound:
  assumes "ht_ok arr" and "d \<noteq> NULLVAL" and "None \<in> set arr \<or> (\<exists>d0. bound arr key d0)"
  shows "ht_ok (fst (Hsearch arr key d)) \<and> snd (Hsearch arr key d) = d
    \<and> (\<forall>k e. bound (fst (Hsearch arr key d)) k e \<longleftrightarrow> (if k = key then e = d else bound arr k e))"
proof (cases "\<exists>d0. bound arr key d0")
  case True
  then obtain d0 j where j: "j < length arr" "passed arr key j" "arr ! probe arr key j = Some (key, d0)"
    using ht_ok_entry [OF assms(1)] by metis
  show ?thesis using put_at [OF assms(1,2) j(1,2)] j(3) assms(2) by (simp add: Hsearch_hit [OF j])
next
  case False
  then obtain j where j: "j < length arr" "passed arr key j" "arr ! probe arr key j = None"
    using free_slot [OF assms(1)] assms(3) by metis
  show ?thesis using put_at [OF assms(1,2) j(1,2)] j(3) False assms(2) by (simp add: Hsearch_free [OF j])
qed

lemma ht_ok_create: "0 < n \<Longrightarrow> ht_ok (Hcreate n) \<and> (\<forall>k d. \<not> bound (Hcreate n) k d)"
  by (auto simp: ht_ok_def Hcreate_def bound_def)

subsection \<open>The contract of a string table\<close>

text \<open>
  What the users of \<^verbatim>\<open>strid\<close> rely on: a table binds strings to values other than -1; asking
  does not change it, and binding a string that is not bound yet, while there is room,
  changes the answer for that string alone.
\<close>

locale string_table =
  fixes ask :: "'t \<Rightarrow> string \<Rightarrow> int"
    and bind :: "'t \<Rightarrow> string \<Rightarrow> int \<Rightarrow> 't"
    and ok :: "'t \<Rightarrow> bool"
    and room :: "'t \<Rightarrow> nat"
  assumes bind_ok: "ok t \<Longrightarrow> v \<noteq> -1 \<Longrightarrow> 0 < room t \<Longrightarrow> ok (bind t s v)"
    and ask_bind: "ok t \<Longrightarrow> v \<noteq> -1 \<Longrightarrow> 0 < room t \<Longrightarrow>
      ask (bind t s v) s' = (if s' = s \<and> ask t s = -1 then v else ask t s')"
    and room_bind: "ok t \<Longrightarrow> v \<noteq> -1 \<Longrightarrow> room t \<le> Suc (room (bind t s v))"
begin

lemma bind_all:
  assumes "ok t" and "\<forall>(s, v) \<in> set xs. v \<noteq> -1" and "length xs \<le> room t"
  shows "ok (foldl (\<lambda>t (s, v). bind t s v) t xs) \<and>
    (\<forall>s'. ask (foldl (\<lambda>t (s, v). bind t s v) t xs) s'
      = (if ask t s' \<noteq> -1 then ask t s' else case map_of xs s' of Some v \<Rightarrow> v | None \<Rightarrow> -1))"
  using assms
proof (induction xs arbitrary: t)
  case (Cons x xs)
  obtain s v where x: "x = (s, v)" by (cases x)
  have t: "ok (bind t s v)" "length xs \<le> room (bind t s v)"
    using Cons.prems x bind_ok room_bind [of t v s] by auto
  have v: "v \<noteq> -1" using Cons.prems x by auto
  have "0 < room t" using Cons.prems by auto
  note a = ask_bind [OF Cons.prems(1) v this]
  show ?case using Cons.IH [OF t(1) _ t(2)] Cons.prems(2) v by (auto simp: x a)
qed simp

lemma bind_all_room:
  assumes "ok t" and "\<forall>(s, v) \<in> set xs. v \<noteq> -1" and "length xs \<le> room t"
  shows "room t \<le> length xs + room (foldl (\<lambda>t (s, v). bind t s v) t xs)"
  using assms
proof (induction xs arbitrary: t)
  case (Cons x xs)
  obtain s v where x: "x = (s, v)" by (cases x)
  have "ok (bind t s v)" "length xs \<le> room (bind t s v)" "room t \<le> Suc (room (bind t s v))"
    using Cons.prems x bind_ok room_bind [of t v s] by auto
  then show ?case using Cons.IH [of "bind t s v"] Cons.prems(2) by (simp add: x)
qed simp

end

definition ht_room :: "htab \<Rightarrow> nat" where
  "ht_room t = length (filter (\<lambda>e. e = None) t)"

definition strid_ask :: "htab \<Rightarrow> string \<Rightarrow> int" where
  "strid_ask t s = snd (strid t s (-1))"

definition strid_bind :: "htab \<Rightarrow> string \<Rightarrow> int \<Rightarrow> htab" where
  "strid_bind t s v = fst (strid t s v)"

lemma room_None: "0 < ht_room t \<Longrightarrow> None \<in> set t"
proof (rule ccontr)
  assume "0 < ht_room t" "None \<notin> set t"
  then have "filter (\<lambda>e. e = None) t = []" unfolding filter_empty_conv by metis
  with \<open>0 < ht_room t\<close> show False by (simp add: ht_room_def)
qed

lemma ht_room_parts [simp]:
  "ht_room (a @ b) = ht_room a + ht_room b" "ht_room (Some e # t) = ht_room t"
  "ht_room (x # t) \<le> Suc (ht_room t)"
  by (simp_all add: ht_room_def)

lemma bound_value: "ht_ok t \<Longrightarrow> bound t s d \<Longrightarrow> d \<noteq> NULLVAL"
  unfolding ht_ok_def bound_def in_set_conv_nth by metis

lemma ask_eqI: "ht_ok t \<Longrightarrow> bound t s d \<Longrightarrow> strid_ask t s = d"
proof -
  assume "ht_ok t" "bound t s d"
  moreover from this have "d \<noteq> NULLVAL" by (rule bound_value)
  ultimately show ?thesis by (simp add: strid_ask_def strid_def find_bound)
qed

lemma ask_unbound: "ht_ok t \<Longrightarrow> strid_ask t s = -1 \<longleftrightarrow> (\<forall>d. \<not> bound t s d)"
proof -
  assume ok: "ht_ok t"
  have "bound t s d \<Longrightarrow> d \<noteq> -1" for d using bound_value [OF ok] by (simp add: NULLVAL_def)
  moreover have "\<forall>d. \<not> bound t s d \<Longrightarrow> strid_ask t s = -1"
    using find_unbound [OF ok, of s] by (simp add: strid_ask_def strid_def NULLVAL_def)
  ultimately show ?thesis using ask_eqI [OF ok] by metis
qed

lemma strid_bind_cases:
  assumes "ht_ok t"
  shows "strid_bind t s v = (if strid_ask t s = -1 then fst (Hsearch t s v) else t)"
proof (cases "\<exists>d. bound t s d")
  case True
  then obtain d where "bound t s d" by blast
  then have "strid_ask t s = d" "d \<noteq> NULLVAL" "Hsearch t s NULLVAL = (t, d)"
    using ask_eqI find_bound bound_value assms by blast+
  then show ?thesis by (simp add: strid_bind_def strid_def NULLVAL_def)
next
  case False
  then show ?thesis using ask_unbound [OF assms] find_unbound [OF assms, of s]
    by (simp add: strid_bind_def strid_def)
qed

lemma room_update: "ht_room t \<le> Suc (ht_room (t[i := Some e]))"
proof (cases "i < length t")
  case True
  have "ht_room t = ht_room (take i t) + ht_room (t ! i # drop (Suc i) t)"
    using id_take_nth_drop [OF True] by (metis ht_room_parts(1))
  then show ?thesis using ht_room_parts(3) [of "t ! i" "drop (Suc i) t"] True
    by (simp add: upd_conv_take_nth_drop)
qed (simp add: list_update_beyond)

lemma Hsearch_room: "ht_room t \<le> Suc (ht_room (fst (Hsearch t s v)))"
proof -
  have "ht_room t \<le> Suc (ht_room (fst (Hsearch_loop s v t kx n)))" for kx n
    by (induction s v t kx n rule: Hsearch_loop.induct)
      (auto simp: Hsearch_loop.simps(2) Let_def room_update split: option.split)
  then show ?thesis by (simp add: Hsearch_def)
qed

interpretation strtab: string_table strid_ask strid_bind ht_ok ht_room
proof
  fix t :: htab and s s' :: string and v :: int
  assume ok: "ht_ok t" and v: "v \<noteq> -1"
  show "ht_room t \<le> Suc (ht_room (strid_bind t s v))"
    using strid_bind_cases [OF ok, of s v] Hsearch_room [of t s v] by simp
  assume "0 < ht_room t"
  then have put: "ht_ok (fst (Hsearch t s v))"
    "\<And>k e. bound (fst (Hsearch t s v)) k e \<longleftrightarrow> (if k = s then e = v else bound t k e)"
    using put_bound [OF ok, of v s] v room_None by (auto simp: NULLVAL_def)
  show "ht_ok (strid_bind t s v)" using ok put(1) strid_bind_cases [OF ok, of s v] by simp
  show "strid_ask (strid_bind t s v) s' = (if s' = s \<and> strid_ask t s = -1 then v else strid_ask t s')"
  proof (cases "strid_ask t s = -1")
    case True
    then have e: "strid_bind t s v = fst (Hsearch t s v)" using strid_bind_cases [OF ok] by simp
    show ?thesis
    proof (cases "s' = s")
      case True
      then show ?thesis using ask_eqI [OF put(1), of s v] put(2) \<open>strid_ask t s = -1\<close> by (simp add: e)
    next
      case False
      then show ?thesis using put(2) ask_eqI [OF put(1), of s'] ask_eqI [OF ok, of s']
          ask_unbound [OF put(1), of s'] ask_unbound [OF ok, of s'] unfolding e by metis
    qed
  next
    case False
    then show ?thesis using strid_bind_cases [OF ok, of s v] by auto
  qed
qed

text \<open>
  C29: the hash table behind \<open>strid\<close> is a map: binding any sequence of strings in a fresh table
  of sufficient size, the value asked for a string afterwards is the first one it was bound
  to, and -1 for every other string.
\<close>

theorem strid_is_map:
  assumes "length xs \<le> n" and "0 < n" and "\<forall>(s, v) \<in> set xs. v \<noteq> -1"
  shows "strid_ask (foldl (\<lambda>t (s, v). strid_bind t s v) (Hcreate n) xs) s
    = (case map_of xs s of Some v \<Rightarrow> v | None \<Rightarrow> -1)"
proof -
  have c: "ht_ok (Hcreate n)" "strid_ask (Hcreate n) s = -1" "ht_room (Hcreate n) = n"
    using ht_ok_create [OF assms(2)] ask_unbound [of "Hcreate n" s] by (auto simp: ht_room_def Hcreate_def)
  then show ?thesis using strtab.bind_all [OF c(1) assms(3)] assms(1) by simp
qed

theorem strid_is_map_witness:
  "strid_ask (foldl (\<lambda>t (s, v). strid_bind t s v) (Hcreate 4) [(''.localnet'', 1), (''.a'', 2), (''.a'', 3)]) ''.a''
   = (case map_of [(''.localnet'', 1), (''.a'', 2), (''.a'', 3)] ''.a'' of Some v \<Rightarrow> v | None \<Rightarrow> -1)"
  by (rule strid_is_map) simp_all

text \<open>\<open>strid_find\<close> does not see the entry 0 of the table.\<close>

lemma strid_find_misses_first:
  "ht = [Some (s, i)] \<Longrightarrow> strid_find ht i = None"
  by (simp add: strid_find_def strid_find_loop.simps Hnext_def)

end
