(* ===== verification/HostMatch.thy ===== *)
theory HostMatch
  imports StrScan
begin

section \<open>HostMatch: the tests of one host list entry (\<open>src/hostlist.cpp\<close>, \<open>include/vaddr.h\<close>)\<close>

text \<open>
  Access control in DeleGate is a list of host patterns. This theory holds the data of an
  entry and the tests it is made of: protocol, user and port lists, address ranges and
  masks, time periods, names that do not resolve and virtual domains. Name resolution, the
  network interfaces, the clock and the address files are outside of the component: they
  are the fields of \<open>hl_env\<close>.
\<close>

subsection \<open>Addresses\<close>

type_synonym addr4 = "u32 \<times> u32 \<times> u32 \<times> u32"

record vaddr =
  a_flags :: nat
  a_port :: int
  a_ints :: addr4
  a_name :: string

definition I3 :: "addr4 \<Rightarrow> u32" where
  "I3 a = (case a of (_, _, _, i3) \<Rightarrow> i3)"

definition set_I3 :: "addr4 \<Rightarrow> u32 \<Rightarrow> addr4" where
  "set_I3 a x = (case a of (i0, i1, i2, _) \<Rightarrow> (i0, i1, i2, x))"

definition AddrZero :: addr4 where "AddrZero = (0, 0, 0, 0)"
definition AddrNull :: addr4 where "AddrNull = (-1, -1, -1, -1)"
definition MaskZero :: addr4 where "MaskZero = (-1, -1, -1, 0)"

definition AddrAND :: "addr4 \<Rightarrow> addr4 \<Rightarrow> addr4" where
  "AddrAND a b = (case (a, b) of ((a0, a1, a2, a3), (b0, b1, b2, b3)) \<Rightarrow>
     (a0 AND b0, a1 AND b1, a2 AND b2, a3 AND b3))"

definition AddrInvalid :: "addr4 \<Rightarrow> bool" where
  "AddrInvalid a \<longleftrightarrow> a = AddrZero \<or> a = AddrNull"

definition isV6 :: "addr4 \<Rightarrow> bool" where
  "isV6 a = (case a of (i0, i1, i2, _) \<Rightarrow> i0 \<noteq> 0 \<or> i1 \<noteq> 0 \<or> i2 \<noteq> 0)"

definition v4 :: "u32 \<Rightarrow> addr4" where "v4 x = (0, 0, 0, x)"

definition VA_REMOTE :: nat where "VA_REMOTE = 0x01"
definition VA_RSLVERR :: nat where "VA_RSLVERR = 0x40"
definition VA_RSLVINVERR :: nat where "VA_RSLVINVERR = 0x80"
definition VA_RSLVED :: nat where "VA_RSLVED = 0xF0"

definition hasf :: "nat \<Rightarrow> nat \<Rightarrow> bool" where
  "hasf x f \<longleftrightarrow> x AND f \<noteq> 0"

subsection \<open>Entries and lists\<close>

definition HT_CLIF :: nat where "HT_CLIF = 0x0001"
definition HT_BYHOST :: nat where "HT_BYHOST = 0x0010"
definition HT_BYAUTH :: nat where "HT_BYAUTH = 0x0020"
definition HT_BYCERT :: nat where "HT_BYCERT = 0x0040"
definition HT_BYANY :: nat where "HT_BYANY = 0x00F0"
definition HT_BYAGENT :: nat where "HT_BYAGENT = 0x0100"
definition HT_IPV4 :: nat where "HT_IPV4 = 0x0200"
definition HT_IPV6 :: nat where "HT_IPV6 = 0x0400"
definition HT_BYFILE :: nat where "HT_BYFILE = 0x0800"
definition HT_RIDPEER :: nat where "HT_RIDPEER = 0x2000"
definition HT_UNKNOWN :: nat where "HT_UNKNOWN = 0x4000"

lemmas HT_defs = HT_CLIF_def HT_BYHOST_def HT_BYAUTH_def HT_BYCERT_def HT_BYANY_def
  HT_BYAGENT_def HT_IPV4_def HT_IPV6_def HT_BYFILE_def HT_RIDPEER_def HT_UNKNOWN_def

definition HL_APPEND :: nat where "HL_APPEND = 1"
definition HL_PROTECT :: nat where "HL_PROTECT = 2"
definition HL_NOIDENT :: nat where "HL_NOIDENT = 4"
definition HL_NORESOLV :: nat where "HL_NORESOLV = 8"
definition HL_BYCLHOST :: nat where "HL_BYCLHOST = 0x20"
definition HL_BYADDR :: nat where "HL_BYADDR = 0x40"
definition HL_BYAUTH :: nat where "HL_BYAUTH = 0x80"
definition HL_BYAGENT :: nat where "HL_BYAGENT = 0x200"
definition HL_XRANDOM :: nat where "HL_XRANDOM = 0x1000"
definition HL_XRANDSET :: nat where "HL_XRANDSET = 0x2000"
definition HL_BYNAMEONLY :: nat where "HL_BYNAMEONLY = 0x4000"

lemmas HL_defs = HL_APPEND_def HL_PROTECT_def HL_NOIDENT_def HL_NORESOLV_def HL_BYCLHOST_def
  HL_BYADDR_def HL_BYAUTH_def HL_BYAGENT_def HL_XRANDOM_def HL_XRANDSET_def HL_BYNAMEONLY_def

datatype h_op = ON_EQ | ON_NEQ | OFF_EQ | OFF_NEQ | OP_AND | OP_OR | OP_NEG

text \<open>
  A null string vector is \<open>None\<close>; \<open>h_userRexp\<close> holds the pattern given to \<^verbatim>\<open>frex_create\<close>, if
  any. \<^verbatim>\<open>h_rexp\<close> and \<^verbatim>\<open>h_route\<close> are written but never read and are left out.
\<close>

record host =
  h_asis :: bool
  h_name :: string
  h_mask :: addr4
  h_Addr :: addr4
  ranges :: "(nat \<times> nat) list"
  h_proto :: "string list option"
  h_port :: "string list option"
  h_user :: "string list option"
  h_userRexp :: "string option list"
  h_op :: h_op
  h_listid :: nat
  h_vdomain :: "string option"
  h_type :: nat

record hostlist =
  hl_what :: string
  hl_List :: "host list"
  hl_noIdent :: bool
  hl_flags :: nat
  hl_base :: nat

definition new_host :: host where
  "new_host = \<lparr>h_asis = False, h_name = [], h_mask = AddrZero, h_Addr = AddrZero,
     ranges = [(0, 0), (0, 0), (0, 0), (0, 0)], h_proto = None, h_port = None, h_user = None,
     h_userRexp = [], h_op = ON_EQ, h_listid = 0, h_vdomain = None, h_type = 0\<rparr>"

definition HT_BYUSER :: "host \<Rightarrow> bool" where
  "HT_BYUSER h \<longleftrightarrow> hasf (h_type h) HT_BYAUTH \<or> hasf (h_type h) HT_BYCERT"

definition hostListIsAny :: "hostlist option \<Rightarrow> bool" where
  "hostListIsAny hl = (case hl of None \<Rightarrow> False
     | Some l \<Rightarrow> length (hl_List l) = 1 \<and> h_name (hl_List l ! 0) = ''*'')"

text \<open>An authentication the client has given.\<close>

record auth_info =
  i_stat :: nat
  i_user :: string
  i_Host :: string
  i_Port :: int

definition AUTH_SET :: nat where "AUTH_SET = 2"

subsection \<open>The environment\<close>

text \<open>
  \<open>hostIsResolvable\<close>, \<open>isinetAddr\<close>, \<open>VA_strtoVAddr\<close>, \<open>VA_gethostVAddr\<close> (primary name and
  address), \<open>VA_hostIFto\<close>, \<open>VA_resolv\<close>, \<open>hostcmp\<close>, \<open>addrGroup\<close>, \<open>matchHostSetX\<close>,
  \<open>isMYSELF\<close> and \<open>frex_match\<close> of the resolver and the socket layer; the local time as weekday
  (0 is Sunday), hour and minute with the microseconds of \<^verbatim>\<open>CurrentTime\<close>; the client's
  sockets, agent and remote identity; the values of \<^verbatim>\<open>m1,m2\<close> and of a string buffer when
  \<^verbatim>\<open>sscanf\<close> sets none; the name of the own host and the definition of \<^verbatim>\<open>.localnet\<close>.
\<close>

record hl_env =
  hostIsResolvable :: "string \<Rightarrow> bool"
  isinetAddr :: "string \<Rightarrow> bool"
  VA_strtoVAddr :: "string \<Rightarrow> addr4 option"
  VSA_strisaddr :: "string \<Rightarrow> bool"
  VA_gethostVAddr :: "string \<Rightarrow> (string \<times> vaddr) option"
  VA_hostIFto :: "addr4 \<Rightarrow> addr4 \<Rightarrow> addr4"
  VA_resolv :: "vaddr \<Rightarrow> vaddr"
  hostcmp :: "string \<Rightarrow> string \<Rightarrow> int"
  addrGroup :: "string \<Rightarrow> string \<Rightarrow> addr4 \<Rightarrow> bool"
  matchHostSetX :: "string \<Rightarrow> addr4 \<Rightarrow> addr4 \<Rightarrow> addr4 \<Rightarrow> int \<Rightarrow> bool"
  isMYSELF :: "string \<Rightarrow> bool"
  frex_match :: "string \<Rightarrow> string \<Rightarrow> string option"
  lADDRMATCH :: bool
  ct_wday :: int
  ct_hour :: int
  ct_min :: int
  ct_usec :: int
  ClientsideHost :: vaddr
  ClientSockHost :: vaddr
  ClientHost :: vaddr
  ClientAgent :: string
  fromSelf :: bool
  RidentPeer :: vaddr
  junk_m :: "int \<times> int"
  junk_str :: string
  GetHostname :: string
  DELEGATE_LOCALNET :: string

subsection \<open>Lists of protocols, users and ports\<close>

text \<open>
  The three lists share their evaluation: a leading \<^verbatim>\<open>!\<close> on the first element makes the
  default true, and the last element that matches decides.
\<close>

fun onoff_list :: "(string \<Rightarrow> bool) \<Rightarrow> bool \<Rightarrow> string list \<Rightarrow> bool" where
  "onoff_list mt isin [] = isin"
| "onoff_list mt isin (e # es) =
     (let off = (hd0 e = CHR ''!''); e' = (if off then tl e else e)
      in onoff_list mt (if mt e' \<and> \<not> off then True else if mt e' \<and> off then False else isin) es)"

definition matchProto :: "string list \<Rightarrow> string \<Rightarrow> bool" where
  "matchProto protolist proto =
     onoff_list (\<lambda>p. p = ''*'' \<or> p = proto)
       (case protolist of [] \<Rightarrow> False | p # _ \<Rightarrow> hd0 p = CHR ''!'') protolist"

definition makeUserRexp :: "string list \<Rightarrow> string option list" where
  "makeUserRexp userlist =
     map (\<lambda>u. let user = (if hd0 u = CHR ''!'' then tl u else u)
              in if user \<noteq> ''*'' \<and> strpbrk user ''*['' \<noteq> None then Some user else None) userlist"

fun matchUser_loop :: "hl_env \<Rightarrow> string \<Rightarrow> bool \<Rightarrow> (string \<times> string option) list \<Rightarrow> bool" where
  "matchUser_loop env username isin [] = isin"
| "matchUser_loop env username isin ((u, rexp) # us) =
     (let off = (hd0 u = CHR ''!''); user = (if off then tl u else u);
          mt = (if user = ''*'' then True
                else case rexp of
                       Some r \<Rightarrow> frex_match env r username = Some []
                     | None \<Rightarrow> strcmp user username = 0)
      in matchUser_loop env username (if mt \<and> \<not> off then True else if mt \<and> off then False else isin) us)"

definition matchUser :: "hl_env \<Rightarrow> string list \<Rightarrow> string option list \<Rightarrow> string \<Rightarrow> bool" where
  "matchUser env userlist rexplist username =
     matchUser_loop env username (case userlist of [] \<Rightarrow> False | u # _ \<Rightarrow> hd0 u = CHR ''!'')
       (zip userlist rexplist)"

text \<open>\<^verbatim>\<open>sscanf(ports,"%d-%d",&port0,&port1)\<close>: the values assigned.\<close>

definition scan_d_d :: "string \<Rightarrow> int list" where
  "scan_d_d s = (case scan_d s of
                   None \<Rightarrow> []
                 | Some (a, r) \<Rightarrow> (if hd0 r = CHR ''-''
                                   then (case scan_d (tl r) of Some (b, _) \<Rightarrow> [a, b] | None \<Rightarrow> [a])
                                   else [a]))"

definition port_match :: "int \<Rightarrow> string \<Rightarrow> bool" where
  "port_match portnum ports \<longleftrightarrow>
     ports = ''*'' \<or> (case scan_d_d ports of
                         [p0] \<Rightarrow> p0 = portnum
                       | [p0, p1] \<Rightarrow> p0 \<le> portnum \<and> portnum \<le> p1
                       | _ \<Rightarrow> False)"

definition matchPort :: "string list \<Rightarrow> int \<Rightarrow> bool" where
  "matchPort portlist portnum =
     onoff_list (port_match portnum)
       (case portlist of [] \<Rightarrow> False | p # _ \<Rightarrow> hd0 p = CHR ''!'') portlist"

subsection \<open>Address ranges and masks\<close>

definition octet :: "u32 \<Rightarrow> nat \<Rightarrow> nat" where
  "octet a ai = unat (drop_bit ((3 - ai) * 8) a AND 0xFF)"

definition match_addrrange :: "host \<Rightarrow> addr4 \<Rightarrow> bool" where
  "match_addrrange h a \<longleftrightarrow>
     (\<forall>ai \<in> set [0..<4]. \<not> (octet (I3 a) ai < fst (ranges h ! ai) \<or> snd (ranges h ! ai) < octet (I3 a) ai))"

definition CLASS_MASK :: u32 where "CLASS_MASK = 0"
definition HEURISTIC_MASK :: u32 where "HEURISTIC_MASK = 1"

definition class_mask_of :: "u32 \<Rightarrow> u32" where
  "class_mask_of ip4 =
     (let ip4c = drop_bit 24 ip4 AND 0xFF
      in if ip4c < 128 then 0xFF000000 else if ip4c < 192 then 0xFFFF0000 else 0xFFFFFF00)"

definition default_netmask :: "addr4 \<Rightarrow> addr4 \<Rightarrow> addr4" where
  "default_netmask msk va =
     (if isV6 va then
        (if I3 msk = HEURISTIC_MASK
         then (case msk of (i0, i1, _, _) \<Rightarrow> (i0, i1, 0, 0)) else msk)
      else if I3 msk \<noteq> CLASS_MASK \<and> I3 msk \<noteq> HEURISTIC_MASK then msk
      else let ip4 = I3 va; mask1 = class_mask_of ip4; net = ip4 AND mask1;
               private = (net = 0xC0A80000 \<or> 0xAC100000 \<le> net \<and> net \<le> 0xAC1F0000 \<or> net = 0x0A000000)
           in set_I3 MaskZero
                (if I3 msk = HEURISTIC_MASK \<and> \<not> private \<and> drop_bit 24 ip4 AND 0xFF < 128
                 then 0xFFFFFF00 else mask1))"

subsection \<open>Time periods\<close>

text \<open>
  \<^verbatim>\<open>WHMtoi\<close> overlays the digits given on a default, in a buffer of eight bytes (zero where
  neither writes).
\<close>

definition WHMtoi :: "string \<Rightarrow> string \<Rightarrow> int" where
  "WHMtoi st dflt = atoi (cstr (take 8 (st @ drop (length st) (dflt @ replicate 8 NUL))))"

definition matchTimePeriod :: "hl_env \<Rightarrow> string \<Rightarrow> u32 \<Rightarrow> bool" where
  "matchTimePeriod env period msk =
     (if 0 < sint msk then
        (let m = sint msk;
             (m1, m2) = (case scan_d_d period of [a, b] \<Rightarrow> (a, b)
                           | [a] \<Rightarrow> (a, snd (junk_m env)) | _ \<Rightarrow> junk_m env);
             mc = (ct_usec env * m div 1000000) mod m
         in m1 \<le> mc \<and> mc \<le> m2)
      else
        (let sunday7 = (if ct_wday env = 0 then 7 else ct_wday env);
             hm = ct_hour env * 100 + ct_min env;
             (pp, smin, smax, md, hc) =
               (if hd0 period = CHR ''w''
                then (tl period, ''00000'', ''62359'', 70000, ct_wday env * 10000 + hm)
                else if hd0 period = CHR ''u''
                then (tl period, ''10000'', ''72359'', 80000, sunday7 * 10000 + hm)
                else (period, ''0000'', ''2359'', 10000, hm));
             sh1 = takeWhile isdigit pp; r = dropWhile isdigit pp;
             sh2 = (if hd0 r = CHR ''-'' then takeWhile isdigit (tl r) else []);
             h1 = WHMtoi sh1 smin mod md;
             h2 = WHMtoi (if sh2 = [] then sh1 else sh2) smax mod md
         in if sh1 = [] then False
            else if h1 \<le> h2 then h1 \<le> hc \<and> hc \<le> h2
            else h1 \<le> hc \<and> hc \<le> atoi smax \<or> atoi smin \<le> hc \<and> hc \<le> h2))"

subsection \<open>Unresolved names and virtual domains\<close>

definition notResolved :: "hl_env \<Rightarrow> addr4 \<Rightarrow> string \<Rightarrow> bool" where
  "notResolved env a name \<longleftrightarrow> AddrInvalid a \<or> isinetAddr env name"

definition notResolvable :: "hl_env \<Rightarrow> vaddr \<Rightarrow> string \<Rightarrow> nat" where
  "notResolvable env va name =
     (if hasf (a_flags va) VA_RSLVERR \<or> hasf (a_flags va) VA_RSLVINVERR then 4
      else if notResolved env (a_ints va) name then 1
      else if strtailstrX name ''.in-addr.arpa'' True \<noteq> None
           \<or> strtailstrX name ''.ip6.int'' True \<noteq> None then 2
      else if \<not> hostIsResolvable env name then 3
      else 0)"

text \<open>The name without its virtual domain, the domain, and the suffix as it stands in the name.\<close>

definition scanVdomain :: "string \<Rightarrow> (string \<times> string \<times> string) option" where
  "scanVdomain hostname =
     (case strstr hostname ''.-'' of
        None \<Rightarrow> None
      | Some vdom \<Rightarrow>
          (let vdomain = filter isalnum (drop 2 vdom)
           in if vdomain = [] then None
              else Some (take (length hostname - length vdom) hostname, vdomain, vdom)))"

subsection \<open>Forms of a host pattern\<close>

definition HostOutgoingIF :: "string \<Rightarrow> bool" where
  "HostOutgoingIF hp \<longleftrightarrow> hp = ''.o''"

definition HostIncomingIF :: "string \<Rightarrow> bool" where
  "HostIncomingIF hp \<longleftrightarrow> hp = ''.i'' \<or> hp = ''-''"

definition HostIncomingIFX :: "string \<Rightarrow> bool" where
  "HostIncomingIFX hp \<longleftrightarrow> is_prefix ''-P'' hp \<or> is_prefix ''-Q'' hp"

definition HostOnClientside :: "string \<Rightarrow> bool" where
  "HostOnClientside hp \<longleftrightarrow> hp = ''-C'' \<or> hp = ''.C''"

definition TimePeriod :: "string \<Rightarrow> bool" where
  "TimePeriod hp \<longleftrightarrow> is_prefix ''-T.'' hp"

definition HostUnknown :: "string \<Rightarrow> bool" where
  "HostUnknown hp \<longleftrightarrow> hp = ''?''"

definition CantResolve :: "string \<Rightarrow> bool" where
  "CantResolve hp \<longleftrightarrow> hp = ''?*''"

definition HostMatchExactly :: "string \<Rightarrow> string \<Rightarrow> bool" where
  "HostMatchExactly hp hn \<longleftrightarrow> strcasecmp hp hn = 0"

subsection \<open>The last match decides\<close>

definition bare :: "string \<Rightarrow> string" where
  "bare e = (if hd0 e = CHR ''!'' then tl e else e)"

lemma onoff_list_append: "onoff_list mt b (es @ fs) = onoff_list mt (onoff_list mt b es) fs"
  by (induction es arbitrary: b) (simp_all add: Let_def)

lemma onoff_list_one: "onoff_list mt b [e] = (if mt (bare e) then hd0 e \<noteq> CHR ''!'' else b)"
  by (simp add: bare_def Let_def)

lemma onoff_list_last:
  "onoff_list mt b es = (case filter (\<lambda>e. mt (bare e)) (rev es) of
     [] \<Rightarrow> b | e # _ \<Rightarrow> hd0 e \<noteq> CHR ''!'')"
  by (induction es rule: rev_induct)
    (simp_all add: onoff_list_append onoff_list_one del: onoff_list.simps(2))

text \<open>
  A port list \<^verbatim>\<open>a-b\<close> holds for exactly the ports from a to b, \<^verbatim>\<open>a\<close> for that port alone, and
  \<^verbatim>\<open>!a-b\<close> for all others.
\<close>

theorem matchPort_range:
  assumes "a < 2 ^ 31" and "b < 2 ^ 31"
  shows "matchPort [show_nat a @ ''-'' @ show_nat b] p = (int a \<le> p \<and> p \<le> int b)
    \<and> matchPort [show_nat a] p = (p = int a)
    \<and> matchPort [''!'' @ show_nat a @ ''-'' @ show_nat b] p = (\<not> (int a \<le> p \<and> p \<le> int b))"
proof -
  obtain c cs where c: "show_nat a = c # cs" by (meson list.exhaust show_nat_nonempty)
  have "isdigit c" using show_nat_digits [of a] c by simp
  then have ne: "c \<noteq> CHR ''!''" "c \<noteq> CHR ''*''" by (auto simp: ctype_defs uc_def)
  have m: "\<not> isdigit CHR ''-''" "\<not> isdigit NUL" by (simp_all add: ctype_defs uc_def)
  have d: "scan_d (show_nat a @ CHR ''-'' # show_nat b) = Some (int a, CHR ''-'' # show_nat b)"
    "scan_d (show_nat b) = Some (int b, [])" "scan_d (show_nat a) = Some (int a, [])"
    using scan_d_show_nat [of a "CHR ''-'' # show_nat b"] scan_d_show_nat [of b "[]"]
      scan_d_show_nat [of a "[]"] assms m by simp_all
  have s: "scan_d_d (show_nat a @ CHR ''-'' # show_nat b) = [int a, int b]" "scan_d_d (show_nat a) = [int a]"
    by (simp_all add: scan_d_d_def d)
  have nz: "hd0 (show_nat a @ t) \<noteq> CHR ''!''" "show_nat a @ t \<noteq> ''*''" for t using c ne by auto
  have pm: "port_match p (show_nat a @ CHR ''-'' # show_nat b) = (int a \<le> p \<and> p \<le> int b)"
    "port_match p (show_nat a) = (p = int a)"
    using s nz [of "[]"] nz [of "CHR ''-'' # show_nat b"] by (auto simp: port_match_def)
  show ?thesis using pm nz [of "[]"] nz [of "CHR ''-'' # show_nat b"] by (simp add: matchPort_def)
qed

theorem matchPort_range_witness:
  "matchPort [show_nat 6000 @ ''-'' @ show_nat 6063] 6010 = (int 6000 \<le> 6010 \<and> 6010 \<le> int 6063)
    \<and> matchPort [show_nat 6000] 6010 = (6010 = int 6000)
    \<and> matchPort [''!'' @ show_nat 6000 @ ''-'' @ show_nat 6063] 6010 = (\<not> (int 6000 \<le> 6010 \<and> 6010 \<le> int 6063))"
  by (rule matchPort_range) simp_all

text \<open>
  In a list of protocols the last element that names the protocol, or is the wildcard,
  decides; where none does, the protocol is accepted just when the list starts with an
  exclusion.
\<close>

theorem matchProto_last:
  "matchProto pl proto =
     (case filter (\<lambda>e. bare e = ''*'' \<or> bare e = proto) (rev pl) of
        e # _ \<Rightarrow> hd0 e \<noteq> CHR ''!''
      | [] \<Rightarrow> pl \<noteq> [] \<and> hd0 (hd pl) = CHR ''!'')"
  by (cases pl) (auto simp: matchProto_def onoff_list_last split: list.splits)

subsection \<open>Masks\<close>

text \<open>
  The default mask of an IPv4 address never has a hole: it is the class mask or, by the
  heuristics, that of a class C network, and applying it again changes nothing.
\<close>

theorem default_netmask_class:
  assumes "\<not> isV6 va" and "I3 msk = CLASS_MASK \<or> I3 msk = HEURISTIC_MASK"
  shows "default_netmask msk va \<in> (\<lambda>k. set_I3 MaskZero (push_bit k (- 1))) ` {8, 16, 24}
    \<and> default_netmask (default_netmask msk va) va = default_netmask msk va"
proof -
  have m: "push_bit 8 (-1) = (0xFFFFFF00 :: u32)" "push_bit 16 (-1) = (0xFFFF0000 :: u32)"
    "push_bit 24 (-1) = (0xFF000000 :: u32)" by (simp_all add: push_bit_eq_mult del: push_bit_minus_one)
  obtain x where x: "default_netmask msk va = set_I3 MaskZero x"
    "x = 0xFF000000 \<or> x = 0xFFFF0000 \<or> x = 0xFFFFFF00"
    using assms by (auto simp: default_netmask_def class_mask_of_def Let_def)
  then have "default_netmask (set_I3 MaskZero x) va = set_I3 MaskZero x"
    using assms(1) by (auto simp: default_netmask_def I3_def set_I3_def MaskZero_def CLASS_MASK_def
        HEURISTIC_MASK_def)
  with x m show ?thesis by auto
qed

theorem default_netmask_class_witness:
  "default_netmask (set_I3 MaskZero 1) (v4 0x08080808) \<in> (\<lambda>k. set_I3 MaskZero (push_bit k (- 1))) ` {8, 16, 24}
   \<and> default_netmask (default_netmask (set_I3 MaskZero 1) (v4 0x08080808)) (v4 0x08080808)
     = default_netmask (set_I3 MaskZero 1) (v4 0x08080808)"
  by (rule default_netmask_class)
    (simp_all add: isV6_def v4_def I3_def set_I3_def MaskZero_def HEURISTIC_MASK_def)

end
