(* ===== verification/HostList.thy ===== *)
theory HostList
  imports HostMatch
begin

section \<open>HostList: is a host in a list (\<open>src/hostlist.cpp\<close>, \<open>VA_hostIsinListX\<close>)\<close>

text \<open>
  The evaluation of a host list. The entries are taken in order; an entry switches the
  result on or off, \<^verbatim>\<open>&\<close>, \<^verbatim>\<open>|\<close> and \<^verbatim>\<open>!\<close> combine what stands before them with what follows,
  and an entry may refer to another list. The local variables of the function that an entry
  changes for the entries after it are the state \<open>hl_state\<close>; what is fixed for the call is
  \<open>hl_call\<close>. The functions below follow the labels of the source: the target of an entry
  (the address it compares), the comparison, \<^verbatim>\<open>USERPORT\<close>, \<^verbatim>\<open>EXIT_BYHOST\<close>, \<^verbatim>\<open>AUTHMATCH\<close> and
  \<^verbatim>\<open>ACCUM\<close>. \<^verbatim>\<open>lMULTIST()\<close> is off, so the client information is that of the environment.
\<close>

record hl_state =
  isin :: bool
  hosti :: vaddr
  portnum :: int
  username :: "string option"
  expn :: int
  rident :: vaddr

record hl_call =
  c_proto :: "string option"
  c_cname :: string
  c_alias :: "string option"
  c_vdom :: "string option"
  c_Vaddr :: vaddr
  c_av :: "auth_info list"
  c_byauth :: bool
  c_byagent :: bool

text \<open>What one entry does: \<^verbatim>\<open>continue\<close>, a comparison to accumulate, or \<^verbatim>\<open>return 0\<close>.\<close>

datatype hl_res = Skip hl_state | Match bool hl_state | Return0

subsection \<open>The address an entry is compared with\<close>

text \<open>
  The masked address of the entry, the mask, the state, the name to compare and whether it is
  the alias; \<open>None\<close> is \<^verbatim>\<open>continue\<close>.
\<close>

definition entry_target :: "hl_env \<Rightarrow> hl_call \<Rightarrow> host \<Rightarrow> hl_state
    \<Rightarrow> (addr4 \<times> addr4 \<times> hl_state \<times> string \<times> bool) option" where
  "entry_target env c h st =
     (let hostpat = h_name h; msk = h_mask h;
          isal = (h_asis h \<and> c_alias c \<noteq> None);
          hostname = (if isal then the (c_alias c) else c_cname c);
          csock = ClientSockHost env
      in if HostOnClientside hostpat then
           (let msk' = default_netmask msk (a_ints (ClientsideHost env))
            in Some (AddrAND msk' (a_ints (ClientsideHost env)), msk', st, hostname, isal))
         else if HostOutgoingIF hostpat then
           (if AddrInvalid (a_ints (hosti st))
            then Some (set_I3 (a_ints (hosti st)) (NOT (I3 (a_ints (hosti st)))), AddrNull, st, hostname, isal)
            else let msk' = default_netmask msk (a_ints (hosti st));
                     ohost = VA_hostIFto env (a_ints (hosti st)) msk'
                 in Some (AddrAND ohost msk', msk', st, hostname, isal))
         else if hasf (h_type h) HT_CLIF then
           (let msk' = default_netmask msk (a_ints csock);
                chost = (if h_Addr h \<noteq> AddrZero then AddrAND msk' (h_Addr h)
                         else AddrAND msk' (a_ints csock))
            in Some (chost, msk', st\<lparr>hosti := csock, portnum := a_port csock\<rparr>, a_name csock, False))
         else if hasf (h_type h) HT_RIDPEER then
           (if \<not> hasf (a_flags (rident st)) VA_REMOTE then None
            else let peer = (if hasf (a_flags (rident st)) VA_RSLVED then rident st
                             else VA_resolv env (rident st))
                 in Some (AddrAND msk (h_Addr h), msk,
                      st\<lparr>hosti := peer, portnum := a_port peer, rident := peer\<rparr>, a_name peer, False))
         else if HostIncomingIF hostpat then
           (if AddrInvalid (a_ints csock) then None
            else let msk' = default_netmask msk (a_ints csock)
                 in Some (AddrAND msk' (a_ints csock), msk', st, hostname, isal))
         else Some (AddrAND msk (h_Addr h), msk, st, hostname, isal))"

subsection \<open>Comparison by name and address\<close>

definition domhost_of :: "string \<Rightarrow> string option" where
  "domhost_of hostpat = (if chr_at hostpat 0 = CHR ''*'' \<and> chr_at hostpat 1 = CHR ''.''
                         then Some (drop 2 hostpat) else None)"

definition alias_match :: "hl_call \<Rightarrow> string \<Rightarrow> bool \<Rightarrow> bool" where
  "alias_match c hostpat isal =
     (case c_alias c of
        None \<Rightarrow> False
      | Some alias \<Rightarrow>
          if isal \<or> strcaseeq alias (c_cname c) then False
          else rexpmatch hostpat alias \<or> strcaseeq hostpat alias
               \<or> (case domhost_of hostpat of Some d \<Rightarrow> strcaseeq d alias | None \<Rightarrow> False))"

definition byhost_match :: "hl_env \<Rightarrow> hl_call \<Rightarrow> host \<Rightarrow> hl_state \<Rightarrow> addr4 \<Rightarrow> addr4 \<Rightarrow> string \<Rightarrow> bool \<Rightarrow> bool" where
  "byhost_match env c h st chost ahost hostname isal =
     (let hostpat = h_name h
      in if CantResolve hostpat \<or> hasf (h_type h) HT_UNKNOWN
         then notResolvable env (hosti st) hostname \<noteq> 0
         else if HostUnknown hostpat \<and> notResolved env (a_ints (hosti st)) hostname then True
         else if (case domhost_of hostpat of Some d \<Rightarrow> HostMatchExactly d hostname | None \<Rightarrow> False) then True
         else if HostMatchExactly hostpat hostname then True
         else if ahost \<noteq> AddrZero \<and> chost \<noteq> AddrZero then ahost = chost
         else if ahost \<noteq> AddrZero \<and> snd (ranges h ! 0) \<noteq> 0 then match_addrrange h ahost
         else rexpmatch hostpat hostname \<or> hostpat = hostname \<or> alias_match c hostpat isal)"

subsection \<open>Protocol, port, user and authentication\<close>

definition userport :: "hl_env \<Rightarrow> hl_call \<Rightarrow> host \<Rightarrow> hl_state \<Rightarrow> bool \<Rightarrow> bool \<times> hl_state" where
  "userport env c h st m =
     (let m1 = (m \<and> \<not> (case (h_proto h, c_proto c) of
                          (Some pl, Some proto) \<Rightarrow> \<not> matchProto pl proto | _ \<Rightarrow> False));
          m2 = (m1 \<and> \<not> (case h_port h of
                           Some pl \<Rightarrow> portnum st \<noteq> 0 \<and> \<not> matchPort pl (portnum st) | None \<Rightarrow> False))
      in case h_user h of
           Some ul \<Rightarrow>
             if m2 then
               (let u = (case username st of Some u \<Rightarrow> u | None \<Rightarrow> ''?'')
                in (matchUser env ul (h_userRexp h) u, st\<lparr>username := Some u\<rparr>))
             else (False, st)
         | None \<Rightarrow> (m2, st))"

fun auth_match :: "hl_env \<Rightarrow> host \<Rightarrow> bool \<Rightarrow> auth_info list \<Rightarrow> bool" where
  "auth_match env h m [] = m"
| "auth_match env h m (ap # av) =
     (let type = (if hasf (i_stat ap) AUTH_SET then HT_BYAUTH else HT_BYCERT)
      in if \<not> hasf (h_type h) type then auth_match env h m av
         else let m1 = (case h_user h of
                          Some ul \<Rightarrow> matchUser env ul (h_userRexp h) (i_user ap) | None \<Rightarrow> True);
                  m2 = (m1 \<and> (h_name h = i_Host ap \<or> rexpmatch (h_name h) (i_Host ap)
                              \<or> hostcmp env (h_name h) (i_Host ap) = 0));
                  m3 = (m2 \<and> \<not> (case h_port h of
                                   Some pl \<Rightarrow> 0 < i_Port ap \<and> \<not> matchPort pl (i_Port ap) | None \<Rightarrow> False))
              in if m3 then True else auth_match env h m3 av)"

definition exit_byhost :: "hl_env \<Rightarrow> hl_call \<Rightarrow> host \<Rightarrow> hl_state \<Rightarrow> bool \<Rightarrow> bool" where
  "exit_byhost env c h st m =
     (if \<not> m \<and> HT_BYUSER h \<and> c_av c = [] \<and> username st = Some ''*'' then True
      else if \<not> m \<and> (c_byauth c \<or> HT_BYUSER h) \<and> c_av c \<noteq> [] then auth_match env h False (c_av c)
      else m)"

subsection \<open>One entry\<close>

definition compare_entry :: "hl_env \<Rightarrow> hl_call \<Rightarrow> host \<Rightarrow> hl_state \<Rightarrow> hl_res" where
  "compare_entry env c h st =
     (case entry_target env c h st of
        None \<Rightarrow> Skip st
      | Some (chost, msk, st1, hostname, isal) \<Rightarrow>
          (let ahost = AddrAND (a_ints (hosti st1)) msk
           in if c_byauth c \<and> \<not> hasf (h_type h) HT_CLIF
              then Match (auth_match env h False (c_av c)) st1
              else if hasf (h_type h) HT_BYFILE
              then Match (matchHostSetX env (h_name h) ahost (a_ints (hosti st1)) msk (expn st1)) st1
              else if \<not> hasf (h_type h) HT_BYHOST
              then Match (exit_byhost env c h st1 False) st1
              else (case userport env c h st1 (byhost_match env c h st1 chost ahost hostname isal) of
                      (m, st2) \<Rightarrow> Match (exit_byhost env c h st2 m) st2)))"

text \<open>\<open>sub\<close> evaluates another list of the table; it is \<open>None\<close> below the maximal depth.\<close>

definition match_entry :: "hl_env \<Rightarrow> hl_call \<Rightarrow> (nat \<Rightarrow> string option \<Rightarrow> nat) option \<Rightarrow> host \<Rightarrow> hl_state
    \<Rightarrow> hl_res" where
  "match_entry env c sub h st =
     (let hostpat = h_name h; v6 = isV6 (a_ints (c_Vaddr c));
          hostname = (if h_asis h then (case c_alias c of Some a \<Rightarrow> a | None \<Rightarrow> c_cname c) else c_cname c)
      in if c_vdom c \<noteq> h_vdomain h then Skip st
         else if isin st \<and> h_op h \<in> {ON_EQ, ON_NEQ} \<or> \<not> isin st \<and> h_op h \<in> {OFF_EQ, OFF_NEQ} then Skip st
         else if is_prefix ''--expire.'' hostpat then Skip (st\<lparr>expn := atoi (drop 9 hostpat)\<rparr>)
         else if c_byagent c \<or> h_type h = HT_BYAGENT
         then Match (strstr (ClientAgent env) hostpat \<noteq> None) st
         else if (hasf (h_type h) HT_IPV4 \<or> hasf (h_type h) HT_IPV6)
              \<and> (a_ints (c_Vaddr c) = AddrNull \<or> (if hasf (h_type h) HT_IPV4 \<and> v6 then True
                   else hasf (h_type h) HT_IPV6 \<and> \<not> v6))
         then Skip st
         else if h_listid h \<noteq> 0 then
           (case sub of
              None \<Rightarrow> Return0
            | Some f \<Rightarrow> (case userport env c h st (f (h_listid h) (username st) \<noteq> 0) of
                            (m, st2) \<Rightarrow> Match (exit_byhost env c h st2 m) st2))
         else if TimePeriod hostpat then Match (matchTimePeriod env (drop 3 hostpat) (I3 (h_mask h))) st
         else if strcaseeq hostpat ''--self'' then Match (fromSelf env) st
         else if strncaseeq hostpat ''_mx'' 3 then Match (hostIsResolvable env (''-MX.'' @ hostname)) st
         else if strtailstr hostpat ''.mac.list.-'' \<noteq> None \<or> strtailstr hostpat ''.ip4.list.-'' \<noteq> None
              \<or> strtailstr hostpat ''.ip6.list.-'' \<noteq> None \<or> strtailstr hostpat ''.ima.list.-'' \<noteq> None
         then Match (addrGroup env hostpat hostname (a_ints (hosti st))) st
         else compare_entry env c h st)"

subsection \<open>The list\<close>

definition accum :: "h_op \<Rightarrow> bool \<Rightarrow> bool \<Rightarrow> bool" where
  "accum op m is1 = (if m \<and> op = ON_EQ \<or> \<not> m \<and> op = ON_NEQ then True
                     else if m \<and> op = OFF_EQ \<or> \<not> m \<and> op = OFF_NEQ then False else is1)"

lemma dropWhile_Cons_shorter: "dropWhile P xs = y # ys \<Longrightarrow> length ys \<le> length xs"
  using length_dropWhile_le [of P xs] by simp

text \<open>\<open>hi\<close> is the index of the first of the entries left; the result is \<^verbatim>\<open>isin ? hi : 0\<close>.\<close>

function hosts_loop :: "(host \<Rightarrow> hl_state \<Rightarrow> hl_res) \<Rightarrow> nat \<Rightarrow> hl_state \<Rightarrow> host list \<Rightarrow> nat" where
  "hosts_loop me hi st [] = (if isin st then hi else 0)"
| "hosts_loop me hi st (h # hs) =
     (if h_op h = OP_AND then
        (if isin st then hosts_loop me (hi + 1) (st\<lparr>isin := False\<rparr>) hs
         else case dropWhile (\<lambda>h. h_op h \<noteq> OP_OR) hs of
                [] \<Rightarrow> 0
              | _ # hs' \<Rightarrow> hosts_loop me (hi + length (takeWhile (\<lambda>h. h_op h \<noteq> OP_OR) hs) + 2) st hs')
      else if h_op h = OP_OR then
        (if isin st then hi else hosts_loop me (hi + 1) st hs)
      else if h_op h = OP_NEG then hosts_loop me (hi + 1) (st\<lparr>isin := \<not> isin st\<rparr>) hs
      else (case me h st of
              Skip st' \<Rightarrow> hosts_loop me (hi + 1) st' hs
            | Match m st' \<Rightarrow> hosts_loop me (hi + 1) (st'\<lparr>isin := accum (h_op h) m (isin st')\<rparr>) hs
            | Return0 \<Rightarrow> 0))"
  by pat_completeness auto
termination
  by (relation "measure (\<lambda>(me, hi, st, hs). length hs)")
    (auto simp: less_Suc_eq_le dest: dropWhile_Cons_shorter)

definition MaxHostNameLen :: nat where "MaxHostNameLen = 256"
definition HL_MAXDEPTH :: nat where "HL_MAXDEPTH = 10"

definition call_of :: "hl_env \<Rightarrow> hostlist \<Rightarrow> string option \<Rightarrow> string \<Rightarrow> string option \<Rightarrow> vaddr
    \<Rightarrow> auth_info list \<Rightarrow> hl_call" where
  "call_of env hl proto cname alias va av =
     (let byclhost = hasf (hl_flags hl) HL_BYCLHOST;
          cname1 = (if byclhost then a_name (ClientHost env) else cname);
          alias1 = (if byclhost then None else alias);
          vd = scanVdomain cname1;
          cname2 = (case vd of Some (h, _, _) \<Rightarrow> h | None \<Rightarrow> cname1)
      in \<lparr>c_proto = proto, c_cname = map tolower (take (MaxHostNameLen - 1) cname2), c_alias = alias1,
          c_vdom = map_option (\<lambda>(_, v, _). v) vd, c_Vaddr = va, c_av = av,
          c_byauth = hasf (hl_flags hl) HL_BYAUTH, c_byagent = hasf (hl_flags hl) HL_BYAGENT\<rparr>)"

definition start_state :: "hl_env \<Rightarrow> hostlist \<Rightarrow> vaddr \<Rightarrow> string option \<Rightarrow> hl_state" where
  "start_state env hl va user =
     \<lparr>isin = False, hosti = (if hasf (hl_flags hl) HL_BYCLHOST then ClientHost env else va),
      portnum = a_port va, username = user, expn = 0, rident = RidentPeer env\<rparr>"

text \<open>\<open>d\<close> is \<open>HL_MAXDEPTH + 1 - lev\<close>: at 0 the level is above the maximum.\<close>

fun VA_hostIsinListX :: "hl_env \<Rightarrow> hostlist list \<Rightarrow> nat \<Rightarrow> hostlist \<Rightarrow> string option \<Rightarrow> string
    \<Rightarrow> string option \<Rightarrow> vaddr \<Rightarrow> string option \<Rightarrow> auth_info list \<Rightarrow> nat" where
  "VA_hostIsinListX env tab d hl proto cname alias va user av =
     (if hasf (hl_flags hl) HL_BYAUTH \<and> av = [] then 0
      else hosts_loop
             (match_entry env (call_of env hl proto cname alias va av)
               (case d of
                  0 \<Rightarrow> None
                | Suc d' \<Rightarrow> Some (\<lambda>id u. VA_hostIsinListX env tab d' (tab ! id) proto cname alias va u av)))
             1 (start_state env hl va user) (hl_List hl))"

declare VA_hostIsinListX.simps [simp del]

definition VA_hostIsinList :: "hl_env \<Rightarrow> hostlist list \<Rightarrow> hostlist \<Rightarrow> string option \<Rightarrow> string
    \<Rightarrow> string option \<Rightarrow> vaddr \<Rightarrow> string option \<Rightarrow> nat \<Rightarrow> nat" where
  "VA_hostIsinList env tab hl proto cname alias va user lev =
     VA_hostIsinListX env tab (HL_MAXDEPTH + 1 - lev) hl proto cname alias va user []"

subsection \<open>The list as a formula\<close>

text \<open>
  The reference: the list is cut at the OR marks into clauses and each clause at the AND
  marks into runs; a clause holds when all of its runs do, and a run is decided by the last of
  its entries that applies.
\<close>

fun split_at :: "(host \<Rightarrow> bool) \<Rightarrow> host list \<Rightarrow> host list list" where
  "split_at P [] = [[]]"
| "split_at P (h # hs) = (if P h then [] # split_at P hs
                          else (h # hd (split_at P hs)) # tl (split_at P hs))"

fun run_eval :: "(host \<Rightarrow> bool) \<Rightarrow> bool \<Rightarrow> host list \<Rightarrow> bool" where
  "run_eval m b [] = b"
| "run_eval m b (h # hs) = run_eval m (if h_op h = OP_NEG then \<not> b else accum (h_op h) (m h) b) hs"

abbreviation is_AND :: "host \<Rightarrow> bool" where "is_AND h \<equiv> h_op h = OP_AND"
abbreviation is_OR :: "host \<Rightarrow> bool" where "is_OR h \<equiv> h_op h = OP_OR"

definition clause_eval :: "(host \<Rightarrow> bool) \<Rightarrow> bool \<Rightarrow> host list \<Rightarrow> bool" where
  "clause_eval m b c \<longleftrightarrow> run_eval m b (hd (split_at is_AND c))
     \<and> list_all (run_eval m False) (tl (split_at is_AND c))"

definition list_eval :: "(host \<Rightarrow> bool) \<Rightarrow> bool \<Rightarrow> host list \<Rightarrow> bool" where
  "list_eval m b hs \<longleftrightarrow> clause_eval m b (hd (split_at is_OR hs))
     \<or> list_ex (clause_eval m False) (tl (split_at is_OR hs))"

lemma split_at_nonempty [simp]: "split_at P hs \<noteq> []"
  by (induction hs) auto

lemma list_eval_False: "list_eval m False hs = list_ex (clause_eval m False) (split_at is_OR hs)"
  by (cases "split_at is_OR hs") (auto simp: list_eval_def)

lemma clause_eval_False: "clause_eval m False c = list_all (run_eval m False) (split_at is_AND c)"
  by (cases "split_at is_AND c") (auto simp: clause_eval_def)

lemma split_at_first:
  "split_at P hs = takeWhile (\<lambda>h. \<not> P h) hs #
     (case dropWhile (\<lambda>h. \<not> P h) hs of [] \<Rightarrow> [] | _ # r \<Rightarrow> split_at P r)"
  by (induction hs) auto

lemma list_eval_simps:
  "list_eval m b [] = b"
  "is_OR h \<Longrightarrow> list_eval m b (h # hs) = (b \<or> list_eval m False hs)"
  "is_AND h \<Longrightarrow> list_eval m True (h # hs) = list_eval m False hs"
  "is_AND h \<Longrightarrow> list_eval m False (h # hs) = list_ex (clause_eval m False) (tl (split_at is_OR hs))"
  "h_op h \<notin> {OP_AND, OP_OR} \<Longrightarrow> list_eval m b (h # hs)
     = list_eval m (if h_op h = OP_NEG then \<not> b else accum (h_op h) (m h) b) hs"
proof -
  show "is_OR h \<Longrightarrow> list_eval m b (h # hs) = (b \<or> list_eval m False hs)"
    by (simp add: list_eval_def [of m b] list_eval_False clause_eval_def)
  show "is_AND h \<Longrightarrow> list_eval m True (h # hs) = list_eval m False hs"
    by (simp add: list_eval_def clause_eval_def clause_eval_False list.split_sel)
      (metis clause_eval_False clause_eval_def)
qed (simp_all add: list_eval_def clause_eval_def)

text \<open>
  The contract between the loop and its entries: the verdict of an entry does not depend on
  the result so far, and entries leave the rest of the state alone.
\<close>

locale steady_list =
  fixes me :: "host \<Rightarrow> hl_state \<Rightarrow> hl_res" and m :: "host \<Rightarrow> bool" and st0 :: hl_state
    and ok :: "host \<Rightarrow> bool"
  assumes steady: "ok h \<Longrightarrow> h_op h \<in> {ON_EQ, OFF_EQ} \<Longrightarrow>
      me h (st0\<lparr>isin := b\<rparr>) = Skip (st0\<lparr>isin := b\<rparr>) \<and> accum (h_op h) (m h) b = b
      \<or> me h (st0\<lparr>isin := b\<rparr>) = Match (m h) (st0\<lparr>isin := b\<rparr>)"
begin

lemma loop_eval:
  assumes "\<forall>h \<in> set hs. ok h \<and> h_op h \<in> {ON_EQ, OFF_EQ, OP_AND, OP_OR, OP_NEG}" and "0 < hi"
  shows "hosts_loop me hi (st0\<lparr>isin := b\<rparr>) hs \<noteq> 0 \<longleftrightarrow> list_eval m b hs"
  using assms
proof (induction "length hs" arbitrary: hs hi b rule: less_induct)
  case less
  show ?case
  proof (cases hs)
    case Nil
    then show ?thesis using less.prems by (simp add: list_eval_simps)
  next
    case (Cons h hs1)
    have IH: "hosts_loop me k (st0\<lparr>isin := b'\<rparr>) hs1 \<noteq> 0 \<longleftrightarrow> list_eval m b' hs1" if "0 < k" for b' k
      using less.hyps [of hs1 k b'] less.prems Cons that by auto
    from less.prems Cons consider (conj) "h_op h = OP_AND" | (disj) "h_op h = OP_OR" | (neg) "h_op h = OP_NEG"
      | (ent) "h_op h \<in> {ON_EQ, OFF_EQ}" "ok h" by auto
    then show ?thesis
    proof cases
      case conj
      show ?thesis
      proof (cases b)
        case True
        then show ?thesis using conj IH [of "hi + 1" False] by (simp add: Cons list_eval_simps)
      next
        case False
        show ?thesis
        proof (cases "dropWhile (\<lambda>h. h_op h \<noteq> OP_OR) hs1")
          case Nil
          then show ?thesis using conj False
            by (simp add: Cons list_eval_simps split_at_first [of is_OR hs1] del: dropWhile_eq_Nil_conv)
        next
          case (Cons g hs2)
          have "length hs2 < length hs" using dropWhile_Cons_shorter [OF Cons] \<open>hs = h # hs1\<close> by simp
          moreover have "set hs2 \<subseteq> set hs" using \<open>hs = h # hs1\<close>
            by (metis Cons set_dropWhileD set_subset_Cons subsetI list.set_intros(2) in_mono)
          ultimately have "hosts_loop me (hi + length (takeWhile (\<lambda>h. h_op h \<noteq> OP_OR) hs1) + 2)
              (st0\<lparr>isin := False\<rparr>) hs2 \<noteq> 0 \<longleftrightarrow> list_eval m False hs2"
            using less.hyps less.prems by (metis add_gr_0 subset_code(1))
          then show ?thesis using conj False Cons unfolding list_eval_False [of m hs2]
            by (simp add: \<open>hs = h # hs1\<close> list_eval_simps split_at_first [of is_OR hs1])
        qed
      qed
    next
      case disj
      then show ?thesis using IH [of "hi + 1" False] less.prems
        by (cases b) (simp_all add: Cons list_eval_simps)
    next
      case neg
      then show ?thesis using IH [of "hi + 1" "\<not> b"] by (simp add: Cons list_eval_simps)
    next
      case ent
      then have ops: "h_op h \<noteq> OP_AND" "h_op h \<noteq> OP_OR" "h_op h \<noteq> OP_NEG" by auto
      have e: "list_eval m b hs = list_eval m (accum (h_op h) (m h) b) hs1"
        using ops by (simp add: Cons list_eval_simps(5))
      from steady [OF ent(2,1), of b] show ?thesis
      proof (elim disjE conjE)
        assume "me h (st0\<lparr>isin := b\<rparr>) = Skip (st0\<lparr>isin := b\<rparr>)" "accum (h_op h) (m h) b = b"
        then show ?thesis using ops IH [of "hi + 1" b] by (simp add: Cons e [unfolded Cons])
      next
        assume "me h (st0\<lparr>isin := b\<rparr>) = Match (m h) (st0\<lparr>isin := b\<rparr>)"
        then show ?thesis using ops IH [of "hi + 1" "accum (h_op h) (m h) b"]
          by (simp add: Cons e [unfolded Cons])
      qed
    qed
  qed
qed

end

subsection \<open>What an entry changes\<close>

lemma userport_named:
  "username st = Some u \<Longrightarrow> \<exists>m'. userport env c h st m = (m', st)"
  by (cases "h_user h") (auto simp: userport_def Let_def)

lemma entry_target_state:
  "\<not> hasf (h_type h) HT_CLIF \<Longrightarrow> \<not> hasf (h_type h) HT_RIDPEER \<Longrightarrow>
   entry_target env c h st = Some (chost, msk, st', hn, isal) \<Longrightarrow> st' = st"
  by (auto simp: entry_target_def Let_def split: if_splits)

lemma compare_entry_state:
  assumes "\<not> hasf (h_type h) HT_CLIF" "\<not> hasf (h_type h) HT_RIDPEER" "username st = Some u"
  shows "compare_entry env c h st = Skip st \<or> (\<exists>m. compare_entry env c h st = Match m st)"
proof (cases "entry_target env c h st")
  case None
  then show ?thesis by (simp add: compare_entry_def)
next
  case (Some t)
  obtain chost msk st1 hn isal where t: "t = (chost, msk, st1, hn, isal)" by (metis prod_cases5)
  have "st1 = st" using entry_target_state [OF assms(1,2) Some [unfolded t]] .
  moreover obtain m' where "userport env c h st
      (byhost_match env c h st chost (AddrAND (a_ints (hosti st)) msk) hn isal) = (m', st)"
    using userport_named [OF assms(3)] by blast
  ultimately show ?thesis by (simp add: compare_entry_def Some t Let_def)
qed

definition steady_entry :: "(nat \<Rightarrow> string option \<Rightarrow> nat) option \<Rightarrow> host \<Rightarrow> bool" where
  "steady_entry sub h \<longleftrightarrow> \<not> hasf (h_type h) HT_CLIF \<and> \<not> hasf (h_type h) HT_RIDPEER
     \<and> \<not> is_prefix ''--expire.'' (h_name h) \<and> (h_listid h = 0 \<or> sub \<noteq> None)"

lemma match_entry_state:
  assumes "steady_entry sub h" "username st = Some u"
  shows "match_entry env c sub h st = Skip st \<or> (\<exists>m. match_entry env c sub h st = Match m st)"
proof -
  have cmp: "compare_entry env c h st = Skip st \<or> (\<exists>m. compare_entry env c h st = Match m st)"
    using assms by (intro compare_entry_state) (auto simp: steady_entry_def)
  have sub: "\<exists>m. (case userport env c h st b of (m, st2) \<Rightarrow> Match (exit_byhost env c h st2 m) st2) = Match m st"
    for b using userport_named [OF assms(2), of env c h b] by auto
  obtain f where f: "h_listid h \<noteq> 0 \<Longrightarrow> sub = Some f" using assms(1) by (auto simp: steady_entry_def)
  show ?thesis
    using assms(1) cmp sub [of "f (h_listid h) (username st) \<noteq> 0"] f
    unfolding match_entry_def Let_def steady_entry_def by (simp split: if_split)
qed

text \<open>The verdict of an entry, asked where it could change the result.\<close>

definition entry_verdict :: "hl_env \<Rightarrow> hl_call \<Rightarrow> (nat \<Rightarrow> string option \<Rightarrow> nat) option \<Rightarrow> hl_state \<Rightarrow> host
    \<Rightarrow> bool" where
  "entry_verdict env c sub st0 h =
     (case match_entry env c sub h (st0\<lparr>isin := (h_op h = OFF_EQ)\<rparr>) of Match m _ \<Rightarrow> m | _ \<Rightarrow> False)"

lemma match_entry_ineffective:
  "isin st \<and> h_op h \<in> {ON_EQ, ON_NEQ} \<or> \<not> isin st \<and> h_op h \<in> {OFF_EQ, OFF_NEQ} \<Longrightarrow>
   match_entry env c sub h st = Skip st"
  by (simp add: match_entry_def Let_def)

interpretation hl: steady_list "match_entry env c sub" "entry_verdict env c sub st0" st0
  "\<lambda>h. username st0 \<noteq> None \<and> steady_entry sub h" for env c sub st0
proof
  fix h b
  assume ok: "username st0 \<noteq> None \<and> steady_entry sub h" and op: "h_op h \<in> {ON_EQ, OFF_EQ}"
  then obtain u where u: "username (st0\<lparr>isin := b\<rparr>) = Some u" by auto
  show "match_entry env c sub h (st0\<lparr>isin := b\<rparr>) = Skip (st0\<lparr>isin := b\<rparr>)
      \<and> accum (h_op h) (entry_verdict env c sub st0 h) b = b
    \<or> match_entry env c sub h (st0\<lparr>isin := b\<rparr>)
      = Match (entry_verdict env c sub st0 h) (st0\<lparr>isin := b\<rparr>)"
  proof (cases "b = (h_op h = OFF_EQ)")
    case True
    then show ?thesis using match_entry_state [OF _ u, of sub h env c] ok op
      by (auto simp: entry_verdict_def accum_def)
  next
    case False
    then have "match_entry env c sub h (st0\<lparr>isin := b\<rparr>) = Skip (st0\<lparr>isin := b\<rparr>)"
      using op by (intro match_entry_ineffective) auto
    then show ?thesis using False op by (auto simp: accum_def)
  qed
qed

definition nested :: "hl_env \<Rightarrow> hostlist list \<Rightarrow> nat \<Rightarrow> string option \<Rightarrow> string \<Rightarrow> string option \<Rightarrow> vaddr
    \<Rightarrow> auth_info list \<Rightarrow> (nat \<Rightarrow> string option \<Rightarrow> nat) option" where
  "nested env tab d proto cname alias va av =
     (case d of 0 \<Rightarrow> None
      | Suc d' \<Rightarrow> Some (\<lambda>id u. VA_hostIsinListX env tab d' (tab ! id) proto cname alias va u av))"

definition quiet_env :: hl_env where
  "quiet_env = \<lparr>hostIsResolvable = (\<lambda>_. True), isinetAddr = (\<lambda>_. False), VA_strtoVAddr = (\<lambda>_. None),
     VSA_strisaddr = (\<lambda>_. False), VA_gethostVAddr = (\<lambda>_. None), VA_hostIFto = (\<lambda>a _. a),
     VA_resolv = (\<lambda>v. v), hostcmp = (\<lambda>_ _. 1), addrGroup = (\<lambda>_ _ _. False),
     matchHostSetX = (\<lambda>_ _ _ _ _. False), isMYSELF = (\<lambda>_. False), frex_match = (\<lambda>_ _. None),
     lADDRMATCH = False, ct_wday = 0, ct_hour = 0, ct_min = 0, ct_usec = 0,
     ClientsideHost = \<lparr>a_flags = 0, a_port = 0, a_ints = AddrNull, a_name = []\<rparr>,
     ClientSockHost = \<lparr>a_flags = 0, a_port = 8080, a_ints = v4 0x0A000001, a_name = ''gw''\<rparr>,
     ClientHost = \<lparr>a_flags = 0, a_port = 0, a_ints = AddrNull, a_name = []\<rparr>,
     ClientAgent = [], fromSelf = False,
     RidentPeer = \<lparr>a_flags = 0, a_port = 0, a_ints = AddrNull, a_name = []\<rparr>, junk_m = (0, 0),
     junk_str = [], GetHostname = ''gw'', DELEGATE_LOCALNET = ''localhost''\<rparr>"

definition plain_entry :: "h_op \<Rightarrow> string \<Rightarrow> addr4 \<Rightarrow> host" where
  "plain_entry op name a = new_host\<lparr>h_op := op, h_name := name, h_mask := AddrNull, h_Addr := a,
     h_type := HT_BYHOST\<rparr>"

definition plain_list :: "host list \<Rightarrow> hostlist" where
  "plain_list hs = \<lparr>hl_what = ''list'', hl_List = hs, hl_noIdent = False, hl_flags = 0, hl_base = 0\<rparr>"

definition test_addr :: vaddr where
  "test_addr = \<lparr>a_flags = 0, a_port = 80, a_ints = v4 0xC0000207, a_name = []\<rparr>"

text \<open>
  C1: the value of a host list is that of the formula it stands for: some clause between
  two \<^verbatim>\<open>|\<close> holds in all of its parts between two \<^verbatim>\<open>&\<close>, where in each part the last entry
  that applies decides (an entry that cannot change the result is not even evaluated). It
  holds for every list of entries that do not redirect the comparison to another address
  (\<^verbatim>\<open>-P\<close>, \<^verbatim>\<open>-R/\<close>, \<^verbatim>\<open>--expire.\<close>), nested lists included, a given user name, and unless the list
  requires authentication (\<^verbatim>\<open>/u\<close>) and the caller has none, when it is false at once.
\<close>

theorem hostIsin_formula:
  assumes "\<forall>h \<in> set (hl_List hl). steady_entry (nested env tab d proto cname alias va av) h
      \<and> h_op h \<in> {ON_EQ, OFF_EQ, OP_AND, OP_OR, OP_NEG}"
    and "\<not> (hasf (hl_flags hl) HL_BYAUTH \<and> av = [])"
  shows "VA_hostIsinListX env tab d hl proto cname alias va (Some u) av \<noteq> 0 \<longleftrightarrow>
    list_eval (entry_verdict env (call_of env hl proto cname alias va av)
      (nested env tab d proto cname alias va av) (start_state env hl va (Some u))) False (hl_List hl)"
proof -
  let ?c = "call_of env hl proto cname alias va av" and ?st = "start_state env hl va (Some u)"
  have st: "?st = ?st\<lparr>isin := False\<rparr>" and u: "username ?st \<noteq> None" by (simp_all add: start_state_def)
  have "VA_hostIsinListX env tab d hl proto cname alias va (Some u) av
      = hosts_loop (match_entry env ?c (nested env tab d proto cname alias va av)) 1 (?st\<lparr>isin := False\<rparr>) (hl_List hl)"
    unfolding VA_hostIsinListX.simps [of env tab d] nested_def st [symmetric]
    by (rule if_not_P [OF assms(2)])
  moreover have "hosts_loop (match_entry env ?c (nested env tab d proto cname alias va av)) 1
        (?st\<lparr>isin := False\<rparr>) (hl_List hl) \<noteq> 0 \<longleftrightarrow>
      list_eval (entry_verdict env ?c (nested env tab d proto cname alias va av) ?st) False (hl_List hl)"
    by (rule hl.loop_eval) (use assms(1) u in auto)
  ultimately show ?thesis by (simp only:)
qed

theorem hostIsin_formula_witness:
  "VA_hostIsinListX quiet_env [] 11
     (plain_list [plain_entry ON_EQ ''*.jp'' AddrZero, plain_entry OFF_EQ ''bad.jp'' AddrZero,
        plain_entry OP_AND [] AddrZero, plain_entry ON_EQ ''*'' AddrZero])
     None ''www.ac.jp'' None test_addr (Some ''-'') [] \<noteq> 0 \<longleftrightarrow>
   list_eval (entry_verdict quiet_env
       (call_of quiet_env (plain_list [plain_entry ON_EQ ''*.jp'' AddrZero, plain_entry OFF_EQ ''bad.jp'' AddrZero,
          plain_entry OP_AND [] AddrZero, plain_entry ON_EQ ''*'' AddrZero]) None ''www.ac.jp'' None test_addr [])
       (nested quiet_env [] 11 None ''www.ac.jp'' None test_addr [])
       (start_state quiet_env (plain_list [plain_entry ON_EQ ''*.jp'' AddrZero, plain_entry OFF_EQ ''bad.jp'' AddrZero,
          plain_entry OP_AND [] AddrZero, plain_entry ON_EQ ''*'' AddrZero]) test_addr (Some ''-'')))
     False (hl_List (plain_list [plain_entry ON_EQ ''*.jp'' AddrZero, plain_entry OFF_EQ ''bad.jp'' AddrZero,
          plain_entry OP_AND [] AddrZero, plain_entry ON_EQ ''*'' AddrZero]))"
  by (rule hostIsin_formula)
    (simp_all add: plain_list_def plain_entry_def new_host_def steady_entry_def hasf_def HT_defs HL_defs)

subsection \<open>Lists that refer to lists\<close>

text \<open>
  A list that refers to itself is evaluated to false, at whatever depth it is entered: the
  recursion is cut at \<open>HL_MAXDEPTH\<close>.
\<close>

theorem hostIsin_self_reference:
  assumes "hl_List (tab ! li) = [h]" and "h_listid h = li" and "0 < li" and "h_op h = ON_EQ"
    and "h_vdomain h = None" and "scanVdomain cname = None" and "h_type h = HT_BYHOST"
    and "hl_flags (tab ! li) = 0" and "\<not> is_prefix ''--expire.'' (h_name h)"
  shows "VA_hostIsinListX env tab d (tab ! li) proto cname alias va user av = 0"
proof (induction d arbitrary: user)
  case 0
  show ?case using assms
    by (simp add: VA_hostIsinListX.simps match_entry_def call_of_def Let_def hasf_def HT_defs HL_defs
        start_state_def)
next
  case (Suc d)
  have exit: "exit_byhost env c h st False = False" if "\<not> c_byauth c" for c st
    using that assms(7) by (simp add: exit_byhost_def HT_BYUSER_def hasf_def HT_defs)
  have up: "userport env c h st False = (False, st)" for c st
    by (cases "h_user h") (simp_all add: userport_def)
  show ?case using assms exit
    by (subst VA_hostIsinListX.simps)
      (simp add: Suc up match_entry_def call_of_def Let_def hasf_def HT_defs HL_defs start_state_def accum_def)
qed

definition loop_entry :: host where
  "loop_entry = new_host\<lparr>h_name := ''.loop'', h_listid := 1, h_type := HT_BYHOST\<rparr>"

theorem hostIsin_self_reference_witness:
  "VA_hostIsinListX quiet_env [plain_list [], plain_list [loop_entry]] 11
     ([plain_list [], plain_list [loop_entry]] ! 1) None ''a.b'' None test_addr None [] = 0"
  by (rule hostIsin_self_reference [where h = loop_entry])
    (simp_all add: plain_list_def loop_entry_def new_host_def scanVdomain_def)

subsection \<open>Names and case\<close>

lemma rexpmatch_glob: "rexpmatch rexp str \<longleftrightarrow> glob False rexp str"
  by (simp add: rexpmatch_def rexpmatchX_def rexp_loop_glob rexp_inv_def rexp_alt_def)

lemma glob_chars: "glob False p s \<Longrightarrow> c \<in> set p \<Longrightarrow> c \<noteq> CHR ''*'' \<Longrightarrow> c \<in> set s"
  by (induction p s rule: glob.induct) (auto simp: rx_chareq_def)

text \<open>
  The name of the host is converted to lower case before the comparison, the pattern is
  not, and \<open>rexpmatch\<close> minds the case: a pattern with an upper-case letter matches no host
  name, although names are compared without case everywhere else.
\<close>

theorem upper_case_pattern_never_matches:
  assumes "c \<in> set pat" and "isupper c"
  shows "\<not> rexpmatch pat (c_cname (call_of env hl proto cname alias va av))"
proof
  assume "rexpmatch pat (c_cname (call_of env hl proto cname alias va av))"
  moreover obtain n where n: "c_cname (call_of env hl proto cname alias va av) = map tolower n"
    by (simp add: call_of_def Let_def)
  moreover have "c \<noteq> CHR ''*''" using assms(2) by (auto simp: isupper_def uc_def)
  ultimately have "c \<in> set (map tolower n)"
    using glob_chars [of pat "map tolower n" c] assms(1) by (simp add: rexpmatch_glob)
  then show False using assms(2) by (auto simp: ctype_defs uc_def split: if_splits)
qed

theorem upper_case_pattern_never_matches_witness:
  "\<not> rexpmatch ''*.Example.COM''
     (c_cname (call_of quiet_env (plain_list []) None ''www.Example.COM'' None test_addr []))"
  by (rule upper_case_pattern_never_matches [where c = "CHR ''E''"]) (simp_all add: isupper_def uc_def)

subsection \<open>Entries that redirect the comparison\<close>

definition ordinary :: "string \<Rightarrow> bool" where
  "ordinary p \<longleftrightarrow> \<not> is_prefix ''--expire.'' p \<and> \<not> TimePeriod p \<and> \<not> strcaseeq p ''--self''
     \<and> \<not> strncaseeq p ''_mx'' 3 \<and> strtailstr p ''.mac.list.-'' = None \<and> strtailstr p ''.ip4.list.-'' = None
     \<and> strtailstr p ''.ip6.list.-'' = None \<and> strtailstr p ''.ima.list.-'' = None"

lemma match_entry_ordinary:
  "ordinary (h_name h) \<Longrightarrow> c_vdom c = h_vdomain h \<Longrightarrow> \<not> c_byagent c \<Longrightarrow> h_type h \<noteq> HT_BYAGENT \<Longrightarrow>
   \<not> hasf (h_type h) HT_IPV4 \<Longrightarrow> \<not> hasf (h_type h) HT_IPV6 \<Longrightarrow> h_listid h = 0 \<Longrightarrow>
   isin st = (h_op h \<in> {OFF_EQ, OFF_NEQ}) \<Longrightarrow> h_op h \<in> {ON_EQ, OFF_EQ, ON_NEQ, OFF_NEQ} \<Longrightarrow>
   match_entry env c sub h st = compare_entry env c h st"
  by (auto simp: match_entry_def Let_def ordinary_def)

definition trusted_entry :: host where
  "trusted_entry = plain_entry ON_EQ ''trusted'' (v4 0x0A000001)"

definition port_entry :: host where
  "port_entry = (plain_entry ON_EQ ''*'' AddrZero)\<lparr>h_type := HT_BYHOST + HT_CLIF, h_port := Some [''9999'']\<rparr>"

definition test_call :: hl_call where
  "test_call = call_of quiet_env (plain_list []) None ''client'' None test_addr []"

lemma test_call_eval: "test_call = \<lparr>c_proto = None, c_cname = ''client'', c_alias = None, c_vdom = None,
    c_Vaddr = test_addr, c_av = [], c_byauth = False, c_byagent = False\<rparr>"
  by code_simp

lemma ordinary_names: "ordinary ''trusted''" "ordinary ''*''"
  by code_simp+

lemma inexact_names: "\<not> HostMatchExactly ''trusted'' ''client''" "\<not> HostMatchExactly ''*'' ''gw''"
  "matchPort [''9999''] 8080 = False" "domhost_of ''trusted'' = None" "domhost_of ''*'' = None"
  by code_simp+

definition test_state :: "vaddr \<Rightarrow> int \<Rightarrow> hl_state" where
  "test_state va p = \<lparr>isin = False, hosti = va, portnum = p, username = Some ''-'', expn = 0,
     rident = RidentPeer quiet_env\<rparr>"

lemmas pattern_forms = HostOnClientside_def HostOutgoingIF_def HostIncomingIF_def CantResolve_def HostUnknown_def

lemma compare_trusted:
  "a_ints va \<noteq> AddrZero \<Longrightarrow> compare_entry quiet_env test_call trusted_entry (test_state va p)
    = Match (a_ints va = v4 0x0A000001) (test_state va p)"
  by (cases "a_ints va") (simp add: compare_entry_def entry_target_def byhost_match_def userport_def exit_byhost_def
      test_call_eval trusted_entry_def plain_entry_def new_host_def test_state_def pattern_forms
      inexact_names hasf_def HT_defs HT_BYUSER_def AddrAND_def AddrNull_def AddrZero_def v4_def Let_def)

lemma compare_port:
  "compare_entry quiet_env test_call port_entry (test_state va p)
    = Match False (test_state (ClientSockHost quiet_env) 8080)"
  by (simp add: compare_entry_def entry_target_def byhost_match_def userport_def exit_byhost_def
      test_call_eval port_entry_def plain_entry_def new_host_def test_state_def pattern_forms
      inexact_names hasf_def HT_defs HT_BYUSER_def AddrAND_def AddrNull_def AddrZero_def v4_def Let_def
      quiet_env_def default_netmask_def isV6_def I3_def CLASS_MASK_def HEURISTIC_MASK_def)

lemma match_test:
  "match_entry quiet_env test_call sub trusted_entry (test_state va p)
     = compare_entry quiet_env test_call trusted_entry (test_state va p)"
  "match_entry quiet_env test_call sub port_entry (test_state va p)
     = compare_entry quiet_env test_call port_entry (test_state va p)"
  by (rule match_entry_ordinary; simp add: trusted_entry_def port_entry_def plain_entry_def new_host_def
      ordinary_names test_call_eval hasf_def HT_defs test_state_def)+

lemma plain_list_call: "VA_hostIsinListX quiet_env [] d (plain_list hs) None ''client'' None test_addr (Some ''-'') []
    = hosts_loop (match_entry quiet_env test_call (nested quiet_env [] d None ''client'' None test_addr [])) 1
        (test_state test_addr 80) hs"
proof -
  have "call_of quiet_env (plain_list hs) None ''client'' None test_addr [] = test_call"
    by (simp add: test_call_def call_of_def plain_list_def)
  moreover have "start_state quiet_env (plain_list hs) test_addr (Some ''-'') = test_state test_addr 80"
    by (simp add: start_state_def test_state_def plain_list_def hasf_def, simp add: test_addr_def)
  ultimately show ?thesis
    by (subst VA_hostIsinListX.simps) (simp add: nested_def, simp add: plain_list_def hasf_def)
qed

text \<open>
  A \<^verbatim>\<open>-Pport\<close> entry replaces the address under test by that of the client-side interface,
  and it is not restored: after it, an address entry is compared with the interface. The list
  \<^verbatim>\<open>10.0.0.1\<close> does not hold for 192.0.2.7; the list \<^verbatim>\<open>-P9999,10.0.0.1\<close> does, although the first
  entry does not match, because the interface of the server is 10.0.0.1.
\<close>

theorem interface_entry_leaks:
  "VA_hostIsinListX quiet_env [] 11 (plain_list [trusted_entry])
     None ''client'' None test_addr (Some ''-'') [] = 0
   \<and> VA_hostIsinListX quiet_env [] 11 (plain_list [port_entry, trusted_entry])
       None ''client'' None test_addr (Some ''-'') [] = 3"
proof -
  have ops: "h_op trusted_entry = ON_EQ" "h_op port_entry = ON_EQ"
    by (simp_all add: trusted_entry_def port_entry_def plain_entry_def new_host_def)
  have a: "a_ints test_addr \<noteq> AddrZero" "a_ints test_addr \<noteq> v4 0x0A000001"
    "a_ints (ClientSockHost quiet_env) = v4 0x0A000001" "v4 0x0A000001 \<noteq> AddrZero"
    by (simp_all add: test_addr_def quiet_env_def v4_def AddrZero_def)
  have st: "(test_state va p)\<lparr>isin := False\<rparr> = test_state va p" for va p by (simp add: test_state_def)
  show ?thesis
    by (simp add: plain_list_call match_test compare_trusted compare_port ops a st accum_def,
      simp add: test_state_def)
qed

subsection \<open>The entry points\<close>

text \<open>
  \<^verbatim>\<open>CTX_hostIsinListX\<close>: the name is resolved unless it is to be compared as it is. The
  environment's \<open>VA_gethostVAddr\<close> gives the primary name with the address; where it fails the
  address is \<open>AddrNull\<close>, as \<^verbatim>\<open>VA_strtoVAddr\<close> leaves it for what is not an address.
\<close>

definition null_addr :: vaddr where
  "null_addr = \<lparr>a_flags = 0, a_port = 0, a_ints = AddrNull, a_name = []\<rparr>"

definition addr_of_text :: "hl_env \<Rightarrow> string \<Rightarrow> vaddr" where
  "addr_of_text env h = (case VA_strtoVAddr env h of
                           Some a \<Rightarrow> null_addr\<lparr>a_ints := a\<rparr> | None \<Rightarrow> null_addr)"

definition CTX_hostIsinListX :: "hl_env \<Rightarrow> hostlist list \<Rightarrow> hostlist \<Rightarrow> string option \<Rightarrow> string \<Rightarrow> int
    \<Rightarrow> string option \<Rightarrow> auth_info list \<Rightarrow> nat" where
  "CTX_hostIsinListX env tab hl proto hostname port user av =
     (let vd = scanVdomain hostname;
          rhostname = (case vd of Some (h, _, _) \<Rightarrow> h | None \<Rightarrow> hostname);
          (name, vhost, va) =
            (if hd0 hostname = CHR ''-'' \<and> \<not> isMYSELF env hostname
             then (tl hostname, tl hostname, addr_of_text env (tl hostname))
             else if hasf (hl_flags hl) HL_BYNAMEONLY \<and> \<not> isMYSELF env hostname
             then (hostname, hostname, addr_of_text env hostname)
             else
               (let (prim, va0) = (case VA_gethostVAddr env rhostname of
                                     Some (p, a) \<Rightarrow> (p, a) | None \<Rightarrow> ([], null_addr));
                    asis = VA_strtoVAddr env rhostname;
                    va1 = (case asis of
                             Some a \<Rightarrow> if hasf (hl_flags hl) HL_BYADDR then va0\<lparr>a_ints := a\<rparr> else va0
                           | None \<Rightarrow> va0);
                    va2 = (case asis of
                             Some a \<Rightarrow> if lADDRMATCH env \<and> VSA_strisaddr env rhostname \<and> a_ints va1 \<noteq> a
                                       then va1\<lparr>a_ints := a\<rparr> else va1
                           | None \<Rightarrow> va1)
                in (if prim \<noteq> [] then prim @ (case vd of Some (_, _, sfx) \<Rightarrow> sfx | None \<Rightarrow> []) else hostname,
                    rhostname, va2)))
      in VA_hostIsinListX env tab (HL_MAXDEPTH + 1) hl proto name (Some vhost) (va\<lparr>a_port := port\<rparr>) user av)"

definition hostIsinList :: "hl_env \<Rightarrow> hostlist list \<Rightarrow> hostlist \<Rightarrow> string option \<Rightarrow> string \<Rightarrow> int
    \<Rightarrow> string option \<Rightarrow> nat" where
  "hostIsinList env tab hl proto hostname port user =
     CTX_hostIsinListX env tab hl proto hostname port user []"

text \<open>\<^verbatim>\<open>hostcmp_lexical\<close>: 0 for equal; \<open>cached\<close> is \<^verbatim>\<open>hostcmp_incache\<close>.\<close>

definition hostcmp_lexical :: "hl_env \<Rightarrow> (string \<Rightarrow> string \<Rightarrow> int) \<Rightarrow> hostlist list \<Rightarrow> hostlist \<Rightarrow> hostlist
    \<Rightarrow> string \<Rightarrow> string \<Rightarrow> bool \<Rightarrow> int" where
  "hostcmp_lexical env cached tab virtualHosts lexHosts h1 h2 cacheonly =
     (let inlist = (\<lambda>hl h. VA_hostIsinList env tab hl (Some ''*'') h (Some h) null_addr (Some []) 0 \<noteq> 0)
      in if hl_List virtualHosts \<noteq> [] \<and> (inlist virtualHosts h1 \<or> inlist virtualHosts h2)
         then strcasecmp h1 h2
         else if inlist lexHosts h1 \<or> inlist lexHosts h2 then strcasecmp h1 h2
         else if cacheonly then cached h1 h2 else hostcmp env h1 h2)"

text \<open>
  An empty list holds for no host, whatever the environment resolves; access control
  fails closed.
\<close>

theorem empty_list_denies:
  "hl_List hl = [] \<Longrightarrow> CTX_hostIsinListX env tab hl proto hostname port user av = 0"
  by (simp add: CTX_hostIsinListX_def VA_hostIsinListX.simps start_state_def Let_def split: prod.split)

theorem empty_list_denies_witness:
  "CTX_hostIsinListX quiet_env [] (plain_list []) None ''any.host'' 80 None [] = 0"
  by (rule empty_list_denies) (simp add: plain_list_def)

text \<open>
  A list that requires authentication (\<^verbatim>\<open>/u\<close>) never holds for a client that has given none.
\<close>

theorem byauth_needs_auth:
  "hasf (hl_flags hl) HL_BYAUTH \<Longrightarrow> hostIsinList env tab hl proto hostname port user = 0"
  by (simp add: hostIsinList_def CTX_hostIsinListX_def VA_hostIsinListX.simps Let_def split: prod.split)

theorem byauth_needs_auth_witness:
  "hostIsinList quiet_env [] ((plain_list [plain_entry ON_EQ ''*'' AddrZero])\<lparr>hl_flags := HL_BYAUTH\<rparr>)
     None ''any.host'' 80 (Some ''root'') = 0"
  by (rule byauth_needs_auth) (simp add: plain_list_def HL_defs hasf_def)

end
