(* ===== verification/HostParse.thy ===== *)
theory HostParse
  imports HostMatch ListScan
begin

section \<open>HostParse: the text of one host list entry (\<open>src/hostlist.cpp\<close>, \<open>makeHost\<close>)\<close>

text \<open>
  An entry such as \<^verbatim>\<open>!http://{user1,user2}@*.example.com:80\<close> or \<^verbatim>\<open>192.168.1.[1-9]/24\<close> is taken
  apart by \<^verbatim>\<open>makeHost\<close>. This theory holds its parts in the order of the source: the protocol,
  the operator, the virtual domain, the type of matching, the mask, the users, the ports,
  wildcards in an address, the address family, and what kind of host the remaining name is.
  The pieces are pure; \<open>HostConf\<close> runs them on the lists and tables. The fixed-size buffers
  they go through are taken as large enough.
\<close>

subsection \<open>Address ranges\<close>

definition uchar :: "int \<Rightarrow> nat" where
  "uchar v = nat (v mod 256)"

text \<open>\<open>k\<close> is the number of octets still to be read, so that the current index is \<open>4 - k\<close>.\<close>

fun addrrange_loop :: "nat \<Rightarrow> string \<Rightarrow> (nat \<times> nat) list \<Rightarrow> (nat \<times> nat) list \<times> int" where
  "addrrange_loop 0 ap rs = (rs, 0)"
| "addrrange_loop (Suc k) ap rs =
     (let w = takeWhile (\<lambda>c. c \<noteq> CHR ''.'') ap; dp = dropWhile (\<lambda>c. c \<noteq> CHR ''.'') ap
      in case (if hd0 w = CHR ''[''
               then (case scan_d_d (tl w) of [lo, hi] \<Rightarrow> Some (lo, hi) | _ \<Rightarrow> None)
               else Some (atoi w, atoi w)) of
           None \<Rightarrow> (rs, -1)
         | Some (lo, hi) \<Rightarrow>
             (let rs' = rs[3 - k := (uchar lo, uchar hi)]
              in if dp = [] then (take (4 - k) rs' @ replicate k (0, 255), 0)
                 else addrrange_loop k (tl dp) rs'))"

definition scan_addrrange :: "host \<Rightarrow> string \<Rightarrow> host \<times> int" where
  "scan_addrrange h addr =
     (case addrrange_loop 4 addr (ranges h) of (rs, rcode) \<Rightarrow> (h\<lparr>ranges := rs\<rparr>, rcode))"

subsection \<open>Wildcards in an address\<close>

text \<open>
  \<^verbatim>\<open>192.168.*\<close> becomes \<^verbatim>\<open>192.168.[0-255]\<close>; \<open>None\<close> is the jump to \<^verbatim>\<open>NOTADDR\<close>.
\<close>

definition octet_seg :: "string \<Rightarrow> string" where
  "octet_seg hp = (let w = takeWhile (\<lambda>c. c \<noteq> CHR ''.'') hp
                   in if length w < length hp then w @ ''.'' else w)"

definition canon_octet :: "string \<Rightarrow> string option" where
  "canon_octet buff =
     (if chr_at buff 0 = CHR ''*'' \<and> (chr_at buff 1 = NUL \<or> chr_at buff 1 = CHR ''.'')
      then Some (''[0-255]'' @ tl buff)
      else if isdigit (chr_at buff 0) \<and> list_all (\<lambda>c. c = CHR ''.'' \<or> isdigit c) buff
              \<and> 0 \<le> atoi buff \<and> atoi buff \<le> 255
      then Some buff else None)"

lemma octet_seg_pos: "hp \<noteq> [] \<Longrightarrow> 0 < length (octet_seg hp)"
  by (cases hp) (auto simp: octet_seg_def Let_def)

function canon_loop :: "nat \<Rightarrow> string \<Rightarrow> string \<Rightarrow> (nat \<times> string) option" where
  "canon_loop noct addr hp =
     (if hp = [] then Some (noct, addr)
      else let buff = octet_seg hp; hp' = drop (length buff) hp
           in case canon_octet buff of
                None \<Rightarrow> None
              | Some o' \<Rightarrow> if 4 \<le> noct + 1 \<and> hp' \<noteq> [] then None
                          else canon_loop (noct + 1) (addr @ o') hp')"
  by pat_completeness auto
termination
  by (relation "measure (\<lambda>(noct, addr, hp). length hp)") (auto intro!: diff_less octet_seg_pos)

declare canon_loop.simps [simp del]

definition canonWildcardAddr :: "string \<Rightarrow> string" where
  "canonWildcardAddr hostname =
     (if strchr hostname CHR ''*'' \<noteq> None \<and> strchr hostname CHR ''.'' \<noteq> None then
        (case canon_loop 0 [] hostname of
           Some (noct, addr) \<Rightarrow> if 2 \<le> noct \<and> noct \<le> 4 then addr else hostname
         | None \<Rightarrow> hostname)
      else hostname)"

subsection \<open>Masks\<close>

definition isnetmasklen :: "string \<Rightarrow> nat" where
  "isnetmasklen msk =
     (if (isdigit (chr_at msk 0) \<and> chr_at msk 1 = NUL
          \<or> isdigit (chr_at msk 0) \<and> isdigit (chr_at msk 1) \<and> chr_at msk 2 = NUL)
         \<and> 1 \<le> atoi msk \<and> atoi msk \<le> 31
      then nat (atoi msk) else 0)"

text \<open>\<^verbatim>\<open>sscanf(mp,"%x",&mask.I3)\<close>; \<open>None\<close> leaves the mask as it is.\<close>

definition scan_x :: "string \<Rightarrow> u32 option" where
  "scan_x s =
     (let s1 = skip_ws s;
          neg = (hd0 s1 = CHR ''-'');
          s2 = (if neg \<or> hd0 s1 = CHR ''+'' then tl s1 else s1);
          s3 = (if chr_at s2 0 = CHR ''0'' \<and> tolower (chr_at s2 1) = CHR ''x'' then drop 2 s2 else s2);
          ds = takeWhile isxdigit s3;
          v = min (hex_val ds 0) (2 ^ 64 - 1)
      in if ds = [] then None else Some (word_of_int (if neg then - v else v)))"

text \<open>A shift count is cut to five bits, as the processor does.\<close>

definition class_mask :: "string \<Rightarrow> u32" where
  "class_mask mp =
     (let mask1 = (if chr_at mp 1 = CHR ''A'' then 0xFF000000
                   else if chr_at mp 1 = CHR ''B'' then 0xFFFF0000
                   else if chr_at mp 1 = CHR ''C'' then 0xFFFFFF00 else CLASS_MASK);
          submask = atoi (drop 2 mp)
      in if submask \<noteq> 0 then drop_bit (nat (submask mod 32)) mask1 else mask1)"

text \<open>The text before the slash, and the mask: all ones without a slash.\<close>

definition mask_of :: "hl_env \<Rightarrow> string \<Rightarrow> string \<times> addr4" where
  "mask_of env hostmask =
     (case strchr hostmask CHR ''/'' of
        None \<Rightarrow> (hostmask, AddrNull)
      | Some sp \<Rightarrow>
          (let mp = tl sp;
               host = take (length hostmask - length sp) hostmask;
               by_addr = (case VA_strtoVAddr env mp of Some a \<Rightarrow> a | None \<Rightarrow> AddrNull)
           in (host,
               if TimePeriod host then set_I3 MaskZero (word_of_int (atoi mp))
               else if isnetmasklen mp \<noteq> 0
               then set_I3 MaskZero (push_bit (32 - isnetmasklen mp) 0xFFFFFFFF)
               else if mp = ''.'' then set_I3 MaskZero HEURISTIC_MASK
               else if strchr mp CHR ''.'' \<noteq> None then by_addr
               else if VSA_strisaddr env mp then by_addr
               else if hd0 mp = CHR ''@'' then set_I3 MaskZero (class_mask mp)
               else (case scan_x mp of Some x \<Rightarrow> set_I3 MaskZero x | None \<Rightarrow> MaskZero))))"

subsection \<open>Protocol, operator and type of matching\<close>

text \<open>
  \<^verbatim>\<open>Xsscanf(hostmask,"%[^:]://%s",proto,hostmaskb)\<close>: the protocol stays empty and the rest is
  what the buffer held where a directive fails.
\<close>

definition proto_of :: "hl_env \<Rightarrow> string \<Rightarrow> string \<times> string" where
  "proto_of env hostmask =
     (if strstr hostmask ''://'' \<noteq> None then
        (let proto = takeWhile (\<lambda>c. c \<noteq> CHR '':'') hostmask;
             r = dropWhile (\<lambda>c. c \<noteq> CHR '':'') hostmask;
             h = takeWhile (\<lambda>c. \<not> isspace c) (skip_ws (drop 3 r))
         in (proto, if proto = [] \<or> \<not> is_prefix ''://'' r \<or> h = [] then junk_str env else h))
      else ([], hostmask))"

definition op_of :: "string \<Rightarrow> h_op \<times> string" where
  "op_of hostmask =
     (let m = (if is_prefix ''!!'' hostmask then drop 2 hostmask else hostmask)
      in if hd0 m = CHR ''!'' then (OFF_EQ, tl m)
         else (ON_EQ, if hd0 m = CHR ''+'' then tl m else m))"

fun mtype_loop :: "nat \<Rightarrow> string \<Rightarrow> nat \<times> string" where
  "mtype_loop mtype (c # s # dp) =
     (let t = (if c = CHR ''*'' then HT_BYANY else if c = CHR ''R'' then HT_RIDPEER
               else if c = CHR ''U'' then HT_UNKNOWN else if c = CHR ''A'' then HT_BYAGENT
               else if c = CHR ''a'' then HT_BYAUTH else if c = CHR ''c'' then HT_BYCERT
               else if c = CHR ''h'' then HT_BYHOST else 0)
      in if s = CHR ''/'' \<and> t \<noteq> 0 then mtype_loop (mtype OR t) dp else (mtype, c # s # dp))"
| "mtype_loop mtype dp = (mtype, dp)"

definition mtype_of :: "string \<Rightarrow> nat \<times> string" where
  "mtype_of hostmask =
     (if hd0 hostmask = CHR ''-'' then
        (case mtype_loop 0 (tl hostmask) of (mtype, dp) \<Rightarrow>
           if mtype \<noteq> 0 then (mtype, dp) else (0, hostmask))
      else (0, hostmask))"

subsection \<open>Users and ports\<close>

text \<open>At most 128 elements are taken from a list.\<close>

definition strvec :: "string \<Rightarrow> string list" where
  "strvec list = take 128 (elems list CHR '','' STR_OVWR)"

text \<open>
  The users, whether the operator is inverted (\<^verbatim>\<open>user@!host\<close>) and the host. What stands behind
  the \<^verbatim>\<open>@\<close> may also be handed to \<^verbatim>\<open>enableClientIdent\<close>, which \<open>parse_name\<close> decides.
\<close>

definition users_of :: "string \<Rightarrow> string list option \<times> bool \<times> string" where
  "users_of hostnameb =
     (case strchr hostnameb CHR ''@'' of
        None \<Rightarrow> (None, False, hostnameb)
      | Some dp \<Rightarrow>
          (let users = (if hd0 hostnameb = CHR ''{'' then
                          (if strchr (tl hostnameb) CHR ''}'' \<noteq> None
                           then takeWhile (\<lambda>c. c \<noteq> CHR ''}'') (tl hostnameb)
                           else takeWhile (\<lambda>c. c \<noteq> CHR ''@'') (tl hostnameb))
                        else takeWhile (\<lambda>c. c \<noteq> CHR ''@'') hostnameb);
               host = tl dp; neg = (hd0 host = CHR ''!'')
           in (Some (strvec users), neg, if neg then tl host else host)))"

definition ifx_port :: "string \<Rightarrow> string" where
  "ifx_port hostnameb =
     (if HostIncomingIFX hostnameb \<and> chr_at hostnameb 2 \<noteq> NUL
         \<and> strchr (drop 2 hostnameb) CHR '':'' = None
      then take 2 hostnameb @ ''*:'' @ drop 2 hostnameb else hostnameb)"

definition ports_of :: "string \<Rightarrow> string list option \<times> string" where
  "ports_of hostnameb =
     (case strchr hostnameb CHR '':'' of
        Some dp \<Rightarrow> (Some (strvec (tl dp)), take (length hostnameb - length dp) hostnameb)
      | None \<Rightarrow>
          (case strstr hostnameb ''..'' of
             Some dp \<Rightarrow>
               if isdigit (chr_at dp 2) \<or> chr_at dp 2 = CHR ''{''
               then (Some (strvec (drop 2 dp)), take (length hostnameb - length dp) hostnameb)
               else (None, hostnameb)
           | None \<Rightarrow> (None, hostnameb)))"

definition family_of :: "string \<Rightarrow> nat \<times> string" where
  "family_of hostnameb =
     (if chr_at hostnameb 0 = CHR ''_'' \<and> (chr_at hostnameb 1 = CHR ''4'' \<or> chr_at hostnameb 1 = CHR ''6'')
         \<and> (chr_at hostnameb 2 = CHR ''.'' \<or> chr_at hostnameb 2 = NUL)
      then (if chr_at hostnameb 1 = CHR ''4'' then HT_IPV4 else HT_IPV6,
            if chr_at hostnameb 2 = NUL then ''*'' else drop 3 hostnameb)
      else (0, hostnameb))"

subsection \<open>An entry up to its name\<close>

text \<open>
  \<^verbatim>\<open>makeHost\<close> from the operator to the kind of the host: finished for a combinator or an agent
  pattern, or an entry with the hosts that are to be asked for the user by the Ident protocol
  (the argument of \<^verbatim>\<open>enableClientIdent\<close>, if it is called), the name that is left and the
  virtual domain.
\<close>

datatype parsed = Done host | Named host "string option" string string

text \<open>
  The guard of \<^verbatim>\<open>enableClientIdent\<close>: the entry has users, it asks for no other kind of
  authentication, the list does not forbid it (\<^verbatim>\<open>hl_noIdent\<close>), and the host is not negated.
\<close>

definition ident_of :: "bool \<Rightarrow> nat \<Rightarrow> string list option \<Rightarrow> bool \<Rightarrow> string \<Rightarrow> string option" where
  "ident_of noident htype users neg host =
     (if users \<noteq> None \<and> (\<not> hasf htype HT_BYANY \<or> hasf htype HT_BYHOST) \<and> \<not> noident \<and> \<not> neg
      then Some host else None)"

definition parse_name :: "hl_env \<Rightarrow> bool \<Rightarrow> string \<Rightarrow> string \<Rightarrow> host \<Rightarrow> string \<Rightarrow> parsed" where
  "parse_name env noident proto vdomain h hostmask =
     (case mask_of env hostmask of (m, msk) \<Rightarrow>
      case users_of (if m = ''.'' then GetHostname env else m) of (users, neg, n1) \<Rightarrow>
      case ports_of (ifx_port n1) of (ports, n2) \<Rightarrow>
      case family_of (canonWildcardAddr n2) of (fam, n3) \<Rightarrow>
        Named (h\<lparr>h_mask := msk, h_user := users,
                 h_userRexp := (case users of Some ul \<Rightarrow> makeUserRexp ul | None \<Rightarrow> []),
                 h_op := (if neg then (if h_op h = ON_EQ then OFF_EQ else ON_EQ) else h_op h),
                 h_port := ports, h_proto := (if proto = [] then None else Some (strvec proto)),
                 h_type := (if hasf (h_type h) HT_BYANY then h_type h
                            else if users = None then h_type h OR HT_BYHOST
                            else h_type h OR HT_BYANY) OR fam\<rparr>)
          (ident_of noident (h_type h) users neg n1) n3 vdomain)"

definition parse_host :: "hl_env \<Rightarrow> nat \<Rightarrow> bool \<Rightarrow> string \<Rightarrow> host \<Rightarrow> string \<Rightarrow> parsed" where
  "parse_host env flags noident proto h hostmask =
     (if hostmask = ''&'' then Done (h\<lparr>h_op := OP_AND\<rparr>)
      else if hostmask = ''|'' then Done (h\<lparr>h_op := OP_OR\<rparr>)
      else if hostmask = ''!'' then Done (h\<lparr>h_op := OP_NEG\<rparr>)
      else case op_of hostmask of (op, m1) \<Rightarrow>
           case (case scanVdomain m1 of Some (m, v, _) \<Rightarrow> (m, v) | None \<Rightarrow> (m1, [])) of (m2, vdomain) \<Rightarrow>
           case mtype_of m2 of (mtype, m3) \<Rightarrow>
             (let h1 = h\<lparr>h_op := op, h_type := h_type h OR mtype\<rparr>
              in if hasf flags HL_BYAGENT \<or> hasf (h_type h1) HT_BYAGENT
                 then Done (h1\<lparr>h_name := m3\<rparr>)
                 else parse_name env noident proto vdomain h1 m3))"

subsection \<open>The kind of the host\<close>

text \<open>
  The list an operation works on: one of the two lists of the environment, the hosts to be
  asked by the Ident protocol (\<^verbatim>\<open>IdentHosts()\<close>), the reliable hosts (\<^verbatim>\<open>ReliableHosts()\<close>), a
  named list of the table, or a list of the caller.
\<close>

datatype list_ref = Lex | Virtual | Ident | Reliable | Listed nat | Own

text \<open>
  The end of \<^verbatim>\<open>makeHost\<close>: the entry, the name it keeps, the name that is to be added to
  another list, and the name that \<^verbatim>\<open>sethostcache_predef\<close> is called with. \<open>listid\<close> is what the
  table of lists has for the name.
\<close>

definition name_host :: "hl_env \<Rightarrow> list_ref \<Rightarrow> nat \<Rightarrow> int \<Rightarrow> host \<Rightarrow> string
    \<Rightarrow> host \<times> string \<times> (list_ref \<times> string) option \<times> string option" where
  "name_host env r flags listid h n =
     (if is_prefix ''--expire.'' n then (h, n, None, None)
      else if 0 < listid then (h\<lparr>h_listid := nat listid\<rparr>, n, None, None)
      else if HostOnClientside n then (h, n, None, None)
      else if HostIncomingIFX n then
        (let n' = drop 2 n;
             h' = h\<lparr>h_type := h_type h OR HT_CLIF\<rparr>
         in (if strchr n' CHR ''*'' = None
             then (case VA_strtoVAddr env n' of Some a \<Rightarrow> h'\<lparr>h_Addr := a\<rparr> | None \<Rightarrow> h') else h',
             n', None, None))
      else if HostIncomingIF n \<or> HostOutgoingIF n \<or> TimePeriod n then (h, n, None, None)
      else if hd0 n = CHR ''-'' \<and> \<not> isMYSELF env n then
        (case VA_strtoVAddr env (tl n) of
           Some a \<Rightarrow> (h\<lparr>h_Addr := a\<rparr>, n, None, None)
         | None \<Rightarrow>
             if hasf flags HL_BYNAMEONLY
             then (h\<lparr>h_asis := True\<rparr>, tl n, if r \<noteq> Virtual then Some (Virtual, tl n) else None, None)
             else (h\<lparr>h_asis := True\<rparr>, tl n, if r \<noteq> Lex then Some (Lex, n) else None,
                   if strchr (tl n) CHR ''*'' = None \<and> VA_gethostVAddr env (tl n) = None
                   then Some (tl n) else None))
      else if is_prefix ''__'' n then (h\<lparr>h_type := h_type h OR HT_BYFILE\<rparr>, drop 2 n, None, None)
      else if strchr n CHR ''['' \<noteq> None then (fst (scan_addrrange h n), n, None, None)
      else if strchr n CHR ''*'' \<noteq> None \<or> n = ''?'' then (h, n, None, None)
      else if strtailstr n ''.-'' \<noteq> None then (h, n, None, None)
      else if hasf flags HL_BYNAMEONLY
        then (h\<lparr>h_asis := True\<rparr>, n, if r \<noteq> Virtual then Some (Virtual, n) else None, None)
      else (case VA_gethostVAddr env n of
              None \<Rightarrow> (h, n, None, None)
            | Some (primaryname, va) \<Rightarrow>
                (h\<lparr>h_Addr := a_ints va, h_mask := default_netmask (h_mask h) (a_ints va)\<rparr>,
                 if primaryname \<noteq> [] then primaryname else n, None, None)))"

end
