(* ===== verification/HostConf.thy ===== *)
theory HostConf
  imports HostList HostParse HashTab
begin

section \<open>HostConf: building host lists and their table (\<open>src/hostlist.cpp\<close>)\<close>

text \<open>
  The configuration side of the host lists: adding an entry to a list, expanding a group in
  braces, the table of named lists (\<^verbatim>\<open>HOSTLIST=name:list\<close>) with its hash, and the lists made
  for a path. The functions of the source call each other (an entry may create the table, the
  table is filled with entries, an entry may be copied to another list, an entry with users
  adds its hosts to those asked by the Ident protocol), and on some inputs they never return.
  Each is written over the functions it calls, and the knot is tied with fuel, the depth of
  calls: \<open>None\<close> is a call that did not return within it, and nothing else. A store outside of
  the arrays of the table is not a \<open>None\<close>: it sets \<open>ht_bad\<close> and the run goes on. The counter
  \<^verbatim>\<open>hl_cnt\<close> is the length of the list; the index 0 of a list of the source is not used.
\<close>

subsection \<open>The state\<close>

definition new_list :: hostlist where
  "new_list = \<lparr>hl_what = [], hl_List = [], hl_noIdent = False, hl_flags = 0, hl_base = 0\<rparr>"

text \<open>
  \<open>ht_hash\<close> is \<open>None\<close> before the table is created; \<open>ht_bad\<close> records that something was stored
  outside of \<^verbatim>\<open>ht_list\<close>; \<open>own\<close> is the list a caller is working on; a list of a path is kept with
  its path and its options. \<open>identHosts\<close> and \<open>reliableHosts\<close> are the lists that
  \<^verbatim>\<open>IdentHosts()\<close> and \<^verbatim>\<open>ReliableHosts()\<close> of \<^verbatim>\<open>master.cpp\<close> make when they are first asked for.
  \<open>hostcache_predef\<close> holds the names given to \<^verbatim>\<open>sethostcache_predef\<close>, which marks their
  entries of the resolver's cache: they were unknown to the resolver, and the mark keeps them so.
\<close>

record hl_sys =
  ht_hash :: "htab option"
  ht_size :: nat
  ht_id :: nat
  ht_list :: "hostlist list"
  ht_bad :: bool
  lexHosts :: hostlist
  virtualHosts :: hostlist
  identHosts :: hostlist
  reliableHosts :: hostlist
  hostcache_predef :: "string list"
  own :: hostlist
  pathlists :: "(string \<times> string \<times> hostlist) list"

definition minit_hostlist :: hl_sys where
  "minit_hostlist = \<lparr>ht_hash = None, ht_size = 0, ht_id = 0, ht_list = [], ht_bad = False,
     lexHosts = new_list\<lparr>hl_what := ''LexHosts''\<rparr>,
     virtualHosts = new_list\<lparr>hl_what := ''virtualHosts'', hl_flags := HL_BYNAMEONLY\<rparr>,
     identHosts = new_list\<lparr>hl_what := ''USERIDENT/SRC''\<rparr>,
     reliableHosts = new_list\<lparr>hl_what := ''RELIABLE/SRC''\<rparr>, hostcache_predef = [],
     own = new_list, pathlists = []\<rparr>"

primrec get_list :: "hl_sys \<Rightarrow> list_ref \<Rightarrow> hostlist" where
  "get_list s Lex = lexHosts s"
| "get_list s Virtual = virtualHosts s"
| "get_list s Ident = identHosts s"
| "get_list s Reliable = reliableHosts s"
| "get_list s (Listed i) = ht_list s ! i"
| "get_list s Own = own s"

primrec put_list :: "list_ref \<Rightarrow> hostlist \<Rightarrow> hl_sys \<Rightarrow> hl_sys" where
  "put_list Lex l s = s\<lparr>lexHosts := l\<rparr>"
| "put_list Virtual l s = s\<lparr>virtualHosts := l\<rparr>"
| "put_list Ident l s = s\<lparr>identHosts := l\<rparr>"
| "put_list Reliable l s = s\<lparr>reliableHosts := l\<rparr>"
| "put_list (Listed i) l s = s\<lparr>ht_list := (ht_list s)[i := l]\<rparr>"
| "put_list Own l s = s\<lparr>own := l\<rparr>"

definition or_flags :: "list_ref \<Rightarrow> nat \<Rightarrow> hl_sys \<Rightarrow> hl_sys" where
  "or_flags r f s = put_list r ((get_list s r)\<lparr>hl_flags := hl_flags (get_list s r) OR f\<rparr>) s"

text \<open>\<^verbatim>\<open>strid(tab,str,id)\<close> where the table may not exist yet.\<close>

definition tab_strid :: "htab option \<Rightarrow> string \<Rightarrow> int \<Rightarrow> htab option \<times> int" where
  "tab_strid tab str n = (case tab of None \<Rightarrow> (None, n)
                          | Some t \<Rightarrow> (case strid t str n of (t', v) \<Rightarrow> (Some t', v)))"

subsection \<open>Groups\<close>

text \<open>The types of the two functions that the others call.\<close>

type_synonym add_fun = "list_ref \<Rightarrow> string \<Rightarrow> hl_sys \<Rightarrow> hl_sys option"
type_synonym make_fun = "list_ref \<Rightarrow> host \<Rightarrow> string \<Rightarrow> hl_sys \<Rightarrow> (host \<times> hl_sys) option"

text \<open>A scan whose callback adds each element, possibly rewritten.\<close>

definition add_each :: "add_fun \<Rightarrow> (string \<Rightarrow> string) \<Rightarrow> list_ref \<Rightarrow> string \<Rightarrow> hl_sys \<Rightarrow> hl_sys option" where
  "add_each add f r list s =
     snd (scan_commaListL list 0
       (Some (\<lambda>so e slnep. (0, Option.bind so (add r (f e))))) (Some s))"

text \<open>A scan that adds the elements of a list without outer braces, as \<^verbatim>\<open>master.cpp\<close> does.\<close>

definition add_all :: "add_fun \<Rightarrow> list_ref \<Rightarrow> string \<Rightarrow> hl_sys \<Rightarrow> hl_sys option" where
  "add_all add r list s =
     snd (scan_commaList list STR_ALLOC
       (Some (\<lambda>so e slnep. (0, Option.bind so (add r e)))) (Some s))"

definition enableClientIdent :: "add_fun \<Rightarrow> string \<Rightarrow> hl_sys \<Rightarrow> hl_sys option" where
  "enableClientIdent add host s = add_all add Ident host s"

text \<open>A C string built with \<^verbatim>\<open>%c\<close> of NUL is empty.\<close>

definition addHL1 :: "char \<Rightarrow> string option \<Rightarrow> string \<Rightarrow> string" where
  "addHL1 opc users hostmask =
     (if opc = NUL then []
      else case users of Some u \<Rightarrow> opc # u @ ''@'' @ hostmask | None \<Rightarrow> opc # hostmask)"

text \<open>The users and the hosts of \<^verbatim>\<open>users@hosts\<close>; a mask such as \<^verbatim>\<open>host/@C\<close> has no users.\<close>

definition hostpart :: "string \<Rightarrow> (string \<times> string) option" where
  "hostpart hostmask =
     (case strchr hostmask CHR ''@'' of
        None \<Rightarrow> None
      | Some dp \<Rightarrow>
          (let users = take (length hostmask - length dp) hostmask
           in if users = [] \<or> last users \<noteq> CHR ''/'' then Some (users, tl dp) else None))"

text \<open>
  The operator, the users and the hosts. For an empty mask the test of the operator finds
  the terminator, and what follows it in memory is read.
\<close>

definition split_HL :: "hl_env \<Rightarrow> string \<Rightarrow> char \<times> string option \<times> string" where
  "split_HL env hostmask =
     (case (if hostmask = [] then (NUL, junk_str env)
            else if hd hostmask \<in> set ''+!-?'' then (hd hostmask, tl hostmask)
            else (CHR ''+'', hostmask)) of (opc, list) \<Rightarrow>
        (case hostpart list of
           Some (users, hosts) \<Rightarrow> (opc, Some users, hosts)
         | None \<Rightarrow> (opc, None, list)))"

text \<open>The result tells whether the mask was a group.\<close>

definition addHL :: "hl_env \<Rightarrow> add_fun \<Rightarrow> list_ref \<Rightarrow> string \<Rightarrow> hl_sys \<Rightarrow> (bool \<times> hl_sys) option" where
  "addHL env add r hostmask s =
     (case split_HL env hostmask of (opc, users, hosts) \<Rightarrow>
        if hd0 hosts \<noteq> CHR ''{'' then Some (False, s)
        else if strtailchr hosts \<noteq> CHR ''}'' then Some (False, s)
        else map_option (Pair True) (add_each add (addHL1 opc users) r hosts s))"

subsection \<open>One entry\<close>

definition strip_not :: "string \<Rightarrow> string" where
  "strip_not hostmask =
     (let m = (if is_prefix ''!!'' hostmask then drop 2 hostmask else hostmask)
      in if is_prefix ''+!'' m then drop 1 m else m)"

text \<open>The entry is put into the list before it is filled in.\<close>

definition new_entry :: "make_fun \<Rightarrow> list_ref \<Rightarrow> string \<Rightarrow> hl_sys \<Rightarrow> hl_sys option" where
  "new_entry mk r hostmask s =
     (let l = get_list s r; idx = length (hl_List l)
      in case mk r new_host hostmask (put_list r (l\<lparr>hl_List := hl_List l @ [new_host]\<rparr>) s) of
           None \<Rightarrow> None
         | Some (h, s') \<Rightarrow>
             (let l' = get_list s' r in Some (put_list r (l'\<lparr>hl_List := (hl_List l')[idx := h]\<rparr>) s')))"

definition add_body :: "hl_env \<Rightarrow> add_fun \<Rightarrow> make_fun \<Rightarrow> add_fun" where
  "add_body env add mk r hostmask s =
     (if hostmask = ''/a'' then Some (or_flags r HL_BYADDR s)
      else if hostmask = ''/u'' then Some (or_flags r HL_BYAUTH s)
      else if hostmask = ''/R'' then Some (or_flags r HL_XRANDOM s)
      else let m = strip_not hostmask
           in case addHL env add r m s of
                None \<Rightarrow> None
              | Some (True, s1) \<Rightarrow> Some s1
              | Some (False, s1) \<Rightarrow>
                  Option.bind
                    (if hl_List (get_list s1 r) = [] \<and> hd0 m = CHR ''!'' \<and> m \<noteq> ''!*''
                     then add r ''*'' s1 else Some s1)
                    (new_entry mk r m))"

subsection \<open>The table of named lists\<close>

definition rehash :: "hostlist list \<Rightarrow> nat \<Rightarrow> htab \<Rightarrow> htab" where
  "rehash hls n t = foldl (\<lambda>t li. fst (strid t (hl_what (hls ! li)) (int li))) t [1..<n]"

definition resize_hostlisttab :: "hl_sys \<Rightarrow> hl_sys" where
  "resize_hostlisttab s =
     (let newsize = (if ht_size s \<noteq> 0 then ht_size s * 2 else 16)
      in s\<lparr>ht_size := newsize,
           ht_list := new_list # tl (take (ht_size s) (ht_list s)) @ replicate (newsize - max 1 (ht_size s)) new_list,
           ht_hash := Some (rehash (ht_list s) (ht_size s) (Hcreate (newsize * 2)))\<rparr>)"

text \<open>\<open>bad_at i\<close> notes a store at the index \<open>i\<close> that the array has not.\<close>

definition bad_at :: "nat \<Rightarrow> hl_sys \<Rightarrow> hl_sys" where
  "bad_at i s = s\<lparr>ht_bad := ht_bad s \<or> ht_size s \<le> i\<rparr>"

text \<open>The size of the array is not checked here, nor that there is one.\<close>

definition putHostListTab :: "string \<Rightarrow> hostlist \<Rightarrow> hl_sys \<Rightarrow> hl_sys" where
  "putHostListTab aname hl s =
     (if snd (tab_strid (ht_hash s) aname (-1)) < 0 then
        (let listid = ht_id s + 1
         in bad_at listid (s\<lparr>ht_id := listid,
                             ht_hash := fst (tab_strid (ht_hash s) aname (int listid)),
                             ht_list := (ht_list s)[listid := hl]\<rparr>))
      else s)"

text \<open>The name, the flags and the list of a definition \<^verbatim>\<open>-name/flags\<close>; a name is cut to 63 characters.\<close>

definition tab_name :: "string \<Rightarrow> bool \<times> string \<times> string" where
  "tab_name dname =
     (let noresolv = (hd0 dname = CHR ''-'');
          d = (if noresolv then tl dname else dname)
      in case strchr d CHR ''/'' of
           Some sp \<Rightarrow> (noresolv, take 63 (takeWhile (\<lambda>c. c \<noteq> CHR ''/'') d), tl sp)
         | None \<Rightarrow> (noresolv, d, []))"

definition flags_of :: "bool \<Rightarrow> string \<Rightarrow> nat" where
  "flags_of noresolv aflags =
     (let f = (\<lambda>c v. if strchr aflags c \<noteq> None then v else 0)
      in f CHR ''p'' HL_PROTECT OR f CHR ''c'' HL_BYCLHOST OR f CHR ''i'' HL_NOIDENT
         OR (if noresolv then HL_NORESOLV else f CHR ''r'' HL_NORESOLV)
         OR f CHR ''a'' HL_BYADDR OR f CHR ''u'' HL_BYAUTH OR f CHR ''A'' HL_BYAGENT)"

text \<open>The list a definition is for: an existing one, emptied unless it is to be extended, or a new one.\<close>

definition open_list :: "string \<Rightarrow> bool \<Rightarrow> bool \<Rightarrow> hl_sys \<Rightarrow> nat \<times> hl_sys" where
  "open_list aname apptype applist s =
     (let old = snd (tab_strid (ht_hash s) aname (-1))
      in if 0 < old then
           (let i = nat old; l = ht_list s ! i
            in (i, if hasf (hl_flags l) HL_PROTECT \<or> hasf (hl_flags l) HL_APPEND \<or> apptype \<or> applist then s
                   else put_list (Listed i) (new_list\<lparr>hl_what := hl_what l, hl_flags := hl_flags l\<rparr>) s))
         else
           (let i = ht_id s + 1; s1 = s\<lparr>ht_id := i\<rparr>;
                s2 = (if ht_size s1 \<le> i then resize_hostlisttab s1 else s1)
            in (i, put_list (Listed i)
                     (new_list\<lparr>hl_what := aname, hl_flags := (if apptype then HL_APPEND else 0)\<rparr>)
                     (bad_at i (s2\<lparr>ht_hash := fst (tab_strid (ht_hash s2) aname (int i))\<rparr>)))))"

definition tab_body :: "add_fun \<Rightarrow> string \<Rightarrow> string \<Rightarrow> hl_sys \<Rightarrow> hl_sys option" where
  "tab_body add dname dhostlist s =
     (case tab_name dname of (noresolv, aname, aflags) \<Rightarrow>
        let apptype = (strchr aflags CHR ''+'' \<noteq> None);
            applist = is_prefix ''+,'' dhostlist;
            ahostlist = (if applist then drop 2 dhostlist else dhostlist)
        in case open_list aname apptype applist s of (i, s1) \<Rightarrow>
             add_each add (\<lambda>e. e) (Listed i) ahostlist (or_flags (Listed i) (flags_of noresolv aflags) s1))"

definition init_body :: "hl_env \<Rightarrow> add_fun \<Rightarrow> hl_sys \<Rightarrow> hl_sys option" where
  "init_body env add s =
     (if ht_hash s = None then
        Option.bind (tab_body add ''.localnet'' (DELEGATE_LOCALNET env) (resize_hostlisttab s)) (\<lambda>s1.
        Option.bind (tab_body add ''.RELIABLE'' ''*'' s1)
          (tab_body add ''.socksdst'' ''!.localnet''))
      else Some s)"

subsection \<open>Making an entry\<close>

text \<open>
  The route after \<^verbatim>\<open>//\<close> is made into an entry of its own, which nothing reads: only what making
  it adds to other lists is left of it.
\<close>

definition route_of :: "make_fun \<Rightarrow> list_ref \<Rightarrow> string \<Rightarrow> hl_sys \<Rightarrow> (string \<times> hl_sys) option" where
  "route_of mk r hostmask s =
     (case strstr hostmask ''//'' of
        None \<Rightarrow> Some (hostmask, s)
      | Some route \<Rightarrow>
          map_option (\<lambda>(_, s1). (take (length hostmask - length route) hostmask, s1))
            (mk r new_host (drop 2 route) s))"

text \<open>The end of \<^verbatim>\<open>makeHost\<close>, with what it adds to another list and to the resolver's cache.\<close>

definition named_host :: "hl_env \<Rightarrow> add_fun \<Rightarrow> list_ref \<Rightarrow> host \<Rightarrow> string \<Rightarrow> string \<Rightarrow> hl_sys
    \<Rightarrow> (host \<times> hl_sys) option" where
  "named_host env add r h n vdomain s =
     (case name_host env r (hl_flags (get_list s r)) (snd (tab_strid (ht_hash s) n (-1))) h n of
        (h2, n2, req, predef) \<Rightarrow>
          map_option
            (\<lambda>s1. (h2\<lparr>h_name := n2, h_vdomain := (if vdomain \<noteq> [] then Some vdomain else None)\<rparr>,
                   s1\<lparr>hostcache_predef := hostcache_predef s1 @ (case predef of None \<Rightarrow> [] | Some nm \<Rightarrow> [nm])\<rparr>))
            (case req of None \<Rightarrow> Some s | Some (r', m) \<Rightarrow> add r' m s))"

text \<open>
  The hosts of the users are added to those asked by the Ident protocol while the entry is made,
  with a nested call for each of them; the flags of the list are read again afterwards.
\<close>

definition make_body :: "hl_env \<Rightarrow> add_fun \<Rightarrow> make_fun \<Rightarrow> make_fun" where
  "make_body env add mk r h hostmask s =
     Option.bind (init_body env add s) (\<lambda>s0.
     case proto_of env hostmask of (proto, m) \<Rightarrow>
     Option.bind (route_of mk r m s0) (\<lambda>(m1, s1).
       case parse_host env (hl_flags (get_list s1 r)) (hl_noIdent (get_list s1 r)) proto h m1 of
         Done h1 \<Rightarrow> Some (h1, s1)
       | Named h1 ident n vdomain \<Rightarrow>
           Option.bind (case ident of None \<Rightarrow> Some s1 | Some host \<Rightarrow> enableClientIdent add host s1)
             (named_host env add r h1 n vdomain)))"

fun addHostList1 :: "hl_env \<Rightarrow> nat \<Rightarrow> list_ref \<Rightarrow> string \<Rightarrow> hl_sys \<Rightarrow> hl_sys option"
and makeHost :: "hl_env \<Rightarrow> nat \<Rightarrow> list_ref \<Rightarrow> host \<Rightarrow> string \<Rightarrow> hl_sys \<Rightarrow> (host \<times> hl_sys) option" where
  "addHostList1 env 0 r hostmask s = None"
| "addHostList1 env (Suc n) r hostmask s = add_body env (addHostList1 env n) (makeHost env n) r hostmask s"
| "makeHost env 0 r h hostmask s = None"
| "makeHost env (Suc n) r h hostmask s = make_body env (addHostList1 env n) (makeHost env n) r h hostmask s"

definition addHostListTab :: "hl_env \<Rightarrow> nat \<Rightarrow> string \<Rightarrow> string \<Rightarrow> hl_sys \<Rightarrow> hl_sys option" where
  "addHostListTab env n dname dhostlist s = tab_body (addHostList1 env n) dname dhostlist s"

definition init_hostListTab :: "hl_env \<Rightarrow> nat \<Rightarrow> hl_sys \<Rightarrow> hl_sys option" where
  "init_hostListTab env n s = init_body env (addHostList1 env n) s"

definition scan_HOSTLIST :: "hl_env \<Rightarrow> nat \<Rightarrow> string \<Rightarrow> hl_sys \<Rightarrow> hl_sys option" where
  "scan_HOSTLIST env n listdef s =
     (case strchr listdef CHR '':'' of
        None \<Rightarrow> Some s
      | Some dp \<Rightarrow>
          Option.bind (init_hostListTab env n s)
            (addHostListTab env n (take 31 (takeWhile (\<lambda>c. c \<noteq> CHR '':'') listdef)) (tl dp)))"

text \<open>
  \<^verbatim>\<open>RELIABLE=list\<close>: the hosts are added to \<^verbatim>\<open>ReliableHosts()\<close> (an empty list stands for nobody), and
  that list is put into the table under the name \<^verbatim>\<open>.RELIABLE\<close>.
\<close>

definition scan_RELIABLE :: "hl_env \<Rightarrow> nat \<Rightarrow> string \<Rightarrow> hl_sys \<Rightarrow> hl_sys option" where
  "scan_RELIABLE env n rels s =
     map_option (\<lambda>s1. putHostListTab ''.RELIABLE'' (reliableHosts s1) s1)
       (add_all (addHostList1 env n) Reliable (if rels = [] then ''!*'' else rels) s)"

subsection \<open>Asking the lists\<close>

definition isinHOSTLIST :: "hl_env \<Rightarrow> hl_sys \<Rightarrow> string \<Rightarrow> string option \<Rightarrow> string \<Rightarrow> int \<Rightarrow> string option \<Rightarrow> int" where
  "isinHOSTLIST env s lname proto hostname port user =
     (let listid = snd (tab_strid (ht_hash s) lname (-1))
      in if 0 < listid
         then int (hostIsinList env (ht_list s) (ht_list s ! nat listid) proto hostname port user)
         else -1)"

text \<open>
  \<^verbatim>\<open>makePathListX\<close> makes a list for a path and its options once, and returns its number (from 1).
  The array of the lists grows by 32 when it is full, which the model's list does by itself.
\<close>

fun find_path :: "string \<Rightarrow> string \<Rightarrow> nat \<Rightarrow> (string \<times> string \<times> hostlist) list \<Rightarrow> nat option" where
  "find_path path opts hi [] = None"
| "find_path path opts hi ((p, q, l) # pls) =
     (if path = p \<and> opts = q then Some (hi + 1) else find_path path opts (hi + 1) pls)"

definition makePathListX :: "hl_env \<Rightarrow> nat \<Rightarrow> string \<Rightarrow> string \<Rightarrow> string \<Rightarrow> hl_sys \<Rightarrow> (nat \<times> hl_sys) option" where
  "makePathListX env n what path opts s =
     (case find_path path opts 0 (pathlists s) of
        Some hlid \<Rightarrow> Some (hlid, s)
      | None \<Rightarrow>
          (let l = new_list\<lparr>hl_what := what,
                      hl_flags := (if strchr opts CHR ''n'' \<noteq> None then HL_BYNAMEONLY else 0)\<rparr>
           in map_option (\<lambda>s1. (length (pathlists s1) + 1,
                               s1\<lparr>pathlists := pathlists s1 @ [(path, opts, own s1)]\<rparr>))
                (add_each (addHostList1 env n) (\<lambda>e. e) Own path (s\<lparr>own := l\<rparr>))))"

definition makePathList :: "hl_env \<Rightarrow> nat \<Rightarrow> string \<Rightarrow> string \<Rightarrow> hl_sys \<Rightarrow> (nat \<times> hl_sys) option" where
  "makePathList env n what path s = makePathListX env n what path [] s"

definition path_list :: "hl_sys \<Rightarrow> int \<Rightarrow> hostlist option" where
  "path_list s hlid = (if hlid < 1 \<or> int (length (pathlists s)) < hlid then None
                       else Some (snd (snd (pathlists s ! nat (hlid - 1)))))"

definition matchPath1 :: "hl_env \<Rightarrow> hl_sys \<Rightarrow> int \<Rightarrow> string option \<Rightarrow> string \<Rightarrow> int \<Rightarrow> nat" where
  "matchPath1 env s hlid user hostname port =
     (case path_list s hlid of
        None \<Rightarrow> 0
      | Some hl \<Rightarrow> hostIsinList env (ht_list s) hl (Some ''*'') hostname port user)"

definition first_port :: "host \<Rightarrow> int" where
  "first_port h = (case h_port h of Some (p # _) \<Rightarrow> atoi p | _ \<Rightarrow> 0)"

text \<open>
  A host of a list by its index: refused, outside of the list (the guard lets \<^verbatim>\<open>hi == hl_cnt\<close>
  pass, and an empty list in random order divides by zero), or its name, address and port.
  \<open>rnd\<close> is the value of \<^verbatim>\<open>trand1(1024)\<close>.
\<close>

datatype 'a access = Refused | Outside | Got 'a

definition getHostInList :: "hl_sys \<Rightarrow> nat \<Rightarrow> int \<Rightarrow> int \<Rightarrow> (string \<times> addr4 \<times> int) access \<times> hl_sys" where
  "getHostInList s rnd hlid hi =
     (case path_list s hlid of
        None \<Rightarrow> (Refused, s)
      | Some hl \<Rightarrow>
          (let cnt = length (hl_List hl);
               got = (\<lambda>i. if i < cnt then let h = hl_List hl ! i in Got (h_name h, h_Addr h, first_port h)
                          else Outside)
           in if hi < 0 \<or> int cnt < hi then (Refused, s)
              else if hasf (hl_flags hl) HL_XRANDOM then
                (let hl' = (if hasf (hl_flags hl) HL_XRANDSET then hl
                            else hl\<lparr>hl_flags := hl_flags hl OR HL_XRANDSET, hl_base := rnd\<rparr>);
                     k = nat (hlid - 1)
                 in (if cnt = 0 then Outside else got ((nat hi + hl_base hl') mod cnt),
                     s\<lparr>pathlists := (pathlists s)[k := (case pathlists s ! k of (p, q, _) \<Rightarrow> (p, q, hl'))]\<rparr>))
              else (got (nat hi), s)))"

definition getHostListSize :: "hl_sys \<Rightarrow> int \<Rightarrow> int \<times> bool" where
  "getHostListSize s hlid =
     (case path_list s hlid of
        None \<Rightarrow> (-1, False)
      | Some hl \<Rightarrow> (int (length (hl_List hl)), hasf (hl_flags hl) HL_XRANDOM))"

text \<open>
  The first host of a list, unless the host given is in it; the number of the list is not
  checked, and an empty list has no first host (\<open>None\<close>).
\<close>

definition show_int :: "int \<Rightarrow> string" where
  "show_int v = (if v < 0 then CHR ''-'' # show_nat (nat (- v)) else show_nat (nat v))"

definition topofPath1 :: "hl_env \<Rightarrow> hl_sys \<Rightarrow> nat \<Rightarrow> string \<Rightarrow> string option" where
  "topofPath1 env s hlid hostport =
     (let hl = snd (snd (pathlists s ! (hlid - 1)));
          (hostname, port) =
            (if strchr hostport CHR '':'' \<noteq> None
             then (let hostb = take 127 (takeWhile (\<lambda>c. c \<noteq> CHR '':'') hostport);
                       dp = drop (length hostb) hostport
                   in (hostb, if hd0 dp = CHR '':'' then atoi (tl dp) mod 2 ^ 16 else 0))
             else (hostport, 0))
      in if VA_hostIsinList env (ht_list s) hl (Some ''*'') hostname (Some hostname)
              (null_addr\<lparr>a_port := port\<rparr>) (Some []) 0 \<noteq> 0 then Some hostport
         else case hl_List hl of
                [] \<Rightarrow> None
              | h # _ \<Rightarrow> Some (case h_port h of
                                None \<Rightarrow> h_name h
                              | Some [] \<Rightarrow> h_name h
                              | Some (p # _) \<Rightarrow> h_name h @ '':'' @ show_int (atoi p)))"

text \<open>
  The addresses of a list and of the lists it refers to, up to \<open>max\<close> (the length of \<open>va\<close>);
  \<open>None\<close> where the references do not end within the fuel. The result of the nested call, a
  count that includes \<open>ac\<close>, is added to \<open>ac\<close>.
\<close>

type_synonym vsa_array = "(addr4 \<times> int) option list"

fun addvsa_loop :: "(nat \<Rightarrow> nat \<Rightarrow> vsa_array \<Rightarrow> (nat \<times> vsa_array) option) \<Rightarrow> int \<Rightarrow> nat \<Rightarrow> vsa_array
    \<Rightarrow> host list \<Rightarrow> (nat \<times> vsa_array) option" where
  "addvsa_loop sub port ac va [] = Some (ac, va)"
| "addvsa_loop sub port ac va (h # hs) =
     (if length va \<le> ac then Some (ac, va)
      else if h_listid h \<noteq> 0 then
        (case sub (h_listid h) ac va of
           None \<Rightarrow> None
         | Some (n, va') \<Rightarrow> addvsa_loop sub port (ac + n) va' hs)
      else let p1 = (if first_port h = 0 then port else first_port h)
           in addvsa_loop sub port (ac + 1) (va[ac := Some (h_Addr h, p1)]) hs)"

fun addvsa :: "nat \<Rightarrow> hostlist list \<Rightarrow> hostlist \<Rightarrow> int \<Rightarrow> nat \<Rightarrow> vsa_array \<Rightarrow> (nat \<times> vsa_array) option" where
  "addvsa 0 tab hl port ac va = None"
| "addvsa (Suc n) tab hl port ac va =
     addvsa_loop (\<lambda>i ac va. addvsa n tab (tab ! i) port ac va) port ac va (hl_List hl)"

definition HL2VSA :: "nat \<Rightarrow> hl_sys \<Rightarrow> int \<Rightarrow> int \<Rightarrow> nat \<Rightarrow> (nat \<times> vsa_array) option" where
  "HL2VSA n s hlid port mac =
     (case path_list s hlid of
        None \<Rightarrow> Some (0, replicate mac None)
      | Some hl \<Rightarrow> addvsa n (ht_list s) hl port 0 (replicate mac None))"

end
