(* ===== verification/HostTable.thy ===== *)
theory HostTable
  imports HostConf
begin

section \<open>HostTable: what the configuration of host lists keeps\<close>

text \<open>
  Lemmas and properties of the functions of \<open>HostConf\<close>: what adding an entry changes, the
  invariant of the table of named lists and the map it refines, which definitions are read in
  finite time and which are not, and what the masks and ranges of an entry accept.
\<close>

subsection \<open>Scans\<close>

definition elemsL :: "string \<Rightarrow> string list" where
  "elemsL list = snd (scan_commaListL list 0 (Some collect) [])"

lemma elemsL_elems:
  "elemsL list = elems (if hd0 list = CHR ''{'' then
      (case strchr list CHR ''}'' of
         Some tp \<Rightarrow> if tl tp = [] then butlast (tl list) else list | None \<Rightarrow> tl list) else list) CHR '','' 0"
  by (simp add: elemsL_def scan_commaListL_def scan_ListLX_def elems_def split: option.split)

lemma scan_commaListL_fold:
  "snd (scan_commaListL list 0 (Some (\<lambda>st e slnep. (0, g e st))) st) = fold g (elemsL list) st"
  by (simp add: elemsL_elems scan_commaListL_def scan_ListLX_def scan_ListX_fold split: option.split)

lemma add_each_fold:
  "add_each add f r list s = fold (\<lambda>e so. Option.bind so (add r (f e))) (elemsL list) (Some s)"
  by (simp add: add_each_def scan_commaListL_fold)

lemma add_all_fold:
  "add_all add r list s = fold (\<lambda>e so. Option.bind so (add r e)) (elems list CHR '','' STR_ALLOC) (Some s)"
  by (simp add: add_all_def scan_commaList_def scan_ListX_fold)

lemma fold_bind_None [simp]: "fold (\<lambda>e so. Option.bind so (g e)) es None = None"
  by (induction es) auto

lemma set_butlast_tl: "set (butlast (tl xs)) \<subseteq> set xs"
  by (cases xs) (auto dest: in_set_butlastD)

lemma elemsL_set: "nonul list \<Longrightarrow> e \<in> set (elemsL list) \<Longrightarrow> set e \<subseteq> set list"
proof -
  assume n: "nonul list" and e: "e \<in> set (elemsL list)"
  obtain list' where l: "e \<in> set (elems list' CHR '','' 0)" "set list' \<subseteq> set list"
    using e set_butlast_tl [of list] unfolding elemsL_elems
    by (cases list) (auto split: option.splits if_splits)
  then have "nonul list'" using n by (auto simp: nonul_def)
  then show ?thesis using elems_set [OF _ l(1)] l(2) by blast
qed

subsection \<open>What adding an entry changes\<close>

definition valid_ref :: "hl_sys \<Rightarrow> list_ref \<Rightarrow> bool" where
  "valid_ref s r = (case r of Listed i \<Rightarrow> i < length (ht_list s) | _ \<Rightarrow> True)"

lemma get_put [simp]:
  "valid_ref s q \<Longrightarrow> get_list (put_list r l s) q = (if q = r then l else get_list s q)"
  by (cases r; cases q) (auto simp: valid_ref_def nth_list_update)

lemma put_list_frame [simp]:
  "ht_hash (put_list r l s) = ht_hash s" "ht_size (put_list r l s) = ht_size s"
  "ht_id (put_list r l s) = ht_id s" "ht_bad (put_list r l s) = ht_bad s" "pathlists (put_list r l s) = pathlists s"
  "length (ht_list (put_list r l s)) = length (ht_list s)"
  "valid_ref (put_list r l s) q = valid_ref s q"
  by (cases r; simp add: valid_ref_def split: list_ref.split)+

text \<open>
  Lists in \<open>Q\<close> may have got new entries and flags; every list keeps its name, its entries so far and
  whether it compares names only, and the table is the same.
\<close>

definition list_grows :: "bool \<Rightarrow> hostlist \<Rightarrow> hostlist \<Rightarrow> bool" where
  "list_grows b l l' \<longleftrightarrow> hl_what l' = hl_what l
     \<and> (hasf (hl_flags l') HL_BYNAMEONLY \<longleftrightarrow> hasf (hl_flags l) HL_BYNAMEONLY)
     \<and> (\<exists>ys. hl_List l' = hl_List l @ ys) \<and> (b \<or> l' = l)"

definition grows :: "list_ref set \<Rightarrow> hl_sys \<Rightarrow> hl_sys \<Rightarrow> bool" where
  "grows Q s s' \<longleftrightarrow> ht_hash s' = ht_hash s \<and> ht_size s' = ht_size s \<and> ht_id s' = ht_id s
     \<and> ht_bad s' = ht_bad s \<and> pathlists s' = pathlists s \<and> length (ht_list s') = length (ht_list s)
     \<and> (\<forall>q. valid_ref s q \<longrightarrow> list_grows (q \<in> Q) (get_list s q) (get_list s' q))"

lemma list_grows_refl [simp]: "list_grows b l l"
  by (simp add: list_grows_def)

lemma list_grows_trans:
  "list_grows b l l' \<Longrightarrow> list_grows b' l' l'' \<Longrightarrow> (b \<Longrightarrow> c) \<Longrightarrow> (b' \<Longrightarrow> c) \<Longrightarrow> list_grows c l l''"
  by (auto simp: list_grows_def)

lemma grows_refl [simp]: "grows Q s s"
  by (simp add: grows_def)

lemma grows_valid: "grows Q s s' \<Longrightarrow> valid_ref s' q = valid_ref s q"
  by (simp add: grows_def valid_ref_def split: list_ref.split)

lemma grows_trans: "grows Q s s' \<Longrightarrow> grows Q' s' s'' \<Longrightarrow> Q \<subseteq> R \<Longrightarrow> Q' \<subseteq> R \<Longrightarrow> grows R s s''"
  using grows_valid [of Q s s'] unfolding grows_def
  by (auto intro: list_grows_trans [where b = "_ \<in> Q" and b' = "_ \<in> Q'"])

lemma grows_mono: "grows Q s s' \<Longrightarrow> Q \<subseteq> R \<Longrightarrow> grows R s s'"
  by (erule grows_trans [of Q s s' R s']) auto

lemma hasf_bit: "hasf x f \<longleftrightarrow> (\<exists>n. bit x n \<and> bit f n)"
  by (simp add: hasf_def bit_eq_iff [of "x AND f"] bit_and_iff)

lemma hasf_OR [simp]: "hasf (x OR f) g \<longleftrightarrow> hasf x g \<or> hasf f g"
  by (auto simp: hasf_bit bit_or_iff)


lemma BYNAMEONLY_apart [simp]:
  "\<not> hasf HL_BYADDR HL_BYNAMEONLY" "\<not> hasf HL_BYAUTH HL_BYNAMEONLY" "\<not> hasf HL_XRANDOM HL_BYNAMEONLY"
  by (simp_all add: hasf_def HL_defs)

lemma put_grows:
  "valid_ref s r \<Longrightarrow> list_grows True (get_list s r) l \<Longrightarrow> grows {r} s (put_list r l s)"
  by (simp add: grows_def)

lemma or_flags_grows:
  "valid_ref s r \<Longrightarrow> \<not> hasf f HL_BYNAMEONLY \<Longrightarrow> grows {r} s (or_flags r f s)"
  unfolding or_flags_def by (rule put_grows) (auto simp: list_grows_def)

definition adds :: "add_fun \<Rightarrow> bool" where
  "adds add \<longleftrightarrow> (\<forall>r m s s'. ht_hash s \<noteq> None \<longrightarrow> valid_ref s r \<longrightarrow> add r m s = Some s'
     \<longrightarrow> grows {r, Lex, Virtual, Ident} s s')"

definition makes :: "make_fun \<Rightarrow> bool" where
  "makes mk \<longleftrightarrow> (\<forall>r h m s h' s'. ht_hash s \<noteq> None \<longrightarrow> valid_ref s r \<longrightarrow> mk r h m s = Some (h', s')
     \<longrightarrow> grows {Lex, Virtual, Ident} s s')"

lemma grows_hash: "grows Q s s' \<Longrightarrow> ht_hash s' = ht_hash s"
  by (simp add: grows_def)

lemma add_fold_grows:
  assumes "adds add"
  shows "ht_hash s \<noteq> None \<Longrightarrow> valid_ref s r \<Longrightarrow>
    fold (\<lambda>e so. Option.bind so (add r (f e))) es (Some s) = Some s' \<Longrightarrow> grows {r, Lex, Virtual, Ident} s s'"
proof (induction es arbitrary: s)
  case (Cons e es)
  then obtain s1 where s1: "add r (f e) s = Some s1"
    "fold (\<lambda>e so. Option.bind so (add r (f e))) es (Some s1) = Some s'" by (cases "add r (f e) s") auto
  have g: "grows {r, Lex, Virtual, Ident} s s1" using assms Cons.prems s1(1) by (simp add: adds_def)
  from Cons.IH [OF _ _ s1(2)] Cons.prems grows_hash [OF g] grows_valid [OF g]
  show ?case using g by (auto intro: grows_trans)
qed simp

lemma add_each_grows:
  "adds add \<Longrightarrow> ht_hash s \<noteq> None \<Longrightarrow> valid_ref s r \<Longrightarrow> add_each add f r list s = Some s' \<Longrightarrow>
   grows {r, Lex, Virtual, Ident} s s'"
  unfolding add_each_fold by (rule add_fold_grows)

lemma addHL_grows:
  "adds add \<Longrightarrow> ht_hash s \<noteq> None \<Longrightarrow> valid_ref s r \<Longrightarrow> addHL env add r m s = Some (b, s') \<Longrightarrow>
   grows {r, Lex, Virtual, Ident} s s'"
  by (auto simp: addHL_def split: prod.splits if_splits dest: add_each_grows)

lemma new_entry_grows:
  assumes "makes mk" "ht_hash s \<noteq> None" "valid_ref s r" "new_entry mk r m s = Some s'"
  shows "grows {r, Lex, Virtual, Ident} s s'"
proof -
  let ?l = "get_list s r"
  let ?s1 = "put_list r (?l\<lparr>hl_List := hl_List ?l @ [new_host]\<rparr>) s"
  obtain h s2 where s2: "mk r new_host m ?s1 = Some (h, s2)"
    and s': "s' = put_list r ((get_list s2 r)\<lparr>hl_List := (hl_List (get_list s2 r))[length (hl_List ?l) := h]\<rparr>) s2"
    using assms(4) by (auto simp: new_entry_def Let_def split: option.splits)
  have g: "grows {Lex, Virtual, Ident} ?s1 s2" using assms(1-3) s2 by (auto simp: makes_def)
  then have v: "valid_ref s2 q = valid_ref s q" for q by (simp add: grows_valid)
  have r: "list_grows True (get_list ?s1 r) (get_list s2 r)"
    using g assms(3) by (auto simp: grows_def list_grows_def)
  have "list_grows (q \<in> {r, Lex, Virtual, Ident}) (get_list s q) (get_list s' q)" if "valid_ref s q" for q
  proof (cases "q = r")
    case True
    then show ?thesis using r assms(3) v by (auto simp: s' list_grows_def list_update_append)
  next
    case False
    then show ?thesis using g that v by (auto simp: s' grows_def list_grows_def)
  qed
  then show ?thesis using g by (simp add: grows_def s')
qed

lemma add_body_cases:
  assumes "add_body env add mk r m s = Some s'"
  shows "(\<exists>f \<in> {HL_BYADDR, HL_BYAUTH, HL_XRANDOM}. s' = or_flags r f s)
    \<or> addHL env add r (strip_not m) s = Some (True, s')
    \<or> (\<exists>s1 s2. addHL env add r (strip_not m) s = Some (False, s1)
          \<and> (s2 = s1 \<or> add r ''*'' s1 = Some s2) \<and> new_entry mk r (strip_not m) s2 = Some s')"
proof (cases "m \<in> {''/a'', ''/u'', ''/R''}")
  case True
  then show ?thesis using assms by (auto simp: add_body_def)
next
  case False
  then obtain b s1 where b: "addHL env add r (strip_not m) s = Some (b, s1)"
    using assms by (auto simp: add_body_def Let_def split: option.splits)
  show ?thesis
  proof (cases b)
    case True
    then show ?thesis using assms False b by (auto simp: add_body_def)
  next
    case f: False
    obtain s2 where "s2 = s1 \<or> add r ''*'' s1 = Some s2" "new_entry mk r (strip_not m) s2 = Some s'"
      using assms False b f by (simp add: add_body_def Let_def bind_eq_Some_conv) (metis option.inject)
    then show ?thesis using b f by auto
  qed
qed

lemma add_body_grows:
  assumes "adds add" "makes mk"
  shows "adds (add_body env add mk)"
  unfolding adds_def
proof (intro allI impI)
  fix r m s s'
  assume s: "ht_hash s \<noteq> None" "valid_ref s r" and e: "add_body env add mk r m s = Some s'"
  let ?m = "strip_not m"
  consider (flag) f where "f \<in> {HL_BYADDR, HL_BYAUTH, HL_XRANDOM}" "s' = or_flags r f s"
    | (group) "addHL env add r ?m s = Some (True, s')"
    | (entry) s1 s2 where "addHL env add r ?m s = Some (False, s1)"
        "s2 = s1 \<or> add r ''*'' s1 = Some s2" "new_entry mk r ?m s2 = Some s'"
    using add_body_cases [OF e] by blast
  then show "grows {r, Lex, Virtual, Ident} s s'"
  proof cases
    case flag
    then show ?thesis using or_flags_grows [OF s(2), of f] by (auto intro: grows_mono)
  next
    case group
    then show ?thesis by (rule addHL_grows [OF assms(1) s])
  next
    case entry
    have g1: "grows {r, Lex, Virtual, Ident} s s1" by (rule addHL_grows [OF assms(1) s entry(1)])
    then have s1: "ht_hash s1 \<noteq> None" "valid_ref s1 r" using s grows_hash grows_valid by metis+
    have g2: "grows {r, Lex, Virtual, Ident} s1 s2" using entry(2) assms(1) s1 by (auto simp: adds_def)
    then have s2: "ht_hash s2 \<noteq> None" "valid_ref s2 r" using s1 grows_hash grows_valid by metis+
    have "grows {r, Lex, Virtual, Ident} s2 s'" by (rule new_entry_grows [OF assms(2) s2 entry(3)])
    with g1 g2 show ?thesis by (meson grows_trans order_refl)
  qed
qed

lemma add_all_grows:
  "adds add \<Longrightarrow> ht_hash s \<noteq> None \<Longrightarrow> valid_ref s r \<Longrightarrow> add_all add r list s = Some s' \<Longrightarrow>
   grows {r, Lex, Virtual, Ident} s s'"
  unfolding add_all_fold using add_fold_grows [where f = "\<lambda>e. e"] by simp

lemma name_host_request:
  "name_host env r flags listid h n = (h2, n2, Some (r', x), pre) \<Longrightarrow>
   r' = Lex \<and> r \<noteq> Lex \<and> \<not> hasf flags HL_BYNAMEONLY \<and> x = n
   \<or> r' = Virtual \<and> r \<noteq> Virtual \<and> hasf flags HL_BYNAMEONLY \<and> (x = n \<or> x = tl n)"
  unfolding name_host_def Let_def by (auto split: if_split_asm option.split_asm prod.split_asm)

lemma cache_grows [simp]: "grows Q s (s\<lparr>hostcache_predef := c\<rparr>)"
proof -
  have "get_list (s\<lparr>hostcache_predef := c\<rparr>) q = get_list s q" for q by (cases q) simp_all
  then show ?thesis by (simp add: grows_def)
qed

lemma named_host_cases:
  assumes "named_host env add r h n vd s = Some (h', s')"
  obtains s1 c where "s1 = s \<or> (\<exists>r' x. (r' = Lex \<or> r' = Virtual) \<and> add r' x s = Some s1)"
    "s' = s1\<lparr>hostcache_predef := c\<rparr>"
proof -
  obtain h2 n2 req pre where n: "name_host env r (hl_flags (get_list s r))
      (snd (tab_strid (ht_hash s) n (-1))) h n = (h2, n2, req, pre)" by (metis prod_cases4)
  obtain s1 c where s1: "(case req of None \<Rightarrow> Some s | Some (r', m) \<Rightarrow> add r' m s) = Some s1"
    and s': "s' = s1\<lparr>hostcache_predef := c\<rparr>"
    using assms by (auto simp: named_host_def n)
  have "s1 = s \<or> (\<exists>r' x. (r' = Lex \<or> r' = Virtual) \<and> add r' x s = Some s1)"
  proof (cases req)
    case (Some a)
    obtain r' x where a: "a = (r', x)" by force
    have "r' = Lex \<or> r' = Virtual" using name_host_request n Some a by blast
    then show ?thesis using s1 Some a by auto
  qed (use s1 in simp)
  then show thesis using s' that by blast
qed

lemma make_body_cases:
  assumes "make_body env add mk r h m s = Some (h', s')" "ht_hash s \<noteq> None" "proto_of env m = (proto, m0)"
  obtains m1 s1 where "route_of mk r m0 s = Some (m1, s1)" "s' = s1"
  | m1 s1 s2 h1 n vd where "route_of mk r m0 s = Some (m1, s1)"
    "s2 = s1 \<or> (\<exists>host. enableClientIdent add host s1 = Some s2)"
    "named_host env add r h1 n vd s2 = Some (h', s')"
proof -
  have i: "init_body env add s = Some s" using assms(2) by (auto simp: init_body_def)
  obtain m1 s1 where r1: "route_of mk r m0 s = Some (m1, s1)"
    using assms(1,3) by (auto simp: make_body_def i bind_eq_Some_conv)
  show thesis
  proof (cases "parse_host env (hl_flags (get_list s1 r)) (hl_noIdent (get_list s1 r)) proto h m1")
    case (Done h1)
    then show ?thesis using assms(1,3) that(1) [OF r1] by (simp add: make_body_def i r1)
  next
    case (Named h1 ident n vd)
    obtain s2 where s2: "(case ident of None \<Rightarrow> Some s1 | Some host \<Rightarrow> enableClientIdent add host s1) = Some s2"
      "named_host env add r h1 n vd s2 = Some (h', s')"
      using assms(1,3) by (auto simp: make_body_def i r1 Named bind_eq_Some_conv)
    then have "s2 = s1 \<or> (\<exists>host. enableClientIdent add host s1 = Some s2)" by (auto split: option.splits)
    then show ?thesis using that(2) [OF r1 _ s2(2)] by blast
  qed
qed

lemma named_host_grows:
  assumes "adds add" "ht_hash s \<noteq> None" "named_host env add r h n vd s = Some (h', s')"
  shows "grows {Lex, Virtual, Ident} s s'"
proof -
  obtain s1 c where s1: "s1 = s \<or> (\<exists>r' x. (r' = Lex \<or> r' = Virtual) \<and> add r' x s = Some s1)"
    and s': "s' = s1\<lparr>hostcache_predef := c\<rparr>" using named_host_cases [OF assms(3)] by blast
  from s1 consider "s1 = s" | q x where "q = Lex \<or> q = Virtual" "add q x s = Some s1" by blast
  then have "grows {Lex, Virtual, Ident} s s1"
  proof cases
    case 2
    have "valid_ref s q" using 2(1) by (auto simp: valid_ref_def)
    then have "grows {q, Lex, Virtual, Ident} s s1" using assms(1,2) 2(2) unfolding adds_def by blast
    then show ?thesis by (rule grows_mono) (use 2(1) in auto)
  qed simp
  then show ?thesis unfolding s' by (rule grows_trans [OF _ cache_grows [of "{}"]]) auto
qed

lemma ident_grows:
  assumes "adds add" "ht_hash s \<noteq> None" "enableClientIdent add host s = Some s'"
  shows "grows {Lex, Virtual, Ident} s s'"
proof -
  have "valid_ref s Ident" by (simp add: valid_ref_def)
  then have "grows {Ident, Lex, Virtual, Ident} s s'"
    using add_all_grows [OF assms(1,2)] assms(3) by (simp add: enableClientIdent_def)
  then show ?thesis by (rule grows_mono) auto
qed

lemma route_grows:
  "makes mk \<Longrightarrow> ht_hash s \<noteq> None \<Longrightarrow> valid_ref s r \<Longrightarrow> route_of mk r m s = Some (m1, s1) \<Longrightarrow>
   grows {Lex, Virtual, Ident} s s1"
  by (auto simp: route_of_def makes_def split: option.splits)

lemma make_body_grows:
  assumes "adds add" "makes mk"
  shows "makes (make_body env add mk)"
  unfolding makes_def
proof (intro allI impI)
  fix r h m s h' s'
  assume s: "ht_hash s \<noteq> None" "valid_ref s r" and e: "make_body env add mk r h m s = Some (h', s')"
  obtain proto m0 where p: "proto_of env m = (proto, m0)" by force
  from e s(1) p show "grows {Lex, Virtual, Ident} s s'"
  proof (cases rule: make_body_cases)
    case (1 m1 s1)
    then show ?thesis using route_grows [OF assms(2) s] by blast
  next
    case (2 m1 s1 s2 h1 n vd)
    have g1: "grows {Lex, Virtual, Ident} s s1" by (rule route_grows [OF assms(2) s 2(1)])
    have h1: "ht_hash s1 \<noteq> None" using s(1) grows_hash [OF g1] by simp
    have g2: "grows {Lex, Virtual, Ident} s1 s2" using 2(2) ident_grows [OF assms(1) h1] by auto
    have h2: "ht_hash s2 \<noteq> None" using h1 grows_hash [OF g2] by simp
    have "grows {Lex, Virtual, Ident} s2 s'" by (rule named_host_grows [OF assms(1) h2 2(3)])
    then show ?thesis by (meson g1 g2 grows_trans order_refl)
  qed
qed

lemma add_make_grow: "adds (addHostList1 env n) \<and> makes (makeHost env n)"
proof (induction n)
  case 0
  show ?case by (simp add: adds_def makes_def)
next
  case (Suc n)
  have "addHostList1 env (Suc n) = add_body env (addHostList1 env n) (makeHost env n)"
    "makeHost env (Suc n) = make_body env (addHostList1 env n) (makeHost env n)" by (simp_all add: fun_eq_iff)
  with Suc show ?case by (simp add: add_body_grows make_body_grows)
qed

lemmas addHostList1_adds = add_make_grow [THEN conjunct1] and makeHost_makes = add_make_grow [THEN conjunct2]

subsection \<open>The table\<close>

definition tab_names :: "htab \<Rightarrow> hostlist list \<Rightarrow> nat \<Rightarrow> bool" where
  "tab_names t hls k \<longleftrightarrow> (\<forall>i \<in> {1..k}. strid_ask t (hl_what (hls ! i)) = int i)
     \<and> (\<forall>nm. strid_ask t nm = -1 \<or> (\<exists>i \<in> {1..k}. strid_ask t nm = int i \<and> hl_what (hls ! i) = nm))"

definition tab_ok :: "hl_sys \<Rightarrow> bool" where
  "tab_ok s \<longleftrightarrow> \<not> ht_bad s \<and> (\<exists>t. ht_hash s = Some t \<and> ht_ok t \<and> 0 < ht_size s \<and> ht_id s < ht_size s
     \<and> length (ht_list s) = ht_size s \<and> 2 * ht_size s \<le> ht_room t + ht_id s
     \<and> tab_names t (ht_list s) (ht_id s))"

text \<open>The map from names to lists that the table stands for.\<close>

definition tab_abs :: "hl_sys \<Rightarrow> string \<rightharpoonup> hostlist" where
  "tab_abs s nm = (let i = snd (tab_strid (ht_hash s) nm (-1))
                   in if 0 < i then Some (ht_list s ! nat i) else None)"

lemma tab_strid_ask [simp]: "snd (tab_strid (Some t) nm (-1)) = strid_ask t nm"
  by (simp add: tab_strid_def strid_ask_def split: prod.split)

lemma tab_strid_bind [simp]: "fst (tab_strid (Some t) nm v) = Some (strid_bind t nm v)"
  by (simp add: tab_strid_def strid_bind_def split: prod.split)

lemma tab_names_cases:
  assumes "tab_names t hls k"
  obtains "strid_ask t nm = -1" "\<forall>i \<in> {1..k}. hl_what (hls ! i) \<noteq> nm"
  | i where "i \<in> {1..k}" "strid_ask t nm = int i" "hl_what (hls ! i) = nm"
proof (cases "strid_ask t nm = -1")
  case True
  have "hl_what (hls ! i) \<noteq> nm" if "i \<in> {1..k}" for i
    using assms that True by (auto simp: tab_names_def)
  with True that(1) show ?thesis by blast
next
  case False
  with assms that(2) show ?thesis unfolding tab_names_def by blast
qed

lemma tab_names_unique:
  assumes "tab_names t hls k" "tab_names t' hls' k" "\<And>i. i \<in> {1..k} \<Longrightarrow> hl_what (hls ! i) = hl_what (hls' ! i)"
  shows "strid_ask t nm = strid_ask t' nm"
  using assms(1)
proof (rule tab_names_cases [where nm = nm])
  assume "strid_ask t nm = -1" "\<forall>i \<in> {1..k}. hl_what (hls ! i) \<noteq> nm"
  then show ?thesis using assms(2,3) by (auto elim!: tab_names_cases [where nm = nm])
next
  fix i
  assume i: "i \<in> {1..k}" "strid_ask t nm = int i" "hl_what (hls ! i) = nm"
  then show ?thesis using assms(2) assms(3) [OF i(1)] unfolding tab_names_def by auto
qed

lemma tab_names_cong:
  "(\<And>i. i \<in> {1..k} \<Longrightarrow> hl_what (hls ! i) = hl_what (hls' ! i)) \<Longrightarrow>
   (\<And>nm. strid_ask t nm = strid_ask t' nm) \<Longrightarrow> tab_names t hls k \<Longrightarrow> tab_names t' hls' k"
  by (auto simp: tab_names_def)

lemma tab_ok_grows: "tab_ok s \<Longrightarrow> grows Q s s' \<Longrightarrow> tab_ok s'"
proof -
  assume ok: "tab_ok s" and g: "grows Q s s'"
  have "hl_what (ht_list s ! i) = hl_what (ht_list s' ! i)" if "i < length (ht_list s)" for i
  proof -
    have "valid_ref s (Listed i)" using that by (simp add: valid_ref_def)
    then have "list_grows (Listed i \<in> Q) (get_list s (Listed i)) (get_list s' (Listed i))"
      using g unfolding grows_def by blast
    then show ?thesis by (simp add: list_grows_def)
  qed
  moreover obtain t where t: "ht_hash s = Some t" "tab_names t (ht_list s) (ht_id s)"
    "ht_id s < length (ht_list s)" using ok by (auto simp: tab_ok_def)
  ultimately have "tab_names t (ht_list s') (ht_id s)"
    by (intro tab_names_cong [OF _ refl t(2)]) auto
  then show ?thesis using ok g t by (auto simp: tab_ok_def grows_def)
qed

subsection \<open>Rehashing\<close>

lemma rehash_foldl:
  "rehash hls n t = foldl (\<lambda>t (s, v). strid_bind t s v) t (map (\<lambda>i. (hl_what (hls ! i), int i)) [1..<n])"
  by (simp add: rehash_def foldl_map strid_bind_def)

lemma create_ok:
  "0 < m \<Longrightarrow> ht_ok (Hcreate m) \<and> strid_ask (Hcreate m) nm = -1 \<and> ht_room (Hcreate m) = m"
  using ht_ok_create [of m] ask_unbound [of "Hcreate m" nm] by (auto simp: ht_room_def Hcreate_def)

lemma rehash_ok:
  assumes "0 < m" "n \<le> m"
  shows "ht_ok (rehash hls n (Hcreate m)) \<and> m \<le> (n - 1) + ht_room (rehash hls n (Hcreate m))
    \<and> strid_ask (rehash hls n (Hcreate m)) nm
      = (case map_of (map (\<lambda>i. (hl_what (hls ! i), int i)) [1..<n]) nm of Some v \<Rightarrow> v | None \<Rightarrow> -1)"
proof -
  let ?xs = "map (\<lambda>i. (hl_what (hls ! i), int i)) [1..<n]"
  have "\<forall>(s, v) \<in> set ?xs. v \<noteq> -1" "length ?xs \<le> ht_room (Hcreate m)"
    using assms create_ok [of m] by auto
  from strtab.bind_all [OF _ this] strtab.bind_all_room [OF _ this] show ?thesis
    using create_ok [OF assms(1)] by (simp add: rehash_foldl)
qed

lemma rehash_names:
  assumes "tab_names t hls k" "0 < m" "k < m"
  shows "tab_names (rehash hls (Suc k) (Hcreate m)) hls k"
proof -
  let ?xs = "map (\<lambda>i. (hl_what (hls ! i), int i)) [1..<Suc k]"
  have "inj_on (\<lambda>i. hl_what (hls ! i)) {1..k}"
    using assms(1) unfolding tab_names_def by (metis (no_types, lifting) inj_onI of_nat_eq_iff)
  then have d: "distinct (map fst ?xs)" 
    by (simp add: distinct_map atLeastLessThanSuc_atLeastAtMost comp_def del: upt_Suc)
  have ask: "strid_ask (rehash hls (Suc k) (Hcreate m)) nm
      = (case map_of ?xs nm of Some v \<Rightarrow> v | None \<Rightarrow> -1)" for nm
    using rehash_ok [OF assms(2), of "Suc k" hls nm] assms(3) by simp
  have a: "map_of ?xs (hl_what (hls ! i)) = Some (int i)" if "i \<in> {1..k}" for i
    by (rule map_of_is_SomeI [OF d]) (use that in \<open>auto simp del: upt_Suc\<close>)
  have b: "map_of ?xs nm = None \<or> (\<exists>i \<in> {1..k}. map_of ?xs nm = Some (int i) \<and> hl_what (hls ! i) = nm)" for nm
  proof (cases "map_of ?xs nm")
    case (Some v)
    then have "(nm, v) \<in> set ?xs" by (rule map_of_SomeD)
    then obtain i where "i \<in> {1..k}" "v = int i" "hl_what (hls ! i) = nm" by (auto simp del: upt_Suc)
    with Some show ?thesis by blast
  qed simp
  have "strid_ask (rehash hls (Suc k) (Hcreate m)) (hl_what (hls ! i)) = int i" if "i \<in> {1..k}" for i
    unfolding ask a [OF that] by simp
  moreover have "strid_ask (rehash hls (Suc k) (Hcreate m)) nm = -1 \<or>
      (\<exists>i \<in> {1..k}. strid_ask (rehash hls (Suc k) (Hcreate m)) nm = int i \<and> hl_what (hls ! i) = nm)" for nm
    using b [of nm] unfolding ask by (elim disjE bexE conjE) (auto simp del: upt_Suc)
  ultimately show ?thesis by (simp add: tab_names_def)
qed

lemma resize_ok:
  assumes "tab_names t (ht_list s) k" "ht_size s = Suc k" "length (ht_list s) = Suc k"
  shows "\<exists>t'. ht_hash (resize_hostlisttab s) = Some t' \<and> ht_ok t' \<and> ht_size (resize_hostlisttab s) = 2 * Suc k
    \<and> length (ht_list (resize_hostlisttab s)) = 2 * Suc k \<and> 4 * Suc k \<le> ht_room t' + k
    \<and> tab_names t' (ht_list (resize_hostlisttab s)) k
    \<and> (\<forall>i \<in> {1..k}. ht_list (resize_hostlisttab s) ! i = ht_list s ! i)"
proof -
  obtain l ls where l: "ht_list s = l # ls" using assms(3) by (cases "ht_list s") auto
  let ?t = "rehash (ht_list s) (Suc k) (Hcreate (Suc k * 2 * 2))"
  have h: "ht_hash (resize_hostlisttab s) = Some ?t" "ht_size (resize_hostlisttab s) = 2 * Suc k"
    "ht_list (resize_hostlisttab s) = new_list # ls @ replicate (Suc k) new_list"
    using assms(2,3) by (simp_all add: resize_hostlisttab_def Let_def l)
  have same: "ht_list (resize_hostlisttab s) ! i = ht_list s ! i" if "i \<in> {1..k}" for i
    using that assms(3) by (cases i) (auto simp: h(3) l nth_append)
  have "tab_names ?t (ht_list s) k" by (rule rehash_names [OF assms(1)]) auto
  then have "tab_names ?t (ht_list (resize_hostlisttab s)) k"
    by (rule tab_names_cong [rotated 2]) (simp_all add: same)
  moreover have "ht_ok ?t" "4 * Suc k \<le> ht_room ?t + k"
    using rehash_ok [of "Suc k * 2 * 2" "Suc k" "ht_list s"] by auto
  ultimately show ?thesis using h same assms(3) by (auto simp: l)
qed


subsection \<open>Opening a list\<close>

lemma tab_okE:
  assumes "tab_ok s"
  obtains t where "ht_hash s = Some t" "ht_ok t" "ht_id s < ht_size s" "length (ht_list s) = ht_size s"
    "2 * ht_size s \<le> ht_room t + ht_id s" "tab_names t (ht_list s) (ht_id s)"
  using assms by (auto simp: tab_ok_def)

lemma tab_abs_Some:
  "tab_ok s \<Longrightarrow> ht_hash s = Some t \<Longrightarrow>
   tab_abs s nm = Some l \<longleftrightarrow> (\<exists>i \<in> {1..ht_id s}. strid_ask t nm = int i \<and> l = ht_list s ! i)"
  by (auto simp: tab_ok_def tab_abs_def Let_def elim!: tab_names_cases [where nm = nm])

lemma bind_new:
  assumes "ht_ok t" "tab_names t hls k" "strid_ask t nm = -1" "0 < ht_room t"
    "\<forall>i \<in> {1..k}. hl_what (hls' ! i) = hl_what (hls ! i)" "hl_what (hls' ! Suc k) = nm"
  shows "tab_names (strid_bind t nm (int (Suc k))) hls' (Suc k)"
proof -
  note [simp del] = of_nat_Suc
  have ask: "strid_ask (strid_bind t nm (int (Suc k))) nm'
      = (if nm' = nm then int (Suc k) else strid_ask t nm')" for nm'
    using strtab.ask_bind [OF assms(1) _ assms(4), of "int (Suc k)" nm nm'] assms(3) by auto
  have old: "hl_what (hls ! i) \<noteq> nm" if "i \<in> {1..k}" for i
    using assms(2,3) that by (auto simp: tab_names_def)
  have 1: "strid_ask (strid_bind t nm (int (Suc k))) (hl_what (hls' ! i)) = int i" if "i \<in> {1..Suc k}" for i
  proof (cases "i = Suc k")
    case False
    then have "i \<in> {1..k}" using that by auto
    then show ?thesis using assms(2,5) old by (auto simp: ask tab_names_def)
  qed (simp add: ask assms(6))
  have 2: "strid_ask (strid_bind t nm (int (Suc k))) nm' = -1 \<or>
      (\<exists>i \<in> {1..Suc k}. strid_ask (strid_bind t nm (int (Suc k))) nm' = int i \<and> hl_what (hls' ! i) = nm')" for nm'
    using assms(2) by (rule tab_names_cases [where nm = nm'])
      (use assms(5,6) in \<open>auto simp: ask intro: bexI [of _ "Suc k"]\<close>)
  show ?thesis using 1 2 by (simp add: tab_names_def)
qed

lemma bad_at_inside [simp]: "i < ht_size s \<Longrightarrow> bad_at i s = s"
  by (simp add: bad_at_def)

lemma resize_bad [simp]: "ht_bad (resize_hostlisttab s) = ht_bad s"
  by (simp add: resize_hostlisttab_def Let_def)

lemma open_list_new:
  assumes "tab_ok s" "ht_hash s = Some t" "strid_ask t nm = -1"
    "open_list nm app1 app2 s = (i, s')"
  shows "tab_ok s' \<and> i = ht_id s' \<and> 0 < i
    \<and> ht_list s' ! i = new_list\<lparr>hl_what := nm, hl_flags := (if app1 then HL_APPEND else 0)\<rparr>
    \<and> tab_abs s' = (tab_abs s)(nm \<mapsto> ht_list s' ! i)"
proof -
  note [simp del] = of_nat_Suc
  let ?l = "new_list\<lparr>hl_what := nm, hl_flags := (if app1 then HL_APPEND else 0)\<rparr>"
  obtain k where k: "ht_id s = k" by simp
  from assms(1,2) have ok: "ht_ok t" "k < ht_size s" "length (ht_list s) = ht_size s"
    "2 * ht_size s \<le> ht_room t + k" "tab_names t (ht_list s) k"
    by (auto elim!: tab_okE simp: k)
  let ?s1 = "s\<lparr>ht_id := Suc k\<rparr>"
  define s2 where "s2 = (if ht_size s \<le> Suc k then resize_hostlisttab ?s1 else ?s1)"
  have r: "\<exists>t2. ht_hash s2 = Some t2 \<and> ht_ok t2 \<and> Suc k < ht_size s2 \<and> length (ht_list s2) = ht_size s2
      \<and> 2 * ht_size s2 \<le> ht_room t2 + k \<and> tab_names t2 (ht_list s2) k
      \<and> (\<forall>j \<in> {1..k}. ht_list s2 ! j = ht_list s ! j)"
  proof (cases "ht_size s \<le> Suc k")
    case True
    then have z: "ht_size s = Suc k" using ok(2) by simp
    show ?thesis using resize_ok [of t ?s1 k] ok z by (auto simp: s2_def)
  next
    case False
    then show ?thesis using ok assms(2) by (auto simp: s2_def)
  qed
  obtain t2 where t2: "ht_hash s2 = Some t2" "ht_ok t2" "Suc k < ht_size s2" "length (ht_list s2) = ht_size s2"
    "2 * ht_size s2 \<le> ht_room t2 + k" "tab_names t2 (ht_list s2) k"
    "\<forall>j \<in> {1..k}. ht_list s2 ! j = ht_list s ! j" using r by blast
  have id2: "ht_id s2 = Suc k" by (simp add: s2_def resize_hostlisttab_def Let_def)
  have s': "i = Suc k" "s' = put_list (Listed (Suc k)) ?l (s2\<lparr>ht_hash := Some (strid_bind t2 nm (int (Suc k)))\<rparr>)"
    using assms(2-4) t2(1,3) by (auto simp: open_list_def Let_def k s2_def [symmetric] cong: if_cong)
  have same: "strid_ask t2 nm' = strid_ask t nm'" for nm'
    by (rule tab_names_unique [OF t2(6) ok(5)]) (use t2(7) in simp)
  have room: "0 < ht_room t2" using t2(3,5) by simp
  have l': "ht_list s' = (ht_list s2)[Suc k := ?l]" by (simp add: s')
  have names: "tab_names (strid_bind t2 nm (int (Suc k))) (ht_list s') (Suc k)"
    by (rule bind_new [OF t2(2,6) _ room]) (use assms(3) same t2(3,4) in \<open>auto simp: l' nth_list_update\<close>)
  have "ht_ok (strid_bind t2 nm (int (Suc k)))" "ht_room t2 \<le> Suc (ht_room (strid_bind t2 nm (int (Suc k))))"
    using strtab.bind_ok [OF t2(2) _ room] strtab.room_bind [OF t2(2)] by auto
  moreover have "\<not> ht_bad s2" using assms(1) by (simp add: s2_def tab_ok_def)
  ultimately have tok: "tab_ok s'" using names t2 id2 by (auto simp: tab_ok_def s' l')
  have ask': "strid_ask (strid_bind t2 nm (int (Suc k))) nm' = (if nm' = nm then int (Suc k) else strid_ask t nm')" for nm'
    using strtab.ask_bind [OF t2(2) _ room, of "int (Suc k)" nm nm'] assms(3) same by auto
  have "tab_abs s' nm' = ((tab_abs s)(nm \<mapsto> ht_list s' ! i)) nm'" for nm'
    using ok(5) by (rule tab_names_cases [where nm = nm'])
      (use assms(2) t2(3,4,7) in \<open>auto simp: tab_abs_def Let_def s' ask' nth_list_update\<close>)
  then show ?thesis using tok t2(3,4) id2 by (auto simp: s' fun_eq_iff)
qed

definition keeps_entries :: "bool \<Rightarrow> hostlist \<Rightarrow> bool" where
  "keeps_entries app l \<longleftrightarrow> hasf (hl_flags l) HL_PROTECT \<or> hasf (hl_flags l) HL_APPEND \<or> app"

definition kept :: "hl_sys \<Rightarrow> string \<Rightarrow> bool \<Rightarrow> host list" where
  "kept s nm app = (case tab_abs s nm of None \<Rightarrow> []
                    | Some l \<Rightarrow> if keeps_entries app l then hl_List l else [])"

lemma tab_abs_update:
  assumes "tab_ok s" "ht_hash s' = ht_hash s" "length (ht_list s') = length (ht_list s)"
    "\<And>j. j \<noteq> i \<Longrightarrow> j < length (ht_list s) \<Longrightarrow> ht_list s' ! j = ht_list s ! j"
    "tab_abs s nm = Some l" "snd (tab_strid (ht_hash s) nm (-1)) = int i"
  shows "tab_abs s' = (tab_abs s)(nm \<mapsto> ht_list s' ! i)"
proof
  fix nm'
  obtain t where t: "ht_hash s = Some t" "tab_names t (ht_list s) (ht_id s)" "ht_id s < length (ht_list s)"
    using assms(1) by (auto elim: tab_okE)
  have i: "strid_ask t nm = int i" "0 < i" using assms(5,6) t(1)
    by (auto simp: tab_abs_def Let_def split: if_splits)
  have "hl_what (ht_list s ! i) = nm" using t(2) i by (auto elim!: tab_names_cases [where nm = nm])
  then have other: "strid_ask t nm' = int i \<Longrightarrow> nm' = nm"
    using t(2) i(2) by (auto elim!: tab_names_cases [where nm = nm'])
  from t(2) show "tab_abs s' nm' = ((tab_abs s)(nm \<mapsto> ht_list s' ! i)) nm'"
  proof (cases rule: tab_names_cases [where nm = nm'])
    case 1
    then show ?thesis using i t(1) assms(2) by (auto simp: tab_abs_def)
  next
    case (2 j)
    show ?thesis
    proof (cases "j = i")
      case True
      then show ?thesis using 2 i other t(1) assms(2) by (simp add: tab_abs_def)
    next
      case False
      then have "nm' \<noteq> nm" "ht_list s' ! j = ht_list s ! j" using 2 i t(3) assms(4) by auto
      then show ?thesis using 2 t(1) assms(2) by (simp add: tab_abs_def)
    qed
  qed
qed

lemma open_list_old:
  assumes "tab_ok s" "ht_hash s = Some t" "strid_ask t nm = int j" "j \<in> {1..ht_id s}"
    "open_list nm app1 app2 s = (i, s')"
  shows "tab_ok s' \<and> i = j \<and> i \<le> ht_id s' \<and> hl_what (ht_list s' ! i) = nm
    \<and> hl_List (ht_list s' ! i) = kept s nm (app1 \<or> app2)
    \<and> tab_abs s' = (tab_abs s)(nm \<mapsto> ht_list s' ! i)"
proof -
  obtain t' where t': "tab_names t (ht_list s) (ht_id s)" "ht_id s < length (ht_list s)"
    using assms(1,2) by (auto elim: tab_okE)
  have w: "hl_what (ht_list s ! j) = nm" using t'(1) assms(3,4) by (auto elim!: tab_names_cases [where nm = nm])
  let ?l = "ht_list s ! j"
  let ?l' = "if keeps_entries (app1 \<or> app2) ?l then ?l else new_list\<lparr>hl_what := hl_what ?l, hl_flags := hl_flags ?l\<rparr>"
  have s': "i = j" "s' = put_list (Listed j) ?l' s"
    using assms(2-5) by (auto simp: open_list_def Let_def keeps_entries_def split: if_splits)
  have abs: "tab_abs s nm = Some ?l" using assms(2-4) by (auto simp: tab_abs_def)
  have "tab_abs s' = (tab_abs s)(nm \<mapsto> ht_list s' ! i)"
    by (rule tab_abs_update [OF assms(1) _ _ _ abs]) (use assms(2,3) in \<open>auto simp: s'\<close>)
  moreover have "tab_names t (ht_list s') (ht_id s)"
    by (rule tab_names_cong [OF _ refl t'(1)]) (use t'(2) assms(4) in \<open>auto simp: s' nth_list_update\<close>)
  then have "tab_ok s'" using assms(1,2) by (auto simp: tab_ok_def s')
  moreover have "kept s nm (app1 \<or> app2) = hl_List ?l'" by (simp add: kept_def abs new_list_def)
  ultimately show ?thesis using w t'(2) assms(4) by (auto simp: s' new_list_def)
qed

lemma open_list_ok:
  assumes "tab_ok s" "open_list nm app1 app2 s = (i, s')"
  shows "tab_ok s' \<and> i \<in> {1..ht_id s'} \<and> hl_what (ht_list s' ! i) = nm
    \<and> hl_List (ht_list s' ! i) = kept s nm (app1 \<or> app2)
    \<and> tab_abs s' = (tab_abs s)(nm \<mapsto> ht_list s' ! i)"
proof -
  obtain t where t: "ht_hash s = Some t" "tab_names t (ht_list s) (ht_id s)" using assms(1) by (auto elim: tab_okE)
  from t(2) show ?thesis
  proof (cases rule: tab_names_cases [where nm = nm])
    case 1
    then have "kept s nm (app1 \<or> app2) = []" by (simp add: kept_def tab_abs_def t(1))
    then show ?thesis using open_list_new [OF assms(1) t(1) 1(1) assms(2)] by (auto simp: new_list_def)
  next
    case (2 j)
    then show ?thesis using open_list_old [OF assms(1) t(1) 2(2,1) assms(2)] by auto
  qed
qed

subsection \<open>Defining a list\<close>

lemma flags_of_names [simp]: "\<not> hasf (flags_of b fl) HL_BYNAMEONLY"
  by (simp add: flags_of_def Let_def) (simp add: hasf_def HL_defs)

lemma tab_body_ok:
  assumes ok: "tab_ok s" and add: "adds add" and tn: "tab_name dname = (nr, nm, fl)"
    and e: "tab_body add dname dlist s = Some s'"
  shows "tab_ok s' \<and> (\<exists>l ys. tab_abs s' = (tab_abs s)(nm \<mapsto> l) \<and> hl_what l = nm
    \<and> hl_List l = kept s nm (strchr fl CHR ''+'' \<noteq> None \<or> is_prefix ''+,'' dlist) @ ys)"
proof -
  let ?app1 = "strchr fl CHR ''+'' \<noteq> None" and ?app2 = "is_prefix ''+,'' dlist"
  obtain i s1 where o: "open_list nm ?app1 ?app2 s = (i, s1)" by force
  note s1 = open_list_ok [OF ok o]
  let ?s2 = "or_flags (Listed i) (flags_of nr fl) s1"
  have v: "valid_ref s1 (Listed i)" using s1 by (auto simp: valid_ref_def elim!: tab_okE)
  have g1: "grows {Listed i} s1 ?s2" by (rule or_flags_grows [OF v]) simp
  have "ht_hash ?s2 \<noteq> None" using s1 grows_hash [OF g1] by (auto simp: tab_ok_def)
  moreover have "valid_ref ?s2 (Listed i)" using grows_valid [OF g1] v by simp
  moreover have "\<exists>al. add_each add (\<lambda>e. e) (Listed i) al ?s2 = Some s'"
    using e tn o by (auto simp: tab_body_def Let_def)
  ultimately have "grows {Listed i, Lex, Virtual, Ident} ?s2 s'" using add_each_grows [OF add] by blast
  then have g: "grows {Listed i, Lex, Virtual, Ident} s1 s'" using g1 by (auto intro: grows_trans)
  have lg: "list_grows True (ht_list s1 ! i) (ht_list s' ! i)"
    using g v unfolding grows_def by (metis get_list.simps(5) insertI1)
  have "ht_list s' ! j = ht_list s1 ! j" if "j \<noteq> i" "j < length (ht_list s1)" for j
  proof -
    have "list_grows False (get_list s1 (Listed j)) (get_list s' (Listed j))"
      using g that by (auto simp: grows_def valid_ref_def dest!: spec [of _ "Listed j"])
    then show ?thesis by (simp add: list_grows_def)
  qed
  moreover have "tab_abs s1 nm = Some (ht_list s1 ! i)" using s1 by simp
  moreover have "snd (tab_strid (ht_hash s1) nm (-1)) = int i"
  proof -
    obtain t where "ht_hash s1 = Some t" "tab_names t (ht_list s1) (ht_id s1)" using s1 by (auto elim: tab_okE)
    then show ?thesis using s1 by (auto simp: tab_names_def)
  qed
  ultimately have "tab_abs s' = (tab_abs s1)(nm \<mapsto> ht_list s' ! i)"
    using g s1 by (intro tab_abs_update) (auto simp: grows_def)
  moreover have "tab_ok s'" using tab_ok_grows [OF _ g] s1 by blast
  ultimately show ?thesis using s1 lg by (auto simp: list_grows_def fun_upd_idem)
qed

subsection \<open>Reachable configurations\<close>

definition predefined :: "string set" where
  "predefined = {''.localnet'', ''.RELIABLE'', ''.socksdst''}"

definition fresh :: "hl_sys \<Rightarrow> bool" where
  "fresh s \<longleftrightarrow> \<not> ht_bad s \<and> ht_hash s = None \<and> ht_size s = 0 \<and> ht_id s = 0 \<and> ht_list s = []"

definition hl_inv :: "hl_sys \<Rightarrow> bool" where
  "hl_inv s \<longleftrightarrow> fresh s \<or> tab_ok s \<and> predefined \<subseteq> dom (tab_abs s)"

lemma tab_abs_dom_grows: "tab_ok s \<Longrightarrow> grows Q s s' \<Longrightarrow> dom (tab_abs s') = dom (tab_abs s)"
  by (auto simp: grows_def tab_abs_def Let_def split: if_splits)

lemma hl_inv_grows: "hl_inv s \<Longrightarrow> ht_hash s \<noteq> None \<Longrightarrow> grows Q s s' \<Longrightarrow> hl_inv s'"
  by (metis hl_inv_def fresh_def tab_abs_dom_grows tab_ok_grows)

lemma resize_fresh: "fresh s \<Longrightarrow> tab_ok (resize_hostlisttab s) \<and> tab_abs (resize_hostlisttab s) = Map.empty"
proof -
  assume "fresh s"
  then have h: "ht_hash (resize_hostlisttab s) = Some (Hcreate 32)" "ht_size (resize_hostlisttab s) = 16"
    "ht_id (resize_hostlisttab s) = 0" "length (ht_list (resize_hostlisttab s)) = 16"
    by (simp_all add: fresh_def resize_hostlisttab_def rehash_def Let_def)
  have c: "ht_ok (Hcreate 32)" "\<And>nm. strid_ask (Hcreate 32) nm = -1" "ht_room (Hcreate 32) = 32"
    using create_ok [of 32] by simp_all
  moreover have "\<not> ht_bad s" using \<open>fresh s\<close> by (simp add: fresh_def)
  ultimately show ?thesis using h by (auto simp: tab_ok_def tab_names_def tab_abs_def)
qed

lemma tab_body_dom:
  assumes "tab_ok s" "adds add" "tab_name dname = (nr, nm, fl)" "tab_body add dname dlist s = Some s'"
  shows "tab_ok s' \<and> dom (tab_abs s') = insert nm (dom (tab_abs s))"
  using tab_body_ok [OF assms] by auto

lemma init_ok:
  assumes "fresh s" "adds add" "init_body env add s = Some s'"
  shows "tab_ok s' \<and> dom (tab_abs s') = predefined"
proof -
  let ?s0 = "resize_hostlisttab s"
  obtain s1 s2 where s: "tab_body add ''.localnet'' (DELEGATE_LOCALNET env) ?s0 = Some s1"
    "tab_body add ''.RELIABLE'' ''*'' s1 = Some s2" "tab_body add ''.socksdst'' ''!.localnet'' s2 = Some s'"
    using assms(1,3) by (auto simp: init_body_def fresh_def bind_eq_Some_conv)
  have n: "tab_name ''.localnet'' = (False, ''.localnet'', [])" "tab_name ''.RELIABLE'' = (False, ''.RELIABLE'', [])"
    "tab_name ''.socksdst'' = (False, ''.socksdst'', [])" by (simp_all add: tab_name_def)
  note s0 = resize_fresh [OF assms(1)]
  note s1 = tab_body_dom [OF _ assms(2) n(1) s(1)]
  note s2 = tab_body_dom [OF _ assms(2) n(2) s(2)]
  note s3 = tab_body_dom [OF _ assms(2) n(3) s(3)]
  show ?thesis using s0 s1 s2 s3 by (auto simp: predefined_def)
qed

lemma init_inv:
  "hl_inv s \<Longrightarrow> adds add \<Longrightarrow> init_body env add s = Some s' \<Longrightarrow> hl_inv s' \<and> ht_hash s' \<noteq> None"
  using init_ok [of s add env s'] unfolding hl_inv_def
  by (cases "fresh s") (auto simp: init_body_def tab_ok_def fresh_def)

definition plain_ref :: "list_ref \<Rightarrow> bool" where
  "plain_ref r \<longleftrightarrow> (\<forall>i. r \<noteq> Listed i)"

lemma plain_valid [simp]: "plain_ref r \<Longrightarrow> valid_ref s r"
  by (cases r) (auto simp: plain_ref_def valid_ref_def)

lemma other_abs [simp]:
  "tab_abs (s\<lparr>own := l\<rparr>) = tab_abs s" "tab_abs (s\<lparr>pathlists := p\<rparr>) = tab_abs s"
  "tab_abs (s\<lparr>lexHosts := l\<rparr>) = tab_abs s" "tab_abs (s\<lparr>virtualHosts := l\<rparr>) = tab_abs s"
  "tab_abs (s\<lparr>identHosts := l\<rparr>) = tab_abs s" "tab_abs (s\<lparr>reliableHosts := l\<rparr>) = tab_abs s"
  by (simp_all add: fun_eq_iff tab_abs_def Let_def)

lemma other_inv [simp]:
  "hl_inv (s\<lparr>own := l\<rparr>) = hl_inv s" "hl_inv (s\<lparr>pathlists := p\<rparr>) = hl_inv s"
  "hl_inv (s\<lparr>lexHosts := l\<rparr>) = hl_inv s" "hl_inv (s\<lparr>virtualHosts := l\<rparr>) = hl_inv s"
  "hl_inv (s\<lparr>identHosts := l\<rparr>) = hl_inv s" "hl_inv (s\<lparr>reliableHosts := l\<rparr>) = hl_inv s"
  by (simp_all add: hl_inv_def fresh_def tab_ok_def)

lemma put_inv: "plain_ref r \<Longrightarrow> hl_inv s \<Longrightarrow> hl_inv (put_list r l s)"
  by (cases r) (auto simp: plain_ref_def)

definition adds_inv :: "add_fun \<Rightarrow> bool" where
  "adds_inv add \<longleftrightarrow> adds add \<and> (\<forall>r m s s'. plain_ref r \<longrightarrow> hl_inv s \<longrightarrow> add r m s = Some s' \<longrightarrow> hl_inv s')"

definition makes_inv :: "make_fun \<Rightarrow> bool" where
  "makes_inv mk \<longleftrightarrow> makes mk \<and> (\<forall>r h m s h' s'. plain_ref r \<longrightarrow> hl_inv s \<longrightarrow> mk r h m s = Some (h', s') \<longrightarrow> hl_inv s')"

lemma add_fold_inv:
  assumes "adds_inv add" "plain_ref r"
  shows "hl_inv s \<Longrightarrow> fold (\<lambda>e so. Option.bind so (add r (f e))) es (Some s) = Some s' \<Longrightarrow> hl_inv s'"
proof (induction es arbitrary: s)
  case (Cons e es)
  then obtain s1 where "add r (f e) s = Some s1"
    "fold (\<lambda>e so. Option.bind so (add r (f e))) es (Some s1) = Some s'" by (cases "add r (f e) s") auto
  then show ?case using Cons assms unfolding adds_inv_def by metis
qed simp

lemma add_each_inv:
  "adds_inv add \<Longrightarrow> plain_ref r \<Longrightarrow> hl_inv s \<Longrightarrow> add_each add f r list s = Some s' \<Longrightarrow> hl_inv s'"
  unfolding add_each_fold by (rule add_fold_inv)

lemma new_entry_inv:
  assumes "makes_inv mk" "plain_ref r" "hl_inv s" "new_entry mk r m s = Some s'"
  shows "hl_inv s'"
proof -
  let ?s1 = "put_list r ((get_list s r)\<lparr>hl_List := hl_List (get_list s r) @ [new_host]\<rparr>) s"
  obtain h s2 l where s2: "mk r new_host m ?s1 = Some (h, s2)" "s' = put_list r l s2"
    using assms(4) by (auto simp: new_entry_def Let_def split: option.splits)
  have "hl_inv s2" using s2(1) put_inv [OF assms(2,3)] assms(1,2) unfolding makes_inv_def by blast
  then show ?thesis using put_inv [OF assms(2)] s2(2) by simp
qed

lemma add_body_inv:
  assumes "adds_inv add" "makes_inv mk"
  shows "adds_inv (add_body env add mk)"
proof -
  have "hl_inv s'" if r: "plain_ref r" and s: "hl_inv s" and e: "add_body env add mk r m s = Some s'" for r m s s'
  proof -
    from add_body_cases [OF e] consider f where "s' = or_flags r f s"
      | "addHL env add r (strip_not m) s = Some (True, s')"
      | s1 s2 where "addHL env add r (strip_not m) s = Some (False, s1)" "s2 = s1 \<or> add r ''*'' s1 = Some s2"
          "new_entry mk r (strip_not m) s2 = Some s'" by blast
    then show ?thesis
    proof cases
    case 1
    then show ?thesis using put_inv [OF r s] by (simp add: or_flags_def)
  next
    case 2
    then show ?thesis using add_each_inv [OF assms(1) r s]
      by (auto simp: addHL_def split: prod.splits if_splits)
  next
    case (3 s1 s2)
    have "s1 = s" using 3(1) by (auto simp: addHL_def split: prod.splits if_splits)
    then have "hl_inv s2" using 3(2) assms(1) r s by (auto simp: adds_inv_def)
    then show ?thesis using 3(3) assms(2) r by (blast intro: new_entry_inv)
    qed
  qed
  moreover have "adds (add_body env add mk)"
    using add_body_grows [of add mk env] assms unfolding adds_inv_def makes_inv_def by blast
  ultimately show ?thesis unfolding adds_inv_def by blast
qed

lemma make_body_init:
  assumes "init_body env add s = Some s0" "ht_hash s0 \<noteq> None"
  shows "make_body env add mk r h m s = make_body env add mk r h m s0"
proof -
  have "init_body env add s0 = Some s0" using assms(2) by (auto simp: init_body_def)
  then show ?thesis using assms(1) by (simp add: make_body_def)
qed

lemma make_body_inv:
  assumes "adds_inv add" "makes_inv mk"
  shows "makes_inv (make_body env add mk)"
proof -
  have mk: "makes (make_body env add mk)" using make_body_grows assms by (auto simp: adds_inv_def makes_inv_def)
  have "hl_inv s'" if r: "plain_ref r" and s: "hl_inv s" and e: "make_body env add mk r h m s = Some (h', s')"
    for r h m s h' s'
  proof -
    obtain s0 where s0: "init_body env add s = Some s0" using e by (auto simp: make_body_def bind_eq_Some_conv)
    have i: "hl_inv s0" "ht_hash s0 \<noteq> None" using init_inv [OF s _ s0] assms(1) by (auto simp: adds_inv_def)
    then have "grows {Lex, Virtual, Ident} s0 s'"
      using mk e r make_body_init [OF s0] unfolding makes_def by (metis plain_valid)
    then show ?thesis using hl_inv_grows i by blast
  qed
  then show ?thesis using mk by (auto simp: makes_inv_def)
qed

lemma add_make_inv: "adds_inv (addHostList1 env n) \<and> makes_inv (makeHost env n)"
proof (induction n)
  case 0
  show ?case by (simp add: adds_inv_def makes_inv_def adds_def makes_def)
next
  case (Suc n)
  have "addHostList1 env (Suc n) = add_body env (addHostList1 env n) (makeHost env n)"
    "makeHost env (Suc n) = make_body env (addHostList1 env n) (makeHost env n)" by (simp_all add: fun_eq_iff)
  with Suc show ?case by (simp add: add_body_inv make_body_inv)
qed

lemmas addHostList1_inv = add_make_inv [THEN conjunct1]

subsection \<open>Entries that create the table\<close>

text \<open>
  Making an entry creates the table. An element that only sets a flag, or a group, makes none.
\<close>

definition is_group :: "hl_env \<Rightarrow> string \<Rightarrow> bool" where
  "is_group env m = (case split_HL env m of (opc, users, hosts) \<Rightarrow>
     hd0 hosts = CHR ''{'' \<and> strtailchr hosts = CHR ''}'')"

definition makes_entry :: "hl_env \<Rightarrow> string \<Rightarrow> bool" where
  "makes_entry env e \<longleftrightarrow> e \<notin> {''/a'', ''/u'', ''/R''} \<and> \<not> is_group env (strip_not e)"

lemma addHL_single: "\<not> is_group env m \<Longrightarrow> addHL env add r m s = Some (False, s)"
  by (auto simp: addHL_def is_group_def split: prod.splits)

lemma make_creates:
  assumes "hl_inv s" "plain_ref r" "makeHost env n r h m s = Some (h', s')"
  shows "ht_hash s' \<noteq> None"
proof -
  obtain k where k: "n = Suc k" using assms(3) by (cases n) auto
  then obtain s0 where s0: "init_body env (addHostList1 env k) s = Some s0"
    using assms(3) by (auto simp: make_body_def bind_eq_Some_conv)
  have i: "ht_hash s0 \<noteq> None" using init_inv [OF assms(1) addHostList1_adds s0] by simp
  have "makes (make_body env (addHostList1 env k) (makeHost env k))"
    by (rule make_body_grows [OF addHostList1_adds makeHost_makes])
  then have "grows {Lex, Virtual, Ident} s0 s'"
    using assms(2,3) i plain_valid [of r s0] unfolding k makes_def makeHost.simps make_body_init [OF s0 i] by blast
  then show ?thesis using grows_hash i by metis
qed

lemma entry_creates:
  assumes "hl_inv s" "plain_ref r" "makes_entry env m" "addHostList1 env n r m s = Some s'"
  shows "ht_hash s' \<noteq> None"
proof -
  obtain k where k: "n = Suc k" using assms(4) by (cases n) auto
  let ?m = "strip_not m"
  have "m \<notin> {''/a'', ''/u'', ''/R''}" "\<not> is_group env ?m" using assms(3) by (auto simp: makes_entry_def)
  then obtain s1 where s1: "s1 = s \<or> addHostList1 env k r ''*'' s = Some s1"
    and e: "new_entry (makeHost env k) r ?m s1 = Some s'"
    using assms(4) unfolding k by (auto simp: add_body_def Let_def addHL_single bind_eq_Some_conv split: if_splits)
  have "hl_inv s1" using s1 assms(1,2) addHostList1_inv [of env k] unfolding adds_inv_def by blast
  moreover obtain h l l' s2 where "makeHost env k r new_host ?m (put_list r l s1) = Some (h, s2)" "s' = put_list r l' s2"
    using e by (auto simp: new_entry_def Let_def split: option.splits)
  ultimately show ?thesis using make_creates [OF put_inv [OF assms(2)] assms(2)] by simp
qed

lemma add_all_creates:
  assumes "plain_ref r" "hl_inv s" "add_all (addHostList1 env n) r list s = Some s'"
    "ht_hash s \<noteq> None \<or> (\<exists>e \<in> set (elems list CHR '','' STR_ALLOC). makes_entry env e)"
  shows "hl_inv s' \<and> ht_hash s' \<noteq> None"
proof -
  have "hl_inv s \<Longrightarrow> fold (\<lambda>e so. Option.bind so (addHostList1 env n r e)) es (Some s) = Some s' \<Longrightarrow>
      ht_hash s \<noteq> None \<or> (\<exists>e \<in> set es. makes_entry env e) \<Longrightarrow> ht_hash s' \<noteq> None" for es
  proof (induction es arbitrary: s)
    case (Cons e es)
    then obtain s1 where s1: "addHostList1 env n r e s = Some s1"
      "fold (\<lambda>e so. Option.bind so (addHostList1 env n r e)) es (Some s1) = Some s'"
      by (cases "addHostList1 env n r e s") auto
    have i: "hl_inv s1" using addHostList1_inv [of env n] Cons.prems(1) assms(1) s1(1) unfolding adds_inv_def by blast
    have "ht_hash s1 \<noteq> None" if "ht_hash s \<noteq> None"
      using addHostList1_adds [of env n] that assms(1) s1(1) grows_hash unfolding adds_def by (metis plain_valid)
    moreover have "ht_hash s1 \<noteq> None" if "makes_entry env e"
      by (rule entry_creates [OF Cons.prems(1) assms(1) that s1(1)])
    ultimately show ?case using Cons.IH [OF i s1(2)] Cons.prems(3) by auto
  qed simp
  moreover have "hl_inv s'"
    using add_fold_inv [OF addHostList1_inv assms(1,2), where f = "\<lambda>e. e"] assms(3) unfolding add_all_fold by blast
  ultimately show ?thesis using assms(2-4) unfolding add_all_fold by blast
qed

lemma put_reliable_same: "hl_inv s \<Longrightarrow> ht_hash s \<noteq> None \<Longrightarrow> putHostListTab ''.RELIABLE'' hl s = s"
  by (auto simp: hl_inv_def fresh_def putHostListTab_def tab_strid_def predefined_def tab_abs_def dom_def
      Let_def split: if_splits)

lemma reliable_inv:
  assumes "hl_inv s" "scan_RELIABLE env n rels s = Some s'"
    "ht_hash s \<noteq> None \<or> (\<exists>e \<in> set (elems (if rels = [] then ''!*'' else rels) CHR '','' STR_ALLOC). makes_entry env e)"
  shows "hl_inv s'"
proof -
  obtain s1 where s1: "add_all (addHostList1 env n) Reliable (if rels = [] then ''!*'' else rels) s = Some s1"
    "s' = putHostListTab ''.RELIABLE'' (reliableHosts s1) s1" using assms(2) by (auto simp: scan_RELIABLE_def)
  have "hl_inv s1" "ht_hash s1 \<noteq> None"
    using add_all_creates [OF _ assms(1) s1(1) assms(3)] by (auto simp: plain_ref_def)
  then show ?thesis using s1(2) put_reliable_same by simp
qed

subsection \<open>More fuel\<close>

text \<open>
  A call that returns gives the same result with more fuel: the fuel is only a bound on the depth
  of calls, and that a call returns does not depend on the bound that was chosen.
\<close>

definition add_le :: "add_fun \<Rightarrow> add_fun \<Rightarrow> bool" where
  "add_le f g \<longleftrightarrow> (\<forall>r m s s'. f r m s = Some s' \<longrightarrow> g r m s = Some s')"

definition make_le :: "make_fun \<Rightarrow> make_fun \<Rightarrow> bool" where
  "make_le f g \<longleftrightarrow> (\<forall>r h m s x. f r h m s = Some x \<longrightarrow> g r h m s = Some x)"

lemma add_leD: "add_le f g \<Longrightarrow> f r m s = Some s' \<Longrightarrow> g r m s = Some s'"
  by (simp add: add_le_def)

lemma fold_le:
  assumes "add_le f g"
  shows "fold (\<lambda>e so. Option.bind so (f r (k e))) es (Some s) = Some s' \<Longrightarrow>
    fold (\<lambda>e so. Option.bind so (g r (k e))) es (Some s) = Some s'"
proof (induction es arbitrary: s)
  case (Cons e es)
  then obtain s1 where "f r (k e) s = Some s1" by (cases "f r (k e) s") auto
  then show ?case using Cons add_leD [OF assms] by simp
qed simp

lemma add_each_le: "add_le f g \<Longrightarrow> add_each f k r list s = Some s' \<Longrightarrow> add_each g k r list s = Some s'"
  unfolding add_each_fold by (rule fold_le)

lemma add_all_le: "add_le f g \<Longrightarrow> add_all f r list s = Some s' \<Longrightarrow> add_all g r list s = Some s'"
  unfolding add_all_fold using fold_le [where k = "\<lambda>e. e"] by blast

lemma addHL_le: "add_le f g \<Longrightarrow> addHL env f r m s = Some x \<Longrightarrow> addHL env g r m s = Some x"
  by (auto simp: addHL_def dest: add_each_le split: prod.splits if_splits)

lemma tab_body_le: "add_le f g \<Longrightarrow> tab_body f d l s = Some s' \<Longrightarrow> tab_body g d l s = Some s'"
  by (auto simp: tab_body_def Let_def dest: add_each_le split: prod.splits)

lemma init_body_le: "add_le f g \<Longrightarrow> init_body env f s = Some s' \<Longrightarrow> init_body env g s = Some s'"
  by (auto simp: init_body_def bind_eq_Some_conv dest: tab_body_le split: if_splits)

lemma new_entry_le: "make_le f g \<Longrightarrow> new_entry f r m s = Some s' \<Longrightarrow> new_entry g r m s = Some s'"
  by (auto simp: new_entry_def Let_def make_le_def split: option.splits)

lemma add_body_le:
  assumes "add_le f g" "make_le mf mg"
  shows "add_le (add_body env f mf) (add_body env g mg)"
  unfolding add_le_def
proof (intro allI impI)
  fix r m s s'
  assume e: "add_body env f mf r m s = Some s'"
  show "add_body env g mg r m s = Some s'"
  proof (cases "m \<in> {''/a'', ''/u'', ''/R''}")
    case False
    then obtain b s1 where b: "addHL env f r (strip_not m) s = Some (b, s1)"
      using e by (auto simp: add_body_def Let_def split: option.splits)
    show ?thesis using e False b addHL_le [OF assms(1) b]
      by (cases b) (auto simp: add_body_def Let_def bind_eq_Some_conv
          dest: add_leD [OF assms(1)] new_entry_le [OF assms(2)] split: if_splits)
  qed (use e in \<open>auto simp: add_body_def\<close>)
qed

lemma route_of_le: "make_le f g \<Longrightarrow> route_of f r m s = Some x \<Longrightarrow> route_of g r m s = Some x"
  by (auto simp: route_of_def make_le_def split: option.splits)

lemma named_host_le:
  "add_le f g \<Longrightarrow> named_host env f r h n vd s = Some x \<Longrightarrow> named_host env g r h n vd s = Some x"
  unfolding named_host_def by (auto dest: add_leD split: prod.splits option.splits)

lemma make_body_le:
  assumes "add_le f g" "make_le mf mg"
  shows "make_le (make_body env f mf) (make_body env g mg)"
  unfolding make_le_def
proof (intro allI impI)
  fix r h m s x
  assume e: "make_body env f mf r h m s = Some x"
  obtain s0 where s0: "init_body env f s = Some s0" using e by (auto simp: make_body_def bind_eq_Some_conv)
  obtain proto m0 where p: "proto_of env m = (proto, m0)" by force
  obtain m1 s1 where r1: "route_of mf r m0 s0 = Some (m1, s1)" using e by (auto simp: make_body_def s0 p bind_eq_Some_conv)
  note r = init_body_le [OF assms(1) s0] route_of_le [OF assms(2) r1]
  show "make_body env g mg r h m s = Some x"
  proof (cases "parse_host env (hl_flags (get_list s1 r)) (hl_noIdent (get_list s1 r)) proto h m1")
    case (Done h1)
    then show ?thesis using e by (simp add: make_body_def s0 p r1 r)
  next
    case (Named h1 ident n vd)
    obtain s2 where s2: "(case ident of None \<Rightarrow> Some s1 | Some host \<Rightarrow> enableClientIdent f host s1) = Some s2"
      "named_host env f r h1 n vd s2 = Some x"
      using e by (auto simp: make_body_def s0 p r1 Named bind_eq_Some_conv)
    then have "(case ident of None \<Rightarrow> Some s1 | Some host \<Rightarrow> enableClientIdent g host s1) = Some s2"
      using add_all_le [OF assms(1)] by (auto simp: enableClientIdent_def split: option.splits)
    then show ?thesis using named_host_le [OF assms(1) s2(2)] by (simp add: make_body_def p r Named)
  qed
qed

lemma fuel_Suc: "add_le (addHostList1 env n) (addHostList1 env (Suc n)) \<and> make_le (makeHost env n) (makeHost env (Suc n))"
proof (induction n)
  case 0
  show ?case by (simp add: add_le_def make_le_def)
next
  case (Suc n)
  have "addHostList1 env (Suc k) = add_body env (addHostList1 env k) (makeHost env k)"
    "makeHost env (Suc k) = make_body env (addHostList1 env k) (makeHost env k)" for k by (simp_all add: fun_eq_iff)
  with Suc show ?case by (metis add_body_le make_body_le)
qed

lemma addHostList1_more: "n \<le> n' \<Longrightarrow> add_le (addHostList1 env n) (addHostList1 env n')"
proof (induction n' rule: dec_induct)
  case base
  show ?case by (simp add: add_le_def)
next
  case (step k)
  then show ?case using fuel_Suc [of env k] unfolding add_le_def by blast
qed

subsection \<open>The invariant\<close>

text \<open>
  The configurations the parameters of the program lead to, each step a call that returns:
  definitions, entries of a caller's list, path lists, and the list of reliable hosts. The first
  \<^verbatim>\<open>RELIABLE=\<close> is to name a host (or to be empty); what happens otherwise is below.
\<close>

inductive hl_reach :: "hl_env \<Rightarrow> hl_sys \<Rightarrow> bool" for env where
  start: "hl_reach env minit_hostlist"
| define_list: "hl_reach env s \<Longrightarrow> scan_HOSTLIST env n listdef s = Some s' \<Longrightarrow> hl_reach env s'"
| own_entry: "hl_reach env s \<Longrightarrow> addHostList1 env n Own m (s\<lparr>own := l\<rparr>) = Some s' \<Longrightarrow> hl_reach env s'"
| path: "hl_reach env s \<Longrightarrow> makePathListX env n what path opts s = Some (hlid, s') \<Longrightarrow> hl_reach env s'"
| reliable: "hl_reach env s \<Longrightarrow> scan_RELIABLE env n rels s = Some s' \<Longrightarrow>
    ht_hash s \<noteq> None \<or> (\<exists>e \<in> set (elems (if rels = [] then ''!*'' else rels) CHR '','' STR_ALLOC). makes_entry env e)
    \<Longrightarrow> hl_reach env s'"

inductive_cases hl_reachE: "hl_reach env s"

lemma scan_HOSTLIST_inv: "hl_inv s \<Longrightarrow> scan_HOSTLIST env n d s = Some s' \<Longrightarrow> hl_inv s'"
proof (cases "strchr d CHR '':''")
  case (Some dp)
  assume s: "hl_inv s" and e: "scan_HOSTLIST env n d s = Some s'"
  let ?dn = "take 31 (takeWhile (\<lambda>c. c \<noteq> CHR '':'') d)"
  obtain s0 where s0: "init_body env (addHostList1 env n) s = Some s0"
    "tab_body (addHostList1 env n) ?dn (tl dp) s0 = Some s'"
    using e Some by (auto simp: scan_HOSTLIST_def init_hostListTab_def addHostListTab_def bind_eq_Some_conv)
  obtain nr nm fl where n: "tab_name ?dn = (nr, nm, fl)" by (metis prod_cases3)
  have "hl_inv s0" "ht_hash s0 \<noteq> None" using init_inv [OF s _ s0(1)] addHostList1_adds by blast+
  then have "tab_ok s0" "predefined \<subseteq> dom (tab_abs s0)" by (auto simp: hl_inv_def fresh_def)
  then show ?thesis using tab_body_dom [OF _ addHostList1_adds n s0(2)] by (auto simp: hl_inv_def)
qed (simp add: scan_HOSTLIST_def)

lemma hl_reach_inv: "hl_reach env s \<Longrightarrow> hl_inv s"
proof (induction rule: hl_reach.induct)
  case start
  show ?case by (simp add: hl_inv_def fresh_def minit_hostlist_def)
next
  case (define_list s n listdef s')
  then show ?case using scan_HOSTLIST_inv by blast
next
  case (own_entry s n m l s')
  have "plain_ref Own" "hl_inv (s\<lparr>own := l\<rparr>)" using own_entry by (simp_all add: plain_ref_def)
  then show ?case using addHostList1_inv [of env n] own_entry.hyps(2) unfolding adds_inv_def by blast
next
  case (path s n what path opts hlid s')
  have o: "plain_ref Own" by (simp add: plain_ref_def)
  have "s' = s \<or> (\<exists>l p z. add_each (addHostList1 env n) (\<lambda>e. e) Own path (s\<lparr>own := l\<rparr>) = Some z
      \<and> s' = z\<lparr>pathlists := p\<rparr>)"
    using path.hyps(2) by (auto simp: makePathListX_def Let_def split: option.splits)
  then show ?case using path.IH add_each_inv [OF addHostList1_inv o] by (metis other_inv(1,2))
next
  case (reliable s n rels s')
  then show ?case using reliable_inv by blast
qed

text \<open>
  When the first entry is still to be made, \<^verbatim>\<open>RELIABLE=/a\<close> (or any list of flags) makes none: the
  table does not exist, and \<^verbatim>\<open>putHostListTab\<close> stores into an array that was never allocated.
\<close>

theorem reliable_flag_overruns:
  "\<exists>s. scan_RELIABLE env (Suc n) ''/a'' minit_hostlist = Some s \<and> ht_bad s"
proof -
  have e: "elems ''/a'' CHR '','' STR_ALLOC = [''/a'']"
    by (simp add: elems_def scan_ListX_def scan_list_loop.simps scan_elem.simps(2) Let_def
        STR_VOLA_def STR_ALLOC_def collect_def cstr_def)
  show ?thesis
    by (simp add: scan_RELIABLE_def add_all_fold e add_body_def or_flags_def putHostListTab_def tab_strid_def
        bad_at_def minit_hostlist_def Let_def)
qed

end
