(* ===== verification/HostReads.thy ===== *)
theory HostReads
  imports HostTable
begin

section \<open>HostReads: how deep the calls of a definition nest\<close>

text \<open>
  Reading a definition without groups in braces: what the parts of an entry leave of its text, and the
  depth of calls that is enough. An entry may make another one for its route, for the hosts its
  users are asked at, and for its name in the lists of the environment; each of them has a shorter
  text or fewer \<^verbatim>\<open>@\<close>.
\<close>

subsection \<open>What is left of a name\<close>

abbreviation no_group :: "string \<Rightarrow> bool" where "no_group m \<equiv> CHR ''{'' \<notin> set m"
abbreviation ats :: "string \<Rightarrow> nat" where "ats m \<equiv> count_list m CHR ''@''"
abbreviation no_slash :: "string \<Rightarrow> bool" where "no_slash m \<equiv> CHR ''/'' \<notin> set m"

text \<open>
  What the environment is not to give: groups, and a host name or left-over buffer contents (\<open>junk_str\<close>,
  read for a malformed URL and for an empty entry) that would be a path or ask for a user again.
\<close>

definition sane_env :: "hl_env \<Rightarrow> bool" where
  "sane_env env \<longleftrightarrow> no_group (junk_str env) \<and> no_slash (junk_str env) \<and> no_group (GetHostname env)
     \<and> no_slash (GetHostname env) \<and> ats (GetHostname env) = 0 \<and> no_group (DELEGATE_LOCALNET env) \<and> nonul (DELEGATE_LOCALNET env)"

lemma set_tlD: "x \<in> set (tl xs) \<Longrightarrow> x \<in> set xs"
  by (cases xs) auto

lemma strchr_prefix:
  "strchr s c = Some t \<Longrightarrow> c \<noteq> NUL \<Longrightarrow> c \<notin> set (take (length s - length t) s) \<and> set t \<subseteq> set s"
  using strchr_suffix [of s c t] by auto

lemma op_of_set: "op_of m = (opc, m') \<Longrightarrow> set m' \<subseteq> set m"
  by (auto simp: op_of_def Let_def dest: in_set_dropD set_tlD split: if_splits)

lemma scanVdomain_set: "scanVdomain m = Some (m', v, w) \<Longrightarrow> set m' \<subseteq> set m"
  by (auto simp: scanVdomain_def Let_def dest: in_set_takeD split: option.splits if_splits)

lemma mtype_loop_set: "mtype_loop t m = (t', m') \<Longrightarrow> set m' \<subseteq> set m"
  by (induction t m rule: mtype_loop.induct) (fastforce simp: Let_def split: if_splits)+

lemma mtype_of_set: "mtype_of m = (t, m') \<Longrightarrow> set m' \<subseteq> set m"
  by (auto simp: mtype_of_def dest!: mtype_loop_set dest: set_tlD split: if_splits prod.splits)

lemma mask_of_set: "mask_of env m = (m', msk) \<Longrightarrow> set m' \<subseteq> set m \<and> no_slash m'"
proof (cases "strchr m CHR ''/''")
  case None
  moreover have "no_slash m" if "strchr m CHR ''/'' = None" using that by (induction m) (auto split: if_splits)
  ultimately show "mask_of env m = (m', msk) \<Longrightarrow> set m' \<subseteq> set m \<and> no_slash m'" by (auto simp: mask_of_def)
next
  case (Some t)
  from strchr_prefix [OF this] show "mask_of env m = (m', msk) \<Longrightarrow> set m' \<subseteq> set m \<and> no_slash m'"
    using Some by (auto simp: mask_of_def Let_def dest: in_set_takeD)
qed

lemma users_of_set: "users_of m = (u, b, m') \<Longrightarrow> set m' \<subseteq> set m"
proof (cases "strchr m CHR ''@''")
  case (Some dp)
  then have "set (tl dp) \<subseteq> set m" "set (tl (tl dp)) \<subseteq> set m"
    using strchr_prefix [OF Some] by (auto dest: set_tlD)
  then show "users_of m = (u, b, m') \<Longrightarrow> set m' \<subseteq> set m" using Some by (auto simp: users_of_def Let_def split: if_splits)
qed (auto simp: users_of_def)

lemma ports_of_set: "ports_of m = (p, m') \<Longrightarrow> set m' \<subseteq> set m"
  by (auto simp: ports_of_def dest: in_set_takeD split: option.splits if_splits)

lemma ifx_port_set: "set (ifx_port m) \<subseteq> set m \<union> set ''*:''"
  by (auto simp: ifx_port_def dest: in_set_takeD in_set_dropD)

lemma family_of_set: "family_of m = (f, m') \<Longrightarrow> set m' \<subseteq> set m \<union> set ''*''"
  by (auto simp: family_of_def dest: in_set_dropD split: if_splits)

lemma canon_octet_set: "canon_octet b = Some b' \<Longrightarrow> set b' \<subseteq> set b \<union> set ''[0-255]''"
  by (auto simp: canon_octet_def dest: set_tlD split: if_splits)

lemma octet_seg_set: "set (octet_seg m) \<subseteq> set m \<union> set ''.''"
  by (auto simp: octet_seg_def Let_def dest: set_takeWhileD)

lemma canon_loop_set: "canon_loop k a m = Some (k', a') \<Longrightarrow> set a' \<subseteq> set a \<union> set m \<union> set ''[0-255].''"
proof (induction k a m rule: canon_loop.induct)
  case (1 k a m)
  show ?case
  proof (cases "m = []")
    case True
    then show ?thesis using "1.prems" by (auto simp: canon_loop.simps)
  next
    case False
    then obtain b where b: "canon_octet (octet_seg m) = Some b"
      "canon_loop (k + 1) (a @ b) (drop (length (octet_seg m)) m) = Some (k', a')"
      "\<not> (4 \<le> k + 1 \<and> drop (length (octet_seg m)) m \<noteq> [])"
      using "1.prems" by (subst (asm) canon_loop.simps) (auto simp: Let_def split: option.splits if_splits)
    have "set a' \<subseteq> set (a @ b) \<union> set (drop (length (octet_seg m)) m) \<union> set ''[0-255].''"
      using "1.IH" [OF False refl refl b(1) b(3) b(2)] .
    then show ?thesis using canon_octet_set [OF b(1)] octet_seg_set [of m]
      set_drop_subset [of "length (octet_seg m)" m] by auto
  qed
qed

lemma canonWildcardAddr_set: "set (canonWildcardAddr m) \<subseteq> set m \<union> set ''[0-255].''"
  by (auto simp: canonWildcardAddr_def dest!: canon_loop_set split: option.splits)

lemma count_take: "count_list (take n xs) c \<le> count_list xs c"
  by (induction xs arbitrary: n) (auto simp: take_Cons' intro: le_SucI)

lemma count_tl: "count_list (tl xs) c \<le> count_list xs c"
  by (cases xs) auto

lemma op_of_count: "op_of m = (opc, m') \<Longrightarrow> count_list m' c \<le> count_list m c"
  using count_tl [of m c] count_drop [of 2 m c] count_tl [of "drop 2 m" c]
  by (auto simp: op_of_def Let_def split: if_splits)

lemma scanVdomain_count: "scanVdomain m = Some (m', v, w) \<Longrightarrow> count_list m' c \<le> count_list m c"
  by (auto simp: scanVdomain_def Let_def count_take split: option.splits if_splits)

lemma mtype_loop_count: "mtype_loop t m = (t', m') \<Longrightarrow> count_list m' c \<le> count_list m c"
  by (induction t m rule: mtype_loop.induct) (fastforce simp: Let_def split: if_splits)+

lemma mtype_of_count: "mtype_of m = (t, m') \<Longrightarrow> count_list m' c \<le> count_list m c"
  using count_tl [of m c] mtype_loop_count [of 0 "tl m" t m' c]
  by (auto simp: mtype_of_def split: if_splits prod.splits)

lemma mask_of_count: "mask_of env m = (m', msk) \<Longrightarrow> count_list m' c \<le> count_list m c"
  by (auto simp: mask_of_def Let_def count_take split: option.splits)

lemma ports_of_count: "ports_of m = (p, m') \<Longrightarrow> count_list m' c \<le> count_list m c"
  by (auto simp: ports_of_def count_take split: option.splits if_splits)

lemma count_take_drop: "count_list (take n m) c + count_list (drop n m) c = count_list m c"
  by (metis append_take_drop_id count_list_append)

lemma ifx_port_ats: "ats (ifx_port m) = ats m"
  using count_take_drop [of 2 m] by (auto simp: ifx_port_def)

lemma family_of_ats: "family_of m = (f, m') \<Longrightarrow> ats m' \<le> ats m"
  by (auto simp: family_of_def count_drop split: if_splits)

lemma octet_seg_take: "octet_seg m = take (length (octet_seg m)) m"
proof -
  let ?w = "takeWhile (\<lambda>c. c \<noteq> CHR ''.'') m" and ?d = "dropWhile (\<lambda>c. c \<noteq> CHR ''.'') m"
  have m: "m = ?w @ ?d" by simp
  show ?thesis
  proof (cases ?d)
    case Nil
    then have w: "?w = m" using m by (metis append_Nil2)
    show ?thesis unfolding octet_seg_def Let_def w by simp
  next
    case (Cons c d)
    then have "c = CHR ''.''" using hd_dropWhile [of "\<lambda>c. c \<noteq> CHR ''.''" m] by auto
    then have m': "m = ?w @ CHR ''.'' # d" using m Cons by simp
    then have "length ?w < length m" by (metis length_append length_Cons less_add_same_cancel1 zero_less_Suc)
    then have "octet_seg m = ?w @ ''.''" by (simp add: octet_seg_def Let_def)
    then show ?thesis using m' by (metis append_Cons append_Nil append_assoc append_eq_conv_conj)
  qed
qed

lemma canon_octet_ats: "canon_octet b = Some b' \<Longrightarrow> ats b' \<le> ats b"
  using count_tl [of b "CHR ''@''"] by (auto simp: canon_octet_def split: if_splits)

lemma canon_loop_ats: "canon_loop k a m = Some (k', a') \<Longrightarrow> ats a' \<le> ats a + ats m"
proof (induction k a m rule: canon_loop.induct)
  case (1 k a m)
  show ?case
  proof (cases "m = []")
    case True
    then show ?thesis using "1.prems" by (auto simp: canon_loop.simps)
  next
    case False
    then obtain b where b: "canon_octet (octet_seg m) = Some b"
      "canon_loop (k + 1) (a @ b) (drop (length (octet_seg m)) m) = Some (k', a')"
      "\<not> (4 \<le> k + 1 \<and> drop (length (octet_seg m)) m \<noteq> [])"
      using "1.prems" by (subst (asm) canon_loop.simps) (auto simp: Let_def split: option.splits if_splits)
    have "ats a' \<le> ats (a @ b) + ats (drop (length (octet_seg m)) m)"
      using "1.IH" [OF False refl refl b(1) b(3) b(2)] .
    moreover have "ats (octet_seg m) + ats (drop (length (octet_seg m)) m) = ats m"
      using count_take_drop [of "length (octet_seg m)" m] octet_seg_take [of m] by metis
    ultimately show ?thesis using canon_octet_ats [OF b(1)] by simp
  qed
qed

lemma canonWildcardAddr_ats: "ats (canonWildcardAddr m) \<le> ats m"
  by (auto simp: canonWildcardAddr_def dest!: canon_loop_ats split: option.splits)

lemma strchr_count: "strchr m c = Some dp \<Longrightarrow> c \<noteq> NUL \<Longrightarrow> count_list (tl dp) c < count_list m c"
  by (induction m) (auto split: if_splits)

lemma strchr_None_count: "strchr m c = None \<Longrightarrow> count_list m c = 0"
  by (induction m) (auto split: if_splits)

text \<open>The host behind the \<^verbatim>\<open>@\<close> has fewer of them.\<close>

lemma users_of_ats:
  assumes "users_of m = (u, b, m')"
  shows "if u = None then ats m' = 0 else ats m' < ats m"
proof (cases "strchr m CHR ''@''")
  case None
  then show ?thesis using assms strchr_None_count by (auto simp: users_of_def)
next
  case (Some dp)
  have "ats (tl dp) < ats m" using strchr_count [OF Some] by simp
  moreover have "ats (tl (tl dp)) \<le> ats (tl dp)" by (rule count_tl)
  ultimately show ?thesis using assms Some by (auto simp: users_of_def Let_def split: if_splits)
qed

lemma parse_host_name:
  assumes "sane_env env" "no_group m" "parse_host env flags noident proto h m = Named h1 ident n vd"
  shows "no_group n \<and> no_slash n \<and> ats n \<le> ats m - 1
    \<and> (\<forall>host. ident = Some host \<longrightarrow> no_group host \<and> no_slash host \<and> ats host < ats m)"
proof -
  obtain opc m1 where o: "op_of m = (opc, m1)" by force
  obtain m2 v where d: "(case scanVdomain m1 of Some (m, v, _) \<Rightarrow> (m, v) | None \<Rightarrow> (m1, [])) = (m2, v)" by force
  obtain t m3 where t: "mtype_of m2 = (t, m3)" by force
  obtain m4 msk where k: "mask_of env m3 = (m4, msk)" by (metis surj_pair)
  let ?m5 = "if m4 = ''.'' then GetHostname env else m4"
  obtain u b n1 where u: "users_of ?m5 = (u, b, n1)" by (metis prod_cases3)
  obtain p n2 where p: "ports_of (ifx_port n1) = (p, n2)" by force
  obtain f n3 where f: "family_of (canonWildcardAddr n2) = (f, n3)" by force
  have n: "n = n3" "ident = None \<or> ident = Some n1 \<and> u \<noteq> None"
    using assms(3) by (auto simp: parse_host_def parse_name_def ident_of_def o d t k u p f Let_def split: if_splits)
  have "set m2 \<subseteq> set m1" "ats m2 \<le> ats m1"
    using d scanVdomain_set [of m1] scanVdomain_count [of m1] by (auto split: option.splits)
  then have "set m4 \<subseteq> set m" "ats m4 \<le> ats m"
    using op_of_set [OF o] mtype_of_set [OF t] mask_of_set [OF k]
      op_of_count [OF o, of "CHR ''@''"] mtype_of_count [OF t, of "CHR ''@''"] mask_of_count [OF k, of "CHR ''@''"] by auto
  then have m4: "no_group m4" "no_slash m4" "ats ?m5 \<le> ats m"
    using assms(1,2) mask_of_set [OF k] by (auto simp: sane_env_def)
  then have n1: "no_group n1" "no_slash n1" using users_of_set [OF u] assms(1) by (auto simp: sane_env_def split: if_splits)
  have a1: "ats n1 \<le> ats m - 1" "u \<noteq> None \<Longrightarrow> ats n1 < ats m"
    using users_of_ats [OF u] m4(3) by (auto split: if_splits)
  have n2: "no_group n2" "no_slash n2" using n1 ports_of_set [OF p] ifx_port_set [of n1] by auto
  have "no_group (canonWildcardAddr n2)" "no_slash (canonWildcardAddr n2)"
    using canonWildcardAddr_set [of n2, THEN subsetD, of "CHR ''{''"]
      canonWildcardAddr_set [of n2, THEN subsetD, of "CHR ''/''"] n2 by auto
  then have "no_group n" "no_slash n" unfolding n
    using family_of_set [OF f, THEN subsetD, of "CHR ''{''"] family_of_set [OF f, THEN subsetD, of "CHR ''/''"] by auto
  moreover have "ats n \<le> ats n1" unfolding n(1)
    using family_of_ats [OF f] canonWildcardAddr_ats [of n2] ports_of_count [OF p, of "CHR ''@''"]
      ifx_port_ats [of n1] by linarith
  ultimately show ?thesis using a1 n(2) n1 by auto
qed

definition lex_ok :: "hl_sys \<Rightarrow> bool" where
  "lex_ok s \<longleftrightarrow> hasf (hl_flags (virtualHosts s)) HL_BYNAMEONLY \<and> \<not> hasf (hl_flags (lexHosts s)) HL_BYNAMEONLY"

definition ready :: "hl_sys \<Rightarrow> bool" where
  "ready s \<longleftrightarrow> ht_hash s \<noteq> None \<and> lex_ok s"

lemma lex_ok_grows: "lex_ok s \<Longrightarrow> grows Q s s' \<Longrightarrow> lex_ok s'"
proof -
  assume "lex_ok s" and g: "grows Q s s'"
  have "list_grows (Lex \<in> Q) (get_list s Lex) (get_list s' Lex)"
    "list_grows (Virtual \<in> Q) (get_list s Virtual) (get_list s' Virtual)"
  proof -
    have "valid_ref s Lex" "valid_ref s Virtual" by (simp_all add: valid_ref_def)
    then show "list_grows (Lex \<in> Q) (get_list s Lex) (get_list s' Lex)"
      "list_grows (Virtual \<in> Q) (get_list s Virtual) (get_list s' Virtual)"
      using g unfolding grows_def by blast+
  qed
  with \<open>lex_ok s\<close> show ?thesis by (auto simp: lex_ok_def list_grows_def)
qed

lemma ready_grows: "ready s \<Longrightarrow> grows Q s s' \<Longrightarrow> ready s'"
  using lex_ok_grows grows_hash by (auto simp: ready_def)

lemma ready_entry:
  "ready s \<Longrightarrow> valid_ref s r \<Longrightarrow> ready (put_list r ((get_list s r)\<lparr>hl_List := hs\<rparr>) s)"
  by (cases r) (auto simp: ready_def lex_ok_def)

lemma is_prefix_set: "is_prefix p s \<Longrightarrow> set p \<subseteq> set s"
  by (induction p s rule: is_prefix.induct) auto

lemma no_slash_strstr: "no_slash m \<Longrightarrow> strstr m ''://'' = None \<and> strstr m ''//'' = None"
  by (induction m) (auto dest: is_prefix_set)

lemma addHL_plain: "sane_env env \<Longrightarrow> no_group m \<Longrightarrow> addHL env add r m s = Some (False, s)"
proof -
  assume e: "sane_env env" "no_group m"
  obtain opc users hosts where h: "split_HL env m = (opc, users, hosts)" by (metis prod_cases3)
  have p: "hostpart l = Some (us, hs) \<Longrightarrow> set hs \<subseteq> set l" for l us hs
    by (auto simp: hostpart_def Let_def dest!: strchr_prefix dest: set_tlD split: option.splits if_splits)
  have "no_group hosts"
    using h e by (cases m) (auto simp: split_HL_def sane_env_def dest!: p split: if_splits option.splits)
  then have "hd0 hosts \<noteq> CHR ''{''" by (cases hosts) auto
  then show ?thesis by (simp add: addHL_def h)
qed

lemma strip_not_set: "set (strip_not m) \<subseteq> set m" "length (strip_not m) \<le> length m"
  by (auto simp: strip_not_def Let_def dest: in_set_dropD)

lemma add_body_returns:
  assumes "adds add" "sane_env env" "no_group m" "ready s" "valid_ref s r"
    and star: "\<And>s. ready s \<Longrightarrow> valid_ref s r \<Longrightarrow> hd0 (strip_not m) = CHR ''!'' \<Longrightarrow> add r ''*'' s \<noteq> None"
    and mk: "\<And>s. ready s \<Longrightarrow> valid_ref s r \<Longrightarrow> mk r new_host (strip_not m) s \<noteq> None"
  shows "add_body env add mk r m s \<noteq> None"
proof -
  have hl: "addHL env add r (strip_not m) s = Some (False, s)"
    using assms(2,3) strip_not_set(1) [of m] by (intro addHL_plain) auto
  have ent: "new_entry mk r (strip_not m) s1 \<noteq> None" if "ready s1" "valid_ref s1 r" for s1
    using mk [OF ready_entry [OF that]] that(2)
    by (auto simp: new_entry_def Let_def split: option.splits)
  show ?thesis
  proof (cases "hl_List (get_list s r) = [] \<and> hd0 (strip_not m) = CHR ''!'' \<and> strip_not m \<noteq> ''!*''")
    case True
    then obtain s1 where s1: "add r ''*'' s = Some s1" using star [OF assms(4,5)] by auto
    then have "grows {r, Lex, Virtual, Ident} s s1" using assms(1,4,5) unfolding adds_def ready_def by blast
    then have "ready s1" "valid_ref s1 r" using ready_grows assms(4,5) grows_valid by blast+
    then show ?thesis using ent True s1 by (auto simp: add_body_def Let_def hl)
  next
    case False
    then have "Option.bind (if hl_List (get_list s r) = [] \<and> hd0 (strip_not m) = CHR ''!'' \<and> strip_not m \<noteq> ''!*''
        then add r ''*'' s else Some s) (new_entry mk r (strip_not m)) \<noteq> None"
      unfolding if_not_P [OF False] using ent [OF assms(4,5)] by simp
    then show ?thesis by (simp add: add_body_def Let_def hl)
  qed
qed

text \<open>A call that adds returns when making its entries does, two levels further down.\<close>

lemma add_from_make:
  assumes "sane_env env" "no_group m" "ready s" "valid_ref s r" "b + 2 \<le> n"
    and mk: "\<And>m' s k. m' = strip_not m \<or> m' = ''*'' \<and> hd0 (strip_not m) = CHR ''!'' \<Longrightarrow> ready s \<Longrightarrow>
      valid_ref s r \<Longrightarrow> b \<le> k \<Longrightarrow> makeHost env k r new_host m' s \<noteq> None"
  shows "addHostList1 env n r m s \<noteq> None"
proof -
  obtain k where k: "n = Suc (Suc k)" "b \<le> k" using assms(5) by (cases n; cases "n - 1") auto
  have star: "addHostList1 env (Suc k) r ''*'' s \<noteq> None"
    if rv: "ready s" "valid_ref s r" and neg: "hd0 (strip_not m) = CHR ''!''" for s
    unfolding addHostList1.simps(2) [of env k]
    by (rule add_body_returns [OF addHostList1_adds assms(1) _ rv])
      (use mk [of "''*''"] neg k(2) in \<open>auto simp: strip_not_def simp del: makeHost.simps addHostList1.simps\<close>)
  show ?thesis unfolding k(1) addHostList1.simps(2) [of env "Suc k"]
    by (rule add_body_returns [OF addHostList1_adds assms(1-4)])
      (use star mk [of "strip_not m"] k(2) in \<open>auto simp del: makeHost.simps addHostList1.simps\<close>)
qed

subsection \<open>Names without a path\<close>

text \<open>
  What is added to the two lists of the environment and to the hosts asked by the Ident protocol has
  no slash. The nesting of such calls is bounded by the number of \<^verbatim>\<open>@\<close> in the text.
\<close>

lemma make_plain:
  assumes "ready s" "no_slash m"
  shows "makeHost env (Suc n) r h m s =
    (case parse_host env (hl_flags (get_list s r)) (hl_noIdent (get_list s r)) [] h m of
       Done h1 \<Rightarrow> Some (h1, s)
     | Named h1 ident nm vd \<Rightarrow>
         Option.bind (case ident of None \<Rightarrow> Some s | Some host \<Rightarrow> enableClientIdent (addHostList1 env n) host s)
           (named_host env (addHostList1 env n) r h1 nm vd))"
proof -
  have i: "init_body env (addHostList1 env n) s = Some s" using assms(1) by (auto simp: init_body_def ready_def)
  have p: "proto_of env m = ([], m)" "route_of (makeHost env n) r m s = Some (m, s)"
    using no_slash_strstr [OF assms(2)] by (simp_all add: proto_of_def route_of_def)
  show ?thesis by (simp add: make_body_def i p)
qed

lemma named_host_lexical:
  assumes "ready s" "r = Lex \<or> r = Virtual"
  shows "named_host env add r h n vd s \<noteq> None"
proof -
  obtain h2 n2 req pre where nh: "name_host env r (hl_flags (get_list s r))
      (snd (tab_strid (ht_hash s) n (-1))) h n = (h2, n2, req, pre)" by (metis prod_cases4)
  have "req = None"
  proof (rule ccontr)
    assume "req \<noteq> None"
    then obtain r' x where "req = Some (r', x)" by auto
    with name_host_request [OF nh [unfolded this]] assms show False
      by (auto simp: ready_def lex_ok_def)
  qed
  then show ?thesis by (simp add: named_host_def nh)
qed

lemma make_lexical:
  assumes "sane_env env" "ready s" "r = Lex \<or> r = Virtual" "no_slash m" "no_group m" "ats m = 0" "0 < n"
  shows "makeHost env n r h m s \<noteq> None"
proof -
  obtain k where k: "n = Suc k" using assms(7) by (cases n) auto
  show ?thesis
  proof (cases "parse_host env (hl_flags (get_list s r)) (hl_noIdent (get_list s r)) [] h m")
    case (Named h1 ident nm vd)
    have "ident = None" using parse_host_name [OF assms(1,5) Named] assms(6) by (cases ident) auto
    then show ?thesis using named_host_lexical [OF assms(2,3)] Named
      by (simp add: k make_plain [OF assms(2,4)] del: makeHost.simps)
  qed (simp add: k make_plain [OF assms(2,4)] del: makeHost.simps)
qed

lemma add_lexical:
  assumes "sane_env env" "ready s" "r = Lex \<or> r = Virtual" "no_slash m" "no_group m" "ats m = 0" "3 \<le> n"
  shows "addHostList1 env n r m s \<noteq> None"
proof (rule add_from_make [OF assms(1,5,2), where b = 1])
  have "no_slash (strip_not m)" "no_group (strip_not m)" "ats (strip_not m) = 0"
    using strip_not_set(1) [of m] assms(4-6) by (auto simp: count_list_0_iff)
  then show "makeHost env k r new_host m' s \<noteq> None"
    if "m' = strip_not m \<or> m' = ''*'' \<and> hd0 (strip_not m) = CHR ''!''" "ready s" "1 \<le> k" for m' s k
    using that make_lexical [OF assms(1) _ assms(3)] by auto
qed (use assms(3,7) in \<open>auto simp: valid_ref_def\<close>)

definition plain_calls :: "hl_env \<Rightarrow> nat \<Rightarrow> bool" where
  "plain_calls env a \<longleftrightarrow> (\<forall>r h m s n. ready s \<longrightarrow> valid_ref s r \<longrightarrow> no_slash m \<longrightarrow> no_group m \<longrightarrow> ats m \<le> a
     \<longrightarrow> 3 * a + 4 \<le> n \<longrightarrow> makeHost env n r h m s \<noteq> None)"

lemma strip_not_count: "count_list (strip_not m) c \<le> count_list m c"
proof -
  have "count_list (drop 1 x) c \<le> count_list m c" if "count_list x c \<le> count_list m c" for x
    using count_drop [of 1 x c] that by linarith
  then show ?thesis using count_drop [of 2 m c] by (auto simp: strip_not_def Let_def)
qed

lemma plain_adds:
  assumes "sane_env env" "plain_calls env a" "ready s" "valid_ref s r" "no_slash m" "no_group m" "ats m \<le> a" "3 * a + 6 \<le> n"
  shows "addHostList1 env n r m s \<noteq> None"
proof (rule add_from_make [OF assms(1,6,3,4), where b = "3 * a + 4"])
  have "no_slash (strip_not m)" "no_group (strip_not m)" "ats (strip_not m) \<le> a"
    using strip_not_set(1) [of m] strip_not_count [of m "CHR ''@''"] assms(5-7) by auto
  then show "makeHost env k r new_host m' s \<noteq> None"
    if "m' = strip_not m \<or> m' = ''*'' \<and> hd0 (strip_not m) = CHR ''!''" "ready s" "valid_ref s r" "3 * a + 4 \<le> k" for m' s k
    using that assms(2) unfolding plain_calls_def by (elim disjE) auto
qed (use assms(8) in simp)

lemma ident_returns:
  assumes "sane_env env" "plain_calls env a" "ready s" "no_slash host" "no_group host" "ats host \<le> a" "3 * a + 6 \<le> n"
  shows "\<exists>s'. enableClientIdent (addHostList1 env n) host s = Some s' \<and> grows {Lex, Virtual, Ident} s s'"
proof -
  let ?es = "elems host CHR '','' STR_ALLOC"
  have e: "no_slash e \<and> no_group e \<and> ats e \<le> a" if "e \<in> set ?es" for e
    using elems_count [OF _ that, of "CHR ''/''"] elems_count [OF _ that, of "CHR ''{''"]
      elems_count [OF _ that, of "CHR ''@''"] assms(4-6) by (auto simp: count_list_0_iff)
  have "ready s \<Longrightarrow> set es \<subseteq> set ?es \<Longrightarrow>
      fold (\<lambda>e so. Option.bind so (addHostList1 env n Ident e)) es (Some s) \<noteq> None" for es
  proof (induction es arbitrary: s)
    case (Cons x xs)
    have v: "valid_ref s Ident" by (simp add: valid_ref_def)
    obtain s1 where s1: "addHostList1 env n Ident x s = Some s1"
      using plain_adds [OF assms(1,2) Cons.prems(1) v, of x n] e [of x] Cons.prems assms(7) by auto
    then have "grows {Ident, Lex, Virtual, Ident} s s1"
      using addHostList1_adds Cons.prems(1) v unfolding adds_def ready_def by blast
    then show ?case using Cons.IH [of s1] Cons.prems s1 ready_grows by simp
  qed simp
  then obtain s' where "enableClientIdent (addHostList1 env n) host s = Some s'"
    using assms(3) unfolding enableClientIdent_def add_all_fold by blast
  then show ?thesis using ident_grows [OF addHostList1_adds] assms(3) by (auto simp: ready_def)
qed

text \<open>The last part of making an entry, when the calls for texts with fewer \<^verbatim>\<open>@\<close> return.\<close>

lemma parsed_returns:
  assumes "sane_env env" "ready s" "valid_ref s r" "no_group m" "ats m \<le> a" "3 * a + 3 \<le> n"
    and less: "\<And>a'. a' < a \<Longrightarrow> plain_calls env a'"
  shows "(case parse_host env fl noident proto h m of
       Done h1 \<Rightarrow> Some (h1, s)
     | Named h1 ident nm vd \<Rightarrow>
         Option.bind (case ident of None \<Rightarrow> Some s | Some host \<Rightarrow> enableClientIdent (addHostList1 env n) host s)
           (named_host env (addHostList1 env n) r h1 nm vd)) \<noteq> None"
proof (cases "parse_host env fl noident proto h m")
  case (Named h1 ident nm vd)
  note nm = parse_host_name [OF assms(1,4) Named]
  have "\<exists>s2. (case ident of None \<Rightarrow> Some s | Some host \<Rightarrow> enableClientIdent (addHostList1 env n) host s) = Some s2
      \<and> ready s2"
  proof (cases ident)
    case (Some host)
    have a: "ats host \<le> a - 1" "0 < a" using nm Some assms(5) by auto
    have "no_slash host" "no_group host" "3 * (a - 1) + 6 \<le> n" using nm Some assms(6) a(2) by auto
    then obtain s2 where "enableClientIdent (addHostList1 env n) host s = Some s2" "grows {Lex, Virtual, Ident} s s2"
      using ident_returns [OF assms(1) less [of "a - 1"] assms(2) _ _ a(1)] a(2) by auto
    then show ?thesis using ready_grows [OF assms(2)] Some by auto
  qed (use assms(2) in simp)
  then obtain s2 where s2: "(case ident of None \<Rightarrow> Some s | Some host \<Rightarrow> enableClientIdent (addHostList1 env n) host s) = Some s2"
    "ready s2" by blast
  obtain h2 n2 req pre where nh: "name_host env r (hl_flags (get_list s2 r))
      (snd (tab_strid (ht_hash s2) nm (-1))) h1 nm = (h2, n2, req, pre)" by (metis prod_cases4)
  have "(case req of None \<Rightarrow> Some s2 | Some (r', x) \<Rightarrow> addHostList1 env n r' x s2) \<noteq> None"
  proof (cases req)
    case (Some a')
    obtain r' x where x: "a' = (r', x)" by force
    have q: "r' = Lex \<or> r' = Virtual" "x = nm \<or> x = tl nm"
      using name_host_request [OF nh [unfolded Some x]] by auto
    have t: "no_slash x" "no_group x" "ats x \<le> ats nm" using q(2) nm set_tlD [of _ nm] count_tl [of nm "CHR ''@''"] by auto
    have v: "valid_ref s2 r'" using q(1) by (auto simp: valid_ref_def)
    show ?thesis
    proof (cases "a = 0")
      case True
      then have "ats x = 0" using t(3) nm assms(5) by simp
      then show ?thesis using add_lexical [OF assms(1) s2(2) q(1) t(1,2)] assms(6) Some x by simp
    next
      case False
      then have "ats x \<le> a - 1" using t(3) nm assms(5) by linarith
      then show ?thesis using plain_adds [OF assms(1) less s2(2) v t(1,2), of "a - 1" n] False assms(6) Some x by simp
    qed
  qed simp
  then show ?thesis by (auto simp: Named s2(1) named_host_def nh)
qed simp

lemma plain_calls_all: "sane_env env \<Longrightarrow> plain_calls env a"
proof (induction a rule: less_induct)
  case (less a)
  show ?case unfolding plain_calls_def
  proof (intro allI impI)
    fix r h m s n
    assume s: "ready s" "valid_ref s r" and m: "no_slash m" "no_group m" "ats m \<le> a" and n: "3 * a + 4 \<le> n"
    obtain k where k: "n = Suc k" "3 * a + 3 \<le> k" using n by (cases n) auto
    show "makeHost env n r h m s \<noteq> None"
      unfolding k(1) make_plain [OF s(1) m(1)]
      by (rule parsed_returns [OF less.prems s m(2,3) k(2) less.IH [OF _ less.prems]])
  qed
qed

subsection \<open>Entries with a path\<close>

lemma strstr_suffix: "strstr m p = Some t \<Longrightarrow> \<exists>q. m = q @ t"
  by (induction m) (auto split: if_splits)

lemma proto_of_rest:
  assumes "proto_of env m = (proto, m0)" "sane_env env" "no_group m"
  shows "no_group m0 \<and> ats m0 \<le> max (ats m) (ats (junk_str env))
    \<and> (no_slash m0 \<or> length m0 \<le> length m \<and> ats m0 \<le> ats m)"
proof (cases "strstr m ''://'' = None")
  case True
  then show ?thesis using assms by (auto simp: proto_of_def)
next
  case False
  let ?d = "dropWhile (\<lambda>c. c \<noteq> CHR '':'') m"
  let ?h = "takeWhile (\<lambda>c. \<not> isspace c) (skip_ws (drop 3 ?d))"
  have "m0 = junk_str env \<or> m0 = ?h" using assms(1) False by (auto simp: proto_of_def Let_def split: if_splits)
  moreover have "set ?h \<subseteq> set m"
    by (auto simp: skip_ws_def dest!: set_takeWhileD set_dropWhileD in_set_dropD)
  moreover have "\<exists>p q. m = p @ ?h @ q"
  proof -
    obtain a b c d where "m = a @ ?d" "?d = b @ drop 3 ?d" "drop 3 ?d = c @ skip_ws (drop 3 ?d)"
      "skip_ws (drop 3 ?d) = ?h @ d"
      unfolding skip_ws_def by (metis append_take_drop_id takeWhile_dropWhile_id)
    then show ?thesis by (metis append.assoc)
  qed
  then have "length ?h \<le> length m" "ats ?h \<le> ats m" by (metis count_list_append le_add1 le_add2 le_trans length_append)+
  ultimately show ?thesis using assms(2,3) by (auto simp: sane_env_def)
qed

text \<open>The depth of calls that making an entry takes.\<close>

definition depth :: "hl_env \<Rightarrow> string \<Rightarrow> nat" where
  "depth env m = length m + 3 * ats m + 3 * ats (junk_str env) + 4"

lemma make_any:
  assumes "sane_env env"
  shows "ready s \<Longrightarrow> valid_ref s r \<Longrightarrow> no_group m \<Longrightarrow> depth env m \<le> n \<Longrightarrow> makeHost env n r h m s \<noteq> None"
proof (induction "length m" arbitrary: m h s n rule: less_induct)
  case less
  obtain k where k: "n = Suc k" "length m + 3 * ats m + 3 * ats (junk_str env) + 3 \<le> k"
    using less.prems(4) by (cases n) (auto simp: depth_def)
  have i: "init_body env (addHostList1 env k) s = Some s" using less.prems by (auto simp: init_body_def ready_def)
  obtain proto m0 where p: "proto_of env m = (proto, m0)" by force
  note m0 = proto_of_rest [OF p assms less.prems(3)]
  have "\<exists>m1 s1. route_of (makeHost env k) r m0 s = Some (m1, s1) \<and> no_group m1 \<and> ats m1 \<le> ats m0
      \<and> grows {Lex, Virtual, Ident} s s1"
  proof (cases "strstr m0 ''//''")
    case None
    then show ?thesis using m0 by (simp add: route_of_def)
  next
    case (Some route)
    obtain q where q: "m0 = q @ route" using strstr_suffix [OF Some] by blast
    have l: "length m0 \<le> length m" "ats m0 \<le> ats m" using m0 no_slash_strstr Some by fastforce+
    have "route \<noteq> []" using Some by (induction m0) (auto split: if_splits)
    then have d: "length (drop 2 route) < length m" using l q by (cases route) auto
    have g: "no_group (drop 2 route)" using m0 q by (auto dest: in_set_dropD)
    have "ats (drop 2 route) \<le> ats m" using count_drop [of 2 route "CHR ''@''"] l(2) q by simp
    then have "depth env (drop 2 route) \<le> k" using d k(2) by (simp add: depth_def)
    then obtain h' s1 where s1: "makeHost env k r new_host (drop 2 route) s = Some (h', s1)"
      using less.hyps [OF d less.prems(1,2) g, of k new_host] by auto
    then have "grows {Lex, Virtual, Ident} s s1"
      using makeHost_makes less.prems(1,2) unfolding makes_def ready_def by blast
    then show ?thesis using Some s1 m0 q by (auto simp: route_of_def dest: in_set_takeD)
  qed
  then obtain m1 s1 where r1: "route_of (makeHost env k) r m0 s = Some (m1, s1)" "no_group m1" "ats m1 \<le> ats m0"
    "grows {Lex, Virtual, Ident} s s1" by blast
  have s1: "ready s1" "valid_ref s1 r" using ready_grows less.prems(1,2) r1(4) grows_valid by blast+
  have "ats m1 \<le> max (ats m) (ats (junk_str env))" "3 * max (ats m) (ats (junk_str env)) + 3 \<le> k"
    using r1(3) m0 k(2) by auto
  from parsed_returns [OF assms s1 r1(2) this plain_calls_all [OF assms]]
  show ?case by (simp add: k(1) make_body_def i p r1(1))
qed

lemma depth_bound: "length m' \<le> length m \<Longrightarrow> ats m' \<le> ats m \<Longrightarrow> depth env m' \<le> depth env m"
  by (simp add: depth_def)

lemma add_any:
  assumes "sane_env env" "ready s" "valid_ref s r" "no_group m" "depth env m + 2 \<le> n"
  shows "addHostList1 env n r m s \<noteq> None"
proof (rule add_from_make [OF assms(1,4,2,3,5)])
  fix m' s k
  assume m': "m' = strip_not m \<or> m' = ''*'' \<and> hd0 (strip_not m) = CHR ''!''"
    and s: "ready s" "valid_ref s r" "depth env m \<le> k"
  have l: "length m' \<le> length m" "ats m' \<le> ats m" "no_group m'"
    using m' strip_not_set [of m] strip_not_count [of m "CHR ''@''"] assms(4) by (cases "strip_not m"; auto)+
  then show "makeHost env k r new_host m' s \<noteq> None"
    using make_any [OF assms(1) s(1,2) l(3)] depth_bound [OF l(1,2), of env] s(3) by simp
qed

definition fuel :: "hl_env \<Rightarrow> string \<Rightarrow> nat" where
  "fuel env list = Max (insert 0 (depth env ` set (elemsL list))) + 2"

lemma add_each_returns:
  assumes "sane_env env" "ready s" "valid_ref s r" "nonul list" "no_group list" "fuel env list \<le> n"
  shows "add_each (addHostList1 env n) (\<lambda>e. e) r list s \<noteq> None"
proof -
  have e: "no_group e \<and> depth env e + 2 \<le> n" if "e \<in> set (elemsL list)" for e
  proof -
    have "depth env e \<le> Max (insert 0 (depth env ` set (elemsL list)))" by (rule Max_ge) (use that in auto)
    moreover have "no_group e" using elemsL_set [OF assms(4) that] assms(5) by blast
    ultimately show ?thesis using assms(6) by (simp add: fuel_def)
  qed
  have "ready s \<Longrightarrow> valid_ref s r \<Longrightarrow> set es \<subseteq> set (elemsL list) \<Longrightarrow>
      fold (\<lambda>e so. Option.bind so (addHostList1 env n r e)) es (Some s) \<noteq> None" for es
  proof (induction es arbitrary: s)
    case (Cons x xs)
    obtain s1 where s1: "addHostList1 env n r x s = Some s1"
      using add_any [OF assms(1) Cons.prems(1,2), of x n] e [of x] Cons.prems by auto
    then have g: "grows {r, Lex, Virtual, Ident} s s1"
      using addHostList1_adds Cons.prems(1,2) unfolding adds_def ready_def by blast
    have "ready s1" "valid_ref s1 r" using ready_grows [OF _ g] grows_valid [OF g] Cons.prems by auto
    then show ?case using Cons.IH [of s1] Cons.prems s1 by simp
  qed simp
  then show ?thesis unfolding add_each_fold using assms(2,3) by blast
qed

text \<open>The list of a definition after the mark that it extends an existing one.\<close>

definition list_text :: "string \<Rightarrow> string" where
  "list_text dlist = (if is_prefix ''+,'' dlist then drop 2 dlist else dlist)"

lemma open_list_lex: "open_list nm a b s = (i, s') \<Longrightarrow> lexHosts s' = lexHosts s \<and> virtualHosts s' = virtualHosts s"
  by (auto simp: open_list_def Let_def resize_hostlisttab_def bad_at_def split: if_splits)

text \<open>What a definition does before it adds the entries.\<close>

lemma tab_body_opened:
  assumes "tab_ok s" "lex_ok s"
  obtains i s2 where "\<And>add. tab_body add dname dlist s = add_each add (\<lambda>e. e) (Listed i) (list_text dlist) s2"
    "ready s2" "valid_ref s2 (Listed i)"
proof -
  obtain nr nm fl where tn: "tab_name dname = (nr, nm, fl)" by (metis prod_cases3)
  obtain i s1 where o: "open_list nm (strchr fl CHR ''+'' \<noteq> None) (is_prefix ''+,'' dlist) s = (i, s1)" by force
  note s1 = open_list_ok [OF assms(1) o]
  have v: "valid_ref s1 (Listed i)" using s1 by (auto simp: valid_ref_def elim!: tab_okE)
  have r: "ready s1" using s1 open_list_lex [OF o] assms(2) by (auto simp: ready_def lex_ok_def tab_ok_def)
  have g: "grows {Listed i} s1 (or_flags (Listed i) (flags_of nr fl) s1)" by (rule or_flags_grows [OF v]) simp
  show thesis
    by (rule that [of i "or_flags (Listed i) (flags_of nr fl) s1"])
      (use ready_grows [OF r g] grows_valid [OF g] v in
        \<open>simp_all add: tab_body_def tn o Let_def list_text_def del: not_None_eq\<close>)
qed

lemma tab_body_returns:
  assumes "sane_env env" "tab_ok s" "lex_ok s" "nonul dlist" "no_group dlist" "fuel env (list_text dlist) \<le> n"
  shows "\<exists>s'. tab_body (addHostList1 env n) dname dlist s = Some s' \<and> tab_ok s' \<and> lex_ok s'"
proof -
  obtain i s2 where s2: "\<And>add. tab_body add dname dlist s = add_each add (\<lambda>e. e) (Listed i) (list_text dlist) s2"
    "ready s2" "valid_ref s2 (Listed i)" using tab_body_opened [OF assms(2,3)] by blast
  have "nonul (list_text dlist)" "no_group (list_text dlist)"
    using assms(4,5) by (auto simp: list_text_def nonul_def dest: in_set_dropD)
  then obtain s' where s': "add_each (addHostList1 env n) (\<lambda>e. e) (Listed i) (list_text dlist) s2 = Some s'"
    using add_each_returns [OF assms(1) s2(2,3) _ _ assms(6)] by blast
  have "lex_ok s'" using add_each_grows [OF addHostList1_adds _ s2(3) s'] s2(2) lex_ok_grows
    by (auto simp: ready_def)
  moreover obtain nr nm fl where "tab_name dname = (nr, nm, fl)" by (metis prod_cases3)
  ultimately show ?thesis using tab_body_ok [OF assms(2) addHostList1_adds, of dname] s2(1) s' by metis
qed

definition init_fuel :: "hl_env \<Rightarrow> nat" where
  "init_fuel env = fuel env (list_text (DELEGATE_LOCALNET env)) + fuel env ''*'' + fuel env ''!.localnet''"

lemma init_returns:
  assumes "sane_env env" "hl_inv s" "lex_ok s" "init_fuel env \<le> n"
  shows "\<exists>s'. init_body env (addHostList1 env n) s = Some s' \<and> tab_ok s' \<and> lex_ok s'"
proof (cases "fresh s")
  case True
  let ?s0 = "resize_hostlisttab s" and ?add = "addHostList1 env n"
  have l: "list_text ''*'' = ''*''" "list_text ''!.localnet'' = ''!.localnet''" by (simp_all add: list_text_def)
  have s0: "tab_ok ?s0" "lex_ok ?s0" using resize_fresh [OF True] assms(3)
    by (simp_all add: lex_ok_def resize_hostlisttab_def Let_def)
  obtain s1 where s1: "tab_body ?add ''.localnet'' (DELEGATE_LOCALNET env) ?s0 = Some s1" "tab_ok s1" "lex_ok s1"
    using tab_body_returns [OF assms(1) s0, of "DELEGATE_LOCALNET env" n] assms(1,4)
    by (auto simp: sane_env_def init_fuel_def)
  obtain s2 where s2: "tab_body ?add ''.RELIABLE'' ''*'' s1 = Some s2" "tab_ok s2" "lex_ok s2"
    using tab_body_returns [OF assms(1) s1(2,3), of "''*''" n] assms(4) by (auto simp: init_fuel_def l)
  obtain s3 where s3: "tab_body ?add ''.socksdst'' ''!.localnet'' s2 = Some s3" "tab_ok s3" "lex_ok s3"
    using tab_body_returns [OF assms(1) s2(2,3), of "''!.localnet''" n] assms(4) by (auto simp: init_fuel_def l)
  show ?thesis using True s1(1) s2(1) s3 by (simp add: init_body_def fresh_def)
next
  case False
  then show ?thesis using assms(2,3) by (auto simp: hl_inv_def tab_ok_def init_body_def)
qed

end
