(* ===== verification/HostReturns.thy ===== *)
theory HostReturns
  imports HostReads
begin

section \<open>HostReturns: which list definitions are read in finite time, and into what\<close>

text \<open>
  Reading a definition without groups in braces always returns, and it gives the list one entry for
  each element. A group that is followed by another one is read for ever. The table stays
  consistent over every sequence of parameters. The predefined lists, and what protecting a list
  does not prevent.
\<close>

subsection \<open>Definitions that are read\<close>

lemma scan_HOSTLIST_reads:
  assumes "sane_env env" "hl_inv s" "lex_ok s" "nonul listdef" "no_group listdef" "strchr listdef CHR '':'' = Some dp"
    "init_fuel env + fuel env (list_text (tl dp)) \<le> n"
  shows "\<exists>s'. scan_HOSTLIST env n listdef s = Some s' \<and> hl_inv s' \<and> ht_hash s' \<noteq> None"
proof -
  have "set dp \<subseteq> set listdef" using strchr_prefix [OF assms(6)] by simp
  then have d: "nonul (tl dp)" "no_group (tl dp)" using assms(4,5) by (auto simp: nonul_def dest: set_tlD)
  let ?dn = "take 31 (takeWhile (\<lambda>c. c \<noteq> CHR '':'') listdef)"
  have f: "init_fuel env \<le> n" "fuel env (list_text (tl dp)) \<le> n" using assms(7) by simp_all
  obtain s0 where s0: "init_body env (addHostList1 env n) s = Some s0" "tab_ok s0" "lex_ok s0"
    using init_returns [OF assms(1-3) f(1)] by blast
  obtain s' where s': "tab_body (addHostList1 env n) ?dn (tl dp) s0 = Some s'" "tab_ok s'"
    using tab_body_returns [OF assms(1) s0(2,3) d f(2)] by blast
  then have e: "scan_HOSTLIST env n listdef s = Some s'"
    using s0 assms(6) by (simp add: scan_HOSTLIST_def init_hostListTab_def addHostListTab_def)
  have "ht_hash s' \<noteq> None" using s'(2) by (auto simp: tab_ok_def)
  then show ?thesis using e scan_HOSTLIST_inv [OF assms(2) e] by simp
qed

text \<open>
  C28: a definition without groups is always read: with a depth of calls bounded by the longest element
  and the number of its \<^verbatim>\<open>@\<close> (plus that of the predefined lists, on the first use) the whole of
  \<^verbatim>\<open>HOSTLIST=\<close> returns, with the nested calls for routes, for the hosts asked by the Ident
  protocol and for the lists of the environment, from a fresh start and in any consistent state.
  The environment is to give no groups: neither the predefined local network, nor the host name
  (which is not to be a path or have an \<^verbatim>\<open>@\<close> either), nor the left-over buffer contents that an
  empty entry or a malformed URL is replaced with.
\<close>

theorem scan_HOSTLIST_returns:
  assumes "sane_env env" and "hl_inv s" and "lex_ok s" and "nonul listdef" and "no_group listdef"
  shows "\<exists>N. \<forall>n \<ge> N. \<exists>s'. scan_HOSTLIST env n listdef s = Some s' \<and> hl_inv s'"
proof (cases "strchr listdef CHR '':''")
  case (Some dp)
  then show ?thesis using scan_HOSTLIST_reads [OF assms Some] by blast
qed (use assms in \<open>auto simp: scan_HOSTLIST_def\<close>)

lemma quiet_start: "sane_env quiet_env" "hl_inv minit_hostlist" "lex_ok minit_hostlist"
  by (simp_all add: sane_env_def quiet_env_def hl_inv_def fresh_def minit_hostlist_def lex_ok_def hasf_def
      HL_BYNAMEONLY_def new_list_def)

theorem scan_HOSTLIST_returns_witness:
  "\<exists>N. \<forall>n \<ge> N. \<exists>s'. scan_HOSTLIST quiet_env n ''.x:192.168.*,!http://a//b,u@v@-h'' minit_hostlist = Some s' \<and> hl_inv s'"
  by (rule scan_HOSTLIST_returns [OF quiet_start]) simp_all

subsection \<open>Reachable configurations\<close>

text \<open>
  C3: in every configuration that a sequence of parameters leads to, nothing was stored outside of
  the table's array, and the table is either not created yet or consistent: each name is hashed to
  its own list, no two lists share a name, and the predefined lists are there. The
  sequence is any of list definitions, entries of other lists, path lists and \<^verbatim>\<open>RELIABLE=\<close> that return;
  the first \<^verbatim>\<open>RELIABLE=\<close> before any other entry is made is to name a host.
\<close>

theorem reachable_table:
  assumes "hl_reach env s"
  shows "\<not> ht_bad s \<and> (ht_hash s = None \<or> tab_ok s \<and> predefined \<subseteq> dom (tab_abs s))"
  using hl_reach_inv [OF assms] by (auto simp: hl_inv_def fresh_def tab_ok_def)

theorem reachable_table_witness:
  "\<exists>s. hl_reach quiet_env s \<and> ht_hash s \<noteq> None \<and> \<not> ht_bad s \<and> tab_ok s \<and> predefined \<subseteq> dom (tab_abs s)"
proof -
  have "strchr ''.x:*'' CHR '':'' = Some '':*''" by simp
  then obtain s n where s: "scan_HOSTLIST quiet_env n ''.x:*'' minit_hostlist = Some s" "ht_hash s \<noteq> None"
    using scan_HOSTLIST_reads [OF quiet_start _ _ _ le_refl, of "''.x:*''"] by auto
  have h: "hl_reach quiet_env s" by (rule hl_reach.define_list [OF hl_reach.start s(1)])
  show ?thesis using reachable_table [OF h] h s(2) by blast
qed

subsection \<open>A group that is never read\<close>

lemma elemsL_twin: "elemsL ''{a}{b}'' = [''{a}{b}'']"
  by (simp add: elemsL_elems elems_def scan_ListX_def scan_list_loop.simps scan_elem.simps(2) Let_def
      STR_VOLA_def collect_def cstr_def)

lemma addHL_twin:
  assumes "split_HL env m = (CHR ''+'', None, ''{a}{b}'')"
  shows "addHL env add r m s = map_option (Pair True) (add r ''+{a}{b}'' s)"
  by (simp add: addHL_def assms strtailchr_def add_each_fold elemsL_twin addHL1_def)

text \<open>
  C36: two groups side by side are never read: the scan finds no separator and hands the whole text back
  as one element, which is added again with a plus sign in front, without end; the program
  runs out of stack. So does every depth of calls in the model.
\<close>

theorem twin_groups_never_return: "addHostList1 env n r ''{a}{b}'' s = None"
proof -
  have sp: "split_HL env ''{a}{b}'' = (CHR ''+'', None, ''{a}{b}'')" "split_HL env ''+{a}{b}'' = (CHR ''+'', None, ''{a}{b}'')"
    by (simp_all add: split_HL_def hostpart_def)
  have st: "strip_not ''{a}{b}'' = ''{a}{b}''" "strip_not ''+{a}{b}'' = ''+{a}{b}''" by (simp_all add: strip_not_def)
  have "addHostList1 env n r ''{a}{b}'' s = None \<and> addHostList1 env n r ''+{a}{b}'' s = None" for r s
    by (induction n arbitrary: r s) (simp_all add: add_body_def st addHL_twin [OF sp(1)] addHL_twin [OF sp(2)])
  then show ?thesis by blast
qed

subsection \<open>The entry for any host\<close>

lemma make_star:
  assumes "ht_hash s = Some t" "strid_ask t ''*'' = -1"
  shows "\<exists>h. makeHost env (Suc n) r new_host ''*'' s = Some (h, s) \<and> h_name h = ''*'' \<and> h_op h = ON_EQ"
  by (simp add: make_body_def named_host_def ident_of_def init_body_def assms proto_of_def route_of_def parse_host_def op_of_def
      scanVdomain_def mtype_of_def parse_name_def mask_of_def users_of_def ifx_port_def HostIncomingIFX_def
      ports_of_def canonWildcardAddr_def family_of_def name_host_def HostOnClientside_def HostIncomingIF_def
      HostOutgoingIF_def TimePeriod_def new_host_def Let_def)

lemma put_put [simp]: "put_list r l' (put_list r l s) = put_list r l' s"
  by (cases r) simp_all

lemma put_get [simp]: "valid_ref s r \<Longrightarrow> put_list r (get_list s r) s = s"
  by (cases r) (simp_all add: valid_ref_def)

lemma add_star:
  assumes "ht_hash s = Some t" "strid_ask t ''*'' = -1" "valid_ref s r"
  shows "\<exists>h. addHostList1 env (Suc (Suc n)) r ''*'' s
      = Some (put_list r ((get_list s r)\<lparr>hl_List := hl_List (get_list s r) @ [h]\<rparr>) s)
    \<and> h_name h = ''*'' \<and> h_op h = ON_EQ"
proof -
  let ?s1 = "put_list r ((get_list s r)\<lparr>hl_List := hl_List (get_list s r) @ [new_host]\<rparr>) s"
  obtain h where h: "makeHost env (Suc n) r new_host ''*'' ?s1 = Some (h, ?s1)" "h_name h = ''*''" "h_op h = ON_EQ"
    using make_star [of ?s1 t env n r] assms by auto
  have hl: "addHL env add r ''*'' s = Some (False, s)" for add
    by (simp add: addHL_def split_HL_def hostpart_def)
  have "addHostList1 env (Suc (Suc n)) r ''*'' s = new_entry (makeHost env (Suc n)) r ''*'' s"
    unfolding addHostList1.simps(2) [of env "Suc n"] by (simp add: add_body_def strip_not_def hl del: makeHost.simps)
  then show ?thesis using h assms(3) by (auto simp: new_entry_def Let_def simp del: makeHost.simps addHostList1.simps)
qed

lemma elemsL_star: "elemsL ''*'' = [''*'']"
  by (simp add: elemsL_elems elems_def scan_ListX_def scan_list_loop.simps scan_elem.simps(2) Let_def
      STR_VOLA_def collect_def cstr_def)

lemma open_list_index:
  assumes "tab_ok s" "open_list nm a b s = (i, s')"
  shows "\<exists>t. ht_hash s' = Some t \<and> strid_ask t nm = int i"
proof -
  note s' = open_list_ok [OF assms]
  then obtain t where "ht_hash s' = Some t" "tab_names t (ht_list s') (ht_id s')" by (auto elim: tab_okE)
  then show ?thesis using s' unfolding tab_names_def by metis
qed

text \<open>A definition as \<^verbatim>\<open>*\<close> adds one entry for any host to what the list keeps.\<close>

lemma define_star:
  assumes "tab_ok s" "''*'' \<notin> dom (tab_abs s)" "nm \<noteq> ''*''" "tab_name dname = (nr, nm, fl)"
    "tab_body (addHostList1 env n) dname ''*'' s = Some s'"
  shows "\<exists>l h. tab_abs s' = (tab_abs s)(nm \<mapsto> l) \<and> h_name h = ''*'' \<and> h_op h = ON_EQ
    \<and> hl_List l = kept s nm (strchr fl CHR ''+'' \<noteq> None) @ [h]"
proof -
  let ?app = "strchr fl CHR ''+'' \<noteq> None"
  obtain i s1 where o: "open_list nm ?app (is_prefix ''+,'' ''*'') s = (i, s1)" by force
  note s1 = open_list_ok [OF assms(1) o]
  let ?s2 = "or_flags (Listed i) (flags_of nr fl) s1"
  have v: "valid_ref s1 (Listed i)" using s1 by (auto simp: valid_ref_def elim!: tab_okE)
  note g = or_flags_grows [OF v, of "flags_of nr fl", simplified]
  obtain t where t: "ht_hash ?s2 = Some t" "ht_hash s1 = Some t" "tab_names t (ht_list s1) (ht_id s1)"
    using s1 grows_hash [OF g] by (auto elim: tab_okE)
  have "''*'' \<notin> dom (tab_abs s1)" using s1 assms(2,3) by auto
  then have u: "strid_ask t ''*'' = -1"
    using t(2,3) by (auto simp: tab_abs_def Let_def elim!: tab_names_cases [where nm = "''*''"])
  have e: "addHostList1 env n (Listed i) ''*'' ?s2 = Some s'"
    using assms(4,5) o by (simp add: tab_body_def Let_def add_each_fold elemsL_star del: not_None_eq)
  have "n \<noteq> 0" using e by (cases n) auto
  moreover have "n \<noteq> 1" using e
    by (auto simp: add_body_def strip_not_def addHL_def split_HL_def hostpart_def new_entry_def Let_def)
  ultimately obtain k where k: "n = Suc (Suc k)" by (metis One_nat_def not0_implies_Suc)
  have v2: "valid_ref ?s2 (Listed i)" using grows_valid [OF g] v by simp
  obtain h where h: "s' = put_list (Listed i) ((get_list ?s2 (Listed i))\<lparr>hl_List := hl_List (get_list ?s2 (Listed i)) @ [h]\<rparr>) ?s2"
    "h_name h = ''*''" "h_op h = ON_EQ"
    using add_star [OF t(1) u v2, of env k] e k by auto
  have l: "hl_List (get_list ?s2 (Listed i)) = kept s nm ?app"
    using s1 v by (simp add: or_flags_def valid_ref_def)
  obtain l' where l': "tab_abs s' = (tab_abs s)(nm \<mapsto> l')"
    using tab_body_ok [OF assms(1) addHostList1_adds assms(4,5)] by blast
  have "snd (tab_strid (ht_hash s') nm (-1)) = int i"
    using h(1) t s1 by (auto simp: tab_names_def)
  then have "tab_abs s' nm = Some (ht_list s' ! i)" using s1 by (simp add: tab_abs_def)
  moreover have "ht_list s' ! i = get_list s' (Listed i)" by simp
  then have "hl_List (ht_list s' ! i) = kept s nm ?app @ [h]" using l v2 unfolding h(1) by (simp add: valid_ref_def)
  ultimately show ?thesis using l' h(2,3) by auto
qed

subsection \<open>Predefined and protected lists\<close>

text \<open>
  The list of reliable hosts is not what \<^verbatim>\<open>RELIABLE=\<close> says: the first entry that is made creates the
  table and defines \<^verbatim>\<open>.RELIABLE\<close> as \<^verbatim>\<open>*\<close>, and \<^verbatim>\<open>putHostListTab\<close>, which is to set it to the hosts of the
  parameter, does not change a name that is defined. So \<^verbatim>\<open>!.RELIABLE\<close>, which guards the
  administrative pages, forbids nobody.
\<close>

theorem reliable_is_any:
  assumes "init_hostListTab env n minit_hostlist = Some s"
  shows "hostListIsAny (tab_abs s ''.RELIABLE'') \<and> putHostListTab ''.RELIABLE'' hl s = s"
proof -
  let ?add = "addHostList1 env n"
  have fr: "fresh minit_hostlist" by (simp add: fresh_def minit_hostlist_def)
  obtain s1 s2 where s: "tab_body ?add ''.localnet'' (DELEGATE_LOCALNET env) (resize_hostlisttab minit_hostlist) = Some s1"
    "tab_body ?add ''.RELIABLE'' ''*'' s1 = Some s2" "tab_body ?add ''.socksdst'' ''!.localnet'' s2 = Some s"
    using assms fr by (auto simp: init_hostListTab_def init_body_def fresh_def bind_eq_Some_conv)
  have n: "tab_name ''.localnet'' = (False, ''.localnet'', [])" "tab_name ''.RELIABLE'' = (False, ''.RELIABLE'', [])"
    "tab_name ''.socksdst'' = (False, ''.socksdst'', [])" by (simp_all add: tab_name_def)
  have s1: "tab_ok s1" "dom (tab_abs s1) = {''.localnet''}"
    using tab_body_dom [OF _ addHostList1_adds n(1) s(1)] resize_fresh [OF fr] by auto
  have st: "''*'' \<notin> dom (tab_abs s1)" unfolding s1(2) by simp
  have "''.RELIABLE'' \<notin> dom (tab_abs s1)" unfolding s1(2) by simp
  then have "tab_abs s1 ''.RELIABLE'' = None" by (simp add: domIff)
  then obtain l h where l: "tab_abs s2 = (tab_abs s1)(''.RELIABLE'' \<mapsto> l)" "h_name h = ''*''" "hl_List l = [h]"
    using define_star [OF s1(1) st _ n(2) s(2)] by (auto simp: kept_def)
  have "tab_ok s2" using tab_body_dom [OF s1(1) addHostList1_adds n(2) s(2)] by simp
  from tab_body_ok [OF this addHostList1_adds n(3) s(3)]
  have "tab_abs s ''.RELIABLE'' = Some l" "tab_ok s" using l(1) by auto
  then show ?thesis using l(2,3)
    by (auto simp: hostListIsAny_def putHostListTab_def tab_abs_def Let_def split: if_splits)
qed

theorem reliable_is_any_witness:
  "\<exists>n s. init_hostListTab quiet_env n minit_hostlist = Some s
    \<and> hostListIsAny (tab_abs s ''.RELIABLE'') \<and> putHostListTab ''.RELIABLE'' new_list s = s"
proof -
  obtain s where "init_hostListTab quiet_env (init_fuel quiet_env) minit_hostlist = Some s"
    using init_returns [OF quiet_start] unfolding init_hostListTab_def by blast
  with reliable_is_any [OF this] show ?thesis by blast
qed

text \<open>
  Protecting a list (\<^verbatim>\<open>HOSTLIST=name/p:...\<close>, to disable its modification) does not protect it: a
  later definition is reported as an error, and its entries are appended all the same.
\<close>

theorem protected_list_extended:
  assumes "tab_ok s" and "''*'' \<notin> dom (tab_abs s)" and "tab_abs s nm = Some l" and "hasf (hl_flags l) HL_PROTECT"
    and "tab_name nm = (False, nm, [])" and "addHostListTab env n nm ''*'' s = Some s'"
  shows "\<exists>l' h. tab_abs s' nm = Some l' \<and> hl_List l' = hl_List l @ [h] \<and> h_name h = ''*'' \<and> h_op h = ON_EQ"
proof -
  have "nm \<noteq> ''*''" using assms(2,3) by auto
  moreover have "kept s nm False = hl_List l" using assms(3,4) by (simp add: kept_def keeps_entries_def)
  ultimately show ?thesis
    using define_star [OF assms(1,2) _ assms(5), of env n s'] assms(6) by (auto simp: addHostListTab_def)
qed

lemma fresh_table:
  "tab_ok (resize_hostlisttab minit_hostlist)" "lex_ok (resize_hostlisttab minit_hostlist)"
  "tab_abs (resize_hostlisttab minit_hostlist) = Map.empty" "sane_env quiet_env"
proof -
  have "fresh minit_hostlist" by (simp add: fresh_def minit_hostlist_def)
  from resize_fresh [OF this] show "tab_ok (resize_hostlisttab minit_hostlist)"
    "tab_abs (resize_hostlisttab minit_hostlist) = Map.empty" by simp_all
qed (simp_all add: lex_ok_def resize_hostlisttab_def minit_hostlist_def Let_def new_list_def hasf_def
  HL_BYNAMEONLY_def sane_env_def quiet_env_def)

theorem protected_list_extended_witness:
  "\<exists>s s' l n l' h. tab_abs s ''.x'' = Some l \<and> hasf (hl_flags l) HL_PROTECT \<and> addHostListTab quiet_env n ''.x'' ''*'' s = Some s'
    \<and> tab_abs s' ''.x'' = Some l' \<and> hl_List l' = hl_List l @ [h] \<and> h_name h = ''*'' \<and> h_op h = ON_EQ"
proof -
  obtain i s1 where o: "open_list ''.x'' False False (resize_hostlisttab minit_hostlist) = (i, s1)" by force
  note s1 = open_list_ok [OF fresh_table(1) o]
  let ?s = "or_flags (Listed i) HL_PROTECT s1"
  have v: "valid_ref s1 (Listed i)" using s1 by (auto simp: valid_ref_def elim!: tab_okE)
  have g: "grows {Listed i} s1 ?s" by (rule or_flags_grows [OF v]) (simp add: hasf_def HL_defs)
  have ok: "tab_ok ?s" "lex_ok ?s" using tab_ok_grows [OF _ g] s1 lex_ok_grows [OF _ g] open_list_lex [OF o] fresh_table(2)
    by (auto simp: lex_ok_def)
  have d: "dom (tab_abs ?s) = {''.x''}" using tab_abs_dom_grows [OF _ g] s1 by (auto simp: fresh_table)
  obtain t where t: "ht_hash s1 = Some t" "strid_ask t ''.x'' = int i" "0 < i"
    using open_list_index [OF fresh_table(1) o] s1 by auto
  have l: "tab_abs ?s ''.x'' = Some (ht_list ?s ! i)" using t by (simp add: tab_abs_def or_flags_def)
  have p: "hasf (hl_flags (ht_list ?s ! i)) HL_PROTECT"
    using v by (simp add: or_flags_def valid_ref_def) (simp add: hasf_def HL_defs)
  obtain s' where s': "addHostListTab quiet_env (fuel quiet_env ''*'') ''.x'' ''*'' ?s = Some s'"
    using tab_body_returns [OF fresh_table(4) ok, of "''*''" "fuel quiet_env ''*''"]
    by (auto simp: addHostListTab_def list_text_def)
  have "''*'' \<notin> dom (tab_abs ?s)" unfolding d by simp
  moreover have "tab_name ''.x'' = (False, ''.x'', [])" by (simp add: tab_name_def)
  ultimately show ?thesis using protected_list_extended [OF ok(1) _ l p _ s'] l p s' by blast
qed

subsection \<open>What a definition makes of its elements\<close>

text \<open>
  The entry an element stands for, without the calls that making it takes: its protocol, the text up to
  a route, the parts of the text, and the kind of host, given the flags of the list and the
  numbers the table has for the names of lists.
\<close>

definition cut_route :: "string \<Rightarrow> string" where
  "cut_route m = (case strstr m ''//'' of None \<Rightarrow> m | Some route \<Rightarrow> take (length m - length route) m)"

definition entry_of :: "hl_env \<Rightarrow> nat \<Rightarrow> htab option \<Rightarrow> host \<Rightarrow> string \<Rightarrow> host" where
  "entry_of env flags tab h m =
     (case proto_of env m of (proto, m0) \<Rightarrow>
      case parse_host env flags True proto h (cut_route m0) of
        Done h1 \<Rightarrow> h1
      | Named h1 _ n vd \<Rightarrow>
          (case name_host env Own flags (snd (tab_strid tab n (-1))) h1 n of (h2, n2, _, _) \<Rightarrow>
             h2\<lparr>h_name := n2, h_vdomain := (if vd \<noteq> [] then Some vd else None)\<rparr>))"

text \<open>
  The entries of a list after one more element: none for a flag, and an entry for any host in front
  of a first entry that excludes one.
\<close>

definition add_entry :: "(string \<Rightarrow> host) \<Rightarrow> host list \<Rightarrow> string \<Rightarrow> host list" where
  "add_entry mk hs e =
     (if e \<in> {''/a'', ''/u'', ''/R''} then hs
      else let m = strip_not e
           in (if hs = [] \<and> hd0 m = CHR ''!'' \<and> m \<noteq> ''!*'' then [mk ''*''] else hs) @ [mk m])"

definition agree :: "nat \<Rightarrow> nat \<Rightarrow> bool" where
  "agree f g \<longleftrightarrow> (hasf f HL_BYAGENT \<longleftrightarrow> hasf g HL_BYAGENT) \<and> (hasf f HL_BYNAMEONLY \<longleftrightarrow> hasf g HL_BYNAMEONLY)"

lemma entry_of_agree: "agree f g \<Longrightarrow> entry_of env f = entry_of env g"
proof -
  assume "agree f g"
  then have a: "hasf f HL_BYAGENT = hasf g HL_BYAGENT" "hasf f HL_BYNAMEONLY = hasf g HL_BYNAMEONLY"
    by (simp_all add: agree_def)
  have "parse_host env f b proto h m = parse_host env g b proto h m" for b proto h m
    unfolding parse_host_def a by (rule refl)
  moreover have "name_host env r f li h n = name_host env r g li h n" for r li h n
    unfolding name_host_def a by (rule refl)
  ultimately show ?thesis by (intro ext) (simp only: entry_of_def)
qed

lemma parse_name_ident:
  "\<exists>h1 n v. \<forall>b. \<exists>i. parse_name env b proto vd h m = Named h1 i n v"
proof -
  obtain m4 msk where k: "mask_of env m = (m4, msk)" by (metis surj_pair)
  obtain u b n1 where u: "users_of (if m4 = ''.'' then GetHostname env else m4) = (u, b, n1)" by (metis prod_cases3)
  obtain p n2 where p: "ports_of (ifx_port n1) = (p, n2)" by force
  obtain f n3 where f: "family_of (canonWildcardAddr n2) = (f, n3)" by force
  show ?thesis by (simp add: parse_name_def k u p f)
qed

lemma parse_host_ident:
  "(\<exists>h1. \<forall>b. parse_host env fl b proto h m = Done h1)
   \<or> (\<exists>h1 n vd. \<forall>b. \<exists>i. parse_host env fl b proto h m = Named h1 i n vd)"
proof (cases "m = ''&'' \<or> m = ''|'' \<or> m = ''!''")
  case False
  obtain opc m1 where o: "op_of m = (opc, m1)" by force
  obtain m2 v where d: "(case scanVdomain m1 of Some (m, v, _) \<Rightarrow> (m, v) | None \<Rightarrow> (m1, [])) = (m2, v)" by force
  obtain t m3 where t: "mtype_of m2 = (t, m3)" by force
  let ?h = "h\<lparr>h_op := opc, h_type := h_type h OR t\<rparr>"
  have ph: "parse_host env fl b proto h m = (if hasf fl HL_BYAGENT \<or> hasf (h_type ?h) HT_BYAGENT
      then Done (?h\<lparr>h_name := m3\<rparr>) else parse_name env b proto v ?h m3)" for b
    using False by (simp add: parse_host_def o d t Let_def)
  show ?thesis
  proof (cases "hasf fl HL_BYAGENT \<or> hasf (h_type ?h) HT_BYAGENT")
    case True
    then show ?thesis unfolding ph by (simp only: if_True) blast
  next
    case False
    then show ?thesis unfolding ph if_not_P [OF False] using parse_name_ident [of env proto v ?h m3] by blast
  qed
next
  case True
  then have "\<exists>h1. \<forall>b. parse_host env fl b proto h m = Done h1"
    by (elim disjE) (simp_all add: parse_host_def)
  then show ?thesis ..
qed

lemma name_host_ref:
  assumes "name_host env r fl li h n = (h2, n2, q, p)"
  shows "\<exists>q p. name_host env Own fl li h n = (h2, n2, q, p)"
proof -
  define f where "f = (\<lambda>(h :: host, n :: string, q :: (list_ref \<times> string) option, p :: string option). (h, n))"
  have f: "f (a, b, c, d) = (a, b)" for a b c d by (simp add: f_def)
  have "f (name_host env r fl li h n) = f (name_host env Own fl li h n)"
    unfolding name_host_def Let_def if_distrib [where f = f] option.case_distrib [where h = f]
      prod.case_distrib [where h = f] f by (rule refl)
  then show ?thesis using assms by (cases "name_host env Own fl li h n") (simp add: f)
qed

lemma make_entry:
  assumes "ht_hash s \<noteq> None" "valid_ref s (Listed i)" "makeHost env n (Listed i) h m s = Some (h', s')"
  shows "h' = entry_of env (hl_flags (get_list s (Listed i))) (ht_hash s) h m"
proof -
  let ?r = "Listed i"
  let ?fl = "hl_flags (get_list s ?r)"
  obtain k where k: "n = Suc k" using assms(3) by (cases n) auto
  have ini: "init_body env (addHostList1 env k) s = Some s" using assms(1) by (auto simp: init_body_def)
  obtain proto m0 where p: "proto_of env m = (proto, m0)" by force
  obtain m1 s1 where r1: "route_of (makeHost env k) ?r m0 s = Some (m1, s1)"
    using assms(3) by (auto simp: k make_body_def ini p bind_eq_Some_conv)
  have m1: "m1 = cut_route m0" using r1 by (auto simp: route_of_def cut_route_def split: option.splits)
  have same: "get_list y ?r = get_list x ?r" if "grows {Lex, Virtual, Ident} x y" "valid_ref x ?r" for x y
    using that unfolding grows_def list_grows_def by blast
  have g1: "grows {Lex, Virtual, Ident} s s1" by (rule route_grows [OF makeHost_makes assms(1,2) r1])
  have s1: "ht_hash s1 = ht_hash s" "valid_ref s1 ?r" "get_list s1 ?r = get_list s ?r"
    using grows_hash [OF g1] grows_valid [OF g1] same [OF g1] assms(2) by auto
  from parse_host_ident [of env ?fl proto h "cut_route m0"] show ?thesis
  proof (elim disjE exE)
    fix h1
    assume "\<forall>b. parse_host env ?fl b proto h (cut_route m0) = Done h1"
    then show ?thesis using assms(3) s1 by (simp add: k make_body_def ini p r1 m1 entry_of_def del: get_list.simps)
  next
    fix h1 nm vd
    assume a: "\<forall>b. \<exists>i. parse_host env ?fl b proto h (cut_route m0) = Named h1 i nm vd"
    then obtain i1 i2 where n1: "parse_host env ?fl (hl_noIdent (get_list s1 ?r)) proto h (cut_route m0) = Named h1 i1 nm vd"
      "parse_host env ?fl True proto h (cut_route m0) = Named h1 i2 nm vd" by meson
    obtain s2 where s2: "(case i1 of None \<Rightarrow> Some s1 | Some host \<Rightarrow> enableClientIdent (addHostList1 env k) host s1) = Some s2"
      "named_host env (addHostList1 env k) ?r h1 nm vd s2 = Some (h', s')"
      using assms(3) n1(1) s1(3) by (auto simp: k make_body_def ini p r1 m1 bind_eq_Some_conv simp del: get_list.simps)
    have g2: "grows {Lex, Virtual, Ident} s1 s2"
      using s2(1) ident_grows [OF addHostList1_adds, of s1] assms(1) s1(1) by (auto split: option.splits)
    have e2: "ht_hash s2 = ht_hash s" "get_list s2 ?r = get_list s ?r" using grows_hash [OF g2] same [OF g2] s1 by auto
    obtain h2 n2 q pr where nh: "name_host env ?r ?fl (snd (tab_strid (ht_hash s) nm (-1))) h1 nm = (h2, n2, q, pr)"
      by (metis prod_cases4)
    then obtain q' pr' where "name_host env Own ?fl (snd (tab_strid (ht_hash s) nm (-1))) h1 nm = (h2, n2, q', pr')"
      using name_host_ref by blast
    then show ?thesis using s2(2) nh n1(2) by (auto simp: named_host_def e2 entry_of_def p simp del: get_list.simps)
  qed
qed

lemma new_entry_exact:
  assumes "ht_hash s \<noteq> None" "valid_ref s (Listed i)" "new_entry (makeHost env n) (Listed i) m s = Some s'"
  shows "ht_list s' ! i = (ht_list s ! i)
    \<lparr>hl_List := hl_List (ht_list s ! i) @ [entry_of env (hl_flags (ht_list s ! i)) (ht_hash s) new_host m]\<rparr>"
proof -
  let ?r = "Listed i" and ?l = "ht_list s ! i"
  let ?s1 = "put_list ?r (?l\<lparr>hl_List := hl_List ?l @ [new_host]\<rparr>) s"
  obtain h s2 where s2: "makeHost env n ?r new_host m ?s1 = Some (h, s2)"
    and s': "s' = put_list ?r ((get_list s2 ?r)\<lparr>hl_List := (hl_List (get_list s2 ?r))[length (hl_List ?l) := h]\<rparr>) s2"
    using assms(3) by (auto simp: new_entry_def Let_def split: option.splits)
  have v: "i < length (ht_list s)" using assms(2) by (simp add: valid_ref_def)
  have g: "grows {Lex, Virtual, Ident} ?s1 s2"
    using makeHost_makes [of env n] s2 assms(1,2) unfolding makes_def
    by (metis put_list_frame(1,7))
  have v1: "valid_ref ?s1 ?r" using assms(2) by (simp add: valid_ref_def)
  then have l2: "get_list s2 ?r = get_list ?s1 ?r" "valid_ref s2 ?r"
    using g grows_valid [OF g] unfolding grows_def list_grows_def by blast+
  have h: "h = entry_of env (hl_flags ?l) (ht_hash s) new_host m"
    using make_entry [OF _ v1 s2] assms(1) v by simp
  show ?thesis using l2 v by (simp add: s' h valid_ref_def)
qed

lemma apart_flags [simp]:
  "\<not> hasf HL_BYADDR HL_BYAGENT" "\<not> hasf HL_BYAUTH HL_BYAGENT" "\<not> hasf HL_XRANDOM HL_BYAGENT"
  by (simp_all add: hasf_def HL_defs)

lemma add_entry_exact:
  assumes "sane_env env" "no_group e" "ht_hash s \<noteq> None" "valid_ref s (Listed i)"
    "addHostList1 env n (Listed i) e s = Some s'"
  shows "hl_List (ht_list s' ! i)
      = add_entry (entry_of env (hl_flags (ht_list s ! i)) (ht_hash s) new_host) (hl_List (ht_list s ! i)) e
    \<and> agree (hl_flags (ht_list s' ! i)) (hl_flags (ht_list s ! i))"
proof -
  let ?r = "Listed i" and ?m = "strip_not e"
  let ?mk = "entry_of env (hl_flags (ht_list s ! i)) (ht_hash s) new_host"
  obtain k where k: "n = Suc k" using assms(5) by (cases n) auto
  have v: "i < length (ht_list s)" using assms(4) by (simp add: valid_ref_def)
  show ?thesis
  proof (cases "e \<in> {''/a'', ''/u'', ''/R''}")
    case True
    then show ?thesis using assms(5) v
      by (auto simp: k add_body_def or_flags_def add_entry_def agree_def)
  next
    case False
    have hl: "addHL env (addHostList1 env k) ?r ?m s = Some (False, s)"
      using assms(1,2) strip_not_set(1) [of e] by (intro addHL_plain) auto
    let ?neg = "hl_List (ht_list s ! i) = [] \<and> hd0 ?m = CHR ''!'' \<and> ?m \<noteq> ''!*''"
    obtain s1 where s1: "(if ?neg then addHostList1 env k ?r ''*'' s else Some s) = Some s1"
      "new_entry (makeHost env k) ?r ?m s1 = Some s'"
      using assms(5) False hl by (auto simp: k add_body_def Let_def bind_eq_Some_conv)
    have l1: "ht_hash s1 \<noteq> None \<and> valid_ref s1 ?r \<and> ht_hash s1 = ht_hash s \<and> ht_list s1 ! i = (ht_list s ! i)
        \<lparr>hl_List := (if ?neg then [?mk ''*''] else hl_List (ht_list s ! i))\<rparr>"
    proof (cases ?neg)
      case neg: True
      then have a: "addHostList1 env k ?r ''*'' s = Some s1" using s1(1) by simp
      obtain k' where k': "k = Suc k'" using a by (cases k) auto
      have "addHL env (addHostList1 env k') ?r ''*'' s = Some (False, s)"
        by (rule addHL_plain [OF assms(1)]) simp
      then have "new_entry (makeHost env k') ?r ''*'' s = Some s1"
        using a by (simp add: k' add_body_def strip_not_def)
      from new_entry_exact [OF assms(3,4) this] neg
      have "ht_list s1 ! i = (ht_list s ! i)\<lparr>hl_List := [?mk ''*'']\<rparr>" by simp
      moreover have "grows {?r, Lex, Virtual, Ident} s s1"
        using addHostList1_adds a assms(3,4) unfolding adds_def by blast
      ultimately show ?thesis using neg assms(3,4) by (simp add: grows_hash grows_valid)
    next
      case False
      then have "s1 = s" using s1(1) by (metis option.inject)
      then show ?thesis using False assms(3,4) by auto
    qed
    then have "ht_list s' ! i = (ht_list s1 ! i)\<lparr>hl_List := hl_List (ht_list s1 ! i)
        @ [entry_of env (hl_flags (ht_list s1 ! i)) (ht_hash s1) new_host ?m]\<rparr>"
      by (intro new_entry_exact [OF _ _ s1(2)]) auto
    then show ?thesis using l1 False by (auto simp: add_entry_def Let_def agree_def)
  qed
qed

lemma add_fold_exact:
  assumes "sane_env env"
  shows "ht_hash s \<noteq> None \<Longrightarrow> valid_ref s (Listed i) \<Longrightarrow> (\<And>e. e \<in> set es \<Longrightarrow> no_group e) \<Longrightarrow>
    fold (\<lambda>e so. Option.bind so (addHostList1 env n (Listed i) e)) es (Some s) = Some s' \<Longrightarrow>
    hl_List (ht_list s' ! i)
      = foldl (add_entry (entry_of env (hl_flags (ht_list s ! i)) (ht_hash s) new_host)) (hl_List (ht_list s ! i)) es
    \<and> agree (hl_flags (ht_list s' ! i)) (hl_flags (ht_list s ! i)) \<and> ht_hash s' = ht_hash s"
proof (induction es arbitrary: s)
  case (Cons e es)
  then obtain s1 where s1: "addHostList1 env n (Listed i) e s = Some s1"
    "fold (\<lambda>e so. Option.bind so (addHostList1 env n (Listed i) e)) es (Some s1) = Some s'"
    by (cases "addHostList1 env n (Listed i) e s") auto
  have x: "hl_List (ht_list s1 ! i)
      = add_entry (entry_of env (hl_flags (ht_list s ! i)) (ht_hash s) new_host) (hl_List (ht_list s ! i)) e"
    "agree (hl_flags (ht_list s1 ! i)) (hl_flags (ht_list s ! i))"
    using add_entry_exact [OF assms _ Cons.prems(1,2) s1(1)] Cons.prems(3) by auto
  have g: "grows {Listed i, Lex, Virtual, Ident} s s1"
    using addHostList1_adds s1(1) Cons.prems(1,2) unfolding adds_def by blast
  have "ht_hash s1 = ht_hash s" "valid_ref s1 (Listed i)" using grows_hash [OF g] grows_valid [OF g] Cons.prems(2) by auto
  with Cons.IH [of s1] Cons.prems(1,3) s1(2) x entry_of_agree [OF x(2)] show ?case
    by (auto simp: agree_def)
qed (simp add: agree_def)

lemma tab_body_exact:
  assumes "sane_env env" "tab_ok s" "tab_name dname = (nr, nm, fl)" "nonul dlist" "no_group dlist"
    "tab_body (addHostList1 env n) dname dlist s = Some s'"
  shows "\<exists>l. tab_abs s' = (tab_abs s)(nm \<mapsto> l) \<and> hl_what l = nm
    \<and> hl_List l = foldl (add_entry (entry_of env (hl_flags l) (ht_hash s') new_host))
        (kept s nm (strchr fl CHR ''+'' \<noteq> None \<or> is_prefix ''+,'' dlist)) (elemsL (list_text dlist))"
proof -
  let ?app1 = "strchr fl CHR ''+'' \<noteq> None" and ?app2 = "is_prefix ''+,'' dlist"
  obtain i s1 where o: "open_list nm ?app1 ?app2 s = (i, s1)" by force
  note s1 = open_list_ok [OF assms(2) o]
  let ?s2 = "or_flags (Listed i) (flags_of nr fl) s1"
  have v: "valid_ref s1 (Listed i)" using s1 by (auto simp: valid_ref_def elim!: tab_okE)
  have g: "grows {Listed i} s1 ?s2" by (rule or_flags_grows [OF v]) simp
  have h2: "ht_hash ?s2 \<noteq> None" "valid_ref ?s2 (Listed i)" "ht_hash ?s2 = ht_hash s1"
    using s1 grows_hash [OF g] grows_valid [OF g] v by (auto simp: tab_ok_def)
  have l2: "hl_List (ht_list ?s2 ! i) = kept s nm (?app1 \<or> ?app2)" using s1 v by (simp add: or_flags_def valid_ref_def)
  have e: "fold (\<lambda>e so. Option.bind so (addHostList1 env n (Listed i) e)) (elemsL (list_text dlist)) (Some ?s2) = Some s'"
    using assms(3,6) o by (simp add: tab_body_def Let_def add_each_fold list_text_def del: not_None_eq)
  have ng: "no_group x" if "x \<in> set (elemsL (list_text dlist))" for x
  proof -
    have "nonul (list_text dlist)" "set (list_text dlist) \<subseteq> set dlist"
      using assms(4) by (auto simp: list_text_def nonul_def dest: in_set_dropD)
    then show ?thesis using elemsL_set [OF _ that] assms(5) by blast
  qed
  note x = add_fold_exact [OF assms(1) h2(1,2) ng e]
  obtain l' where l': "tab_abs s' = (tab_abs s)(nm \<mapsto> l')" "hl_what l' = nm"
    using tab_body_ok [OF assms(2) addHostList1_adds assms(3,6)] by blast
  have "snd (tab_strid (ht_hash s') nm (-1)) = int i"
    using open_list_index [OF assms(2) o] x h2(3) by auto
  then have "l' = ht_list s' ! i" using l'(1) s1 by (auto simp: tab_abs_def Let_def fun_eq_iff dest: spec [of _ nm])
  then show ?thesis using l' x l2 entry_of_agree [of "hl_flags l'" "hl_flags (ht_list ?s2 ! i)"] by auto
qed

text \<open>
  C2: defining a list refines an update of a map from names to lists, and always returns: after
  \<^verbatim>\<open>HOSTLIST=name/flags:list\<close> the name stands for a list with its former entries when it is protected or
  to be extended (and with none otherwise), followed by one entry for each element of the definition
  in their order (none for a flag, one more for any host when the first of all excludes a
  host), and every other name stands for the same list as before, also when the table had to grow
  and was hashed again. The definition has no groups.
\<close>

theorem addHostListTab_refines:
  assumes "sane_env env" and "tab_ok s" and "lex_ok s" and "tab_name dname = (noresolv, nm, fl)"
    and "nonul dlist" and "no_group dlist"
  shows "\<exists>N. \<forall>n \<ge> N. \<exists>s' l. addHostListTab env n dname dlist s = Some s' \<and> tab_ok s'
    \<and> tab_abs s' = (tab_abs s)(nm \<mapsto> l) \<and> hl_what l = nm
    \<and> hl_List l = foldl (add_entry (entry_of env (hl_flags l) (ht_hash s') new_host))
        (kept s nm (strchr fl CHR ''+'' \<noteq> None \<or> is_prefix ''+,'' dlist)) (elemsL (list_text dlist))"
proof (intro exI [of _ "fuel env (list_text dlist)"] allI impI)
  fix n
  assume n: "fuel env (list_text dlist) \<le> n"
  obtain s' where s': "tab_body (addHostList1 env n) dname dlist s = Some s'" "tab_ok s'"
    using tab_body_returns [OF assms(1-3,5,6) n] by blast
  from tab_body_exact [OF assms(1,2,4-6) s'(1)]
  show "\<exists>s' l. addHostListTab env n dname dlist s = Some s' \<and> tab_ok s'
    \<and> tab_abs s' = (tab_abs s)(nm \<mapsto> l) \<and> hl_what l = nm
    \<and> hl_List l = foldl (add_entry (entry_of env (hl_flags l) (ht_hash s') new_host))
        (kept s nm (strchr fl CHR ''+'' \<noteq> None \<or> is_prefix ''+,'' dlist)) (elemsL (list_text dlist))"
    using s' by (auto simp: addHostListTab_def)
qed

theorem addHostListTab_refines_witness:
  "\<exists>s s' n l. addHostListTab quiet_env n ''.x/+'' ''*'' s = Some s' \<and> tab_ok s'
    \<and> tab_abs s' = (tab_abs s)(''.x'' \<mapsto> l) \<and> hl_what l = ''.x''
    \<and> hl_List l = kept s ''.x'' True @ [entry_of quiet_env (hl_flags l) (ht_hash s') new_host ''*'']"
proof -
  let ?s = "resize_hostlisttab minit_hostlist"
  have t: "tab_name ''.x/+'' = (False, ''.x'', ''+'')" by (simp add: tab_name_def)
  obtain n s' l where "addHostListTab quiet_env n ''.x/+'' ''*'' ?s = Some s'" "tab_ok s'"
    "tab_abs s' = (tab_abs ?s)(''.x'' \<mapsto> l)" "hl_what l = ''.x''"
    "hl_List l = foldl (add_entry (entry_of quiet_env (hl_flags l) (ht_hash s') new_host))
        (kept ?s ''.x'' (strchr ''+'' CHR ''+'' \<noteq> None \<or> is_prefix ''+,'' ''*'')) (elemsL (list_text ''*''))"
    using addHostListTab_refines [OF fresh_table(4,1,2) t, of "''*''"] by auto
  moreover have "elemsL (list_text ''*'') = [''*'']" by (simp add: list_text_def elemsL_star)
  ultimately show ?thesis by (auto simp: add_entry_def strip_not_def)
qed

subsection \<open>Asking the lists of a path\<close>

text \<open>
  The number of addresses of a list that refers to another is wrong: the count of the nested list
  includes what was counted before and is added to it, so that a host and a list of one host are counted as
  three, more than the array of two has room for.
\<close>

theorem HL2VSA_overcounts:
  assumes "path_list s hlid = Some hl" and "hl_List hl = [h1, r]" and "h_listid h1 = 0" and "h_listid r = i" and "0 < i"
    and "hl_List (ht_list s ! i) = [h2]" and "h_listid h2 = 0" and "port \<noteq> 0" and "h_port h1 = None" and "h_port h2 = None"
  shows "HL2VSA (Suc (Suc n)) s hlid port 2 = Some (3, [Some (h_Addr h1, port), Some (h_Addr h2, port)])"
  using assms by (simp add: HL2VSA_def first_port_def numeral_2_eq_2)

lemma find_path_new: "find_path path opts k (pls @ [(path, opts, l)]) =
   (case find_path path opts k pls of Some i \<Rightarrow> Some i | None \<Rightarrow> Some (k + length pls + 1))"
  by (induction path opts k pls rule: find_path.induct) (auto split: option.split)

text \<open>
  A path is compiled into a list once: the second request for the same path and options returns
  the number of the first and changes nothing, and that number names the list that was made.
\<close>

theorem makePathListX_once:
  assumes "ht_hash s \<noteq> None" and "makePathListX env n what path opts s = Some (hlid, s')"
  shows "makePathListX env n' what' path opts s' = Some (hlid, s') \<and> path_list s' (int hlid) \<noteq> None"
proof (cases "find_path path opts 0 (pathlists s)")
  case None
  obtain l s1 where a: "add_each (addHostList1 env n) (\<lambda>e. e) Own path (s\<lparr>own := l\<rparr>) = Some s1"
    and s': "hlid = length (pathlists s1) + 1" "s' = s1\<lparr>pathlists := pathlists s1 @ [(path, opts, own s1)]\<rparr>"
    using assms(2) None by (auto simp: makePathListX_def Let_def)
  have "grows {Own, Lex, Virtual, Ident} (s\<lparr>own := l\<rparr>) s1"
    by (rule add_each_grows [OF addHostList1_adds _ _ a]) (use assms(1) in \<open>simp_all add: valid_ref_def\<close>)
  then have "pathlists s1 = pathlists s" by (simp add: grows_def)
  then show ?thesis using None s' by (simp add: makePathListX_def find_path_new path_list_def)
next
  case (Some k)
  have "find_path path opts j pls = Some k \<Longrightarrow> k \<in> {j + 1..j + length pls}" for j pls
    by (induction path opts j pls rule: find_path.induct) (auto split: if_splits)
  then show ?thesis using Some assms(2) by (force simp: makePathListX_def path_list_def)
qed

theorem makePathListX_once_witness:
  "\<exists>n hlid s'. makePathListX quiet_env n ''MOUNT'' ''*'' [] (resize_hostlisttab minit_hostlist) = Some (hlid, s')
    \<and> makePathListX quiet_env n ''other'' ''*'' [] s' = Some (hlid, s') \<and> path_list s' (int hlid) \<noteq> None"
proof -
  let ?s = "resize_hostlisttab minit_hostlist"
  let ?l = "new_list\<lparr>hl_what := ''MOUNT'', hl_flags := 0\<rparr>"
  have r: "ready (?s\<lparr>own := ?l\<rparr>)" using fresh_table(1,2) by (auto simp: ready_def tab_ok_def lex_ok_def)
  obtain s1 where s1: "add_each (addHostList1 quiet_env (fuel quiet_env ''*'')) (\<lambda>e. e) Own ''*'' (?s\<lparr>own := ?l\<rparr>) = Some s1"
    using add_each_returns [OF fresh_table(4) r, of Own "''*''" "fuel quiet_env ''*''"] by (auto simp: valid_ref_def)
  have "pathlists ?s = []" by (simp add: minit_hostlist_def resize_hostlisttab_def Let_def)
  then obtain hlid s' where m: "makePathListX quiet_env (fuel quiet_env ''*'') ''MOUNT'' ''*'' [] ?s = Some (hlid, s')"
    using s1 by (simp add: makePathListX_def Let_def)
  have "ht_hash ?s \<noteq> None" using r by (simp add: ready_def)
  from makePathListX_once [OF this m] show ?thesis using m by blast
qed

theorem HL2VSA_overcounts_witness:
  "HL2VSA (Suc (Suc 0)) (minit_hostlist\<lparr>ht_list := [plain_list [], plain_list [plain_entry ON_EQ ''b'' (v4 2)]],
      pathlists := [([], [], plain_list [plain_entry ON_EQ ''a'' (v4 1), (plain_entry ON_EQ ''.l'' AddrZero)\<lparr>h_listid := 1\<rparr>])]\<rparr>)
     1 53 2
   = Some (3, [Some (h_Addr (plain_entry ON_EQ ''a'' (v4 1)), 53), Some (h_Addr (plain_entry ON_EQ ''b'' (v4 2)), 53)])"
  by (rule HL2VSA_overcounts [where i = 1 and r = "(plain_entry ON_EQ ''.l'' AddrZero)\<lparr>h_listid := 1\<rparr>"
        and hl = "plain_list [plain_entry ON_EQ ''a'' (v4 1), (plain_entry ON_EQ ''.l'' AddrZero)\<lparr>h_listid := 1\<rparr>]"])
    (simp_all add: path_list_def plain_list_def plain_entry_def new_host_def)

end
