(* ===== verification/HostMask.thy ===== *)
theory HostMask
  imports HostParse HostList
begin

section \<open>HostMask: what the masks and ranges of an entry accept\<close>

text \<open>
  The masks of a host list entry (\<^verbatim>\<open>/24\<close>, \<^verbatim>\<open>/@B4\<close>, \<^verbatim>\<open>/255.255.255.0\<close>) and the address ranges
  (\<^verbatim>\<open>192.168.[16-31]\<close>), read by the functions of \<open>HostParse\<close> and applied by those of \<open>HostMatch\<close>:
  which addresses they make equal.
\<close>

subsection \<open>What a mask compares\<close>

lemma strchr_append: "c \<notin> set s \<Longrightarrow> strchr (s @ c # t) c = Some (c # t)"
  by (induction s) auto

lemma mask_of_slash:
  "CHR ''/'' \<notin> set h \<Longrightarrow> \<not> TimePeriod h \<Longrightarrow> isnetmasklen mp = 0 \<Longrightarrow> mp \<noteq> ''.'' \<Longrightarrow> strchr mp CHR ''.'' = None \<Longrightarrow>
   mask_of env (h @ CHR ''/'' # mp) = (h,
     if VSA_strisaddr env mp then (case VA_strtoVAddr env mp of Some a \<Rightarrow> a | None \<Rightarrow> AddrNull)
     else if hd0 mp = CHR ''@'' then set_I3 MaskZero (class_mask mp)
     else (case scan_x mp of Some x \<Rightarrow> set_I3 MaskZero x | None \<Rightarrow> MaskZero))"
  by (simp add: mask_of_def strchr_append Let_def)

lemma atoi_show_nat: "n < 2 ^ 31 \<Longrightarrow> atoi (show_nat n) = int n"
  using scan_d_show_nat [of n "[]"] by (simp add: atoi_def ctype_defs uc_def)

lemma show_nat_short: "n < 100 \<Longrightarrow> length (show_nat n) = 1 \<or> length (show_nat n) = 2"
  using less_mult_imp_div_less [of n 10 10] by (simp add: show_nat.simps [of n] show_nat.simps [of "n div 10"])

lemma isnetmasklen_show: "1 \<le> n \<Longrightarrow> n \<le> 31 \<Longrightarrow> isnetmasklen (show_nat n) = n"
proof -
  assume n: "1 \<le> n" "n \<le> 31"
  have "(\<exists>c. show_nat n = [c]) \<or> (\<exists>c d. show_nat n = [c, d])"
    using show_nat_short [of n] n by (auto simp: length_Suc_conv numeral_2_eq_2)
  then have "isdigit (chr_at (show_nat n) 0) \<and> chr_at (show_nat n) 1 = NUL
      \<or> isdigit (chr_at (show_nat n) 0) \<and> isdigit (chr_at (show_nat n) 1) \<and> chr_at (show_nat n) 2 = NUL"
    using show_nat_digits [of n] by (auto simp: chr_at_def)
  then show ?thesis unfolding isnetmasklen_def using n by (simp add: atoi_show_nat)
qed

lemma high_bits:
  fixes a b :: u32
  shows "a AND push_bit n (- 1) = b AND push_bit n (- 1) \<longleftrightarrow> drop_bit n a = drop_bit n b"
proof -
  have 1: "drop_bit n (x AND push_bit n (- 1)) = drop_bit n x" for x :: u32
    by (rule bit_eqI) (auto simp: bit_simps simp del: push_bit_minus_one dest: bit_imp_le_length)
  have 2: "x AND push_bit n (- 1) = push_bit n (drop_bit n x)" for x :: u32
    by (rule bit_eqI) (auto simp: bit_simps simp del: push_bit_minus_one dest: bit_imp_le_length)
  show ?thesis using 1 2 by metis
qed

text \<open>
  C34: a mask given as a length \<^verbatim>\<open>host/n\<close>, for n from 1 to 31, compares exactly the first n bits of
  two IPv4 addresses.
\<close>

theorem netmask_compares_prefix:
  assumes "CHR ''/'' \<notin> set h" and "\<not> TimePeriod h" and "1 \<le> n" and "n \<le> 31"
    and "mask_of env (h @ CHR ''/'' # show_nat n) = (h', msk)"
  shows "h' = h \<and> (AddrAND (v4 a) msk = AddrAND (v4 b) msk \<longleftrightarrow> drop_bit (32 - n) a = drop_bit (32 - n) b)"
proof -
  have "mask_of env (h @ CHR ''/'' # show_nat n) = (h, set_I3 MaskZero (push_bit (32 - n) 0xFFFFFFFF))"
    using assms(1-4) by (simp add: mask_of_def strchr_append Let_def isnetmasklen_show)
  then have m: "h' = h" "msk = set_I3 MaskZero (push_bit (32 - n) 0xFFFFFFFF)" using assms(5) by auto
  have "AddrAND (v4 x) msk = v4 (x AND push_bit (32 - n) 0xFFFFFFFF)" for x
    by (simp add: m AddrAND_def v4_def set_I3_def MaskZero_def)
  moreover have "(0xFFFFFFFF :: u32) = - 1" by simp
  ultimately show ?thesis using high_bits [of a "32 - n" b] m(1) by (simp add: v4_def)
qed

theorem netmask_compares_prefix_witness:
  "''10.0.0.0'' = ''10.0.0.0'' \<and> (AddrAND (v4 1) (set_I3 MaskZero (push_bit 8 0xFFFFFFFF)) = AddrAND (v4 2) (set_I3 MaskZero (push_bit 8 0xFFFFFFFF))
     \<longleftrightarrow> drop_bit (32 - 24) (1 :: u32) = drop_bit (32 - 24) 2)"
  by (rule netmask_compares_prefix [of "''10.0.0.0''" 24 quiet_env "''10.0.0.0''"])
   (simp_all add: TimePeriod_def mask_of_def isnetmasklen_show Let_def)

lemma not_netmasklen_32: "isnetmasklen ''32'' = 0"
  by (simp add: isnetmasklen_def atoi_def scan_d_def skip_ws_def ctype_defs uc_def i32_def sat64_def Let_def)

text \<open>
  The length 32 is not taken as a length: as \<^verbatim>\<open>inet_aton\<close> reads the text \<^verbatim>\<open>32\<close> as the address
  0.0.0.32, the mask of \<^verbatim>\<open>host/32\<close> is that address, and two addresses are the same when they agree
  in a single bit. The manual redefines \<^verbatim>\<open>.localnet\<close> with \<^verbatim>\<open>./32\<close> for the own host alone.
\<close>

theorem netmask_32_compares_one_bit:
  assumes "VSA_strisaddr env ''32''" and "VA_strtoVAddr env ''32'' = Some (v4 32)"
    and "CHR ''/'' \<notin> set h" and "\<not> TimePeriod h"
  shows "mask_of env (h @ ''/32'') = (h, v4 32)
    \<and> (AddrAND (v4 a) (v4 32) = AddrAND (v4 b) (v4 32) \<longleftrightarrow> bit a 5 = bit b 5)"
proof -
  have "mask_of env (h @ ''/32'') = (h, v4 32)"
    using assms not_netmasklen_32 mask_of_slash [of h "''32''" env] by simp
  moreover have "a AND 32 = b AND 32 \<longleftrightarrow> bit a 5 = bit b 5"
  proof -
    have "bit (32 :: u32) n \<longleftrightarrow> n = 5" for n using bit_exp_iff [where 'a = u32, of 5 n] by auto
    then have B: "bit (x AND 32) n \<longleftrightarrow> n = 5 \<and> bit x 5" for x :: u32 and n by (auto simp: bit_and_iff)
    show ?thesis
    proof
      assume "a AND 32 = b AND 32"
      then show "bit a 5 = bit b 5" using B [of a 5] B [of b 5] by simp
    next
      assume "bit a 5 = bit b 5"
      then show "a AND 32 = b AND 32" by (intro bit_eqI) (simp only: B)
    qed
  qed
  ultimately show ?thesis by (simp add: AddrAND_def v4_def)
qed

text \<open>
  The mask of a subnet of a class, documented as \<^verbatim>\<open>/@B4\<close> for a class B network divided into sixteen
  subnets, loses as many leading bits as it gains: networks that differ in their first bits are the same.
\<close>

theorem class_subnet_mask_shifted:
  assumes "k < 16"
  shows "class_mask (CHR ''@'' # CHR ''B'' # show_nat k) = drop_bit k 0xFFFF0000
    \<and> (0 < k \<longrightarrow> \<not> bit (class_mask (CHR ''@'' # CHR ''B'' # show_nat k)) 31)"
proof -
  have "class_mask (CHR ''@'' # CHR ''B'' # show_nat k) = drop_bit k 0xFFFF0000"
    using assms by (cases "k = 0") (auto simp: class_mask_def Let_def atoi_show_nat nat_mod_distrib)
  then show ?thesis by (auto simp: bit_drop_bit_eq dest: bit_imp_le_length)
qed

definition addr_env :: hl_env where
  "addr_env = quiet_env\<lparr>VSA_strisaddr := (\<lambda>a. a = ''32''), VA_strtoVAddr := (\<lambda>a. if a = ''32'' then Some (v4 32) else None)\<rparr>"

theorem netmask_32_compares_one_bit_witness:
  "mask_of addr_env (''.'' @ ''/32'') = (''.'', v4 32)
    \<and> (AddrAND (v4 0xC0A80121) (v4 32) = AddrAND (v4 0x08080828) (v4 32) \<longleftrightarrow> bit (0xC0A80121 :: u32) 5 = bit (0x08080828 :: u32) 5)"
  by (rule netmask_32_compares_one_bit) (simp_all add: addr_env_def TimePeriod_def)

theorem class_subnet_mask_shifted_witness:
  "class_mask (CHR ''@'' # CHR ''B'' # show_nat 4) = drop_bit 4 0xFFFF0000
    \<and> \<not> bit (class_mask (CHR ''@'' # CHR ''B'' # show_nat 4)) 31"
  using class_subnet_mask_shifted [of 4] by simp

subsection \<open>Address ranges\<close>

definition show_range :: "nat \<times> nat \<Rightarrow> string" where
  "show_range p = (if fst p = snd p then show_nat (fst p)
                   else CHR ''['' # show_nat (fst p) @ CHR ''-'' # show_nat (snd p) @ '']'')"

lemma digits_no_dot: "list_all isdigit ds \<Longrightarrow> CHR ''.'' \<notin> set ds"
  by (auto simp: list_all_iff ctype_defs uc_def)

lemma show_range_no_dot: "CHR ''.'' \<notin> set (show_range p)"
  using digits_no_dot [OF show_nat_digits [of "fst p"]] digits_no_dot [OF show_nat_digits [of "snd p"]]
  by (auto simp: show_range_def)

lemma show_range_value:
  assumes "fst p < 256" "snd p < 256"
  shows "(if hd0 (show_range p) = CHR ''[''
      then (case scan_d_d (tl (show_range p)) of [lo, hi] \<Rightarrow> Some (lo, hi) | _ \<Rightarrow> None)
      else Some (atoi (show_range p), atoi (show_range p))) = Some (int (fst p), int (snd p))"
proof (cases "fst p = snd p")
  case True
  obtain c cs where c: "show_nat (fst p) = c # cs" by (meson list.exhaust show_nat_nonempty)
  have "isdigit c" using show_nat_digits [of "fst p"] c by simp
  then have "c \<noteq> CHR ''[''" by (auto simp: ctype_defs uc_def)
  then show ?thesis using True assms c atoi_show_nat [of "fst p"] by (simp add: show_range_def)
next
  case False
  have "scan_d (show_nat (fst p) @ CHR ''-'' # show_nat (snd p) @ '']'')
      = Some (int (fst p), CHR ''-'' # show_nat (snd p) @ '']'')"
    "scan_d (show_nat (snd p) @ '']'') = Some (int (snd p), '']'')"
    by (rule scan_d_show_nat; use assms in \<open>simp add: ctype_defs uc_def\<close>)+
  then show ?thesis using False by (simp add: show_range_def scan_d_d_def)
qed

lemma takeWhile_dot:
  "CHR ''.'' \<notin> set w \<Longrightarrow> takeWhile (\<lambda>c. c \<noteq> CHR ''.'') (w @ CHR ''.'' # t) = w
     \<and> dropWhile (\<lambda>c. c \<noteq> CHR ''.'') (w @ CHR ''.'' # t) = CHR ''.'' # t"
  "CHR ''.'' \<notin> set w \<Longrightarrow> takeWhile (\<lambda>c. c \<noteq> CHR ''.'') w = w \<and> dropWhile (\<lambda>c. c \<noteq> CHR ''.'') w = []"
  by (induction w) auto

lemma uchar_small: "n < 256 \<Longrightarrow> uchar (int n) = n"
  by (simp add: uchar_def)

lemma addrrange_step:
  assumes "fst p < 256" "snd p < 256" "takeWhile (\<lambda>c. c \<noteq> CHR ''.'') ap = show_range p"
    "dropWhile (\<lambda>c. c \<noteq> CHR ''.'') ap = dp"
  shows "addrrange_loop (Suc k) ap rs = (if dp = [] then (take (4 - k) (rs[3 - k := p]) @ replicate k (0, 255), 0)
    else addrrange_loop k (tl dp) (rs[3 - k := p]))"
  using assms(1,2) by (simp only: addrrange_loop.simps Let_def assms(3,4) show_range_value [OF assms(1,2)])
    (simp add: uchar_small)

lemma addrrange_loop_show:
  assumes "length rs = 4" "ps \<noteq> []" "length ps \<le> k" "k \<le> 4" "\<forall>p \<in> set ps. fst p < 256 \<and> snd p < 256"
  shows "addrrange_loop k (join CHR ''.'' (map show_range ps)) rs
    = (take (4 - k) rs @ ps @ replicate (k - length ps) (0, 255), 0)"
  using assms
proof (induction ps arbitrary: k rs)
  case (Cons p ps)
  obtain k' where k: "k = Suc k'" using Cons.prems(3) by (cases k) auto
  note w = show_range_no_dot [of p]
  have p: "fst p < 256" "snd p < 256" using Cons.prems(5) by auto
  let ?rs = "rs[3 - k' := p]"
  have t: "take (4 - k') ?rs = take (3 - k') rs @ [p]"
    using Cons.prems(1,4) k by (simp add: take_Suc_conv_app_nth numeral_eq_Suc Suc_diff_le)
  show ?case
  proof (cases "ps = []")
    case True
    then show ?thesis using addrrange_step [OF p, of "show_range p" "[]" k' rs] takeWhile_dot(2) [OF w] t k
      by (simp del: addrrange_loop.simps)
  next
    case False
    have j: "join CHR ''.'' (map show_range (p # ps)) = show_range p @ CHR ''.'' # join CHR ''.'' (map show_range ps)"
      using False by (simp add: join_Cons)
    have "addrrange_loop k' (join CHR ''.'' (map show_range ps)) ?rs
        = (take (4 - k') ?rs @ ps @ replicate (k' - length ps) (0, 255), 0)"
      by (rule Cons.IH) (use Cons.prems False k in auto)
    then show ?thesis unfolding j using addrrange_step [OF p, of _ _ k' rs] takeWhile_dot(1) [OF w] t k
      by (simp del: addrrange_loop.simps)
  qed
qed simp

text \<open>
  C33: an address range such as \<^verbatim>\<open>192.168.[16-31]\<close> accepts exactly the addresses whose octets are in the
  ranges, with any value where the text ends.
\<close>

theorem addrrange_exact:
  assumes "ps \<noteq> []" and "length ps \<le> 4" and "\<forall>p \<in> set ps. fst p < 256 \<and> snd p < 256" and "length (ranges h) = 4"
  shows "snd (scan_addrrange h (join CHR ''.'' (map show_range ps))) = 0
    \<and> (match_addrrange (fst (scan_addrrange h (join CHR ''.'' (map show_range ps)))) a
       \<longleftrightarrow> (\<forall>i < length ps. fst (ps ! i) \<le> octet (I3 a) i \<and> octet (I3 a) i \<le> snd (ps ! i)))"
proof -
  have s: "scan_addrrange h (join CHR ''.'' (map show_range ps))
      = (h\<lparr>ranges := ps @ replicate (4 - length ps) (0, 255)\<rparr>, 0)"
    using addrrange_loop_show [OF assms(4,1,2) _ assms(3)] by (simp add: scan_addrrange_def)
  have o: "octet x i \<le> 255" for x i
  proof -
    have "drop_bit ((3 - i) * 8) x AND 0xFF \<le> 0xFF" by (rule word_and_le1)
    then show ?thesis unfolding octet_def word_le_nat_alt by simp
  qed
  have "match_addrrange (h\<lparr>ranges := ps @ replicate (4 - length ps) (0, 255)\<rparr>) a
      \<longleftrightarrow> (\<forall>i < 4. i < length ps \<longrightarrow> fst (ps ! i) \<le> octet (I3 a) i \<and> octet (I3 a) i \<le> snd (ps ! i))"
    using o by (auto simp: match_addrrange_def nth_append not_less)
  then show ?thesis using assms(2) by (auto simp: s)
qed

theorem addrrange_exact_witness:
  "snd (scan_addrrange new_host (join CHR ''.'' (map show_range [(192, 192), (168, 168), (16, 31)]))) = 0
    \<and> (match_addrrange (fst (scan_addrrange new_host (join CHR ''.'' (map show_range [(192, 192), (168, 168), (16, 31)])))) (v4 0xC0A81401)
       \<longleftrightarrow> (\<forall>i < length [(192 :: nat, 192 :: nat), (168, 168), (16, 31)].
             fst ([(192 :: nat, 192 :: nat), (168, 168), (16, 31)] ! i) \<le> octet (I3 (v4 0xC0A81401)) i
             \<and> octet (I3 (v4 0xC0A81401)) i \<le> snd ([(192 :: nat, 192 :: nat), (168, 168), (16, 31)] ! i)))"
  by (rule addrrange_exact) (simp_all add: new_host_def)

end
