(* ===== verification/Codec.thy ===== *)
theory Codec
  imports StrScan
begin

section \<open>Codec: check sums, sorting and small codecs (\<open>rary/\<close>)\<close>

text \<open>
  Routines other parts of the program rely on: the check sum of \<^verbatim>\<open>cksum\<close> (\<open>rary/cksum.cpp\<close>), the
  selection sort \<^verbatim>\<open>Bsort\<close> (\<open>rary/bsort.cpp\<close>), the seven-bit encoding of messages
  (\<open>rary/codec.cpp\<close>) and the decoder of uuencoded lines (\<open>rary/uu.cpp\<close>). Output buffers are taken
  as large enough; an operation that reads behind the end of its input gives \<open>None\<close>.
\<close>

subsection \<open>Check sums\<close>

definition CRC32POLY :: u32 where "CRC32POLY = 0x04C11DB7"

fun crc_bits :: "nat \<Rightarrow> u32 \<Rightarrow> 8 word \<Rightarrow> u32" where
  "crc_bits 0 crc oct = crc"
| "crc_bits (Suc bi) crc oct =
     (let ovf = (bit crc 31 \<noteq> bit oct 7); crc' = push_bit 1 crc
      in crc_bits bi (if ovf then crc' XOR CRC32POLY else crc') (push_bit 1 oct))"

fun strCRC32add :: "u32 \<Rightarrow> string \<Rightarrow> u32" where
  "strCRC32add crc [] = crc"
| "strCRC32add crc (c # s) = strCRC32add (crc_bits 8 crc (of_nat (uc c))) s"

text \<open>The bytes of the length, lowest first, up to the last that is not zero.\<close>

fun crc_len :: "nat \<Rightarrow> nat \<Rightarrow> string" where
  "crc_len 0 len = []"
| "crc_len (Suc n) len = byte (int len) # (if len div 256 = 0 then [] else crc_len n (len div 256))"

definition strCRC32end :: "u32 \<Rightarrow> nat \<Rightarrow> u32" where
  "strCRC32end crc len = strCRC32add crc (crc_len 4 len) XOR 0xFFFFFFFF"

definition strCRC32 :: "string \<Rightarrow> u32" where
  "strCRC32 str = strCRC32end (strCRC32add 0 str) (length str)"

text \<open>\<^verbatim>\<open>fcrc32X\<close> on the blocks that \<^verbatim>\<open>fread\<close> returns.\<close>

definition fcrc32X :: "string list \<Rightarrow> u32 \<times> nat" where
  "fcrc32X blocks =
     (case foldl (\<lambda>(crc, cnt) buf. (strCRC32add crc buf, cnt + length buf)) (0, 0) blocks of
        (crc, cnt) \<Rightarrow> (strCRC32end crc cnt, cnt))"

text \<open>
  A step of the register, which is linear and injective: reading bytes adds them to the upper
  end of the register and steps it.
\<close>

definition crc_shift :: "u32 \<Rightarrow> u32" where
  "crc_shift crc = (if bit crc 31 then push_bit 1 crc XOR CRC32POLY else push_bit 1 crc)"

lemma bit_crc_shift:
  "bit (crc_shift x) n \<longleftrightarrow> n < 32 \<and> ((0 < n \<and> bit x (n - 1)) \<noteq> (bit x 31 \<and> bit CRC32POLY n))"
  by (auto simp: crc_shift_def bit_simps dest: bit_imp_le_length simp del: push_bit_Suc)

lemma crc_shift_xor: "crc_shift (a XOR b) = crc_shift a XOR crc_shift b"
  by (rule bit_word_eqI) (auto simp: bit_crc_shift bit_simps)

lemma crc_shift_zero: "crc_shift a = 0 \<Longrightarrow> a = 0"
proof (rule bit_word_eqI)
  fix n assume a: "crc_shift a = 0" and "n < LENGTH(32)"
  have "bit CRC32POLY 0" by (simp add: CRC32POLY_def)
  then have top: "\<not> bit a 31" using a bit_crc_shift [of a 0] by simp
  have "n < 31 \<Longrightarrow> \<not> bit a n" using bit_crc_shift [of a "Suc n"] a top by simp
  then show "bit a n = bit 0 n" using top \<open>n < LENGTH(32)\<close> by (cases "n = 31") auto
qed

lemma crc_shifts_xor: "(crc_shift ^^ n) (a XOR b) = (crc_shift ^^ n) a XOR (crc_shift ^^ n) b"
  by (induction n) (simp_all add: crc_shift_xor)

lemma crc_shifts_zero: "(crc_shift ^^ n) a = 0 \<Longrightarrow> a = 0"
  by (induction n) (auto dest: crc_shift_zero)

lemma xor_cancel: "a XOR c = b XOR c \<Longrightarrow> a = b" for a b c :: u32
  by (metis xor.assoc xor_self_eq xor.right_neutral)

lemma crc_shifts_inject: "(crc_shift ^^ n) a = (crc_shift ^^ n) b \<Longrightarrow> a = b"
proof -
  assume "(crc_shift ^^ n) a = (crc_shift ^^ n) b"
  then have "(crc_shift ^^ n) (a XOR b) = 0" by (simp add: crc_shifts_xor)
  then have "a XOR b = 0" by (rule crc_shifts_zero)
  then have "a XOR b = b XOR b" by simp
  then show "a = b" by (rule xor_cancel)
qed

lemma bit_uc_high: "8 \<le> n \<Longrightarrow> \<not> bit (uc c) n"
proof -
  assume "8 \<le> n"
  then have "(2 :: nat) ^ 8 \<le> 2 ^ n" by (rule power_increasing) simp
  then have "uc c < 2 ^ n" using uc_less [of c] by (simp del: uc_less)
  then show ?thesis by (simp add: bit_iff_odd)
qed

definition at :: "nat \<Rightarrow> char \<Rightarrow> u32" where
  "at n c = push_bit n (of_nat (uc c))"

lemma crc_bits_shift:
  "crc_bits n r oct = (crc_shift ^^ n) (r XOR push_bit 24 (ucast oct)) XOR push_bit 24 (ucast (push_bit n oct))"
proof (induction n arbitrary: r oct)
  case (Suc n)
  let ?r = "if bit r 31 \<noteq> bit oct 7 then push_bit 1 r XOR CRC32POLY else push_bit 1 r"
  have "?r XOR push_bit 24 (ucast (push_bit 1 oct)) = crc_shift (r XOR push_bit 24 (ucast oct))"
    by (rule bit_word_eqI) (auto simp: bit_crc_shift bit_simps simp del: push_bit_Suc)
  then have "(crc_shift ^^ Suc n) (r XOR push_bit 24 (ucast oct))
      = (crc_shift ^^ n) (?r XOR push_bit 24 (ucast (push_bit 1 oct)))"
    by (simp add: funpow_Suc_right del: funpow.simps push_bit_Suc)
  moreover have "push_bit n (push_bit 1 oct) = push_bit (Suc n) oct" by (simp only: push_bit_push_bit plus_1_eq_Suc add.commute)
  ultimately show ?case using Suc.IH [of ?r "push_bit 1 oct"] by (simp only: crc_bits.simps Let_def)
qed (simp add: ac_simps)

lemma crc_step: "crc_bits 8 r (of_nat (uc c)) = (crc_shift ^^ 8) (r XOR at 24 c)"
proof -
  have "ucast (of_nat (uc c) :: 8 word) = (of_nat (uc c) :: u32)"
    by (rule bit_word_eqI) (use bit_uc_high in \<open>force simp: bit_simps bit_of_nat_iff not_le [symmetric]\<close>)
  moreover have "push_bit 8 (of_nat (uc c) :: 8 word) = 0"
    by (rule bit_word_eqI) (simp add: bit_simps)
  ultimately show ?thesis by (simp add: crc_bits_shift at_def)
qed

lemma crc_shifts_low: "k + n \<le> 32 \<Longrightarrow> (\<forall>i \<ge> k. \<not> bit x i) \<Longrightarrow> (crc_shift ^^ n) x = push_bit n x"
proof (induction n arbitrary: k x)
  case (Suc n)
  then have "crc_shift x = push_bit 1 x" by (simp add: crc_shift_def)
  moreover have "\<forall>i \<ge> k + 1. \<not> bit (push_bit 1 x) i" using Suc.prems(2) by (auto simp: bit_simps simp del: push_bit_Suc)
  ultimately have "(crc_shift ^^ n) (crc_shift x) = push_bit n (push_bit 1 x)" using Suc.IH [of "k + 1"] Suc.prems(1) by simp
  then show ?case by (simp add: funpow_Suc_right del: funpow.simps)
qed simp

lemma bit_at: "bit (at k c) i \<longleftrightarrow> k \<le> i \<and> i < 32 \<and> bit (uc c) (i - k)"
  by (auto simp: at_def bit_simps bit_of_nat_iff)

lemma at_shift: "k \<le> 16 \<Longrightarrow> (crc_shift ^^ 8) (at k c) = at (k + 8) c"
  using crc_shifts_low [of "k + 8" 8 "at k c"]
  by (auto simp: bit_at bit_uc_high) (simp add: at_def add.commute)

text \<open>The bytes as they are added to the register, the first at bit \<open>k\<close>.\<close>

fun be :: "nat \<Rightarrow> string \<Rightarrow> u32" where
  "be k [] = 0"
| "be k (c # bs) = at k c XOR be (k - 8) bs"

lemma be_shift: "k \<le> 16 \<Longrightarrow> 8 * length bs \<le> k + 8 \<Longrightarrow> (crc_shift ^^ 8) (be k bs) = be (k + 8) bs"
proof (induction bs arbitrary: k)
  case Nil
  then show ?case using crc_shifts_low [of 0 8 0] by simp
next
  case (Cons c bs)
  show ?case
  proof (cases bs)
    case Nil
    then show ?thesis using at_shift [OF Cons.prems(1)] crc_shifts_low [of 0 8 0] by (simp add: crc_shifts_xor)
  next
    case (Cons d ds)
    then have "8 \<le> k" using Cons.prems by simp
    then show ?thesis using Cons.IH [of "k - 8"] Cons.prems at_shift [of k c] by (simp add: crc_shifts_xor)
  qed
qed

lemma be_high: "k + 8 \<le> i \<Longrightarrow> 8 * length bs \<le> k + 8 \<Longrightarrow> \<not> bit (be k bs) i"
proof (induction bs arbitrary: k)
  case (Cons c bs)
  have "\<not> bit (be (k - 8) bs) i"
  proof (cases bs)
    case (Cons d ds)
    then show ?thesis using Cons.IH [of "k - 8"] Cons.prems by simp
  qed simp
  then show ?case using Cons.prems(1) by (simp add: bit_simps bit_at bit_uc_high)
qed simp

lemma be_inject:
  "length bs = length cs \<Longrightarrow> 8 * length bs \<le> k + 8 \<Longrightarrow> k \<le> 24 \<Longrightarrow> be k bs = be k cs \<Longrightarrow> bs = cs"
proof (induction bs cs arbitrary: k rule: list_induct2)
  case (Cons b bs c cs)
  have low: "\<not> bit (be (k - 8) xs) i" if "k \<le> i" "length xs = length bs" for xs i
  proof (cases xs)
    case (Cons d ds)
    then show ?thesis using be_high [of "k - 8" i xs] Cons.prems(1) that by simp
  qed simp
  have "bit (uc b) n = bit (uc c) n" for n
  proof (cases "n < 8")
    case True
    have "bit (be k (b # bs)) (k + n) = bit (be k (c # cs)) (k + n)" using Cons.prems(3) by simp
    then show ?thesis using True Cons.prems(2) Cons.hyps low [of "k + n" bs] low [of "k + n" cs]
      by (simp add: bit_simps bit_at)
  qed (simp add: bit_uc_high)
  then have "b = c" using bit_eqI [of "uc b" "uc c"] by simp
  moreover have "bs = cs"
  proof (cases bs)
    case (Cons d ds)
    have "at k c XOR be (k - 8) bs = at k c XOR be (k - 8) cs" using Cons.prems(3) \<open>b = c\<close> by simp
    then have "at k c XOR (at k c XOR be (k - 8) bs) = at k c XOR (at k c XOR be (k - 8) cs)" by simp
    then have "be (k - 8) bs = be (k - 8) cs" by (simp flip: xor.assoc)
    then show ?thesis using Cons.IH [of "k - 8"] Cons.prems Cons by simp
  qed (use Cons.hyps in simp)
  ultimately show ?case by simp
qed simp

lemma crc_block: "length bs \<le> 4 \<Longrightarrow> strCRC32add r bs = (crc_shift ^^ (8 * length bs)) (r XOR be 24 bs)"
proof (induction bs arbitrary: r)
  case (Cons c bs)
  have "strCRC32add r (c # bs) = (crc_shift ^^ (8 * length bs)) ((crc_shift ^^ 8) (r XOR at 24 c) XOR be (16 + 8) bs)"
    using Cons by (simp add: crc_step)
  also have "\<dots> = (crc_shift ^^ (8 * length bs)) ((crc_shift ^^ 8) (r XOR at 24 c XOR be 16 bs))"
    using be_shift [of 16 bs] Cons.prems by (simp add: crc_shifts_xor ac_simps)
  finally show ?case by (simp add: ac_simps flip: funpow_add [THEN fun_cong, unfolded o_apply])
qed simp

lemma crc_append: "strCRC32add r (s @ t) = strCRC32add (strCRC32add r s) t"
  by (induction s arbitrary: r) simp_all

lemma crc_register_inject: "strCRC32add r s = strCRC32add r' s \<Longrightarrow> r = r'"
proof (induction s arbitrary: r r')
  case (Cons c s)
  then have "(crc_shift ^^ 8) (r XOR at 24 c) = (crc_shift ^^ 8) (r' XOR at 24 c)" by (simp add: crc_step)
  from crc_shifts_inject [OF this] show ?case by (rule xor_cancel)
qed simp

text \<open>
  C31: The check sum finds every change of up to four consecutive bytes: two texts of the same length that
  differ only within such a window have different sums.
\<close>

theorem crc_detects_burst:
  assumes "length b = length c" and "length b \<le> 4" and "b \<noteq> c"
  shows "strCRC32 (s @ b @ t) \<noteq> strCRC32 (s @ c @ t)"
proof
  let ?r = "strCRC32add 0 s"
  assume "strCRC32 (s @ b @ t) = strCRC32 (s @ c @ t)"
  then have "strCRC32add (strCRC32add (strCRC32add ?r b) t) n = strCRC32add (strCRC32add (strCRC32add ?r c) t) n"
    if "n = crc_len 4 (length (s @ b @ t))" for n
    using that assms(1) xor_cancel by (simp only: strCRC32_def strCRC32end_def crc_append length_append)
  then have "strCRC32add ?r b = strCRC32add ?r c" by (blast dest: crc_register_inject)
  then have "?r XOR be 24 b = ?r XOR be 24 c" using assms(1,2) crc_shifts_inject by (simp add: crc_block)
  then have "be 24 b = be 24 c" using xor_cancel [of "be 24 b" ?r "be 24 c"] by (simp add: ac_simps)
  then show False using be_inject [OF assms(1), of 24] assms(2,3) by simp
qed

theorem crc_detects_burst_witness: "strCRC32 (''ab'' @ ''cd'' @ ''e'') \<noteq> strCRC32 (''ab'' @ ''ce'' @ ''e'')"
  by (rule crc_detects_burst) simp_all

text \<open>
  The sum of a file does not depend on the blocks in which it is read.
\<close>

theorem fcrc32X_blocks: "fcrc32X blocks = (strCRC32 (concat blocks), length (concat blocks))"
proof -
  have "foldl (\<lambda>(crc, cnt) buf. (strCRC32add crc buf, cnt + length buf)) (r, n) blocks
      = (strCRC32add r (concat blocks), n + length (concat blocks))" for r n
    by (induction blocks arbitrary: r n) (simp_all add: crc_append)
  then show ?thesis by (simp add: fcrc32X_def strCRC32_def)
qed


subsection \<open>Sorting\<close>

text \<open>
  \<^verbatim>\<open>srcp\<close> holds the elements not yet taken. Each pass takes the first of the least of them;
  \<open>None\<close> as the result would be the element of index -1.
\<close>

definition Bsort_max :: "('a \<Rightarrow> 'a \<Rightarrow> int) \<Rightarrow> 'a option list \<Rightarrow> nat \<Rightarrow> nat option" where
  "Bsort_max compar srcp nel =
     foldl (\<lambda>max di. case srcp ! di of
              None \<Rightarrow> max
            | Some x \<Rightarrow>
                (case max of
                   None \<Rightarrow> Some di
                 | Some m \<Rightarrow> if 0 < compar (the (srcp ! m)) x then Some di else max)) None [0..<nel]"

fun Bsort_loop :: "('a \<Rightarrow> 'a \<Rightarrow> int) \<Rightarrow> 'a option list \<Rightarrow> nat \<Rightarrow> 'a list option" where
  "Bsort_loop compar srcp 0 = Some []"
| "Bsort_loop compar srcp (Suc n) =
     (case Bsort_max compar srcp (length srcp) of
        None \<Rightarrow> None
      | Some m \<Rightarrow> map_option (Cons (the (srcp ! m))) (Bsort_loop compar (srcp[m := None]) n))"

definition Bsort :: "('a \<Rightarrow> 'a \<Rightarrow> int) \<Rightarrow> 'a list \<Rightarrow> 'a list option" where
  "Bsort compar base = Bsort_loop compar (map Some base) (length base)"

abbreviation live :: "'a option list \<Rightarrow> 'a list" where "live xs \<equiv> List.map_filter (\<lambda>x. x) xs"

lemma live_simps: "live [] = []" "live (None # xs) = live xs" "live (Some x # xs) = x # live xs"
  "live (xs @ ys) = live xs @ live ys" "live (map Some zs) = zs"
  by (simp_all add: List.map_filter_def o_def)

text \<open>The entry that a pass takes: what is before it is greater, what is behind it is not less.\<close>

definition first_least :: "('a \<Rightarrow> 'k :: linorder) \<Rightarrow> 'a option list \<Rightarrow> nat \<Rightarrow> bool" where
  "first_least k xs m \<longleftrightarrow> (\<exists>x. m < length xs \<and> xs ! m = Some x
     \<and> (\<forall>u \<in> set (live (take m xs)). k x < k u) \<and> (\<forall>v \<in> set (live (drop (Suc m) xs)). k x \<le> k v))"

lemma first_least_snoc:
  assumes "first_least k xs m" and "xs ! m = Some x"
  shows "k x \<le> k y \<Longrightarrow> first_least k (xs @ [Some y]) m" "first_least k (xs @ [None]) m"
    "k y < k x \<Longrightarrow> first_least k (xs @ [Some y]) (length xs)"
proof -
  have m: "m < length xs" "\<forall>u \<in> set (live (take m xs)). k x < k u" "\<forall>v \<in> set (live (drop (Suc m) xs)). k x \<le> k v"
    using assms by (auto simp: first_least_def)
  show "k x \<le> k y \<Longrightarrow> first_least k (xs @ [Some y]) m" "first_least k (xs @ [None]) m"
    using assms m by (auto simp: first_least_def nth_append live_simps)
  assume "k y < k x"
  moreover have "live xs = live (take m xs) @ x # live (drop (Suc m) xs)"
    using m(1) assms(2) by (metis id_take_nth_drop live_simps(3,4))
  ultimately have "\<forall>u \<in> set (live xs). k y < k u" using m(2,3) by auto
  then show "first_least k (xs @ [Some y]) (length xs)" by (simp add: first_least_def live_simps)
qed

lemma Bsort_max_least:
  assumes "\<forall>a b. 0 < compar a b \<longleftrightarrow> k b < k a" and "n \<le> length xs"
  shows "case Bsort_max compar xs n of
      None \<Rightarrow> live (take n xs) = [] | Some m \<Rightarrow> m < n \<and> first_least k (take n xs) m"
  using assms(2)
proof (induction n)
  case (Suc n)
  then have t: "take (Suc n) xs = take n xs @ [xs ! n]" "length (take n xs) = n" by (simp_all add: take_Suc_conv_app_nth)
  show ?case
  proof (cases "Bsort_max compar xs n")
    case None
    then have "live (take n xs) = []" using Suc by simp
    then show ?thesis using None t
      by (cases "xs ! n") (auto simp: Bsort_max_def live_simps first_least_def nth_append)
  next
    case (Some m)
    then have m: "m < n" "first_least k (take n xs) m" using Suc by auto
    then obtain x where x: "take n xs ! m = Some x" by (auto simp: first_least_def)
    then have "xs ! m = Some x" using m by simp
    then show ?thesis using Some t m(1) first_least_snoc [OF m(2) x] assms(1)
      by (cases "xs ! n") (auto simp: Bsort_max_def less_Suc_eq not_less)
  qed
qed (simp add: Bsort_max_def live_simps)

lemma sort_key_first: "\<forall>u \<in> set us. k x < k u \<Longrightarrow> \<forall>v \<in> set vs. k x \<le> k v \<Longrightarrow>
    sort_key k (us @ x # vs) = x # sort_key k (us @ vs)"
  by (induction us) (auto intro: insort_is_Cons)

lemma Bsort_loop_sorts:
  assumes "\<forall>a b. 0 < compar a b \<longleftrightarrow> k b < k a"
  shows "n = length (live xs) \<Longrightarrow> Bsort_loop compar xs n = Some (sort_key k (live xs))"
proof (induction n arbitrary: xs)
  case (Suc n)
  have l: "case Bsort_max compar xs (length xs) of
      None \<Rightarrow> live xs = [] | Some m \<Rightarrow> m < length xs \<and> first_least k xs m"
    using Bsort_max_least [OF assms le_refl, of xs] by (simp split: option.splits)
  then obtain m where m: "Bsort_max compar xs (length xs) = Some m" "first_least k xs m"
    using Suc.prems by (cases "Bsort_max compar xs (length xs)") auto
  then obtain x where x: "m < length xs" "xs ! m = Some x" "\<forall>u \<in> set (live (take m xs)). k x < k u"
      "\<forall>v \<in> set (live (drop (Suc m) xs)). k x \<le> k v" by (auto simp: first_least_def)
  have e: "live xs = live (take m xs) @ x # live (drop (Suc m) xs)"
    using x(1,2) by (metis id_take_nth_drop live_simps(3,4))
  have "live (xs[m := None]) = live (take m xs) @ live (drop (Suc m) xs)"
    using x(1) by (simp add: upd_conv_take_nth_drop live_simps)
  then show ?case using Suc.IH [of "xs[m := None]"] Suc.prems e m(1) x sort_key_first [OF x(3,4)] by simp
qed simp

text \<open>
  C32: \<^verbatim>\<open>Bsort\<close> returns, and its result is the stable sort by the order the comparison stands for: elements
  that compare equal keep their order, as the mount table relies on.
\<close>

theorem Bsort_stable:
  assumes "\<forall>a b. 0 < compar a b \<longleftrightarrow> k b < k a"
  shows "Bsort compar xs = Some (sort_key k xs)"
  unfolding Bsort_def using Bsort_loop_sorts [OF assms, of "length xs" "map Some xs"] by (simp add: live_simps)

theorem Bsort_stable_witness:
  "Bsort (\<lambda>a b. int (length a) - int (length b)) [''bb'', ''a'', ''cc'', ''d''] = Some (sort_key length [''bb'', ''a'', ''cc'', ''d''])"
  by (rule Bsort_stable) auto


subsection \<open>Seven-bit text\<close>

text \<open>
  \<^verbatim>\<open>encode7\<close> writes a type and the text as it is, or every byte as two characters. The type is \<open>None\<close> for binary
  data. A text that ends in a newline is written without a terminator.
\<close>

fun encode7_type :: "string \<Rightarrow> char option" where
  "encode7_type [] = Some CHR ''7''"
| "encode7_type (c # s) =
     (if c = CR then (if s = [LF] then Some CHR ''r'' else None)
      else if c = LF then (if s = [] then Some CHR ''l'' else None)
      else if sc c = 27 then encode7_type s
      else if sc c < 0x20 \<or> 0x7F \<le> sc c then None
      else encode7_type s)"

definition encode7 :: "string \<Rightarrow> string" where
  "encode7 srcs =
     (case encode7_type srcs of
        Some ty \<Rightarrow> ty # srcs @ (if ty = CHR ''7'' then [LF, NUL] else [])
      | None \<Rightarrow> CHR ''b'' # concat (map (\<lambda>c. [byte (int (uc c div 16) + 64), byte (int (uc c mod 16) + 64)]) srcs)
                @ [LF, NUL])"

text \<open>\<open>None\<close> is a read behind the terminator, by which an odd number of digits is left.\<close>

fun decode7_loop :: "string \<Rightarrow> string \<Rightarrow> string option" where
  "decode7_loop acc [] = None"
| "decode7_loop acc [c] = (if c = NUL \<or> c = CR \<or> c = LF then Some acc else None)"
| "decode7_loop acc (c # d # s) =
     (if c = NUL \<or> c = CR \<or> c = LF then Some acc
      else decode7_loop (acc @ [byte (push_bit 4 (sc c - 64) OR (sc d - 64))]) s)"

definition decode7 :: "string \<Rightarrow> string option" where
  "decode7 encs =
     (let ty = hd0 encs; txt = cstr (tl encs); dp = takeWhile (\<lambda>c. c \<noteq> CR \<and> c \<noteq> LF) txt
      in if ty = CHR ''b'' then decode7_loop [] (tl encs)
         else if ty = CHR ''7'' \<or> ty = CHR ''l'' \<or> ty = CHR ''r'' then
           Some (if dp = txt then txt
                 else if ty = CHR ''7'' then dp else if ty = CHR ''l'' then dp @ [LF] else dp @ [CR, LF])
         else Some (cstr encs))"

lemma sc_byte_small: "0 \<le> n \<Longrightarrow> n < 128 \<Longrightarrow> sc (byte n) = n"
  using uc_byte [of n] by (auto simp: sc_def)

lemma digits7: "byte (push_bit 4 (sc (byte (int (uc c div 16) + 64)) - 64) OR (sc (byte (int (uc c mod 16) + 64)) - 64)) = c"
proof -
  have "uc c div 16 < 16" "uc c mod 16 < 16" using uc_less [of c] by (simp_all add: less_mult_imp_div_less)
  then have s: "sc (byte (int (uc c div 16) + 64)) - 64 = int (uc c div 16)" "sc (byte (int (uc c mod 16) + 64)) - 64 = int (uc c mod 16)"
    by (simp_all add: sc_byte_small)
  have "int (uc c div 16) = drop_bit 4 (int (uc c))" "int (uc c mod 16) = take_bit 4 (int (uc c))"
    by (simp_all add: drop_bit_eq_div take_bit_eq_mod zdiv_int zmod_int)
  moreover have "push_bit 4 (drop_bit 4 (int (uc c))) OR take_bit 4 (int (uc c)) = int (uc c)"
    by (rule bit_eqI) (auto simp: bit_simps)
  ultimately have "push_bit 4 (int (uc c div 16)) OR int (uc c mod 16) = int (uc c)" by simp
  then show ?thesis by (simp add: s)
qed


lemma decode7_bytes:
  "decode7_loop acc (concat (map (\<lambda>c. [byte (int (uc c div 16) + 64), byte (int (uc c mod 16) + 64)]) s) @ LF # t)
   = Some (acc @ s)"
proof (induction s arbitrary: acc)
  case Nil
  show ?case by (cases t) simp_all
next
  case (Cons c s)
  have "uc c div 16 < 16" using uc_less [of c] by (simp add: less_mult_imp_div_less)
  then have "64 \<le> uc (byte (int (uc c div 16) + 64))" using uc_byte [of "int (uc c div 16) + 64"] by simp
  then have "byte (int (uc c div 16) + 64) \<notin> {NUL, CR, LF}" by (auto simp: uc_def)
  then show ?case using Cons.IH by (simp add: digits7)
qed

lemma encode7_text:
  assumes "encode7_type s = Some ty"
  shows "ty = CHR ''7'' \<and> list_all (\<lambda>c. c \<noteq> NUL \<and> c \<noteq> CR \<and> c \<noteq> LF) s
    \<or> (\<exists>t. list_all (\<lambda>c. c \<noteq> NUL \<and> c \<noteq> CR \<and> c \<noteq> LF) t
        \<and> (ty = CHR ''l'' \<and> s = t @ [LF] \<or> ty = CHR ''r'' \<and> s = t @ [CR, LF]))"
  using assms
proof (induction s)
  case (Cons c s)
  have n: "sc NUL = 0" by (simp add: sc_def uc_def)
  consider "c = CR" "s = [LF]" "ty = CHR ''r''" | "c = LF" "s = []" "ty = CHR ''l''"
    | "c \<noteq> CR" "c \<noteq> LF" "c \<noteq> NUL" "encode7_type s = Some ty"
    using Cons.prems n by (cases "c = NUL") (auto split: if_splits)
  then show ?case
  proof cases
    case 3
    from Cons.IH [OF 3(4)] show ?thesis
    proof (elim disjE exE conjE)
      fix t assume t: "list_all (\<lambda>c. c \<noteq> NUL \<and> c \<noteq> CR \<and> c \<noteq> LF) t" "ty = CHR ''l''" "s = t @ [LF]"
      then show ?thesis using 3 by (intro disjI2 exI [of _ "c # t"]) simp
    next
      fix t assume t: "list_all (\<lambda>c. c \<noteq> NUL \<and> c \<noteq> CR \<and> c \<noteq> LF) t" "ty = CHR ''r''" "s = t @ [CR, LF]"
      then show ?thesis using 3 by (intro disjI2 exI [of _ "c # t"]) simp
    qed (use 3 in simp)
  qed auto
qed simp

lemma takeWhile_lines:
  assumes "list_all (\<lambda>c. c \<noteq> NUL \<and> c \<noteq> CR \<and> c \<noteq> LF) t" and "c = CR \<or> c = LF"
  shows "takeWhile (\<lambda>c. c \<noteq> CR \<and> c \<noteq> LF) (cstr (t @ c # u)) = t" "t \<noteq> cstr (t @ c # u)"
proof -
  have "cstr (t @ c # u) = t @ c # cstr u"
    using assms by (auto simp: cstr_def list_all_iff takeWhile_append2)
  then show "takeWhile (\<lambda>c. c \<noteq> CR \<and> c \<noteq> LF) (cstr (t @ c # u)) = t" "t \<noteq> cstr (t @ c # u)"
    using assms by (auto simp: list_all_iff takeWhile_append2)
qed

text \<open>
  C35: \<^verbatim>\<open>decode7\<close> restores every string of bytes that \<^verbatim>\<open>encode7\<close> encoded, whatever follows the encoding in its
  buffer.
\<close>

theorem encode7_roundtrip: "decode7 (encode7 s @ rest) = Some s"
proof (cases "encode7_type s")
  case None
  then show ?thesis using decode7_bytes [of "[]" s "NUL # rest"] by (simp add: encode7_def decode7_def Let_def hd0_def)
next
  case (Some ty)
  from encode7_text [OF Some] consider
      "ty = CHR ''7''" "list_all (\<lambda>c. c \<noteq> NUL \<and> c \<noteq> CR \<and> c \<noteq> LF) s"
    | t where "list_all (\<lambda>c. c \<noteq> NUL \<and> c \<noteq> CR \<and> c \<noteq> LF) t" "ty = CHR ''l''" "s = t @ [LF]"
    | t where "list_all (\<lambda>c. c \<noteq> NUL \<and> c \<noteq> CR \<and> c \<noteq> LF) t" "ty = CHR ''r''" "s = t @ [CR, LF]" by blast
  then show ?thesis
    by cases (use Some takeWhile_lines in \<open>simp_all add: encode7_def decode7_def Let_def\<close>)
qed


subsection \<open>Uuencoded lines\<close>

fun uudec_loop :: "nat \<Rightarrow> nat \<Rightarrow> int \<Rightarrow> string \<Rightarrow> string \<Rightarrow> string \<times> bool" where
  "uudec_loop 0 cx co acc sp = (acc, True)"
| "uudec_loop (Suc k) cx co acc [] = (acc, True)"
| "uudec_loop (Suc k) cx co acc (c # sp) =
     (let scb = sc c - 32; cx' = (cx + 1) mod 4
      in if c = CR \<or> c = LF then (acc, True)
         else if scb < 0 \<or> 64 < scb then (acc, False)
         else if cx = 0 then uudec_loop k cx' (push_bit 2 scb) acc sp
         else if cx = 1 then uudec_loop k cx' (push_bit 4 scb) (acc @ [byte (co OR (3 AND drop_bit 4 scb))]) sp
         else if cx = 2 then uudec_loop k cx' (push_bit 6 scb) (acc @ [byte (co OR (15 AND drop_bit 2 scb))]) sp
         else uudec_loop k cx' co (acc @ [byte (co OR (63 AND scb))]) sp)"

text \<open>The value returned, and the bytes stored in \<^verbatim>\<open>dst\<close>.\<close>

definition uudec_body :: "string \<Rightarrow> int \<times> string" where
  "uudec_body src =
     (let len = sc (hd0 src) - 32
      in if len = 64 then (0, [])
         else if len < 0 \<or> 64 < len then (-1, [])
         else case uudec_loop 64 0 0 [] (tl src) of (dst, ok) \<Rightarrow> (if ok then len else -1, dst))"

text \<open>The new context and the value returned.\<close>

definition uu_skip :: "bool \<Rightarrow> string \<Rightarrow> bool \<times> bool" where
  "uu_skip ctx src =
     (if \<not> ctx then (if take 6 src = ''begin '' then (True, True) else (False, False))
      else if take 3 src = ''end'' then (False, True)
      else if fst (uudec_body src) < 0 then (False, False)
      else (True, True))"

text \<open>A line as \<^verbatim>\<open>uuencode\<close> writes it: the length, and four characters for every three bytes.\<close>

definition uu_chr :: "nat \<Rightarrow> char" where "uu_chr n = byte (int n + 32)"

fun uu_groups :: "string \<Rightarrow> string" where
  "uu_groups [] = []"
| "uu_groups (a # s) =
     (let b = uc (hd0 s); c = uc (hd0 (tl s))
      in [uu_chr (uc a div 4), uu_chr (uc a mod 4 * 16 + b div 16), uu_chr (b mod 16 * 4 + c div 64), uu_chr (c mod 64)])
     @ uu_groups (drop 2 s)"

lemma or_low: "push_bit n a OR (mask n AND b) = a * 2 ^ n + b mod 2 ^ n" for a b :: int
proof -
  have "push_bit n a OR take_bit n b = push_bit n a + take_bit n b"
    by (rule disjunctive_add [symmetric]) (auto simp: bit_simps)
  then show ?thesis by (simp add: push_bit_eq_mult take_bit_eq_mod take_bit_eq_mask ac_simps flip: take_bit_eq_mask)
qed

lemma uu_chr_val: "n \<le> 64 \<Longrightarrow> sc (uu_chr n) - 32 = int n" "n \<le> 64 \<Longrightarrow> uu_chr n \<noteq> CR" "n \<le> 64 \<Longrightarrow> uu_chr n \<noteq> LF"
proof -
  assume "n \<le> 64"
  then show s: "sc (uu_chr n) - 32 = int n" by (simp add: uu_chr_def sc_byte_small)
  then show "uu_chr n \<noteq> CR" "uu_chr n \<noteq> LF" by (auto simp: sc_def uc_def)
qed

lemma byte_eq: "n mod 256 = uc c \<Longrightarrow> byte (int n) = c"
  by (simp add: byte_def nat_mod_distrib)

lemma uu_bytes:
  "byte (push_bit 2 (int (uc a div 4)) OR (3 AND drop_bit 4 (int (uc a mod 4 * 16 + uc b div 16)))) = a" (is "byte ?A = a")
  "byte (push_bit 4 (int (uc a mod 4 * 16 + uc b div 16)) OR (15 AND drop_bit 2 (int (uc b mod 16 * 4 + uc c div 64)))) = b" (is "byte ?B = b")
  "byte (push_bit 6 (int (uc b mod 16 * 4 + uc c div 64)) OR (63 AND int (uc c mod 64))) = c" (is "byte ?C = c")
proof -
  have l: "uc b div 16 < 16" "uc c div 64 < 4" by (simp_all add: less_mult_imp_div_less)
  have m: "3 = (mask 2 :: int)" "15 = (mask 4 :: int)" "63 = (mask 6 :: int)" by (simp_all add: mask_eq_exp_minus_1)
  have "?A = int (uc a div 4 * 4 + (uc a mod 4 * 16 + uc b div 16) div 16 mod 4)"
    unfolding m or_low by (simp add: drop_bit_eq_div zdiv_int zmod_int)
  moreover have "(uc a mod 4 * 16 + uc b div 16) div 16 = uc a mod 4" using l(1) by simp
  ultimately show "byte ?A = a" by simp
  have "?B = int ((uc a mod 4 * 16 + uc b div 16) * 16 + (uc b mod 16 * 4 + uc c div 64) div 4 mod 16)"
    unfolding m or_low by (simp add: drop_bit_eq_div zdiv_int zmod_int)
  moreover have "(uc b mod 16 * 4 + uc c div 64) div 4 = uc b mod 16" using l(2) by simp
  moreover have "((uc a mod 4 * 16 + uc b div 16) * 16 + uc b mod 16) mod 256 = uc b"
  proof -
    have "(uc a mod 4 * 16 + uc b div 16) * 16 + uc b mod 16 = uc b + 256 * (uc a mod 4)" by (simp add: algebra_simps)
    then show ?thesis by simp
  qed
  ultimately show "byte ?B = b" by (simp only: byte_eq mod_mod_trivial)
  have "?C = int ((uc b mod 16 * 4 + uc c div 64) * 64 + uc c mod 64 mod 64)"
    unfolding m or_low by (simp add: zmod_int zdiv_int)
  moreover have "((uc b mod 16 * 4 + uc c div 64) * 64 + uc c mod 64) mod 256 = uc c"
  proof -
    have "(uc b mod 16 * 4 + uc c div 64) * 64 + uc c mod 64 = uc c + 256 * (uc b mod 16)" by (simp add: algebra_simps)
    then show ?thesis by simp
  qed
  ultimately show "byte ?C = c" by (simp only: byte_eq mod_mod_trivial)
qed

lemma uudec_group:
  "\<exists>co'. uudec_loop (k + 4) 0 co acc
      ([uu_chr (uc a div 4), uu_chr (uc a mod 4 * 16 + uc b div 16), uu_chr (uc b mod 16 * 4 + uc c div 64), uu_chr (uc c mod 64)] @ t)
    = uudec_loop k 0 co' (acc @ [a, b, c]) t"
proof -
  have l: "uc a div 4 < 64" "uc b div 16 < 16" "uc c div 64 < 4" "uc a mod 4 < 4" "uc b mod 16 < 16" "uc c mod 64 < 64"
    by (simp_all add: less_mult_imp_div_less)
  then have v: "uc a div 4 \<le> 64" "uc a mod 4 * 16 + uc b div 16 \<le> 64" "uc b mod 16 * 4 + uc c div 64 \<le> 64" "uc c mod 64 \<le> 64"
    by linarith+
  have k: "k + 4 = Suc (Suc (Suc (Suc k)))" by simp
  show ?thesis unfolding k append_Cons append_Nil uudec_loop.simps Let_def uu_chr_val(1) [OF v(1)] uu_chr_val(1) [OF v(2)]
      uu_chr_val(1) [OF v(3)] uu_chr_val(1) [OF v(4)]
    using uu_bytes(1) [of a b] uu_bytes(2) [of a b c] uu_bytes(3) [of b c] uu_chr_val(2,3) [OF v(1)] uu_chr_val(2,3) [OF v(2)] uu_chr_val(2,3) [OF v(3)] uu_chr_val(2,3) [OF v(4)] v
    by auto
qed

lemma uudec_groups:
  "length d \<le> 3 * n \<Longrightarrow> 4 * n < k \<Longrightarrow> \<exists>pad. uudec_loop k 0 co acc (uu_groups d @ LF # t) = (acc @ d @ pad, True)"
proof (induction n arbitrary: d k co acc)
  case 0
  then show ?case by (cases k) auto
next
  case (Suc n)
  show ?case
  proof (cases d)
    case Nil
    then show ?thesis using Suc.prems by (cases k) auto
  next
    case (Cons a s)
    obtain k' where k: "k = k' + 4" "4 * n < k'" using Suc.prems(2) by (intro that [of "k - 4"]) auto
    obtain co' where g: "uudec_loop k 0 co acc (uu_groups d @ LF # t)
        = uudec_loop k' 0 co' (acc @ [a, hd0 s, hd0 (tl s)]) (uu_groups (drop 2 s) @ LF # t)"
      using uudec_group [of k' co acc a "hd0 s" "hd0 (tl s)" "uu_groups (drop 2 s) @ LF # t"] Cons k(1) by (auto simp: Let_def)
    have "length (drop 2 s) \<le> 3 * n" using Suc.prems(1) Cons by simp
    then obtain pad where "uudec_loop k' 0 co' (acc @ [a, hd0 s, hd0 (tl s)]) (uu_groups (drop 2 s) @ LF # t)
        = ((acc @ [a, hd0 s, hd0 (tl s)]) @ drop 2 s @ pad, True)"
      using Suc.IH [of "drop 2 s" k' co' "acc @ [a, hd0 s, hd0 (tl s)]"] k(2) by auto
    moreover consider "s = []" | b where "s = [b]" | b c u where "s = b # c # u" by (metis neq_Nil_conv)
    then have "\<exists>pad'. [a, hd0 s, hd0 (tl s)] @ drop 2 s @ pad = d @ pad'" using Cons by cases auto
    ultimately show ?thesis using g by auto
  qed
qed

text \<open>
  \<^verbatim>\<open>uudec_body\<close> restores the data of every uuencoded line of at most 45 bytes, the longest that
  \<^verbatim>\<open>uuencode\<close> writes: it returns their number, and they are what \<^verbatim>\<open>dst\<close> starts with.
\<close>

theorem uudec_line:
  assumes "length d \<le> 45"
  shows "fst (uudec_body (uu_chr (length d) # uu_groups d @ LF # t)) = int (length d)
    \<and> take (length d) (snd (uudec_body (uu_chr (length d) # uu_groups d @ LF # t))) = d"
proof -
  have "sc (uu_chr (length d)) - 32 = int (length d)" using assms uu_chr_val(1) [of "length d"] by simp
  moreover obtain pad where "uudec_loop 64 0 0 [] (uu_groups d @ LF # t) = (d @ pad, True)"
    using uudec_groups [of d 15 64 0 "[]" t] assms by auto
  ultimately show ?thesis using assms by (simp add: uudec_body_def Let_def)
qed

theorem uudec_line_witness:
  "fst (uudec_body (uu_chr (length ''Cat'') # uu_groups ''Cat'' @ LF # [])) = int (length ''Cat'')
    \<and> take (length ''Cat'') (snd (uudec_body (uu_chr (length ''Cat'') # uu_groups ''Cat'' @ LF # []))) = ''Cat''"
  by (rule uudec_line) simp

text \<open>No line, well-formed or not, stores more than 48 bytes: the buffers of 64 bytes are large enough.\<close>

lemma uudec_loop_length:
  "cx < 4 \<Longrightarrow> 4 * length (fst (uudec_loop k cx co acc sp)) \<le> 4 * length acc + 3 * k + (4 - cx) mod 4"
proof (induction k cx co acc sp rule: uudec_loop.induct)
  case (3 k cx co acc c sp)
  then consider "cx = 0" | "cx = 1" | "cx = 2" | "cx = 3" by linarith
  then show ?case by cases (use "3.IH" [OF refl refl] in \<open>auto simp: Let_def\<close>)
qed simp_all

lemma uudec_body_bound: "length (snd (uudec_body src)) \<le> 48"
  using uudec_loop_length [of 0 64 0 "[]" "tl src"] by (auto simp: uudec_body_def Let_def split: prod.splits)

end
