(* ===== verification/Rfc822.thy ===== *)
theory Rfc822
  imports StrScan "HOL-Library.Sublist"
begin

section \<open>Rfc822: fields of a message header (\<open>mimekit/rfc822.cpp\<close>)\<close>

text \<open>
  The header of a message is a text of fields, each a line with its continuation lines, up to an
  empty line. The routines find, read, replace, add and remove fields and parts of their values.
  A pointer into the header is the suffix it points to; \<open>before h p\<close> is what precedes it. Buffers
  without a siz of their own are of \<^verbatim>\<open>MAX_MIMEHEAD\<close> bytes and are taken as large enough.
\<close>

definition before :: "string \<Rightarrow> string \<Rightarrow> string" where
  "before h p = take (length h - length p) h"

subsection \<open>Finding a field\<close>

definition ff_value :: "string \<Rightarrow> string" where
  "ff_value csp =
     (let a = dropWhile (\<lambda>c. c = SP) csp; b = (if hd0 a = CHR '':'' then tl a else a)
      in dropWhile (\<lambda>c. c = SP) b)"

definition ff_start :: "string \<Rightarrow> string \<Rightarrow> string" where
  "ff_start field csp = (if field = [] then dropWhile (\<lambda>c. c \<noteq> CHR '':'' \<and> c \<noteq> SP) csp else csp)"

definition ff_match :: "string \<Rightarrow> string \<Rightarrow> bool" where
  "ff_match field csp \<longleftrightarrow> strncaseeq csp field (length field)
     \<and> (chr_at csp (length field) = CHR '':'' \<or> chr_at csp (length field) = SP)"

text \<open>The line after this one.\<close>

definition next_line :: "string \<Rightarrow> string option" where
  "next_line s = map_option tl (strchr s LF)"

lemma strchr_length: "strchr s c = Some t \<Longrightarrow> length t \<le> length s"
  by (induction s) (auto split: if_splits)

lemma next_line_length: "next_line s = Some t \<Longrightarrow> length t < length s"
proof -
  assume "next_line s = Some t"
  then obtain u where u: "strchr s LF = Some u" "t = tl u" by (auto simp: next_line_def)
  then have "u \<noteq> []" by (induction s) (auto split: if_splits)
  then show ?thesis using u strchr_length [OF u(1)] by (cases u) auto
qed

function findField_loop :: "string \<Rightarrow> string \<Rightarrow> string \<Rightarrow> (string \<times> string) option" where
  "findField_loop head field csp0 =
     (if csp0 = [] then None
      else let csp = ff_start field csp0
           in if ff_match field csp
              then Some (if field = [] then head else csp, ff_value (drop (length field) csp))
              else case next_line csp of
                     Some nsp \<Rightarrow> findField_loop head field nsp
                   | None \<Rightarrow> None)"
  by pat_completeness auto
termination
proof (relation "measure (\<lambda>(h, f, c). length c)", simp, clarsimp)
  fix field csp0 nsp assume "next_line (ff_start field csp0) = Some nsp"
  then have "length nsp < length (ff_start field csp0)" by (rule next_line_length)
  then show "length nsp < length csp0"
    using length_dropWhile_le [of _ csp0] by (auto simp: ff_start_def split: if_splits dest: less_le_trans)
qed

declare findField_loop.simps [simp del]

text \<open>The field found and its value.\<close>

definition findField :: "string \<Rightarrow> string \<Rightarrow> (string \<times> string) option" where
  "findField head field = findField_loop head field head"

definition findFieldValue :: "string \<Rightarrow> string \<Rightarrow> string option" where
  "findFieldValue head field = map_option snd (findField head field)"

lemma ff_start_suffix: "\<exists>p. s = p @ ff_start field s"
  by (auto simp: ff_start_def) (metis takeWhile_dropWhile_id)

lemma next_line_suffix: "next_line s = Some t \<Longrightarrow> \<exists>p. s = p @ LF # t"
proof (induction s)
  case (Cons c s)
  then show ?case
  proof (cases "c = LF")
    case False
    with Cons obtain p where "s = p @ LF # t" by (auto simp: next_line_def)
    then have "c # s = (c # p) @ LF # t" by simp
    then show ?thesis by blast
  qed (auto simp: next_line_def)
qed (simp add: next_line_def)

lemma ff_match_nonempty: "ff_match field s \<Longrightarrow> s \<noteq> []"
  by (auto simp: ff_match_def)

lemma findField_loop_suffix:
  "findField_loop head field csp = Some (fsp, v) \<Longrightarrow> head = q @ csp \<Longrightarrow> (\<exists>p. head = p @ fsp) \<and> fsp \<noteq> []"
proof (induction head field csp arbitrary: q rule: findField_loop.induct)
  case (1 head field csp)
  obtain p where p: "csp = p @ ff_start field csp" using ff_start_suffix by blast
  show ?case
  proof (cases "csp \<noteq> [] \<and> ff_match field (ff_start field csp)")
    case True
    then have "fsp = (if field = [] then head else ff_start field csp)"
      using 1(2) by (subst (asm) findField_loop.simps) (auto simp: Let_def)
    moreover have "head = (q @ p) @ ff_start field csp" using 1(3) p by simp
    moreover have "ff_start field csp \<noteq> []" "head \<noteq> []" using True 1(3) ff_match_nonempty by auto
    ultimately show ?thesis by (cases "field = []") auto
  next
    case False
    then obtain nsp where n: "csp \<noteq> []" "next_line (ff_start field csp) = Some nsp" "findField_loop head field nsp = Some (fsp, v)"
      using 1(2) by (subst (asm) findField_loop.simps) (auto simp: Let_def split: if_splits option.splits)
    obtain r where "ff_start field csp = r @ LF # nsp" using next_line_suffix [OF n(2)] by blast
    then have "head = (q @ p @ r @ [LF]) @ nsp" using 1(3) p by simp
    from 1(1) [OF n(1) refl _ n(2,3) this] show ?thesis using False n(1) by blast
  qed
qed

lemma findField_suffix: "findField head field = Some (fsp, v) \<Longrightarrow> (\<exists>p. head = p @ fsp) \<and> fsp \<noteq> []"
  using findField_loop_suffix [of head field head fsp v "[]"] by (simp add: findField_def)

lemma before_append [simp]: "before (p @ s) s = p"
  by (simp add: before_def)

subsection \<open>Removing a field, reading a value\<close>

definition cut_line :: "string \<Rightarrow> string \<Rightarrow> string" where
  "cut_line head fp = before head fp @ (case next_line fp of Some np \<Rightarrow> np | None \<Rightarrow> [])"

lemma cut_line_shorter: "findField head field = Some (fp, v) \<Longrightarrow> length (cut_line head fp) < length head"
proof -
  assume "findField head field = Some (fp, v)"
  then obtain p where "head = p @ fp" "fp \<noteq> []" using findField_suffix by blast
  then show ?thesis by (cases "next_line fp") (auto simp: cut_line_def dest: next_line_length)
qed

function rmField :: "string \<Rightarrow> string \<Rightarrow> nat \<times> string" where
  "rmField head field =
     (case findField head field of
        None \<Rightarrow> (0, head)
      | Some (fp, _) \<Rightarrow> (case rmField (cut_line head fp) field of (nf, h) \<Rightarrow> (nf + 1, h)))"
  by pat_completeness auto
termination
  by (relation "measure (\<lambda>(h, f). length h)") (auto intro: cut_line_shorter)

declare rmField.simps [simp del]

text \<open>
  \<open>cc\<close> counts the characters read, also those that are not stored. The result is the pointer behind
  the last character read (\<open>None\<close>: behind the terminator) and the value.
\<close>

fun valuescan_loop :: "nat \<Rightarrow> nat \<Rightarrow> bool \<Rightarrow> string \<Rightarrow> string \<Rightarrow> string option \<times> string" where
  "valuescan_loop siz cc psp acc [] = (if cc < siz then None else Some [], acc)"
| "valuescan_loop siz cc psp acc (ch # vp) =
     (if \<not> cc < siz then (Some (ch # vp), acc)
      else if ch = CR then valuescan_loop siz (cc + 1) psp acc vp
      else if ch = LF then
        (if hd0 vp = SP \<or> hd0 vp = TAB then valuescan_loop siz (cc + 1) psp acc vp else (Some vp, acc))
      else let ch' = (if ch = TAB then SP else ch)
           in if ch' = SP \<and> psp then valuescan_loop siz (cc + 1) psp acc vp
              else valuescan_loop siz (cc + 1) (ch' = SP) (acc @ [ch']) vp)"

definition RFC822_valuescan :: "string \<Rightarrow> nat \<Rightarrow> string option \<times> string" where
  "RFC822_valuescan vp siz = valuescan_loop siz 1 False [] vp"

definition getFieldValue2 :: "string \<Rightarrow> string \<Rightarrow> nat \<Rightarrow> string option" where
  "getFieldValue2 head field siz =
     map_option (\<lambda>vp. snd (RFC822_valuescan vp siz)) (findFieldValue head field)"

subsection \<open>The end of the header\<close>

text \<open>
  \<^verbatim>\<open>copyHeader\<close> leaves out line ends that directly follow a newline; its value is the number of characters
  copied.
\<close>

function copyHeader :: "string \<Rightarrow> string" where
  "copyHeader [] = []"
| "copyHeader (ch # sp) =
     ch # copyHeader (if ch = LF then dropWhile (\<lambda>c. c = CR \<or> c = LF) sp else sp)"
  by pat_completeness auto
termination
  by (relation "measure length") (auto simp: le_imp_less_Suc length_dropWhile_le)

text \<open>\<open>len\<close> is 0 for no limit; \<open>None\<close> is the limit reached. \<open>n\<close> is the offset.\<close>

fun seekEOH_loop :: "nat \<Rightarrow> nat \<Rightarrow> bool \<Rightarrow> string \<Rightarrow> string option" where
  "seekEOH_loop len n atop [] = Some []"
| "seekEOH_loop len n atop (ch # hp) =
     (if len \<noteq> 0 \<and> len \<le> n then None
      else if atop \<and> (ch = CR \<or> ch = LF \<or> ch = CHR ''.'' \<and> (hd0 hp = CR \<or> hd0 hp = LF)) then Some (ch # hp)
      else seekEOH_loop len (n + 1) (ch = LF) hp)"

definition strSeekEOHX :: "string \<Rightarrow> nat \<Rightarrow> string option" where
  "strSeekEOHX head len = seekEOH_loop len 0 True head"

definition strSeekEOH :: "string \<Rightarrow> string" where
  "strSeekEOH head = the (strSeekEOHX head 0)"

fun nextField_loop :: "bool \<Rightarrow> bool \<Rightarrow> string \<Rightarrow> string" where
  "nextField_loop ign atop [] = []"
| "nextField_loop ign atop (nc # np) =
     (if atop then
        (if nc = SP \<or> nc = TAB then nextField_loop ign False np
         else if \<not> ign \<or> nc \<noteq> LF \<and> nc \<noteq> CR then nc # np
         else nextField_loop ign atop np)
      else nextField_loop ign (nc = LF) np)"

definition nextField :: "string \<Rightarrow> bool \<Rightarrow> string" where
  "nextField field ignEOH = nextField_loop ignEOH False field"


subsection \<open>Character sets\<close>

abbreviation CRLF :: string where "CRLF \<equiv> [CR, LF]"

definition charset_namelen :: "string \<Rightarrow> nat" where
  "charset_namelen name = length (takeWhile (\<lambda>c. c = CHR ''_'' \<or> c = CHR ''-'' \<or> isalnum c) name)"

definition myMIMEversion :: string where
  "myMIMEversion = ''1.0 (generated by MimeKit/1.8)''"

definition eol_of :: "string \<Rightarrow> string" where
  "eol_of head = (if strstr head CRLF \<noteq> None then CRLF else [LF])"

definition insert_ctype :: "string \<Rightarrow> string \<Rightarrow> string" where
  "insert_ctype head ctype =
     (let ctp = strSeekEOH head
      in before head ctp
         @ (if findFieldValue head ''MIME-Version'' = None then ''MIME-Version: '' @ myMIMEversion @ eol_of head else [])
         @ ''Content-Type: '' @ ctype @ eol_of head @ ctp)"

text \<open>The start of the name of the character set: behind \<^verbatim>\<open>charset=\<close> and a quote.\<close>

definition charset_at :: "string \<Rightarrow> string option" where
  "charset_at ctype =
     map_option (\<lambda>csp. let n = drop 8 csp in if hd0 n = DQ then tl n else n) (strcasestr ctype ''charset='')"

definition get_charset :: "string \<Rightarrow> nat \<Rightarrow> nat \<times> string option" where
  "get_charset ctype siz =
     (case charset_at ctype of
        Some csp \<Rightarrow>
          (let len = charset_namelen csp
           in (len, Some (take ((if siz < len + 1 then siz else len + 1) - 1) csp)))
      | None \<Rightarrow> (0, None))"

text \<open>The value is the number of characters erased; \<open>acc\<close> is the text passed.\<close>

function erase_charset_loop :: "string \<Rightarrow> string \<Rightarrow> nat \<times> string" where
  "erase_charset_loop acc [] = (0, acc)"
| "erase_charset_loop acc (c # r) =
     (if c \<noteq> CHR '';'' then erase_charset_loop (acc @ [c]) r
      else let ws = takeWhile isspace r; r' = dropWhile isspace r
           in if strncaseeq r' ''charset='' 8
              then (let np = fst (valuescanX (drop 8 r') (new_vstr 32) 32)
                    in (length r' + 1 - length np, acc @ butlast (c # ws) @ np))
              else erase_charset_loop (acc @ c # ws) r')"
  by pat_completeness auto
termination
  by (relation "measure (\<lambda>(a, s). length s)") (auto simp: le_imp_less_Suc length_dropWhile_le)

definition erase_charset_param :: "string \<Rightarrow> nat \<times> string" where
  "erase_charset_param ctype = erase_charset_loop [] ctype"

definition replace_charset_value :: "string \<Rightarrow> string \<Rightarrow> bool \<Rightarrow> int \<times> string" where
  "replace_charset_value ctype charset force =
     (case charset_at ctype of
        Some csp \<Rightarrow>
          if strncaseeq csp charset (length charset) then (0, ctype)
          else (1, before ctype csp @ copyHeader charset
                     @ snd (erase_charset_param (drop (charset_namelen csp) csp)))
      | None \<Rightarrow>
          (case (case strpbrk ctype [CHR '';'', CR, LF] of
                   Some cst \<Rightarrow> Some cst | None \<Rightarrow> if force then Some [] else None) of
             None \<Rightarrow> (0, ctype)
           | Some cst \<Rightarrow> (1, before ctype cst @ copyHeader (''; charset='' @ charset) @ cst)))"

definition replace_charset :: "string \<Rightarrow> string \<Rightarrow> int \<times> string" where
  "replace_charset head charset =
     (case findFieldValue head ''Content-Type'' of
        None \<Rightarrow> (0, insert_ctype head (''text/plain; charset='' @ charset))
      | Some ctp \<Rightarrow> (case replace_charset_value ctp charset False of (rc, v) \<Rightarrow> (rc, before head ctp @ v)))"

subsection \<open>Replacing and adding\<close>

text \<open>The text \<^verbatim>\<open>linescanX\<close> reads into a buffer that is large enough.\<close>

fun line_upto :: "string \<Rightarrow> string" where
  "line_upto [] = []"
| "line_upto (ch # s) = (if ch = LF \<or> ch = CR \<and> (hd0 s = LF \<or> s = []) then [] else ch # line_upto s)"

definition line_text :: "string \<Rightarrow> string" where
  "line_text s = line_upto (dropWhile (\<lambda>c. c = SP \<or> c = TAB) s)"

text \<open>The end of the line that precedes the next field.\<close>

definition eol_before :: "string \<Rightarrow> string" where
  "eol_before b = (if b \<noteq> [] \<and> last b = LF
                   then (if butlast b \<noteq> [] \<and> last (butlast b) = CR then CRLF else [LF]) else [])"

definition replaceFieldValue :: "string \<Rightarrow> string \<Rightarrow> string \<Rightarrow> int \<times> string" where
  "replaceFieldValue head field val =
     (case findFieldValue head field of
        None \<Rightarrow>
          (let np = strSeekEOH head in (0, before head np @ field @ '': '' @ val @ eol_of head @ np))
      | Some esp \<Rightarrow>
          if strncaseeq esp val (length val) \<and> strcasecmp (line_text esp) val = 0 then (0, head)
          else let np = nextField esp False
               in (1, before head esp @ copyHeader val @ eol_before (before head np) @ np))"

definition RFC822_addHeaderField :: "string \<Rightarrow> string \<Rightarrow> string" where
  "RFC822_addHeaderField dst src =
     (case strstr dst (CRLF @ CRLF) of
        Some tp \<Rightarrow>
          if drop 4 tp = [] then before dst tp @ CRLF @ copyHeader src @ CRLF
          else (if length (copyHeader src) \<noteq> length src then copyHeader src else src) @ dst
      | None \<Rightarrow> (if length (copyHeader src) \<noteq> length src then copyHeader src else src) @ dst)"

definition replaceContentType :: "string \<Rightarrow> string \<Rightarrow> int \<times> string" where
  "replaceContentType head ty =
     (case findFieldValue head ''Content-Type'' of
        None \<Rightarrow> (0, ''Content-Type: '' @ ty @ CRLF @ head)
      | Some ctp \<Rightarrow>
          (case strpbrk ctp [CHR '';'', CR, LF] of
             None \<Rightarrow> (-1, head)
           | Some cst \<Rightarrow> (1, before head ctp @ ty @ cst)))"

subsection \<open>Filtering\<close>

definition scan_field1 :: "string \<Rightarrow> nat \<Rightarrow> nat \<Rightarrow> string \<times> string" where
  "scan_field1 field nsiz bsiz =
     (let name = take (nsiz - 1) (takeWhile (\<lambda>c. c \<noteq> CR \<and> c \<noteq> LF \<and> c \<noteq> CHR '':'') field);
          dp = drop (length name) field
      in (name, if hd0 dp = CHR '':'' then take (bsiz - 1) (line_text (tl dp)) else []))"

lemma nextField_loop_suffix: "suffix (nextField_loop ign atop s) s"
  by (induction s arbitrary: atop) (auto intro: suffix_ConsI)

lemma nextField_length: "s \<noteq> [] \<Longrightarrow> length (nextField s ign) < length s"
  using nextField_loop_suffix [THEN suffix_length_le] by (cases s) (auto simp: nextField_def less_Suc_eq_le)

text \<open>The starts of the fields of a text.\<close>

function field_starts :: "bool \<Rightarrow> string \<Rightarrow> string list" where
  "field_starts ign s = (if s = [] then [] else s # field_starts ign (nextField s ign))"
  by pat_completeness auto
termination
  by (relation "measure (\<lambda>(i, s). length s)") (auto intro: nextField_length)

declare field_starts.simps [simp del]

definition at_EOH :: "string \<Rightarrow> bool" where
  "at_EOH hp \<longleftrightarrow> hd0 hp = CR \<or> hd0 hp = LF \<or> hd0 hp = CHR ''.'' \<and> (chr_at hp 1 = CR \<or> chr_at hp 1 = LF)"

definition filter_match :: "string \<Rightarrow> string \<Rightarrow> string \<Rightarrow> bool" where
  "filter_match field aval hp \<longleftrightarrow> strncaseeq hp field (length field) \<and> chr_at hp (length field) = CHR '':''
     \<and> strstr (drop (length field + 1) hp) aval \<noteq> None"

function filter_remove :: "string \<Rightarrow> string \<Rightarrow> string \<Rightarrow> string" where
  "filter_remove field aval hp =
     (if hp = [] then []
      else let tp = nextField hp False; kept = (if filter_match field aval hp then [] else before hp tp)
           in kept @ (if at_EOH tp then tp else filter_remove field aval tp))"
  by pat_completeness auto
termination
  by (relation "measure (\<lambda>(f, a, s). length s)") (auto intro: nextField_length)

function filter_pass :: "string \<Rightarrow> string \<Rightarrow> string \<Rightarrow> vstr \<Rightarrow> vstr" where
  "filter_pass field aval hp v =
     (if hp = [] then v
      else let tp = nextField hp False;
               v' = (if filter_match field aval hp then foldl setVStrPtrInc v (before hp tp) else v)
           in if at_EOH tp then v' else filter_pass field aval tp v')"
  by pat_completeness auto
termination
  by (relation "measure (\<lambda>(f, a, s, v). length s)") (auto intro: nextField_length)

declare filter_remove.simps [simp del] filter_pass.simps [simp del]

definition filterFields :: "string \<Rightarrow> string \<Rightarrow> string" where
  "filterFields spec head =
     (let starts = field_starts True spec
      in if \<exists>sp \<in> set starts. strncaseeq sp ''Pass/'' 5 then
           (let v0 = \<lparr>vmem = head @ [NUL], vpos = 0, vnull = False, vbad = False\<rparr>;
                v = foldl (\<lambda>v sp. if strncaseeq sp ''Pass/'' 5
                                   then (case scan_field1 (drop 5 sp) 1024 1024 of (f, a) \<Rightarrow> filter_pass f a head v)
                                   else v) v0 starts
            in cstr (vmem (Xstrcpy (setVStrEnd v 0) (strSeekEOH head))))
         else foldl (\<lambda>h sp. if strncaseeq sp ''Remove/'' 7
                             then (case scan_field1 (drop 7 sp) 1024 1024 of (f, a) \<Rightarrow> filter_remove f a h)
                             else h) head starts)"

definition removed :: "string \<Rightarrow> bool \<Rightarrow> string \<Rightarrow> bool" where
  "removed field wild sp \<longleftrightarrow> strneq sp field (length field)
     \<and> (wild \<or> chr_at sp (length field) = CHR '':'' \<or> chr_at sp (length field) = SP)"

fun removeFields_loop :: "string \<Rightarrow> bool \<Rightarrow> bool \<Rightarrow> bool \<Rightarrow> string \<Rightarrow> nat \<times> string" where
  "removeFields_loop field wild atop skip [] = (0, [])"
| "removeFields_loop field wild atop skip (ch # sp) =
     (let hit = (atop \<and> removed field wild (ch # sp));
          skip' = (if hit then True else if atop \<and> ch \<noteq> SP \<and> ch \<noteq> TAB then False else skip);
          r = removeFields_loop field wild (ch = LF) skip' sp
      in ((if hit then 1 else 0) + fst r, (if skip' then [] else [ch]) @ snd r))"

definition removeFields :: "string \<Rightarrow> string \<Rightarrow> bool \<Rightarrow> nat \<times> string" where
  "removeFields head field wild = removeFields_loop field wild True False head"


text \<open>
  The first field of \<open>spec\<close> that matches, or the empty text when it has no such field; \<open>None\<close> when none of
  them matches.
\<close>

lemma findField_nonempty: "findField s field = Some (fsp, v) \<Longrightarrow> suffix fsp s \<and> fsp \<noteq> []"
  using findField_suffix by (auto simp: suffix_def)

function matchFields_loop :: "string \<Rightarrow> string \<Rightarrow> string \<Rightarrow> string option" where
  "matchFields_loop field ivalue af0 =
     (let tail = strneq af0 ''Tail/'' 5; afield = (if tail then drop 5 af0 else af0);
          aval = (case getFieldValue2 afield field 1024 of Some v \<Rightarrow> v | None \<Rightarrow> [])
      in if (if tail then strtailstr ivalue aval \<noteq> None else strstr ivalue aval \<noteq> None) then Some afield
         else if afield = [] then None
         else case findField (tl afield) field of
                Some (af, _) \<Rightarrow> matchFields_loop field ivalue af
              | None \<Rightarrow> None)"
  by pat_completeness auto
termination
  by (relation "measure (\<lambda>(f, i, s). length s)")
    (auto split: if_splits dest!: findField_nonempty suffix_length_le simp: le_less_trans [OF _ diff_less])

declare matchFields_loop.simps [simp del]

definition matchFields :: "string \<Rightarrow> string \<Rightarrow> string \<Rightarrow> string option" where
  "matchFields spec field ivalue =
     (case findField spec field of
        None \<Rightarrow> Some []
      | Some (afield, _) \<Rightarrow> matchFields_loop field ivalue afield)"

subsection \<open>Space, comments and addresses\<close>

fun strip_lwsp_loop :: "nat \<Rightarrow> char \<Rightarrow> string \<Rightarrow> string \<Rightarrow> string" where
  "strip_lwsp_loop siz pc acc [] = acc"
| "strip_lwsp_loop siz pc acc (c # sp) =
     (if siz - 1 \<le> length acc then acc
      else if c = CR \<or> c = LF then strip_lwsp_loop siz pc acc sp
      else if c = TAB \<or> c = SP then
        (if acc = [] \<or> hd0 sp = CR \<or> hd0 sp = LF \<or> sp = [] then strip_lwsp_loop siz pc acc sp
         else if pc \<noteq> SP then strip_lwsp_loop siz SP (acc @ [SP]) sp
         else strip_lwsp_loop siz pc acc sp)
      else strip_lwsp_loop siz c (acc @ [c]) sp)"

definition RFC822_strip_lwsp :: "string \<Rightarrow> nat \<Rightarrow> string" where
  "RFC822_strip_lwsp src siz = strip_lwsp_loop siz NUL [] src"

fun strip_comment_loop :: "nat \<Rightarrow> int \<Rightarrow> string \<Rightarrow> string \<Rightarrow> string" where
  "strip_comment_loop siz lev acc [] = acc"
| "strip_comment_loop siz lev acc [c] =
     (if siz - 1 \<le> length acc \<or> c = CHR ''('' \<or> c = CHR '')'' \<or> lev \<noteq> 0 then acc else acc @ [c])"
| "strip_comment_loop siz lev acc (c # d # sp) =
     (if siz - 1 \<le> length acc then acc
      else if c = CHR ''('' then strip_comment_loop siz (lev + 1) acc (d # sp)
      else if c = CHR '')'' then
        (if lev - 1 = 0 \<and> (d = SP \<or> d = TAB) then strip_comment_loop siz (lev - 1) acc sp
         else strip_comment_loop siz (lev - 1) acc (d # sp))
      else strip_comment_loop siz lev (if lev = 0 then acc @ [c] else acc) (d # sp))"

definition RFC822_strip_commentX :: "string \<Rightarrow> nat \<Rightarrow> string" where
  "RFC822_strip_commentX inp siz = strip_comment_loop siz 0 [] inp"

text \<open>\<open>enc\<close> stands for \<^verbatim>\<open>MIME_strHeaderEncode\<close>.\<close>

fun addresspart_loop :: "nat \<Rightarrow> string \<Rightarrow> string \<Rightarrow> string" where
  "addresspart_loop siz acc [] = acc"
| "addresspart_loop siz acc (c # sp) =
     (if siz - 1 \<le> length acc then acc
      else if c = CHR ''<'' then
        take (siz - 1) (filter (\<lambda>c. \<not> isspace c) (takeWhile (\<lambda>c. c \<noteq> CHR ''>'') sp))
      else if isspace c then addresspart_loop siz acc sp
      else addresspart_loop siz (acc @ [c]) sp)"

definition RFC822_addresspartX :: "(string \<Rightarrow> nat \<Rightarrow> string) \<Rightarrow> string \<Rightarrow> nat \<Rightarrow> string" where
  "RFC822_addresspartX enc inp siz = addresspart_loop siz [] (RFC822_strip_commentX (enc inp 2048) 2048)"

fun strchr1B_loop :: "bool \<Rightarrow> string \<Rightarrow> char \<Rightarrow> string option" where
  "strchr1B_loop in2B [] c = None"
| "strchr1B_loop in2B (x # sp) c =
     (case sp of
        d # e # sp' \<Rightarrow>
          if x = ESC \<and> d = CHR ''$'' then strchr1B_loop True sp' c
          else if x = ESC \<and> d = CHR ''('' then strchr1B_loop False sp' c
          else if x = c \<and> \<not> in2B then Some (x # sp) else strchr1B_loop in2B sp c
      | _ \<Rightarrow> if x = c \<and> \<not> in2B then Some (x # sp) else strchr1B_loop in2B sp c)"

definition strchr1B :: "string \<Rightarrow> char \<Rightarrow> string option" where
  "strchr1B str c = strchr1B_loop False str c"


subsection \<open>Reading a header from a stream\<close>

text \<open>
  A stream is the text that is left of it, without NUL. \<^verbatim>\<open>fgets\<close> returns the next line with its newline, cut
  to the size of its buffer.
\<close>

definition full_line :: "string \<Rightarrow> string" where
  "full_line s = takeWhile (\<lambda>c. c \<noteq> LF) s @ (if LF \<in> set s then [LF] else [])"

definition fgets :: "nat \<Rightarrow> string \<Rightarrow> (string \<times> string) option" where
  "fgets n s = (if s = [] then None
                else let l = take (n - 1) (full_line s) in Some (l, drop (length l) s))"

lemma full_line_prefix: "prefix (full_line s) s"
  by (induction s) (auto simp: full_line_def)

lemma full_line_nonempty: "s \<noteq> [] \<Longrightarrow> full_line s \<noteq> []"
  by (cases s) (auto simp: full_line_def)

lemma fgets_split: "fgets n s = Some (l, r) \<Longrightarrow> s = l @ r \<and> (1 < n \<longrightarrow> l \<noteq> [])"
proof -
  assume a: "fgets n s = Some (l, r)"
  obtain t where "s = full_line s @ t" using full_line_prefix by (auto simp: prefix_def)
  then have "s = take (n - 1) (full_line s) @ drop (n - 1) (full_line s) @ t" by (metis append_assoc append_take_drop_id)
  then show ?thesis using a full_line_nonempty [of s]
    by (auto simp: fgets_def Let_def split: if_splits) (metis append_eq_conv_conj length_take)
qed

lemma fgets_length: "fgets n s = Some (l, r) \<Longrightarrow> 1 < n \<Longrightarrow> length r < length s"
  using fgets_split by fastforce

definition isEOR :: "string \<Rightarrow> bool" where
  "isEOR line \<longleftrightarrow> chr_at line 0 = CHR ''.'' \<and> (chr_at line 1 = CR \<or> chr_at line 1 = LF)"

definition separator :: "string \<Rightarrow> string" where
  "separator field =
     (if strcasecmp field ''To'' = 0 \<or> strcasecmp field ''Cc'' = 0 then '', ''
      else if strcasecmp field ''Received'' = 0 then ''; '' else '' '')"

text \<open>
  What \<^verbatim>\<open>RFC821_skipheader\<close> writes of a line: the value up to a line end. The line end that cuts it is the first
  of the line, which a form feed before the value can be.
\<close>

definition header_value :: "nat \<Rightarrow> string \<Rightarrow> string" where
  "header_value flen line =
     (let lp = dropWhile isspace (drop (flen + 1) line); brk = (\<lambda>c. c = CR \<or> c = LF \<or> c = FF)
      in if list_ex brk (before line lp) then lp else takeWhile (\<lambda>c. \<not> brk c) lp)"

text \<open>The result is the return value, what is written, and the rest of the stream.\<close>

function skipheader_loop :: "bool \<Rightarrow> string option \<Rightarrow> nat \<Rightarrow> string \<Rightarrow> int \<times> string \<times> string" where
  "skipheader_loop out field nputs afp =
     (case fgets 1024 afp of
        None \<Rightarrow> (-1, [], [])
      | Some (line, rest) \<Rightarrow>
          if hd0 line = CR \<or> hd0 line = LF then (0, [], rest)
          else if isEOR line then (-1, [], rest)
          else let put = (case field of
                            None \<Rightarrow> if out then line else []
                          | Some f \<Rightarrow>
                              if out \<and> chr_at line (length f) = CHR '':'' \<and> strncaseeq line f (length f)
                              then (if nputs \<noteq> 0 then separator f else []) @ header_value (length f) line else []);
                   hit = (case field of
                            None \<Rightarrow> False
                          | Some f \<Rightarrow> out \<and> chr_at line (length f) = CHR '':'' \<and> strncaseeq line f (length f))
               in case skipheader_loop out field (if hit then nputs + 1 else nputs) rest of
                    (rc, o2, r) \<Rightarrow> (rc, put @ o2, r))"
  by pat_completeness auto
termination
  by (relation "measure (\<lambda>(o1, f, n, s). length s)") (auto dest: fgets_length)

declare skipheader_loop.simps [simp del]

definition RFC821_skipheader :: "bool \<Rightarrow> string option \<Rightarrow> string \<Rightarrow> int \<times> string \<times> string" where
  "RFC821_skipheader out field afp = skipheader_loop out field 0 afp"

text \<open>The number of characters of the body, what is written, and the rest of the stream.\<close>

function RFC821_skipbody :: "nat \<Rightarrow> string \<Rightarrow> nat \<times> string \<times> string" where
  "RFC821_skipbody siz afp =
     (case (if siz < 2 then None else fgets siz afp) of
        None \<Rightarrow> (0, [], [])
      | Some (line, rest) \<Rightarrow>
          if isEOR line then (0, [], rest)
          else case RFC821_skipbody siz rest of (n, o2, r) \<Rightarrow> (length line + n, line @ o2, r))"
  by pat_completeness auto
termination
  by (relation "measure (\<lambda>(n, s). length s)") (auto dest: fgets_length split: if_splits)

function readHeader_loop :: "nat \<Rightarrow> bool \<Rightarrow> string \<Rightarrow> string \<Rightarrow> string \<times> string" where
  "readHeader_loop bsiz seeEOR acc inp =
     (if bsiz \<le> length acc + 2 then (acc, inp)
      else case fgets (bsiz - length acc) inp of
             None \<Rightarrow> (acc, [])
           | Some (line, rest) \<Rightarrow>
               if hd0 line = CR \<or> hd0 line = LF \<or> seeEOR \<and> isEOR line then (acc @ line, rest)
               else readHeader_loop bsiz seeEOR (acc @ line) rest)"
  by pat_completeness auto
termination
  by (relation "measure (\<lambda>(b, e, a, s). length s)") (auto dest: fgets_length)

declare RFC821_skipbody.simps [simp del] readHeader_loop.simps [simp del]

definition RFC822_readHeader :: "string \<Rightarrow> bool \<Rightarrow> string \<times> string" where
  "RFC822_readHeader inp seeEOR = readHeader_loop 0x20000 seeEOR [] inp"

function contlines_loop :: "nat \<Rightarrow> string \<Rightarrow> string \<Rightarrow> string \<times> string" where
  "contlines_loop siz line fp =
     (if 80 < siz - length line \<and> (hd0 fp = SP \<or> hd0 fp = TAB \<or> hd0 fp = CHR ''#'') then
        (case fgets (siz - length line - 1) (tl fp) of
           None \<Rightarrow> (line @ [hd0 fp], [])
         | Some (l, rest) \<Rightarrow> contlines_loop siz (line @ hd0 fp # l) rest)
      else (line, fp))"
  by pat_completeness auto
termination
proof (relation "measure (\<lambda>(n, l, s). length s)", goal_cases)
  case (2 siz line fp x l rest)
  then have "length rest < length (tl fp)" by (auto dest: fgets_length)
  then show ?case by simp
qed simp

declare contlines_loop.simps [simp del]

definition RFC822_fgetsHeaderField :: "nat \<Rightarrow> string \<Rightarrow> (string \<times> string) option" where
  "RFC822_fgetsHeaderField siz fp =
     (case fgets siz fp of
        None \<Rightarrow> None
      | Some (line, rest) \<Rightarrow>
          if line = [] \<or> hd0 line = CR \<or> hd0 line = LF \<or> isEOR line then Some (line, rest)
          else Some (contlines_loop siz line rest))"


lemma contlines_length: "length (snd (contlines_loop siz line fp)) \<le> length fp"
proof (induction siz line fp rule: contlines_loop.induct)
  case (1 siz line fp)
  show ?case
  proof (cases "80 < siz - length line \<and> (hd0 fp = SP \<or> hd0 fp = TAB \<or> hd0 fp = CHR ''#'')")
    case True
    show ?thesis
    proof (cases "fgets (siz - length line - 1) (tl fp)")
      case (Some r)
      obtain l rest where r: "r = (l, rest)" by (cases r)
      have "length rest \<le> length fp" using fgets_length [of _ "tl fp" l rest] Some r True by fastforce
      then show ?thesis using 1 [OF True Some r [symmetric]] True Some r by (subst contlines_loop.simps) simp
    qed (use True in \<open>subst contlines_loop.simps; simp\<close>)
  next
    case False
    then show ?thesis by (subst contlines_loop.simps) (simp only: if_False snd_conv order_refl)
  qed
qed

lemma fgetsHeaderField_length: "RFC822_fgetsHeaderField siz fp = Some (l, r) \<Longrightarrow> 1 < siz \<Longrightarrow> length r < length fp"
proof -
  assume a: "RFC822_fgetsHeaderField siz fp = Some (l, r)" and n: "1 < siz"
  then obtain line rest where f: "fgets siz fp = Some (line, rest)"
    by (auto simp: RFC822_fgetsHeaderField_def split: option.splits)
  then have "length r \<le> length rest"
    using a contlines_length [of siz line rest] by (auto simp: RFC822_fgetsHeaderField_def split: if_splits)
  then show ?thesis using fgets_length [OF f n] by simp
qed

text \<open>The value of the last field of that name; the position of the stream is restored.\<close>

function fgetsHeaderField_loop :: "string \<Rightarrow> nat \<Rightarrow> string option \<Rightarrow> string \<Rightarrow> string option" where
  "fgetsHeaderField_loop name siz val hfp =
     (case RFC822_fgetsHeaderField 1024 hfp of
        None \<Rightarrow> val
      | Some (line, rest) \<Rightarrow>
          if hd0 line = CR \<or> hd0 line = LF then val
          else let vp = dropWhile (\<lambda>c. c = SP) (drop (length name) line)
               in fgetsHeaderField_loop name siz
                    (if strncaseeq line name (length name) \<and> hd0 vp = CHR '':''
                     then Some (RFC822_strip_lwsp (tl vp) siz) else val) rest)"
  by pat_completeness auto
termination
  by (relation "measure (\<lambda>(n, z, v, s). length s)") (auto dest: fgetsHeaderField_length)

definition fgetsHeaderField :: "string \<Rightarrow> string \<Rightarrow> nat \<Rightarrow> string option" where
  "fgetsHeaderField hfp name siz = fgetsHeaderField_loop name siz None hfp"

definition strsubstr :: "string \<Rightarrow> string \<Rightarrow> bool" where
  "strsubstr n1 n2 \<longleftrightarrow> strstr n1 n2 = Some n1 \<or> strstr n2 n1 = Some n2"

definition word_text :: "string \<Rightarrow> nat \<Rightarrow> string" where
  "word_text s siz = cstr (vmem (snd (wordscanX s (new_vstr siz) siz)))"

text \<open>The value of the first \<^verbatim>\<open>Xref\<close> field of a node that matches.\<close>

function findXref :: "(string \<Rightarrow> string \<Rightarrow> bool) \<Rightarrow> string \<Rightarrow> nat \<Rightarrow> string \<Rightarrow> string option" where
  "findXref matchfunc host siz afp =
     (case fgets 1024 afp of
        None \<Rightarrow> None
      | Some (line, rest) \<Rightarrow>
          if hd0 line = CR \<or> hd0 line = LF \<or> isEOR line then None
          else if isspace (hd0 line) then findXref matchfunc host siz rest
          else case strchr line CHR '':'' of
                 None \<Rightarrow> findXref matchfunc host siz rest
               | Some dp0 \<Rightarrow>
                   (let dp = dropWhile isspace (tl dp0)
                    in if strcasecmp (before line dp0) ''Xref'' \<noteq> 0 \<or> \<not> matchfunc host (word_text dp 256)
                       then findXref matchfunc host siz rest
                       else Some (take (siz - 1) (takeWhile (\<lambda>c. c \<noteq> CR \<and> c \<noteq> LF) dp))))"
  by pat_completeness auto
termination
  by (relation "measure (\<lambda>(m, h, z, s). length s)") (auto dest: fgets_length)

declare fgetsHeaderField_loop.simps [simp del] findXref.simps [simp del]

definition xref_of :: "string \<Rightarrow> string \<Rightarrow> bool" where
  "xref_of host sp \<longleftrightarrow> strncaseeq sp ''Xref'' 4
     \<and> (case strchr sp CHR '':'' of
          None \<Rightarrow> False
        | Some xp \<Rightarrow>
            (let host1 = word_text (tl xp) 512
             in strncaseeq host1 host (length host)
                \<and> (chr_at host1 (length host) = NUL \<or> chr_at host1 (length host) = CHR ''.'')))"

function selectXref_loop :: "string \<Rightarrow> bool \<Rightarrow> string \<Rightarrow> string" where
  "selectXref_loop host getit sp =
     (if sp = [] then []
      else let getit' = (if hd0 sp \<noteq> SP \<and> hd0 sp \<noteq> TAB then xref_of host sp else getit); l = full_line sp
           in (if getit' then l else []) @ selectXref_loop host getit' (drop (length l) sp))"
  by pat_completeness auto
termination
  by (relation "measure (\<lambda>(h, g, s). length s)") (auto simp: full_line_nonempty intro!: diff_less)

declare selectXref_loop.simps [simp del]

definition selectXref :: "string \<Rightarrow> string \<Rightarrow> string" where
  "selectXref host xref1 = selectXref_loop host False xref1"

definition removeField1 :: "string \<Rightarrow> string \<Rightarrow> string" where
  "removeField1 head field = before head field @ nextField field False"

function relayRESPBODY :: "nat \<Rightarrow> string \<Rightarrow> string \<times> string" where
  "relayRESPBODY siz fs =
     (case (if siz < 2 then None else fgets siz fs) of
        None \<Rightarrow> ([], [])
      | Some (line, rest) \<Rightarrow>
          if isEOR line then ([], rest)
          else case relayRESPBODY siz rest of (o2, r) \<Rightarrow> (line @ o2, r))"
  by pat_completeness auto
termination
  by (relation "measure (\<lambda>(n, s). length s)") (auto dest: fgets_length split: if_splits)

declare relayRESPBODY.simps [simp del]

end
