(* ===== verification/HeaderEdit.thy ===== *)
theory HeaderEdit
  imports Rfc822
begin

section \<open>HeaderEdit: what editing a header keeps and changes\<close>

text \<open>
  Theorems on \<^verbatim>\<open>rfc822.cpp\<close>: which field is found, that a value that was stored is read back, that
  an edit does not move the end of the header, that removing fields is filtering them, and
  the inputs on which the routines do something else than their names say.
\<close>

subsection \<open>The lines of a header\<close>

function line_starts :: "string \<Rightarrow> string list" where
  "line_starts s = (if s = [] then [] else s # (case next_line s of None \<Rightarrow> [] | Some t \<Rightarrow> line_starts t))"
  by pat_completeness auto
termination
  by (relation "measure length") (auto dest: next_line_length)

declare line_starts.simps [simp del]

lemma findField_loop_find:
  assumes "field \<noteq> []"
  shows "findField_loop head field s =
    map_option (\<lambda>l. (l, ff_value (drop (length field) l))) (List.find (ff_match field) (line_starts s))"
proof (induction s rule: line_starts.induct)
  case (1 s)
  then show ?case using assms
    by (subst findField_loop.simps, subst line_starts.simps) (auto simp: Let_def ff_start_def split: option.splits)
qed

text \<open>
  \<^verbatim>\<open>findField\<close> returns the first line that starts with the name, in any case, and a colon or a space, and the
  text behind them; it finds nothing only when no line does.
\<close>

theorem findField_first:
  assumes "field \<noteq> []"
  shows "findField head field =
    map_option (\<lambda>l. (l, ff_value (drop (length field) l))) (List.find (ff_match field) (line_starts head))"
  unfolding findField_def by (rule findField_loop_find [OF assms])

theorem findField_first_witness:
  "findField (''To: a'' @ LF # ''cc : b'') ''Cc'' =
    map_option (\<lambda>l. (l, ff_value (drop (length ''Cc'') l))) (List.find (ff_match ''Cc'') (line_starts (''To: a'' @ LF # ''cc : b'')))"
  by (rule findField_first) simp

subsection \<open>The end of the header\<close>

text \<open>\<open>seek\<close> is the search for the end of the header without a limit; \<open>stops\<close> is the test at a line start.\<close>

definition stops :: "char \<Rightarrow> char \<Rightarrow> bool" where
  "stops c d \<longleftrightarrow> c = CR \<or> c = LF \<or> c = CHR ''.'' \<and> (d = CR \<or> d = LF)"

fun seek :: "bool \<Rightarrow> string \<Rightarrow> string" where
  "seek atop [] = []"
| "seek atop (c # s) = (if atop \<and> stops c (hd0 s) then c # s else seek (c = LF) s)"

fun passes :: "bool \<Rightarrow> string \<Rightarrow> string \<Rightarrow> bool" where
  "passes atop [] t \<longleftrightarrow> True"
| "passes atop (c # s) t \<longleftrightarrow> \<not> (atop \<and> stops c (hd0 (s @ t))) \<and> passes (c = LF) s t"

definition endtop :: "bool \<Rightarrow> string \<Rightarrow> bool" where
  "endtop atop s = (if s = [] then atop else last s = LF)"

lemma seekEOH_seek: "seekEOH_loop 0 n atop s = Some (seek atop s)"
  by (induction s arbitrary: n atop) (auto simp: stops_def)

lemma strSeekEOH_seek: "strSeekEOH head = seek True head"
  by (simp add: strSeekEOH_def strSeekEOHX_def seekEOH_seek)

lemma seek_length: "length (seek atop s) \<le> length s"
  by (induction s arbitrary: atop) (auto simp: le_SucI)

lemma seek_passes: "passes atop s t \<Longrightarrow> seek atop (s @ t) = seek (endtop atop s) t"
  by (induction s arbitrary: atop) (auto simp: endtop_def)

lemma passes_of_length: "length (seek atop (s @ t)) \<le> length t \<Longrightarrow> passes atop s t"
  by (induction s arbitrary: atop) (auto split: if_splits)

lemma passes_other: "passes atop s t \<Longrightarrow> s = [] \<or> last s \<noteq> CHR ''.'' \<Longrightarrow> passes atop s u"
proof (induction s arbitrary: atop)
  case (Cons c s)
  then show ?case by (cases s) (auto simp: stops_def split: if_splits)
qed simp

lemma passes_append: "passes atop (s @ t) u \<longleftrightarrow> passes atop s (t @ u) \<and> passes (endtop atop s) t u"
  by (induction s arbitrary: atop) (auto simp: endtop_def)

text \<open>The rest of a field has no end of the header, and the next field starts a line and not with a blank.\<close>

lemma nextField_loop_rest:
  "\<exists>f. s = f @ nextField_loop False atop s \<and> passes atop f (nextField_loop False atop s)
     \<and> (nextField_loop False atop s \<noteq> [] \<longrightarrow>
          endtop atop f \<and> hd (nextField_loop False atop s) \<notin> {SP, TAB})"
proof (induction s arbitrary: atop)
  case (Cons c s)
  show ?case
  proof (cases "atop \<and> c \<noteq> SP \<and> c \<noteq> TAB")
    case True
    then show ?thesis by (intro exI [of _ "[]"]) (simp add: endtop_def)
  next
    case False
    let ?b = "\<not> atop \<and> c = LF"
    have n: "nextField_loop False atop (c # s) = nextField_loop False ?b s" using False by auto
    define t where "t = nextField_loop False ?b s"
    obtain f where f: "s = f @ t" "passes ?b f t" "t \<noteq> [] \<longrightarrow> endtop ?b f \<and> hd t \<notin> {SP, TAB}"
      using Cons.IH [of ?b] unfolding t_def by blast
    have b: "?b = (c = LF)" using False by auto
    have "\<not> (atop \<and> stops c d)" for d using False by (auto simp: stops_def)
    then have "c # s = (c # f) @ t" "passes atop (c # f) t" "t \<noteq> [] \<longrightarrow> endtop atop (c # f) \<and> hd t \<notin> {SP, TAB}"
      using f unfolding b by (auto simp: endtop_def)
    then show ?thesis unfolding n t_def by blast
  qed
qed (simp add: endtop_def)

lemma nextField_rest:
  obtains f where "s = f @ nextField s False" "passes False f (nextField s False)"
    "nextField s False \<noteq> [] \<Longrightarrow> f \<noteq> [] \<and> last f = LF \<and> hd (nextField s False) \<notin> {SP, TAB}"
proof -
  obtain f where "s = f @ nextField s False" "passes False f (nextField s False)"
    "nextField s False \<noteq> [] \<longrightarrow> endtop False f \<and> hd (nextField s False) \<notin> {SP, TAB}"
    using nextField_loop_rest [of s False] unfolding nextField_def by blast
  then show thesis using that by (auto simp: endtop_def split: if_splits)
qed

text \<open>The value of a field follows a colon or a space.\<close>

lemma drop_blanks: "\<exists>p. s = p @ dropWhile (\<lambda>c. c = SP) s \<and> set p \<subseteq> {SP}"
  by (rule exI [of _ "takeWhile (\<lambda>c. c = SP) s"]) (auto dest: set_takeWhileD)

lemma dropWhile_blanks: "set p \<subseteq> {SP} \<Longrightarrow> dropWhile (\<lambda>c. c = SP) (p @ s) = dropWhile (\<lambda>c. c = SP) s"
  by (rule dropWhile_append2) auto

lemma ff_value_blanks:
  assumes "set p \<subseteq> {SP}" and "set q \<subseteq> {SP}" and "v = [] \<or> hd v \<notin> {SP, CHR '':''}"
  shows "ff_value (p @ CHR '':'' # q @ v) = v" "ff_value (p @ v) = v"
proof -
  have d: "dropWhile (\<lambda>c. c = SP) (r @ v) = v" if "set r \<subseteq> {SP}" for r
    using dropWhile_blanks [OF that, of v] assms(3) by (cases v) auto
  have "dropWhile (\<lambda>c. c = SP) (p @ CHR '':'' # q @ v) = CHR '':'' # q @ v"
    using dropWhile_blanks [OF assms(1), of "CHR '':'' # q @ v"] by simp
  then show "ff_value (p @ CHR '':'' # q @ v) = v" using d [OF assms(2)] by (simp add: ff_value_def)
  have "hd0 v \<noteq> CHR '':''" using assms(3) by (cases v) auto
  then show "ff_value (p @ v) = v" using d [OF assms(1)] d [of "[]"] by (simp add: ff_value_def)
qed

lemma ff_value_split:
  assumes h: "hd0 s = CHR '':'' \<or> hd0 s = SP"
  obtains p where "s = p @ ff_value s" "p \<noteq> []" "set p \<subseteq> {SP, CHR '':''}"
    "\<And>v. v = [] \<or> hd v \<notin> {SP, CHR '':''} \<Longrightarrow> ff_value (p @ v) = v"
proof -
  obtain p where p: "s = p @ dropWhile (\<lambda>c. c = SP) s" "set p \<subseteq> {SP}" using drop_blanks by blast
  let ?a = "dropWhile (\<lambda>c. c = SP) s"
  let ?b = "if hd0 ?a = CHR '':'' then tl ?a else ?a"
  obtain q where q: "?b = q @ dropWhile (\<lambda>c. c = SP) ?b" "set q \<subseteq> {SP}" using drop_blanks by blast
  have v: "ff_value s = dropWhile (\<lambda>c. c = SP) ?b" by (simp add: ff_value_def Let_def)
  show thesis
  proof (cases "hd0 ?a = CHR '':''")
    case True
    then have "?a = CHR '':'' # ?b" by (cases ?a) auto
    then have "s = (p @ CHR '':'' # q) @ ff_value s" using p(1) q(1) v by simp
    then show thesis
      by (rule that) (use p(2) q(2) ff_value_blanks(1) [OF p(2) q(2)] in auto)
  next
    case False
    have "p \<noteq> []"
    proof
      assume "p = []"
      then have "?a = s" using p(1) by simp
      then have "s = [] \<or> hd s \<noteq> SP" by (simp only: dropWhile_eq_self_iff)
      then show False using h False \<open>?a = s\<close> by (cases s) auto
    qed
    moreover have "s = p @ ff_value s" using p(1) v False by (simp add: dropWhile_idem)
    ultimately show thesis using ff_value_blanks(2) [OF p(2)] p(2) by (intro that [of p]) auto
  qed
qed

lemma tolower_LF: "tolower c = LF \<longleftrightarrow> c = LF"
  by (auto simp: ctype_defs uc_def simp flip: uc_inject)

text \<open>Whether a line matches is decided by the line.\<close>

lemma ff_match_line:
  assumes "LF \<notin> set field"
  shows "ff_match field (l @ LF # r) \<longleftrightarrow> ff_match field (l @ LF # r')"
proof (cases "length field \<le> length l")
  case True
  then show ?thesis by (simp add: ff_match_def strncaseeq_def chr_at_def nth_append)
next
  case False
  have "\<not> strncaseeq (l @ LF # u) field (length field)" for u
  proof
    assume "strncaseeq (l @ LF # u) field (length field)"
    then have "map tolower (take (length field) (l @ LF # u)) ! length l = map tolower field ! length l"
      by (simp add: strncaseeq_def)
    then have "tolower (field ! length l) = LF" using False tolower_LF [of LF] by (simp add: nth_append)
    then show False using assms False nth_mem [of "length l" field] by (simp add: tolower_LF)
  qed
  then show ?thesis by (simp add: ff_match_def)
qed

lemma next_line_split: "next_line s = Some t \<Longrightarrow> \<exists>l. LF \<notin> set l \<and> s = l @ LF # t"
proof (induction s)
  case (Cons c s)
  show ?case
  proof (cases "c = LF")
    case True
    then show ?thesis using Cons.prems by (intro exI [of _ "[]"]) (simp add: next_line_def)
  next
    case False
    then have "next_line s = Some t" using Cons.prems by (simp add: next_line_def)
    then obtain l where "LF \<notin> set l" "s = l @ LF # t" using Cons.IH by blast
    then show ?thesis using False by (intro exI [of _ "c # l"]) simp
  qed
qed (simp add: next_line_def)

lemma next_line_append: "LF \<notin> set l \<Longrightarrow> next_line (l @ LF # t) = Some t"
  by (induction l) (auto simp: next_line_def)

text \<open>The value of a field that was found can be exchanged.\<close>

lemma findField_loop_exchange:
  assumes "field \<noteq> []" and "LF \<notin> set field"
  shows "findField_loop h field s = Some (fsp, v) \<Longrightarrow>
    \<exists>pre. s = pre @ v \<and> pre \<noteq> [] \<and> last pre \<in> {SP, CHR '':''}
      \<and> (\<forall>w h'. w = [] \<or> hd w \<notin> {SP, CHR '':''} \<longrightarrow> (\<exists>f. findField_loop h' field (pre @ w) = Some (f, w)))"
proof (induction s rule: line_starts.induct)
  case (1 s)
  have ne: "s \<noteq> []" using 1(2) by (auto simp: findField_loop.simps)
  show ?case
  proof (cases "ff_match field s")
    case True
    let ?n = "take (length field) s"
    let ?d = "drop (length field) s"
    have d: "hd0 ?d = CHR '':'' \<or> hd0 ?d = SP" using True
      by (auto simp: ff_match_def chr_at_def hd0_def hd_drop_conv_nth split: list.splits if_splits)
        (metis hd_drop_conv_nth list.sel(1))+
    then have len: "length field < length s" by (cases "length field < length s") auto
    obtain p where p: "?d = p @ ff_value ?d" "p \<noteq> []" "set p \<subseteq> {SP, CHR '':''}"
      "\<And>w. w = [] \<or> hd w \<notin> {SP, CHR '':''} \<Longrightarrow> ff_value (p @ w) = w" using ff_value_split [OF d] by blast
    have v: "v = ff_value ?d" using 1(2) True ne assms(1)
      by (subst (asm) findField_loop.simps) (auto simp: ff_start_def Let_def)
    have "findField_loop h' field ((?n @ p) @ w) = Some ((?n @ p) @ w, w)" if "w = [] \<or> hd w \<notin> {SP, CHR '':''}" for w h'
    proof -
      have "chr_at ((?n @ p) @ w) (length field) = chr_at s (length field)"
        using len p(1,2) by (simp add: chr_at_def nth_append) (metis add_0_right hd_append2 hd_conv_nth hd_drop_conv_nth length_greater_0_conv)
      then have "ff_match field ((?n @ p) @ w)" using True len by (simp add: ff_match_def strncaseeq_def)
      moreover have "drop (length field) ((?n @ p) @ w) = p @ w" using len by simp
      ultimately show ?thesis using p(2) p(4) [OF that] assms(1)
        by (subst findField_loop.simps) (auto simp: ff_start_def Let_def)
    qed
    moreover have "s = (?n @ p) @ v" using p(1) v by (metis append_assoc append_take_drop_id)
    moreover have "last (?n @ p) \<in> {SP, CHR '':''}" using subsetD [OF p(3) last_in_set [OF p(2)]] p(2) by simp
    ultimately show ?thesis using p(2) by blast
  next
    case False
    then obtain t where t: "next_line s = Some t" "findField_loop h field t = Some (fsp, v)" using 1(2) ne assms(1)
      by (subst (asm) findField_loop.simps) (auto simp: ff_start_def Let_def split: option.splits)
    obtain l where l: "LF \<notin> set l" "s = l @ LF # t" using next_line_split [OF t(1)] by blast
    obtain pre where pre: "t = pre @ v" "pre \<noteq> []" "last pre \<in> {SP, CHR '':''}"
      "\<And>w h'. w = [] \<or> hd w \<notin> {SP, CHR '':''} \<Longrightarrow> \<exists>f. findField_loop h' field (pre @ w) = Some (f, w)"
      using 1(1) [OF ne t] by blast
    have "\<exists>f. findField_loop h' field ((l @ LF # pre) @ w) = Some (f, w)" if "w = [] \<or> hd w \<notin> {SP, CHR '':''}" for w h'
    proof -
      have "\<not> ff_match field (l @ LF # pre @ w)" using False l ff_match_line [OF assms(2), of l t "pre @ w"] by simp
      then show ?thesis using pre(4) [OF that, of h'] next_line_append [OF l(1)] assms(1)
        by (subst findField_loop.simps) (simp add: ff_start_def)
    qed
    then show ?thesis using l(2) pre(1-3) by (intro exI [of _ "l @ LF # pre"]) auto
  qed
qed


lemma findFieldValue_exchange:
  assumes "field \<noteq> []" and "LF \<notin> set field" and "findFieldValue head field = Some v"
  obtains pre where "head = pre @ v" "pre \<noteq> []" "last pre \<in> {SP, CHR '':''}"
    "\<And>w. w = [] \<or> hd w \<notin> {SP, CHR '':''} \<Longrightarrow> findFieldValue (pre @ w) field = Some w"
proof -
  obtain fsp where "findField_loop head field head = Some (fsp, v)"
    using assms(3) by (auto simp: findFieldValue_def findField_def)
  from findField_loop_exchange [OF assms(1,2) this] obtain pre where pre: "head = pre @ v" "pre \<noteq> []" "last pre \<in> {SP, CHR '':''}"
    "\<forall>w h'. w = [] \<or> hd w \<notin> {SP, CHR '':''} \<longrightarrow> (\<exists>f. findField_loop h' field (pre @ w) = Some (f, w))" by blast
  have "findFieldValue (pre @ w) field = Some w" if w: "w = [] \<or> hd w \<notin> {SP, CHR '':''}" for w
    using pre(4) w unfolding findFieldValue_def findField_def by (metis option.simps(9) snd_conv)
  then show thesis using that pre(1-3) by blast
qed

subsection \<open>An edit keeps the end of the header\<close>

text \<open>A line that is a single period, which ends a header in news and mail.\<close>

fun dot_line :: "bool \<Rightarrow> string \<Rightarrow> bool" where
  "dot_line atop [] \<longleftrightarrow> False"
| "dot_line atop (c # s) \<longleftrightarrow> atop \<and> c = CHR ''.'' \<and> (s = [] \<or> hd s = CR \<or> hd s = LF) \<or> dot_line (c = LF) s"

lemma copyHeader_passes:
  "\<not> dot_line b (copyHeader s) \<Longrightarrow> b \<longrightarrow> s = [] \<or> hd s \<notin> {CR, LF} \<Longrightarrow> passes b (copyHeader s) u"
proof (induction s arbitrary: b rule: copyHeader.induct)
  case (2 c sp)
  let ?s = "if c = LF then dropWhile (\<lambda>c. c = CR \<or> c = LF) sp else sp"
  have "\<not> dot_line (c = LF) (copyHeader ?s)" using "2.prems"(1) by simp
  moreover have "c = LF \<longrightarrow> ?s = [] \<or> hd ?s \<notin> {CR, LF}"
    using hd_dropWhile [of "\<lambda>c. c = CR \<or> c = LF" sp] by auto
  ultimately have r: "passes (c = LF) (copyHeader ?s) u" by (rule "2.IH")
  have "\<not> (b \<and> stops c (hd0 (copyHeader ?s @ u)))"
  proof
    assume b: "b \<and> stops c (hd0 (copyHeader ?s @ u))"
    then have "c = CHR ''.''" "hd0 (copyHeader ?s @ u) = CR \<or> hd0 (copyHeader ?s @ u) = LF" 
      using "2.prems"(2) by (auto simp: stops_def)
    then show False using "2.prems"(1) b by (cases "copyHeader ?s") auto
  qed
  then show ?case using r by simp
qed simp

lemma last_dropWhile: "xs \<noteq> [] \<Longrightarrow> \<not> P (last xs) \<Longrightarrow> dropWhile P xs \<noteq> [] \<and> last (dropWhile P xs) = last xs"
  by (induction xs) (auto split: if_splits)

lemma copyHeader_last: "s \<noteq> [] \<Longrightarrow> last s \<notin> {CR, LF} \<Longrightarrow> copyHeader s \<noteq> [] \<and> last (copyHeader s) = last s"
proof (induction s rule: copyHeader.induct)
  case (2 c sp)
  let ?s = "if c = LF then dropWhile (\<lambda>c. c = CR \<or> c = LF) sp else sp"
  show ?case
  proof (cases "sp = []")
    case False
    then have "?s \<noteq> []" "last ?s = last sp" using "2.prems"(2) last_dropWhile [of sp "\<lambda>c. c = CR \<or> c = LF"] by auto
    then show ?thesis using "2.IH" "2.prems"(2) False by simp
  qed simp
qed simp

lemma replaceFieldValue_found:
  assumes "findFieldValue head field = Some esp" and "head = pre @ esp" and "esp = f @ np" and "np = nextField esp False"
  shows "replaceFieldValue head field val = (0, head)
    \<or> replaceFieldValue head field val = (1, pre @ copyHeader val @ eol_before (pre @ f) @ np)"
proof -
  have "before head esp = pre" "before head np = pre @ f"
    using assms(2) before_append [of "pre @ f" np] assms(3) by simp_all
  then show ?thesis using assms(1,4) by (auto simp: replaceFieldValue_def Let_def)
qed

lemma found_in_header:
  assumes "field \<noteq> []" and "LF \<notin> set field"
    and "findFieldValue head field = Some esp" and "length (strSeekEOH head) \<le> length esp"
  obtains pre f where "head = pre @ esp" "esp = f @ nextField esp False" "\<And>u. seek True (pre @ u) = seek False u"
    "passes False f (nextField esp False)" "nextField esp False \<noteq> [] \<Longrightarrow> f \<noteq> [] \<and> last f = LF"
proof -
  obtain pre where pre: "head = pre @ esp" "pre \<noteq> []" "last pre \<in> {SP, CHR '':''}"
    using findFieldValue_exchange [OF assms(1-3)] by metis
  have p: "passes True pre esp" using assms(4) pre(1) by (intro passes_of_length) (simp add: strSeekEOH_seek)
  have "passes True pre u" for u using passes_other [OF p] pre(3) by auto
  moreover have "endtop True pre = False" using pre(2,3) by (auto simp: endtop_def)
  ultimately have "seek True (pre @ u) = seek False u" for u using seek_passes [of True pre u] by simp
  moreover obtain f where "esp = f @ nextField esp False" "passes False f (nextField esp False)"
    "nextField esp False \<noteq> [] \<Longrightarrow> f \<noteq> [] \<and> last f = LF"
    using nextField_rest [of esp] by blast
  ultimately show thesis using that pre(1) by blast
qed

text \<open>
  C14: a value that replaces that of a field found in the header does not move the end of the header, also when it holds
  empty lines, which are removed. The value is not empty, does not end in a CR or LF and has no line
  that is a single period: those are let through, and a value that ends in a line end does end the header
  (below).
\<close>

theorem replaceFieldValue_keeps_end:
  assumes "field \<noteq> []" and "LF \<notin> set field"
    and "findFieldValue head field = Some esp" and "length (strSeekEOH head) \<le> length esp"
    and "val \<noteq> []" and "last val \<notin> {CR, LF}" and "\<not> dot_line False (copyHeader val)"
  shows "strSeekEOH (snd (replaceFieldValue head field val)) = strSeekEOH head"
proof -
  define np where "np = nextField esp False"
  obtain pre f where h: "head = pre @ esp" "esp = f @ np" "\<And>u. seek True (pre @ u) = seek False u"
    "passes False f np" "np \<noteq> [] \<Longrightarrow> f \<noteq> [] \<and> last f = LF"
    using found_in_header [OF assms(1-4)] unfolding np_def by metis
  have old: "seek True head = seek (endtop False f) np" unfolding h(1) h(3) unfolding h(2) by (rule seek_passes [OF h(4)])
  let ?c = "copyHeader val"
  let ?e = "eol_before (pre @ f)"
  have c: "passes False ?c (?e @ np)" "endtop False ?c = False"
    using copyHeader_passes [OF assms(7)] copyHeader_last [OF assms(5,6)] assms(6) by (auto simp: endtop_def)
  have e: "passes False ?e np" "np \<noteq> [] \<Longrightarrow> endtop False ?e = True"
    using h(5) by (auto simp: eol_before_def endtop_def)
  have "seek True (pre @ ?c @ ?e @ np) = seek (endtop False ?e) np"
    using h(3) seek_passes [OF c(1)] seek_passes [OF e(1)] c(2) by simp
  also have "\<dots> = seek True head" unfolding old using e(2) h(5) by (cases "np = []") (auto simp: endtop_def)
  finally show ?thesis using replaceFieldValue_found [OF assms(3) h(1,2) np_def, of val]
    by (auto simp: strSeekEOH_seek)
qed

theorem replaceFieldValue_keeps_end_witness:
  "strSeekEOH (snd (replaceFieldValue (''To: a'' @ LF # ''Cc: b'' @ [LF, LF] @ ''x'') ''To'' (''c'' @ [LF, LF] @ ''D: e'')))
    = strSeekEOH (''To: a'' @ LF # ''Cc: b'' @ [LF, LF] @ ''x'')"
  by (rule replaceFieldValue_keeps_end [where esp = "''a'' @ LF # ''Cc: b'' @ [LF, LF] @ ''x''"])
    (simp_all add: findFieldValue_def findField_def findField_loop.simps ff_start_def ff_match_def strncaseeq_def ff_value_def
      Let_def strSeekEOH_seek stops_def)

lemma copyHeader_line: "LF \<notin> set v \<Longrightarrow> copyHeader (v @ [LF]) = v @ [LF]"
  by (induction v) auto

lemma passes_line: "LF \<notin> set v \<Longrightarrow> passes False v u"
  by (induction v) auto

text \<open>
  A value that ends in a line end puts an empty line behind the field, which ends the header: the
  fields that follow become the body.
\<close>

theorem trailing_newline_ends_header:
  assumes "field \<noteq> []" and "LF \<notin> set field"
    and "findFieldValue head field = Some esp" and "length (strSeekEOH head) \<le> length esp"
    and "nextField esp False \<noteq> []" and "LF \<notin> set v" and "\<not> strncaseeq esp (v @ [LF]) (length v + 1)"
  shows "strSeekEOH (snd (replaceFieldValue head field (v @ [LF]))) = LF # nextField esp False
    \<or> strSeekEOH (snd (replaceFieldValue head field (v @ [LF]))) = CR # LF # nextField esp False"
proof -
  define np where "np = nextField esp False"
  obtain pre f where h: "head = pre @ esp" "esp = f @ np" "\<And>u. seek True (pre @ u) = seek False u"
    "np \<noteq> [] \<Longrightarrow> f \<noteq> [] \<and> last f = LF"
    using found_in_header [OF assms(1-4)] unfolding np_def by metis
  have "replaceFieldValue head field (v @ [LF]) \<noteq> (0, head)" using assms(3,7)
    by (auto simp: replaceFieldValue_def Let_def)
  then have r: "snd (replaceFieldValue head field (v @ [LF])) = pre @ (v @ [LF]) @ eol_before (pre @ f) @ np"
    using replaceFieldValue_found [OF assms(3) h(1,2) np_def, of "v @ [LF]"] copyHeader_line [OF assms(6)] by auto
  have e: "eol_before (pre @ f) \<in> {[LF], CRLF}" using h(4) assms(5) by (auto simp: eol_before_def np_def)
  have "\<not> endtop False v" using assms(6) by (metis endtop_def last_in_set)
  then have "seek False ((v @ [LF]) @ u) = seek True u" for u
    using seek_passes [of False v "LF # u"] passes_line [OF assms(6)] by simp
  then have "seek True (pre @ (v @ [LF]) @ eol_before (pre @ f) @ np) = eol_before (pre @ f) @ np"
    unfolding h(3) using e by (auto simp: stops_def)
  then show ?thesis using e unfolding r strSeekEOH_seek np_def by auto
qed

theorem trailing_newline_ends_header_witness:
  "strSeekEOH (snd (replaceFieldValue (''To: a'' @ LF # ''Cc: b'' @ [LF, LF] @ ''x'') ''To'' (''c'' @ [LF])))
     = LF # nextField (''a'' @ LF # ''Cc: b'' @ [LF, LF] @ ''x'') False
   \<or> strSeekEOH (snd (replaceFieldValue (''To: a'' @ LF # ''Cc: b'' @ [LF, LF] @ ''x'') ''To'' (''c'' @ [LF])))
     = CR # LF # nextField (''a'' @ LF # ''Cc: b'' @ [LF, LF] @ ''x'') False"
  by (rule trailing_newline_ends_header)
    (simp_all add: findFieldValue_def findField_def findField_loop.simps ff_start_def ff_match_def strncaseeq_def ff_value_def
      Let_def strSeekEOH_seek stops_def nextField_def ctype_defs uc_def)


subsection \<open>A value that was stored is read back\<close>

text \<open>A value that reading does not change: no line ends or tabs and no two spaces in a row.\<close>

fun plain :: "bool \<Rightarrow> string \<Rightarrow> bool" where
  "plain psp [] \<longleftrightarrow> True"
| "plain psp (c # s) \<longleftrightarrow> c \<noteq> CR \<and> c \<noteq> LF \<and> c \<noteq> TAB \<and> \<not> (c = SP \<and> psp) \<and> plain (c = SP) s"

lemma valuescan_plain:
  "plain psp v \<Longrightarrow> cc + length v \<le> siz \<Longrightarrow>
   valuescan_loop siz cc psp acc (v @ t) = valuescan_loop siz (cc + length v) (if v = [] then psp else last v = SP) (acc @ v) t"
  by (induction v arbitrary: cc psp acc) auto

definition ends_value :: "string \<Rightarrow> bool" where
  "ends_value t \<longleftrightarrow> t = [] \<or> hd t = LF \<and> hd0 (tl t) \<notin> {SP, TAB}
     \<or> hd t = CR \<and> hd0 (tl t) = LF \<and> hd0 (tl (tl t)) \<notin> {SP, TAB}"

lemma ends_valueI: "e \<in> {[LF], CRLF} \<Longrightarrow> np = [] \<or> hd np \<notin> {SP, TAB} \<Longrightarrow> ends_value (e @ np)"
  by (cases np) (auto simp: ends_value_def)

lemma valuescan_ends: "ends_value t \<Longrightarrow> snd (valuescan_loop siz cc psp acc t) = acc"
proof (cases t)
  case (Cons c s)
  assume "ends_value t"
  then show ?thesis using Cons by (cases s) (auto simp: ends_value_def)
qed simp

lemma valuescan_value:
  "plain False v \<Longrightarrow> length v < siz \<Longrightarrow> ends_value t \<Longrightarrow> snd (RFC822_valuescan (v @ t) siz) = v"
  unfolding RFC822_valuescan_def by (subst valuescan_plain) (simp_all add: valuescan_ends)

lemma copyHeader_plain: "plain psp v \<Longrightarrow> copyHeader v = v"
  by (induction v arbitrary: psp) auto

text \<open>A new field is found where it is inserted: at the start of a line, when no line before it matches.\<close>

lemma findField_loop_insert:
  assumes "field \<noteq> []" and "LF \<notin> set field" and "w = [] \<or> hd w \<notin> {SP, CHR '':''}"
  shows "findField_loop h field (pre @ t) = None \<Longrightarrow> pre = [] \<or> last pre = LF \<Longrightarrow>
    findField_loop h' field (pre @ field @ '': '' @ w) = Some (field @ '': '' @ w, w)"
proof (induction pre arbitrary: h t rule: measure_induct_rule [of length])
  case (less pre)
  show ?case
  proof (cases "pre = []")
    case True
    have "ff_match field (field @ '': '' @ w)" by (simp add: ff_match_def strncaseeq_def chr_at_def nth_append)
    moreover have "ff_value ('': '' @ w) = w" using ff_value_blanks(1) [of "[]" "[SP]" w] assms(3) by simp
    ultimately show ?thesis using True assms(1) by (subst findField_loop.simps) (simp add: ff_start_def Let_def)
  next
    case False
    then have "LF \<in> set pre" using less.prems(2) last_in_set by metis
    then obtain l r where l: "pre = l @ LF # r" "LF \<notin> set l" by (meson split_list_first)
    have "\<not> ff_match field (l @ LF # r @ t)" "findField_loop h field (r @ t) = None"
      using less.prems(1) l assms(1) next_line_append [OF l(2)]
      by (subst (asm) findField_loop.simps; auto simp: ff_start_def Let_def split: if_splits)+
    moreover have "r = [] \<or> last r = LF" using less.prems(2) l(1) by (cases r) auto
    ultimately have "findField_loop h' field (r @ field @ '': '' @ w) = Some (field @ '': '' @ w, w)"
      "\<not> ff_match field (l @ LF # r @ field @ '': '' @ w)"
      using less.IH [of r h t] l ff_match_line [OF assms(2), of l "r @ t"] by auto
    then show ?thesis using l next_line_append [OF l(2)] assms(1)
      by (subst findField_loop.simps) (simp add: ff_start_def Let_def)
  qed
qed

lemma seek_end: "seek b s = [] \<or> hd (seek b s) \<notin> {SP, TAB}"
  by (induction s arbitrary: b) (auto simp: stops_def)

lemma seek_suffix: "suffix (seek b s) s"
  by (induction s arbitrary: b) (auto intro: suffix_ConsI)

lemma eol_before_ends:
  assumes "np \<noteq> [] \<longrightarrow> b \<noteq> [] \<and> last b = LF \<and> hd np \<notin> {SP, TAB}"
  shows "ends_value (eol_before b @ np)"
proof (cases "b \<noteq> [] \<and> last b = LF")
  case True
  then show ?thesis using assms by (intro ends_valueI) (auto simp: eol_before_def)
next
  case False
  then show ?thesis using assms by (auto simp: ends_value_def eol_before_def)
qed

lemma ends_value_hd: "ends_value t \<Longrightarrow> t = [] \<or> hd t \<notin> {SP, CHR '':''}"
  by (auto simp: ends_value_def)

text \<open>
  C15: after a value was stored in a field, reading the field gives the value: when the call reported that it
  replaced the field, or the field was absent from a header that ends at a line. The value fits the buffer
  and is one that reading does not change: no CR, LF or tab, no two spaces in a row, and not starting with
  a space or a colon.
\<close>

theorem replace_then_get:
  assumes "field \<noteq> []" and "LF \<notin> set field"
    and "plain False val" and "val = [] \<or> hd val \<notin> {SP, CHR '':''}" and "length val < siz"
    and "fst (replaceFieldValue head field val) = 1
      \<or> findField head field = None \<and> (before head (strSeekEOH head) = [] \<or> last (before head (strSeekEOH head)) = LF)"
  shows "getFieldValue2 (snd (replaceFieldValue head field val)) field siz = Some val"
proof -
  have get: "getFieldValue2 h field siz = Some val" if "findFieldValue h field = Some (val @ t)" "ends_value t" for h t
    using that valuescan_value [OF assms(3,5)] by (simp add: getFieldValue2_def)
  have w: "val @ t = [] \<or> hd (val @ t) \<notin> {SP, CHR '':''}" if "ends_value t" for t
    using assms(4) ends_value_hd [OF that] by (cases val) auto
  show ?thesis
  proof (cases "findFieldValue head field")
    case (Some esp)
    obtain pre where pre: "head = pre @ esp"
      "\<And>w. w = [] \<or> hd w \<notin> {SP, CHR '':''} \<Longrightarrow> findFieldValue (pre @ w) field = Some w"
      using findFieldValue_exchange [OF assms(1,2) Some] by metis
    obtain f where f: "esp = f @ nextField esp False"
      "nextField esp False \<noteq> [] \<Longrightarrow> f \<noteq> [] \<and> last f = LF \<and> hd (nextField esp False) \<notin> {SP, TAB}"
      using nextField_rest [of esp] by metis
    let ?t = "eol_before (pre @ f) @ nextField esp False"
    have t: "ends_value ?t" by (rule eol_before_ends) (use f(2) in auto)
    have "fst (replaceFieldValue head field val) = 1" using assms(6) Some by (auto simp: findFieldValue_def)
    then have "snd (replaceFieldValue head field val) = pre @ val @ ?t"
      using replaceFieldValue_found [OF Some pre(1) f(1) refl, of val] copyHeader_plain [OF assms(3)] by auto
    then show ?thesis using get [OF pre(2) [OF w [OF t]] t] by simp
  next
    case None
    let ?np = "strSeekEOH head"
    let ?t = "eol_of head @ ?np"
    obtain pre where pre: "head = pre @ ?np" using seek_suffix [of True head] by (auto simp: strSeekEOH_seek suffix_def)
    have t: "ends_value ?t" using seek_end [of True head] by (intro ends_valueI) (auto simp: eol_of_def strSeekEOH_seek)
    have n: "fst (replaceFieldValue head field val) = 0" "snd (replaceFieldValue head field val) = pre @ field @ '': '' @ val @ ?t"
      using None pre before_append [of pre ?np] by (simp_all add: replaceFieldValue_def Let_def)
    have e: "pre = [] \<or> last pre = LF" using assms(6) n(1) pre before_append [of pre ?np] by simp
    have "findField_loop head field (pre @ ?np) = None" using None pre by (simp add: findFieldValue_def findField_def)
    from findField_loop_insert [OF assms(1,2) w [OF t] this e] n(2)
    have "findFieldValue (snd (replaceFieldValue head field val)) field = Some (val @ ?t)"
      by (simp add: findFieldValue_def findField_def)
    then show ?thesis by (rule get [OF _ t])
  qed
qed

theorem replace_then_get_witness:
  "getFieldValue2 (snd (replaceFieldValue (''To: a'' @ CR # LF # '' b'' @ LF # ''Cc: b'' @ [LF, LF] @ ''x'') ''To'' ''c d'')) ''To'' 16 = Some ''c d''"
  by (rule replace_then_get)
    (simp_all add: replaceFieldValue_def findFieldValue_def findField_def findField_loop.simps ff_start_def ff_match_def
      strncaseeq_def ff_value_def Let_def ctype_defs uc_def)


subsection \<open>Folded values\<close>

text \<open>A line end and a blank, by which a value is continued in the next line.\<close>

definition is_fold :: "string \<Rightarrow> bool" where
  "is_fold e \<longleftrightarrow> e \<in> {[LF, SP], [LF, TAB], [CR, LF, SP], [CR, LF, TAB]}"

lemma valuescan_fold:
  assumes "is_fold e" and "cc + 3 \<le> siz"
  obtains cc' where "cc' \<le> cc + 3" "valuescan_loop siz cc False acc (e @ t) = valuescan_loop siz cc' True (acc @ [SP]) t"
proof -
  have "\<exists>cc' \<le> cc + 3. valuescan_loop siz cc False acc (e @ t) = valuescan_loop siz cc' True (acc @ [SP]) t"
  proof (cases "length e = 2")
    case True
    then show ?thesis using assms by (intro exI [of _ "cc + 2"]) (auto simp: is_fold_def)
  next
    case False
    then show ?thesis using assms by (intro exI [of _ "cc + 3"]) (auto simp: is_fold_def numeral_3_eq_3)
  qed
  then show thesis using that by blast
qed

definition folded_line :: "string \<times> string \<Rightarrow> bool" where
  "folded_line p \<longleftrightarrow> is_fold (fst p) \<and> snd p \<noteq> [] \<and> plain True (snd p) \<and> last (snd p) \<noteq> SP"

lemma valuescan_folds:
  "list_all folded_line ls \<Longrightarrow> ends_value t \<Longrightarrow> cc + sum_list (map (\<lambda>p. 3 + length (snd p)) ls) \<le> siz \<Longrightarrow>
   snd (valuescan_loop siz cc False acc (concat (map (\<lambda>p. fst p @ snd p) ls) @ t)) = acc @ concat (map (\<lambda>p. SP # snd p) ls)"
proof (induction ls arbitrary: cc acc)
  case Nil
  then show ?case by (simp add: valuescan_ends)
next
  case (Cons p ls)
  obtain e l where p: "p = (e, l)" by (cases p)
  have l: "is_fold e" "l \<noteq> []" "plain True l" "last l \<noteq> SP" using Cons.prems(1) p by (auto simp: folded_line_def)
  let ?r = "concat (map (\<lambda>p. fst p @ snd p) ls) @ t"
  obtain cc' where cc: "cc' \<le> cc + 3"
    "valuescan_loop siz cc False acc (e @ l @ ?r) = valuescan_loop siz cc' True (acc @ [SP]) (l @ ?r)"
    using valuescan_fold [OF l(1), of cc siz acc "l @ ?r"] Cons.prems(3) p by auto
  have "valuescan_loop siz cc' True (acc @ [SP]) (l @ ?r) = valuescan_loop siz (cc' + length l) False (acc @ SP # l) ?r"
    using valuescan_plain [OF l(3), of cc' siz "acc @ [SP]" ?r] l(2,4) cc(1) Cons.prems(3) p by simp
  then show ?case using Cons.IH [of "cc' + length l" "acc @ SP # l"] Cons.prems cc p by simp
qed

text \<open>
  Reading a folded value unfolds it: each line end with the blank behind it becomes one space, and
  the value ends at the line end before the next field.
\<close>

theorem folded_value_unfolds:
  assumes "plain False l" and "l \<noteq> []" and "last l \<noteq> SP" and "list_all folded_line ls" and "ends_value t"
    and "length l + sum_list (map (\<lambda>p. 3 + length (snd p)) ls) < siz"
  shows "snd (RFC822_valuescan (l @ concat (map (\<lambda>p. fst p @ snd p) ls) @ t) siz) = l @ concat (map (\<lambda>p. SP # snd p) ls)"
  unfolding RFC822_valuescan_def
  using valuescan_plain [OF assms(1), of 1 siz "[]"] valuescan_folds [OF assms(4,5), of "1 + length l" siz l] assms(2,3,6)
  by simp

theorem folded_value_unfolds_witness:
  "snd (RFC822_valuescan (''a'' @ concat (map (\<lambda>p. fst p @ snd p) [([CR, LF, TAB], ''b c''), ([LF, SP], ''d'')]) @ CR # LF # ''X'') 32)
    = ''a'' @ concat (map (\<lambda>p. SP # snd p) [([CR, LF, TAB], ''b c''), ([LF, SP], ''d'')])"
  by (rule folded_value_unfolds) (auto simp: folded_line_def is_fold_def ends_value_def)

subsection \<open>Removing fields\<close>

lemma removed_nonblank: "field \<noteq> [] \<Longrightarrow> hd field \<notin> {SP, TAB} \<Longrightarrow> removed field wild (c # s) \<Longrightarrow> c \<noteq> SP \<and> c \<noteq> TAB"
  by (cases field) (auto simp: removed_def strneq_def)

text \<open>Within a field, all characters are treated alike.\<close>

lemma removeFields_rest:
  assumes "field \<noteq> []" and "hd field \<notin> {SP, TAB}"
  shows "\<exists>f. s = f @ nextField_loop False atop s \<and>
    removeFields_loop field wild atop skip s =
      (fst (removeFields_loop field wild True skip (nextField_loop False atop s)),
       (if skip then [] else f) @ snd (removeFields_loop field wild True skip (nextField_loop False atop s)))"
proof (induction s arbitrary: atop)
  case (Cons c s)
  show ?case
  proof (cases "atop \<and> c \<noteq> SP \<and> c \<noteq> TAB")
    case True
    then show ?thesis by (intro exI [of _ "[]"]) simp
  next
    case False
    let ?b = "\<not> atop \<and> c = LF"
    have n: "nextField_loop False atop (c # s) = nextField_loop False ?b s" "?b = (c = LF)" using False by auto
    obtain f where f: "s = f @ nextField_loop False ?b s"
      "removeFields_loop field wild ?b skip s =
        (fst (removeFields_loop field wild True skip (nextField_loop False ?b s)),
         (if skip then [] else f) @ snd (removeFields_loop field wild True skip (nextField_loop False ?b s)))"
      using Cons.IH [of ?b] by blast
    have "\<not> (atop \<and> removed field wild (c # s))" using removed_nonblank [OF assms] False by blast
    then have "removeFields_loop field wild atop skip (c # s) =
      (fst (removeFields_loop field wild (c = LF) skip s), (if skip then [] else [c]) @ snd (removeFields_loop field wild (c = LF) skip s))"
      using False by (auto simp: Let_def)
    then have "removeFields_loop field wild atop skip (c # s) =
      (fst (removeFields_loop field wild True skip (nextField_loop False ?b s)),
       (if skip then [] else c # f) @ snd (removeFields_loop field wild True skip (nextField_loop False ?b s)))"
      using f(2) n(2) by simp
    then show ?thesis unfolding n(1) using f(1) by (intro exI [of _ "c # f"]) (simp only: append_Cons)
  qed
qed simp


lemma removeFields_skip:
  assumes "s = c # s'" and "\<not> skip \<or> c \<notin> {SP, TAB}"
  shows "removeFields_loop field wild True skip s =
    ((if removed field wild s then 1 else 0) + fst (removeFields_loop field wild (c = LF) (removed field wild s) s'),
     (if removed field wild s then [] else [c]) @ snd (removeFields_loop field wild (c = LF) (removed field wild s) s'))"
proof -
  have "(if removed field wild s then True else if c \<noteq> SP \<and> c \<noteq> TAB then False else skip) = removed field wild s"
    using assms(2) by auto
  then show ?thesis unfolding assms(1) removeFields_loop.simps(2) Let_def by (simp only: simp_thms)
qed

lemma removeFields_field:
  assumes "field \<noteq> []" and "hd field \<notin> {SP, TAB}" and "s \<noteq> []" and "\<not> skip \<or> hd s \<notin> {SP, TAB}"
  shows "removeFields_loop field wild True skip s =
    (let hit = removed field wild s; r = removeFields_loop field wild True hit (nextField s False)
     in ((if hit then 1 else 0) + fst r, (if hit then [] else before s (nextField s False)) @ snd r))"
proof -
  obtain c s' where s: "s = c # s'" using assms(3) by (cases s) auto
  let ?hit = "removed field wild s"
  let ?np = "nextField s False"
  have np: "?np = nextField_loop False (c = LF) s'" by (simp add: nextField_def s)
  obtain f where f: "s' = f @ ?np" "removeFields_loop field wild (c = LF) ?hit s' =
      (fst (removeFields_loop field wild True ?hit ?np), (if ?hit then [] else f) @ snd (removeFields_loop field wild True ?hit ?np))"
    using removeFields_rest [OF assms(1,2), of s' "c = LF" wild ?hit] unfolding np by blast
  have "removeFields_loop field wild True skip s =
    ((if ?hit then 1 else 0) + fst (removeFields_loop field wild (c = LF) ?hit s'),
     (if ?hit then [] else [c]) @ snd (removeFields_loop field wild (c = LF) ?hit s'))"
    by (rule removeFields_skip [OF s]) (use assms(4) s in auto)
  moreover have "before s ?np = c # f" using before_append [of "c # f" ?np] f(1) s by (metis append_Cons)
  ultimately show ?thesis unfolding Let_def f(2) fst_conv snd_conv by (cases ?hit) (simp_all only: if_True if_False append_Cons append_Nil)
qed

text \<open>
  C30: \<^verbatim>\<open>removeFields\<close>, which decides character by character, removes whole fields, the ones of that name with their
  continuation lines, keeps all others as they are, and counts the removed ones; the fields are those
  that \<^verbatim>\<open>nextField\<close> steps through.
\<close>

theorem removeFields_filters:
  assumes "field \<noteq> []" and "hd field \<notin> {SP, TAB}"
  shows "removeFields head field wild =
    (length (filter (removed field wild) (field_starts False head)),
     concat (map (\<lambda>sp. before sp (nextField sp False)) (filter (\<lambda>sp. \<not> removed field wild sp) (field_starts False head))))"
proof -
  have "removeFields_loop field wild True skip s =
    (length (filter (removed field wild) (field_starts False s)),
     concat (map (\<lambda>sp. before sp (nextField sp False)) (filter (\<lambda>sp. \<not> removed field wild sp) (field_starts False s))))"
    if "s = [] \<or> \<not> skip \<or> hd s \<notin> {SP, TAB}" for s skip
    using that
  proof (induction s arbitrary: skip rule: measure_induct_rule [of length])
    case (less s)
    show ?case
    proof (cases "s = []")
      case True
      then show ?thesis by (simp add: field_starts.simps)
    next
      case False
      have "nextField s False = [] \<or> hd (nextField s False) \<notin> {SP, TAB}" using nextField_rest [of s] by metis
      then have "removeFields_loop field wild True b (nextField s False) =
          (length (filter (removed field wild) (field_starts False (nextField s False))),
           concat (map (\<lambda>sp. before sp (nextField sp False)) (filter (\<lambda>sp. \<not> removed field wild sp) (field_starts False (nextField s False)))))" for b
        using less.IH [OF nextField_length [OF False]] by blast
      then show ?thesis using removeFields_field [OF assms False] less.prems False field_starts.simps [of False s] by (simp add: Let_def)
    qed
  qed
  then show ?thesis unfolding removeFields_def by blast
qed

theorem removeFields_filters_witness:
  "removeFields (''A: 1'' @ LF # '' 2'' @ LF # ''B: 3'' @ [LF]) ''A'' False =
    (length (filter (removed ''A'' False) (field_starts False (''A: 1'' @ LF # '' 2'' @ LF # ''B: 3'' @ [LF]))),
     concat (map (\<lambda>sp. before sp (nextField sp False))
       (filter (\<lambda>sp. \<not> removed ''A'' False sp) (field_starts False (''A: 1'' @ LF # '' 2'' @ LF # ''B: 3'' @ [LF])))))"
  by (rule removeFields_filters) simp_all

subsection \<open>Edits that do something else\<close>

lemmas find_defs = findFieldValue_def findField_def findField_loop.simps ff_start_def ff_match_def strncaseeq_def ff_value_def
  next_line_def ctype_defs uc_def Let_def

text \<open>
  \<^verbatim>\<open>rmField\<close> removes only the first line of a field: the continuation lines stay and become
  part of the field before it, or the start of the header.
\<close>

theorem rmField_leaves_continuation:
  "rmField (''To: a'' @ LF # ''Cc: b,'' @ LF # '' c'' @ LF # ''X: d'' @ [LF]) ''Cc''
     = (1, ''To: a'' @ LF # '' c'' @ LF # ''X: d'' @ [LF])"
  by (simp add: rmField.simps cut_line_def before_def find_defs)

text \<open>
  A character set is not replaced by one whose name it starts with: \<^verbatim>\<open>charset=iso-8859-15\<close>
  stays when it is to become \<^verbatim>\<open>iso-8859-1\<close>.
\<close>

theorem charset_prefix_kept:
  assumes "charset_at ctype = Some (charset @ rest)"
  shows "replace_charset_value ctype charset force = (0, ctype)"
  using assms by (simp add: replace_charset_value_def strncaseeq_def)

theorem charset_prefix_kept_witness:
  "replace_charset_value ''text/plain; charset=iso-8859-15'' ''iso-8859-1'' False = (0, ''text/plain; charset=iso-8859-15'')"
  by (rule charset_prefix_kept [where rest = "''5''"]) (simp add: charset_at_def strncaseeq_def ctype_defs uc_def)

text \<open>
  When \<^verbatim>\<open>Content-Type\<close> names no character set, the one of a later field or of the body is changed instead.
\<close>

theorem charset_of_other_field:
  "replace_charset (''Content-Type: text/plain'' @ CRLF @ ''X: charset=a'' @ CRLF) ''b''
     = (1, ''Content-Type: text/plain'' @ CRLF @ ''X: charset=b'' @ CRLF)"
  by (simp add: replace_charset_def replace_charset_value_def charset_at_def charset_namelen_def erase_charset_param_def
      before_def find_defs)


text \<open>
  \<^verbatim>\<open>Remove/name:value\<close> removes a field of that name when the value occurs anywhere behind it, in other fields or the
  body: the search for the value does not end with the field.
\<close>

theorem filter_sees_other_fields:
  assumes "field = name @ '':'' @ val" and "s = field @ t" and "strstr (val @ t) aval \<noteq> None"
    and "at_EOH (nextField s False)"
  shows "filter_remove name aval s = nextField s False"
proof -
  have "filter_match name aval s"
    using assms(1-3) by (simp add: filter_match_def strncaseeq_def chr_at_def nth_append)
  moreover have "s \<noteq> []" using assms(1,2) by simp
  ultimately show ?thesis using assms(4) by (subst filter_remove.simps) (simp add: Let_def)
qed

theorem filter_sees_other_fields_witness:
  "filter_remove ''To'' ''x'' (''To: a'' @ [LF, LF] @ ''x'') = nextField (''To: a'' @ [LF, LF] @ ''x'') False"
  by (rule filter_sees_other_fields [where field = "''To: a''" and val = "'' a''" and t = "[LF, LF] @ ''x''"])
    (simp_all add: nextField_def at_EOH_def)

text \<open>A value stays as it is when its first line is the new value, even when it is continued.\<close>

lemma continued_value_kept:
  "replaceFieldValue (''To: a'' @ LF # '' b'' @ [LF]) ''To'' ''a'' = (0, ''To: a'' @ LF # '' b'' @ [LF])"
  by (simp add: replaceFieldValue_def line_text_def strcasecmp_def find_defs)

text \<open>A field that starts with a line end, added in front of the empty line, ends the header there.\<close>

lemma added_line_end_ends_header:
  assumes "LF \<notin> set a" and "a \<noteq> []" and "hd a \<notin> {CR, CHR ''.''}" and "CR \<notin> set a" and "copyHeader (CRLF @ x) = CRLF @ x"
  shows "strSeekEOH (RFC822_addHeaderField (a @ CRLF @ CRLF) (CRLF @ x)) = CRLF @ x @ CRLF"
proof -
  have n: "strstr (a @ CRLF @ CRLF) (CRLF @ CRLF) = Some (CRLF @ CRLF)" using assms(4) by (induction a) auto
  have "RFC822_addHeaderField (a @ CRLF @ CRLF) (CRLF @ x) = a @ CRLF @ (CRLF @ x) @ CRLF"
    unfolding RFC822_addHeaderField_def n using assms(5) before_append [of a "CRLF @ CRLF"] by simp
  moreover have "passes True a u" for u
    using assms(1-3) passes_line [of "tl a"] by (cases a) (auto simp: stops_def)
  moreover have "endtop True a = False" using assms(1,2) by (metis endtop_def last_in_set)
  ultimately show ?thesis using seek_passes [of True a "CRLF @ CRLF @ x @ CRLF"] by (simp add: strSeekEOH_seek stops_def)
qed

text \<open>Erasing a parameter that follows a space leaves its semicolon, and a quoted value its closing quote.\<close>

lemma erase_leaves_semicolon: "erase_charset_param ''a; charset=b; c=d'' = (10, ''a;; c=d'')"
  by (simp add: erase_charset_param_def ctype_defs uc_def strncaseeq_def) code_simp

text \<open>A closing parenthesis without an opening one hides the rest of an address.\<close>

lemma unbalanced_comment: "lev < 0 \<Longrightarrow> CHR ''('' \<notin> set s \<Longrightarrow> strip_comment_loop siz lev acc s = acc"
  by (induction siz lev acc s rule: strip_comment_loop.induct) auto

text \<open>Of a folded field, the lines behind the first are not written.\<close>

lemma skipheader_drops_continuation:
  "RFC821_skipheader True (Some ''To'') (''To: a,'' @ LF # '' b'' @ LF # LF # ''x'') = (0, ''a,'', ''x'')"
  by (simp add: RFC821_skipheader_def skipheader_loop.simps fgets_def full_line_def isEOR_def header_value_def before_def
      strncaseeq_def ctype_defs uc_def Let_def)

end
