(* ===== verification/Url.thy ===== *)
theory Url
  imports Rfc822 UrlEsc
begin

section \<open>Url: the parts of a URL (\<open>src/url.cpp\<close>)\<close>

text \<open>
  Taking a URL apart into scheme, user, password, host, port and path, hiding the password of
  a URL that is logged, removing the dot elements of a path before it is matched with
  the mount table, and moving a port number between site and path. A buffer of a fixed size cuts
  what is stored in it; the standard port of a protocol (\<^verbatim>\<open>serviceport\<close>) is a parameter.
\<close>

subsection \<open>Scheme and site\<close>

definition NDGU_MARK :: string where "NDGU_MARK = ''-_-''"
definition ODGU_MARK :: string where "ODGU_MARK = ''=@=''"

definition isLoadableURL :: "string \<Rightarrow> bool" where
  "isLoadableURL url \<longleftrightarrow> strncaseeq url ''ftp://'' 6 \<or> strncaseeq url ''file:'' 5 \<or> strncaseeq url ''data:'' 5
     \<or> strncaseeq url ''enc:'' 4 \<or> strncaseeq url ''myfile:'' 7 \<or> strncaseeq url ''builtin:'' 8
     \<or> strncaseeq url ''http://'' 7"

text \<open>The scheme and the rest of the URL.\<close>

definition scan_URI_scheme :: "string \<Rightarrow> nat \<Rightarrow> string \<times> string" where
  "scan_URI_scheme url siz =
     (let scheme = take (siz - 1) (takeWhile (\<lambda>c. c \<noteq> CHR '':'' \<and> \<not> isspace c) url)
      in (scheme, drop (length scheme) url))"

definition fromProxyClient :: "string \<Rightarrow> bool" where
  "fromProxyClient url \<longleftrightarrow>
     strncaseeq url ''http://'' 7 \<or> strncaseeq url ''nntp://'' 7 \<or> strncaseeq url ''wais://'' 7
     \<or> strncaseeq url ''ftp://'' 6 \<or> strncaseeq url ''gopher://'' 9
     \<or> hd0 url \<noteq> CHR ''/'' \<and> strneq (snd (scan_URI_scheme url 32)) ''://'' 3 \<and> strstr url NDGU_MARK = None"

definition is_redirected_url :: "string \<Rightarrow> bool" where
  "is_redirected_url url \<longleftrightarrow> strstr url ODGU_MARK \<noteq> None \<or> strstr url NDGU_MARK \<noteq> None"

definition is_redirected_selector :: "string \<Rightarrow> bool" where
  "is_redirected_selector sel \<longleftrightarrow> strneq sel NDGU_MARK (length NDGU_MARK)"

text \<open>A prefix \<^verbatim>\<open>-_-=...=\<close> or \<^verbatim>\<open>-_-/.../\<close> of the protocol: the rest and the prefix.\<close>

definition url_rmprefix :: "string \<Rightarrow> string \<times> string" where
  "url_rmprefix proto =
     (if is_prefix NDGU_MARK proto then
        (let p = drop (length NDGU_MARK) proto; dch = hd0 p
         in if dch = CHR ''='' \<or> dch = CHR ''/'' then
              (case strchr (tl p) dch of
                 Some q \<Rightarrow> (tl q, take (length proto - length q + 1) proto)
               | None \<Rightarrow> (proto, []))
            else (proto, []))
      else (proto, []))"

definition site_char :: "char \<Rightarrow> bool" where
  "site_char c \<longleftrightarrow> isalnum c \<or> c \<in> set ''-.:@%$_!~*(),;&=+#'' \<or> c = SQ"

definition scan_URI_site :: "string \<Rightarrow> nat \<Rightarrow> string \<times> string" where
  "scan_URI_site url siz =
     (let len = min 512 (if siz = 0 then 248 else siz); site = takeWhile site_char (take (len - 1) url)
      in (site, drop (length site) url))"

definition strrchr :: "string \<Rightarrow> char \<Rightarrow> string option" where
  "strrchr s c = (if c \<in> set s then Some (c # rev (takeWhile (\<lambda>x. x \<noteq> c) (rev s))) else None)"

definition decomp_URL_site :: "string \<Rightarrow> string \<times> string" where
  "decomp_URL_site site =
     (case strrchr site CHR ''@'' of
        Some up \<Rightarrow>
          (case strchr up CHR '':'' of
             Some pp \<Rightarrow> (before site pp, tl pp)
           | None \<Rightarrow> (site, []))
      | None \<Rightarrow>
          (let h = takeWhile (\<lambda>c. c \<noteq> CHR '':'') site; r = drop (length h) site
           in if h = [] \<or> r = [] then (h, [])
              else (h, takeWhile (\<lambda>c. \<not> isspace c) (dropWhile isspace (tl r)))))"

record url_site =
  us_userpass :: string
  us_user :: string
  us_pass :: string
  us_hostport :: string
  us_host :: string
  us_port :: string

definition decomp_URL_siteX :: "string \<Rightarrow> nat \<Rightarrow> url_site" where
  "decomp_URL_siteX site bsiz =
     (let cut = strrchr site CHR ''@''; up = (case cut of Some a \<Rightarrow> before site a | None \<Rightarrow> []);
          hp = (case cut of Some a \<Rightarrow> tl a | None \<Rightarrow> site);
          u = takeWhile (\<lambda>c. c \<noteq> CHR '':'') up; p = tl (drop (length u) up);
          h = takeWhile (\<lambda>c. c \<noteq> CHR '':'') hp
      in \<lparr>us_userpass = up,
          us_user = fst (nonxalpha_unescape u bsiz True), us_pass = fst (nonxalpha_unescape p bsiz True),
          us_hostport = hp, us_host = h, us_port = tl (drop (length h) hp)\<rparr>)"

text \<open>The protocol, the site, the port and the number of them.\<close>

definition scan_protositeport :: "string \<Rightarrow> nat \<times> string \<times> string \<times> string" where
  "scan_protositeport url =
     (let (proto, sp0) = (if hd0 url \<noteq> CHR ''/'' then scan_URI_scheme url 64 else ([], url));
          sp = (if hd0 sp0 = CHR '':'' then tl sp0 else sp0)
      in case (if strneq sp ''//'' 2 then Some (drop 2 sp) else if hd0 sp = CHR ''/'' then Some (tl sp) else None) of
           None \<Rightarrow> (0, proto, [], [])
         | Some sp' \<Rightarrow>
             (case decomp_URL_site (fst (scan_URI_site sp' 256)) of
                (uph, port) \<Rightarrow> (if port = [] then 2 else 3, proto, uph, port)))"

definition SITEC :: "char \<Rightarrow> bool" where
  "SITEC c \<longleftrightarrow> uc c < 128 \<and> 0x20 < uc c \<and> c \<noteq> CHR ''/'' \<and> c \<noteq> CHR ''?''"

record absurl =
  au_count :: nat
  au_proto :: string
  au_login :: string
  au_upath :: string
  au_urlpath :: "string option"

text \<open>
  \<open>ulen\<close> is the size of the buffer for the path, \<open>None\<close> when there is none. The path is cut at an offset of the whole
  URL, not of the path.
\<close>

definition decomp_absurlX :: "string \<Rightarrow> nat option \<Rightarrow> absurl" where
  "decomp_absurlX url ulen =
     (let proto = take 31 (takeWhile (\<lambda>c. c \<noteq> CHR '':'') url); up = drop (length proto) url;
          r0 = \<lparr>au_count = 0, au_proto = proto, au_login = [], au_upath = [], au_urlpath = None\<rparr>
      in if hd0 up \<noteq> CHR '':'' then r0
         else if chr_at up 1 \<noteq> CHR ''/'' \<or> chr_at up 2 \<noteq> CHR ''/'' then r0\<lparr>au_count := 1\<rparr>
         else let login = take 255 (takeWhile SITEC (drop 3 up)); p = drop (3 + length login) up;
                  r2 = r0\<lparr>au_count := 2, au_login := login, au_urlpath := Some p\<rparr>
              in if hd0 p \<noteq> CHR ''?'' \<and> hd0 p \<noteq> CHR ''/'' then r2
                 else let q = (if hd0 p = CHR ''?'' then p else tl p)
                      in case ulen of
                           None \<Rightarrow> r2\<lparr>au_count := 3\<rparr>
                         | Some n \<Rightarrow>
                             r2\<lparr>au_count := 3,
                                au_upath := takeWhile (\<lambda>c. c \<noteq> CR \<and> c \<noteq> LF) (take (n - 1 - (length url - length q)) q)\<rparr>)"

definition decomp_absurl :: "string \<Rightarrow> nat option \<Rightarrow> absurl" where
  "decomp_absurl url ulen = decomp_absurlX url ulen"

definition strip_urlhead :: "string \<Rightarrow> nat \<times> string" where
  "strip_urlhead url =
     (let r = decomp_absurlX url None
      in (au_count r,
          if 2 \<le> au_count r then
            (case au_urlpath r of
               Some p \<Rightarrow> if hd0 p = CHR ''/'' then p else CHR ''/'' # p
             | None \<Rightarrow> url)
          else url))"

subsection \<open>User, password, host and port\<close>

text \<open>
  The user and the password are in buffers of 64 bytes. The position returned is that of the
  \<^verbatim>\<open>@\<close> in the copy, applied to the text given; without an \<^verbatim>\<open>@\<close> it is the end of the text.
\<close>

definition userpass_copy :: "string \<Rightarrow> string" where
  "userpass_copy s = takeWhile (\<lambda>c. c \<notin> {CHR ''/'', CHR ''?'', CR, LF}) (take 63 (line_text s))"

definition scan_userpassX :: "string \<Rightarrow> string \<times> string \<times> string" where
  "scan_userpassX userpass =
     (let copy = userpass_copy userpass; hp = strrchr copy CHR ''@'';
          up = (case hp of Some a \<Rightarrow> before copy a | None \<Rightarrow> copy);
          user = takeWhile (\<lambda>c. c \<noteq> CHR '':'') up;
          pass = take 63 (takeWhile (\<lambda>c. c \<noteq> CR \<and> c \<noteq> LF) (tl (drop (length user) up)))
      in (user, pass, if hp = None then [] else drop (length up) userpass))"

text \<open>The user and the password of a server specification, unescaped into buffers of \<open>bsiz\<close> bytes.\<close>

definition scan_url_userpass :: "string \<Rightarrow> string \<Rightarrow> nat \<Rightarrow> string \<times> string \<times> string" where
  "scan_url_userpass server dfltuser bsiz =
     (case scan_userpassX server of
        (user, pass, sp) \<Rightarrow>
          if hd0 sp \<noteq> CHR ''@'' then (dfltuser, [], server)
          else (fst (nonxalpha_unescape (word_text user 128) bsiz True),
                fst (nonxalpha_unescape (takeWhile (\<lambda>c. c \<noteq> CR \<and> c \<noteq> LF) pass) bsiz True), tl sp))"

record site_auth =
  i_user :: string
  i_pass :: string
  i_Host :: string
  i_Port :: int

definition EOHN :: "char set" where
  "EOHN = {CHR '':'', CHR ''/'', CHR ''?'', SP, TAB, CR, LF, FF, DQ}"

text \<open>The port is an \<^verbatim>\<open>unsigned short\<close>, the host a buffer of 102 bytes.\<close>

definition decomp_siteX :: "(string \<Rightarrow> int) \<Rightarrow> string \<Rightarrow> string \<Rightarrow> site_auth" where
  "decomp_siteX serviceport proto site =
     (case scan_userpassX site of
        (user, pass, xp) \<Rightarrow>
          let (u, p, rest) = (if hd0 xp = CHR ''@'' then (user, pass, tl xp) else ([], [], site));
              host = take 101 (takeWhile (\<lambda>c. c \<notin> EOHN) rest); pp = drop (length host) rest;
              port = (if hd0 pp = CHR '':'' then tl pp else [])
          in \<lparr>i_user = u, i_pass = p, i_Host = host,
              i_Port = (if port \<noteq> [] then atoi port else serviceport proto) mod 65536\<rparr>)"

definition site_strippass :: "string \<Rightarrow> string" where
  "site_strippass site =
     (case scan_userpassX site of (user, _, xp) \<Rightarrow> if hd0 xp = CHR ''@'' then user @ xp else site)"

definition url_strippass :: "string \<Rightarrow> string" where
  "url_strippass url =
     (case strstr url ''://'' of
        Some sp \<Rightarrow> before url sp @ ''://'' @ site_strippass (drop 3 sp)
      | None \<Rightarrow> url)"

definition scan_hostportX :: "(string \<Rightarrow> int) \<Rightarrow> string \<Rightarrow> string \<Rightarrow> nat \<Rightarrow> int \<times> string" where
  "scan_hostportX serviceport proto hostport hsiz =
     (let host = take (hsiz - 1) (takeWhile (\<lambda>c. c \<notin> EOHN) hostport); pp = drop (length host) hostport;
          port = (if hd0 pp = CHR '':'' then atoi (tl pp) else 0)
      in (if port = 0 then serviceport proto else port, host))"

text \<open>
  \<^verbatim>\<open>scan_hostport1X\<close> between separate buffers: \<open>pp\<close> is where the host ends when a colon has been seen, an
  \<^verbatim>\<open>@\<close> starts the host again.
\<close>

fun hostport1_loop :: "nat \<Rightarrow> string \<Rightarrow> int \<Rightarrow> nat option \<Rightarrow> string \<Rightarrow> int \<times> string" where
  "hostport1_loop xp out port pp [] = (port, case pp of Some k \<Rightarrow> take k out | None \<Rightarrow> out)"
| "hostport1_loop xp out port pp (ch # sp) =
     (if xp \<le> length out \<or> ch = CHR ''/'' \<or> ch = CHR ''?'' \<or> is_blank ch
      then (port, case pp of Some k \<Rightarrow> take k out | None \<Rightarrow> out)
      else if ch = CHR '':'' then hostport1_loop xp out (atoi sp) (Some (length out)) sp
      else if ch = CHR ''@'' then hostport1_loop xp [] 0 None sp
      else if 128 \<le> uc ch \<or> uc ch \<le> 0x20 then (port, case pp of Some k \<Rightarrow> take k out | None \<Rightarrow> out)
      else hostport1_loop xp (out @ [ch]) port pp sp)"

definition scan_hostport1X :: "string \<Rightarrow> nat \<Rightarrow> int \<times> string" where
  "scan_hostport1X hostport hsiz = hostport1_loop (hsiz - 1) [] 0 None hostport"

definition scan_hostport1pX :: "(string \<Rightarrow> int) \<Rightarrow> string \<Rightarrow> string \<Rightarrow> nat \<Rightarrow> int \<times> string" where
  "scan_hostport1pX serviceport proto login hsiz =
     (case scan_hostport1X login hsiz of (port, host) \<Rightarrow> (if port = 0 then serviceport proto else port, host))"

fun hostport0_loop :: "nat \<Rightarrow> string \<Rightarrow> string \<Rightarrow> int \<times> string" where
  "hostport0_loop hsiz out [] = (0, out)"
| "hostport0_loop hsiz out (ch # sp) =
     (if hsiz \<le> length out + 1 then (0, out)
      else if ch = CHR '':'' then (atoi sp, out)
      else if ch \<in> {CHR ''/'', SP, TAB, CR, LF} then (0, out)
      else hostport0_loop hsiz (out @ [ch]) sp)"

definition scan_hostport0 :: "string \<Rightarrow> nat \<Rightarrow> int \<times> string" where
  "scan_hostport0 hostport hsiz = hostport0_loop hsiz [] hostport"

definition scan_hostport :: "(string \<Rightarrow> int) \<Rightarrow> string \<Rightarrow> string \<Rightarrow> nat \<Rightarrow> int \<times> string" where
  "scan_hostport serviceport proto hostport hsiz =
     (case scan_hostport0 hostport hsiz of (iport, host) \<Rightarrow> (if iport = 0 then serviceport proto else iport, host))"

definition HostPort :: "(string \<Rightarrow> int) \<Rightarrow> string \<Rightarrow> string \<Rightarrow> int \<Rightarrow> string" where
  "HostPort serviceport proto host port =
     (if serviceport proto \<noteq> port then host @ '':'' @ print_int port else host)"

subsection \<open>Absolute and relative URLs\<close>

definition localPathProto :: "string \<Rightarrow> bool" where
  "localPathProto proto \<longleftrightarrow> proto = ''file'' \<or> proto = ''proc'' \<or> proto = ''cgi'' \<or> proto = ''cfi''"

text \<open>On a system whose path separator is not a backslash.\<close>

definition isFullpath :: "string \<Rightarrow> bool" where
  "isFullpath path \<longleftrightarrow> hd0 path = CHR ''/''"

definition isSchemeChar :: "char \<Rightarrow> bool" where
  "isSchemeChar ch \<longleftrightarrow> isalnum ch \<or> ch = CHR ''+'' \<or> ch = CHR ''-'' \<or> ch = CHR ''.''"

definition isFullURL :: "string \<Rightarrow> bool" where
  "isFullURL url \<longleftrightarrow>
     (let proto = take 32 (takeWhile isSchemeChar url); up = drop (length proto) url
      in proto \<noteq> [] \<and> hd0 up = CHR '':''
         \<and> (chr_at up 1 = CHR ''/'' \<and> chr_at up 2 = CHR ''/''
            \<or> localPathProto proto \<and> isFullpath (tl up)
            \<or> proto = ''builtin'' \<or> proto = ''news'' \<or> proto = ''mailto'' \<or> proto = ''data''))"

text \<open>The length of the directory part, \<open>sp\<close> the offset of the last slash seen.\<close>

fun upathbase_loop :: "nat \<Rightarrow> nat option \<Rightarrow> string \<Rightarrow> nat option" where
  "upathbase_loop i sp [] = sp"
| "upathbase_loop i sp (tc # tp) =
     (if tc = CHR ''?'' then sp else upathbase_loop (i + 1) (if tc = CHR ''/'' then Some i else sp) tp)"

definition url_upathbaselen :: "string \<Rightarrow> nat \<Rightarrow> nat" where
  "url_upathbaselen base blen =
     (case upathbase_loop 0 None (take blen base) of None \<Rightarrow> 0 | Some sp \<Rightarrow> sp + 1)"

fun relative_loop :: "nat \<Rightarrow> string \<Rightarrow> string \<Rightarrow> nat" where
  "relative_loop nsl (a # as) (b # bs) =
     (if a \<noteq> b then nsl
      else let nsl' = (if a = CHR ''/'' then nsl + 1 else nsl)
           in if nsl' = 3 then nsl' else relative_loop nsl' as bs)"
| "relative_loop nsl as bs = nsl"

definition url_relative :: "string \<Rightarrow> string \<Rightarrow> string" where
  "url_relative absurl baseurl = (if relative_loop 0 absurl baseurl = 3 then [] else absurl)"

subsection \<open>Dot elements of a path\<close>

definition UREND :: "char \<Rightarrow> bool" where
  "UREND ch \<longleftrightarrow> ch = DQ \<or> ch = CHR ''>'' \<or> isspace ch \<or> ch = NUL"

definition CURDIR :: "string \<Rightarrow> string option" where
  "CURDIR u = (if hd0 u = CHR ''.'' \<and> (hd0 (tl u) = CHR ''/'' \<or> UREND (hd0 (tl u))) then Some (tl u) else None)"

definition UPDIR :: "string \<Rightarrow> string option" where
  "UPDIR u = (if hd0 u = CHR ''.'' then CURDIR (tl u) else None)"

definition skip_slash :: "string \<Rightarrow> string" where
  "skip_slash np = (if hd0 np = CHR ''/'' then tl np else np)"

text \<open>
  One element back: the last character is dropped, then all down to a slash, which stays; a slash at the start
  of the result is never removed.
\<close>

definition norm_back :: "string \<Rightarrow> string" where
  "norm_back out =
     (let xp = rev (dropWhile (\<lambda>c. c \<noteq> CHR ''/'') (rev (butlast out)))
      in if xp = [] \<and> hd0 out = CHR ''/'' then ''/'' else xp)"

lemma skip_slash_le: "length (skip_slash s) \<le> length s"
  by (simp add: skip_slash_def)

lemma CURDIR_less: "CURDIR u = Some np \<Longrightarrow> length np < length u"
  by (cases u) (auto simp: CURDIR_def split: if_splits)

lemma UPDIR_less: "UPDIR u = Some np \<Longrightarrow> length np < length u"
  by (cases u) (auto simp: UPDIR_def dest!: CURDIR_less split: if_splits)

lemma element_less:
  assumes "up \<noteq> []" "\<not> (hd0 (skip_slash up) = CHR ''?'' \<or> UREND (hd0 (skip_slash up)))"
  shows "length (skip_slash up) - length (takeWhile (\<lambda>c. \<not> (c = CHR ''/'' \<or> c = CHR ''?'' \<or> UREND c)) (skip_slash up))
    < length up"
  using assms by (cases up; cases "hd up = CHR ''/''") (auto simp: skip_slash_def split: if_splits)

lemma dir_less:
  "CURDIR (skip_slash up) = Some np \<or> UPDIR (skip_slash up) = Some np \<Longrightarrow> length (skip_slash np) < length up"
  using skip_slash_le [of up] skip_slash_le [of np] by (auto dest!: CURDIR_less UPDIR_less)

text \<open>
  \<^verbatim>\<open>urlpath_normalize\<close> as it is called, with the result on the place of the URL: \<open>out\<close> is what has been
  written, \<open>up\<close> what is still to be read. The result is the text written and the rest not visited.
\<close>

function norm_loop :: "string \<Rightarrow> string \<Rightarrow> string \<times> string" where
  "norm_loop out up =
     (if up = [] then (out, [])
      else let out1 = (if hd up = CHR ''/'' then out @ ''/'' else out); up1 = skip_slash up
           in if hd0 up1 = CHR ''?'' \<or> UREND (hd0 up1) then (out1, up1)
              else case CURDIR up1 of
                     Some np \<Rightarrow> norm_loop out1 (skip_slash np)
                   | None \<Rightarrow>
                       (case UPDIR up1 of
                          Some np \<Rightarrow> norm_loop (norm_back out1) (skip_slash np)
                        | None \<Rightarrow>
                            let w = takeWhile (\<lambda>c. \<not> (c = CHR ''/'' \<or> c = CHR ''?'' \<or> UREND c)) up1
                            in norm_loop (out1 @ w) (drop (length w) up1)))"
  by pat_completeness auto

termination
  by (relation "measure (length \<circ> snd)")
    (auto simp del: de_Morgan_disj simp: element_less [simplified] intro: dir_less)

definition urlpath_normalize :: "string \<Rightarrow> bool \<times> string" where
  "urlpath_normalize url =
     (case norm_loop [] url of
        (out, rest) \<Rightarrow>
          (let visited = length url - length rest
           in (length out \<noteq> visited \<and> length out + length rest \<noteq> visited, out @ rest)))"

definition cut_back :: "string \<Rightarrow> string" where
  "cut_back bp = rev (tl (dropWhile (\<lambda>c. c \<noteq> CHR ''/'') (rev bp)))"

function updir_loop :: "string \<Rightarrow> nat \<Rightarrow> string \<Rightarrow> string \<times> nat \<times> string" where
  "updir_loop bp nup up =
     (case UPDIR up of
        None \<Rightarrow> (bp, nup, up)
      | Some xp \<Rightarrow>
          if hd0 xp \<noteq> CHR ''/'' then (cut_back bp, nup + 1, xp)
          else updir_loop (cut_back bp) (nup + 1) (tl xp))"
  by pat_completeness auto
termination
  by (relation "measure (\<lambda>(bp, nup, up). length up)") (auto dest!: UPDIR_less)

text \<open>The number of characters of the URL that are consumed, and the length of the base that remains.\<close>

definition url_normalize :: "string \<Rightarrow> string \<Rightarrow> nat \<times> nat" where
  "url_normalize base url =
     (if CURDIR url = None \<and> UPDIR url = None then (0, length base)
      else case updir_loop base 0 (case CURDIR url of Some xp \<Rightarrow> skip_slash xp | None \<Rightarrow> url) of
             (bp, nup, up) \<Rightarrow> (length url - length up, length (if 0 < nup then cut_back bp else bp)))"

subsection \<open>Port numbers in the path\<close>

definition PORT_MARK :: string where "PORT_MARK = ''-.-P''"

text \<open>The port the mark carries, and the URL without it; \<open>None\<close> leaves the port of the caller as it is.\<close>

definition url_delport :: "string \<Rightarrow> int option \<times> string" where
  "url_delport url =
     (case strstr url PORT_MARK of
        Some dp \<Rightarrow>
          (let port = take 31 (takeWhile isdigit (drop 4 dp))
           in (Some (atoi port), before url dp @ drop (4 + length port) dp))
      | None \<Rightarrow> (None, url))"

definition EOURL :: "char set" where "EOURL = {SP, TAB, CR, LF, DQ, SQ, CHR ''>''}"

definition add_port_mark :: "string \<Rightarrow> string \<Rightarrow> string" where
  "add_port_mark vurl port =
     (let head = takeWhile (\<lambda>c. c \<noteq> CHR ''?'' \<and> c \<noteq> CHR ''#'') vurl
      in head @ take 31 (PORT_MARK @ port) @ drop (length head) vurl)"

text \<open>
  With \<^verbatim>\<open>url_unify_ports\<close> set, into a buffer that has room for the mark beyond the \<open>siz\<close> bytes the URL may
  take: the length of the URL that was read, 0 when it has no port, and the URL written.
\<close>

definition url_movport :: "bool \<Rightarrow> string \<Rightarrow> nat \<Rightarrow> (nat \<times> string) option" where
  "url_movport url_unify_ports url siz =
     (if \<not> url_unify_ports then None
      else let vurl = take (siz - 1) (takeWhile (\<lambda>c. c \<notin> EOURL) url)
           in Some (case strstr vurl ''://'' of
                None \<Rightarrow> (0, [])
              | Some p \<Rightarrow>
                  (let site = takeWhile (\<lambda>c. c \<notin> set '':/?'' \<and> c \<notin> {SP, TAB, CR, LF, DQ, SQ}) (drop 3 p);
                       dp = drop (3 + length site) p
                   in if hd0 dp \<noteq> CHR '':'' then (0, [])
                      else let port = take 31 (takeWhile isdigit (tl dp))
                           in (length vurl,
                               if port = [] then vurl
                               else add_port_mark (before vurl dp @ drop (1 + length port) dp) port))))"

end
