(* ===== verification/UrlPath.thy ===== *)
theory UrlPath
  imports Url
begin

section \<open>UrlPath: what the routines on URLs guarantee\<close>

text \<open>
  The removal of dot elements is the stack machine on the elements of the path, it leaves none
  behind and cannot leave an absolute path; a question mark after the dots, and the site of a full URL, are the exceptions.
\<close>

subsection \<open>Elements of a path\<close>

definition ends_path :: "char \<Rightarrow> bool" where
  "ends_path c \<longleftrightarrow> c = CHR ''?'' \<or> UREND c"

definition path_part :: "string \<Rightarrow> string" where
  "path_part url = takeWhile (\<lambda>c. \<not> ends_path c) url"

definition tail_part :: "string \<Rightarrow> string" where
  "tail_part url = dropWhile (\<lambda>c. \<not> ends_path c) url"

fun split_slash :: "string \<Rightarrow> string list" where
  "split_slash [] = [[]]"
| "split_slash (c # s) =
     (if c = CHR ''/'' then [] # split_slash s
      else case split_slash s of [] \<Rightarrow> [[c]] | e # es \<Rightarrow> (c # e) # es)"

definition path_elements :: "string \<Rightarrow> string list" where
  "path_elements url = split_slash (path_part url)"

definition dirs_text :: "string list \<Rightarrow> string" where
  "dirs_text st = concat (map (\<lambda>e. e @ ''/'') st)"

definition pop_dir :: "string list \<Rightarrow> string list" where
  "pop_dir st = (if st = [] \<or> st = [[]] then st else butlast st)"

definition push_dir :: "string list \<Rightarrow> string \<Rightarrow> string list" where
  "push_dir st e = (if e = ''.'' then st else if e = ''..'' then pop_dir st else st @ [e])"

text \<open>The last element is no directory; in front of a question mark its dots are kept.\<close>

definition normal_form :: "string list \<Rightarrow> string list \<Rightarrow> string \<Rightarrow> string" where
  "normal_form st es t =
     (let dirs = foldl push_dir st (butlast es); e = last es
      in if hd0 t \<noteq> CHR ''?'' \<and> (e = ''.'' \<or> e = ''..'') then dirs_text (push_dir dirs e) @ t
         else dirs_text dirs @ e @ t)"

lemma dirs_text_simps [simp]:
  "dirs_text [] = []" "dirs_text (e # st) = e @ CHR ''/'' # dirs_text st"
  "dirs_text (st @ st') = dirs_text st @ dirs_text st'"
  by (simp_all add: dirs_text_def)

lemma dirs_text_end: "dirs_text st = [] \<or> (\<exists>s. dirs_text st = s @ ''/'')"
  by (cases st rule: rev_cases) simp_all

lemma norm_back_dirs:
  assumes "\<forall>e \<in> set st. CHR ''/'' \<notin> set e"
  shows "norm_back (dirs_text st) = dirs_text (pop_dir st)"
proof (cases st rule: rev_cases)
  case Nil
  then show ?thesis by (simp add: norm_back_def pop_dir_def hd0_def)
next
  case (snoc ys y)
  have y: "\<forall>c \<in> set (rev y). c \<noteq> CHR ''/''" using assms snoc by auto
  have "dropWhile (\<lambda>c. c \<noteq> CHR ''/'') (rev (dirs_text ys)) = rev (dirs_text ys)"
    using dirs_text_end [of ys] by auto
  then have "rev (dropWhile (\<lambda>c. c \<noteq> CHR ''/'') (rev (butlast (dirs_text st)))) = dirs_text ys"
    using snoc dropWhile_append2 [of "rev y" "\<lambda>c. c \<noteq> CHR ''/''"] y by (simp add: butlast_append)
  then show ?thesis using snoc y
    by (cases ys; cases y) (auto simp: norm_back_def Let_def pop_dir_def hd0_def)
qed

lemma split_slash_nonempty [simp]: "split_slash s \<noteq> []"
  by (cases s) (auto split: list.split)

lemma split_slash_elems: "e \<in> set (split_slash s) \<Longrightarrow> CHR ''/'' \<notin> set e"
proof (induction s arbitrary: e)
  case (Cons c s)
  then show ?case by (cases "split_slash s") (auto split: if_splits)
qed simp

lemma split_slash_append:
  "CHR ''/'' \<notin> set e \<Longrightarrow> split_slash (e @ s) = (e @ hd (split_slash s)) # tl (split_slash s)"
  by (induction e) (auto simp: neq_Nil_conv split: list.split)

lemma split_slash_one: "CHR ''/'' \<notin> set e \<Longrightarrow> split_slash e = [e]"
  using split_slash_append [of e "[]"] by simp

subsection \<open>The stack machine\<close>

lemma ends_path_simps [simp]: "\<not> ends_path CHR ''/''" "\<not> ends_path CHR ''.''" "ends_path NUL" "ends_path CHR ''?''"
  by (simp_all add: ends_path_def UREND_def isspace_def uc_def)

text \<open>A URL from the start of an element: an element, and what ends it.\<close>

lemma element_cases:
  obtains (last) e t where "u = e @ t" "CHR ''/'' \<notin> set e" "list_all (\<lambda>c. \<not> ends_path c) e" "t = [] \<or> ends_path (hd t)"
  | (dir) e r where "u = e @ CHR ''/'' # r" "CHR ''/'' \<notin> set e" "list_all (\<lambda>c. \<not> ends_path c) e"
proof -
  define P where "P = (\<lambda>c. c \<noteq> CHR ''/'' \<and> \<not> ends_path c)"
  define e where "e = takeWhile P u"
  define t where "t = dropWhile P u"
  have u: "u = e @ t" by (simp add: e_def t_def)
  have e: "\<forall>c \<in> set e. P c" by (auto simp: e_def dest: set_takeWhileD)
  have t: "t = [] \<or> \<not> P (hd t)" using hd_dropWhile [of P u] by (auto simp: t_def)
  show thesis
  proof (cases "t \<noteq> [] \<and> hd t = CHR ''/''")
    case True
    then show thesis using dir [of e "tl t"] u e by (cases t) (auto simp: P_def list_all_iff)
  next
    case False
    then show thesis using last [of e t] u e t by (auto simp: P_def list_all_iff)
  qed
qed

lemma path_elements_last:
  assumes "CHR ''/'' \<notin> set e" "list_all (\<lambda>c. \<not> ends_path c) e" "t = [] \<or> ends_path (hd t)"
  shows "path_elements (e @ t) = [e]" "tail_part (e @ t) = t"
proof -
  have "takeWhile (\<lambda>c. \<not> ends_path c) t = []" "dropWhile (\<lambda>c. \<not> ends_path c) t = t" using assms(3) by (cases t; simp)+
  then show "path_elements (e @ t) = [e]" "tail_part (e @ t) = t"
    using assms(1,2) takeWhile_append2 [of e "\<lambda>c. \<not> ends_path c" t] dropWhile_append2 [of e "\<lambda>c. \<not> ends_path c" t]
    by (simp_all add: path_elements_def path_part_def tail_part_def list_all_iff split_slash_one)
qed

lemma path_elements_dir:
  assumes "CHR ''/'' \<notin> set e" "list_all (\<lambda>c. \<not> ends_path c) e"
  shows "path_elements (e @ CHR ''/'' # r) = e # path_elements r" "tail_part (e @ CHR ''/'' # r) = tail_part r"
  using assms by (auto simp: path_elements_def path_part_def tail_part_def list_all_iff split_slash_append
      takeWhile_append dropWhile_append)

lemma path_elements_nonempty [simp]: "path_elements u \<noteq> []"
  by (simp add: path_elements_def)

declare norm_loop.simps [simp del]

lemma not_dirs: "CURDIR (CHR ''/'' # r) = None" "UPDIR (CHR ''/'' # r) = None"
  by (simp_all add: CURDIR_def UPDIR_def)

lemma hd0_stop: "t = [] \<or> ends_path (hd t) \<Longrightarrow> ends_path (hd0 t)"
  by (cases t) auto

lemma norm_loop_stop: "t = [] \<or> ends_path (hd t) \<Longrightarrow> norm_loop out t = (out, t)"
  by (subst norm_loop.simps) (cases t; auto simp: ends_path_def skip_slash_def UREND_def isspace_def uc_def)

lemma norm_loop_slash: "norm_loop out (CHR ''/'' # u) = norm_loop (out @ ''/'') u"
proof (cases "u = [] \<or> ends_path (hd0 u)")
  case True
  then have "norm_loop out (CHR ''/'' # u) = (out @ ''/'', u)"
    by (subst norm_loop.simps) (auto simp: skip_slash_def ends_path_def UREND_def)
  then show ?thesis using True by (cases u) (simp_all add: norm_loop_stop)
next
  case False
  then have go: "u \<noteq> []" "\<not> (hd0 u = CHR ''?'' \<or> UREND (hd0 u))" by (auto simp: ends_path_def)
  show ?thesis
  proof (cases "hd u = CHR ''/''")
    case True
    then obtain r where "u = CHR ''/'' # r" using go(1) by (cases u) auto
    then show ?thesis using go(2) by (subst norm_loop.simps) (simp add: skip_slash_def not_dirs)
  next
    case noslash: False
    then have "skip_slash u = u" using go(1) by (cases u) (auto simp: skip_slash_def)
    then show ?thesis using go noslash norm_loop.simps [of out "CHR ''/'' # u"] norm_loop.simps [of "out @ ''/''" u]
      by (simp add: skip_slash_def)
  qed
qed

lemma dot_elements:
  assumes "CHR ''/'' \<notin> set e" "list_all (\<lambda>c. \<not> ends_path c) e" "t = [] \<or> ends_path (hd t) \<or> hd t = CHR ''/''"
  shows "CURDIR (e @ t) = (if e = ''.'' \<and> hd0 t \<noteq> CHR ''?'' then Some t else None)"
    and "UPDIR (e @ t) = (if e = ''..'' \<and> hd0 t \<noteq> CHR ''?'' then Some t else None)"
proof -
  have "e = [] \<or> (\<exists>x. e = [x]) \<or> (\<exists>x y. e = [x, y]) \<or> (\<exists>x y z w. e = x # y # z # w)"
    by (metis neq_Nil_conv)
  moreover have "UREND (hd0 t) \<or> hd0 t = CHR ''/'' \<longleftrightarrow> hd0 t \<noteq> CHR ''?''"
    using assms(3) by (cases t) (auto simp: ends_path_def UREND_def isspace_def uc_def)
  moreover have "\<forall>c \<in> set e. c \<noteq> CHR ''/'' \<and> \<not> UREND c" using assms(1,2) by (auto simp: list_all_iff ends_path_def)
  moreover have "hd0 t \<noteq> CHR ''.''" using assms(3) by (cases t) auto
  ultimately show "CURDIR (e @ t) = (if e = ''.'' \<and> hd0 t \<noteq> CHR ''?'' then Some t else None)"
    and "UPDIR (e @ t) = (if e = ''..'' \<and> hd0 t \<noteq> CHR ''?'' then Some t else None)"
    by (elim disjE exE; force simp: CURDIR_def UPDIR_def hd0_def)+
qed

lemma norm_loop_element:
  assumes "CHR ''/'' \<notin> set e" "list_all (\<lambda>c. \<not> ends_path c) e" "t = [] \<or> ends_path (hd t) \<or> hd t = CHR ''/''"
  shows "norm_loop out (e @ t) =
    (if e = ''.'' \<and> hd0 t \<noteq> CHR ''?'' then norm_loop out (skip_slash t)
     else if e = ''..'' \<and> hd0 t \<noteq> CHR ''?'' then norm_loop (norm_back out) (skip_slash t)
     else norm_loop (out @ e) t)"
proof (cases "e = []")
  case False
  define u where "u = e @ t"
  define w where "w = takeWhile (\<lambda>c. \<not> (c = CHR ''/'' \<or> c = CHR ''?'' \<or> UREND c)) u"
  have w: "w = e" using assms
    by (cases t) (auto simp: u_def w_def takeWhile_append list_all_iff ends_path_def takeWhile_eq_all_conv)
  have u: "u \<noteq> []" "hd u \<noteq> CHR ''/''" "\<not> (hd0 u = CHR ''?'' \<or> UREND (hd0 u))"
    using False assms(1,2) by (cases e; auto simp: u_def ends_path_def)+
  have d: "drop (length e) u = t" by (simp add: u_def)
  have c: "CURDIR u = (if e = ''.'' \<and> hd0 t \<noteq> CHR ''?'' then Some t else None)"
    "UPDIR u = (if e = ''..'' \<and> hd0 t \<noteq> CHR ''?'' then Some t else None)"
    using dot_elements [OF assms] by (simp_all add: u_def)
  have "skip_slash u = u" using u(1,2) by (cases u) (auto simp: skip_slash_def)
  then have "norm_loop out u = (case CURDIR u of Some np \<Rightarrow> norm_loop out (skip_slash np)
      | None \<Rightarrow> (case UPDIR u of Some np \<Rightarrow> norm_loop (norm_back out) (skip_slash np)
         | None \<Rightarrow> norm_loop (out @ w) (drop (length w) u)))"
    using u by (subst norm_loop.simps) (simp add: w_def Let_def split: option.split)
  then have "norm_loop out u = (if e = ''.'' \<and> hd0 t \<noteq> CHR ''?'' then norm_loop out (skip_slash t)
     else if e = ''..'' \<and> hd0 t \<noteq> CHR ''?'' then norm_loop (norm_back out) (skip_slash t)
     else norm_loop (out @ e) t)"
    unfolding c w d by simp
  then show ?thesis by (simp add: u_def)
qed simp

lemma pop_dir_elems: "e \<in> set (pop_dir st) \<Longrightarrow> e \<in> set st"
  by (auto simp: pop_dir_def dest: in_set_butlastD split: if_splits)

lemma normal_form_dir: "es \<noteq> [] \<Longrightarrow> normal_form st (e # es) t = normal_form (push_dir st e) es t"
  by (simp add: normal_form_def)

lemma norm_loop_spec:
  assumes "\<forall>e \<in> set st. CHR ''/'' \<notin> set e"
  shows "(case norm_loop (dirs_text st) u of (out, rest) \<Rightarrow> out @ rest) = normal_form st (path_elements u) (tail_part u)"
  using assms
proof (induction u arbitrary: st rule: length_induct)
  case (1 u)
  show ?case
  proof (cases u rule: element_cases)
    case (last e t)
    have "skip_slash t = t" using last(4) by (cases t) (auto simp: skip_slash_def)
    then show ?thesis
      using last norm_loop_element [of e t "dirs_text st"] norm_back_dirs [OF 1(2)]
      by (auto simp: path_elements_last normal_form_def push_dir_def norm_loop_stop)
  next
    case (dir e r)
    have st: "\<forall>d \<in> set (push_dir st e). CHR ''/'' \<notin> set d"
      using 1(2) dir(2) by (auto simp: push_dir_def dest: pop_dir_elems)
    have "norm_loop (dirs_text st) u = norm_loop (dirs_text (push_dir st e)) r"
      using dir norm_loop_element [of e "CHR ''/'' # r" "dirs_text st"] norm_back_dirs [OF 1(2)]
      by (auto simp: push_dir_def norm_loop_slash skip_slash_def)
    then show ?thesis using 1(1) st dir by (simp add: path_elements_dir normal_form_dir)
  qed
qed

lemma urlpath_normalize_spec:
  "snd (urlpath_normalize url) = normal_form [] (path_elements url) (tail_part url)"
  using norm_loop_spec [of "[]" url] by (simp add: urlpath_normalize_def Let_def split: prod.splits)

lemmas stop_eval = path_elements_def path_part_def tail_part_def ends_path_def UREND_def isspace_def uc_def

text \<open>
  C12: \<^verbatim>\<open>urlpath_normalize\<close>, which rewrites the path of a request in place before it is looked up in the mount table, is the
  usual stack machine: the path up to a question mark, quote, greater-than sign or blank is split at
  the slashes, \<^verbatim>\<open>.\<close> is dropped, \<^verbatim>\<open>..\<close> drops the directory before it except the root, and all the
  rest stays as it is; a last element \<^verbatim>\<open>.\<close> or \<^verbatim>\<open>..\<close> directly in front of a question mark is kept.
\<close>

theorem normalize_is_stack:
  "snd (urlpath_normalize url) = normal_form [] (path_elements url) (tail_part url)"
  by (rule urlpath_normalize_spec)

subsection \<open>What is left\<close>

definition clean_elem :: "string \<Rightarrow> bool" where
  "clean_elem e \<longleftrightarrow> CHR ''/'' \<notin> set e \<and> list_all (\<lambda>c. \<not> ends_path c) e"

definition is_dots :: "string \<Rightarrow> bool" where
  "is_dots e \<longleftrightarrow> e = ''.'' \<or> e = ''..''"

lemma path_elements_dirs:
  assumes "\<forall>d \<in> set D. clean_elem d"
  shows "path_elements (dirs_text D @ u) = D @ path_elements u" "tail_part (dirs_text D @ u) = tail_part u"
  using assms by (induction D) (auto simp: clean_elem_def path_elements_dir)

lemma path_elements_clean: "e \<in> set (path_elements u) \<Longrightarrow> clean_elem e"
proof (induction u arbitrary: e rule: length_induct)
  case (1 u)
  show ?case
  proof (cases u rule: element_cases)
    case (last f t)
    then show ?thesis using 1(2) by (simp add: path_elements_last clean_elem_def)
  next
    case (dir f r)
    have "\<And>d. d \<in> set (path_elements r) \<Longrightarrow> clean_elem d" using 1(1) dir(1)
      by (metis length_append length_Cons less_add_Suc2 add_Suc_right)
    moreover have "e = f \<or> e \<in> set (path_elements r)" using 1(2) dir by (simp add: path_elements_dir)
    ultimately show ?thesis using dir(2,3) by (auto simp: clean_elem_def)
  qed
qed

lemma tail_part_stop: "tail_part u = [] \<or> ends_path (hd (tail_part u))"
  using hd_dropWhile [of "\<lambda>c. \<not> ends_path c" u] by (auto simp: tail_part_def)

lemma push_dirs_good:
  "(\<forall>d \<in> set st. clean_elem d \<and> \<not> is_dots d) \<Longrightarrow> (\<forall>e \<in> set es. clean_elem e) \<Longrightarrow>
     \<forall>d \<in> set (foldl push_dir st es). clean_elem d \<and> \<not> is_dots d"
proof (induction es arbitrary: st)
  case (Cons e es)
  have "d \<in> set st \<or> d = e \<and> \<not> is_dots e" if "d \<in> set (push_dir st e)" for d
    using that by (auto simp: push_dir_def is_dots_def dest: pop_dir_elems split: if_splits)
  then have "\<forall>d \<in> set (push_dir st e). clean_elem d \<and> \<not> is_dots d"
    using Cons.prems by (metis list.set_intros(1))
  moreover have "\<forall>e \<in> set es. clean_elem e" using Cons.prems(2) by auto
  ultimately show ?case unfolding foldl.simps by (rule Cons.IH)
qed simp

lemma push_dirs_plain: "(\<forall>d \<in> set es. \<not> is_dots d) \<Longrightarrow> foldl push_dir st es = st @ es"
  by (induction es arbitrary: st) (auto simp: push_dir_def is_dots_def)

text \<open>The result again: directories, a last element and the tail, none of which is a dot element.\<close>

lemma normalize_shape:
  obtains D e where "snd (urlpath_normalize url) = dirs_text D @ e @ tail_part url"
    "path_elements (snd (urlpath_normalize url)) = D @ [e]" "tail_part (snd (urlpath_normalize url)) = tail_part url"
    "\<forall>d \<in> set D. clean_elem d \<and> \<not> is_dots d" "clean_elem e" "is_dots e \<Longrightarrow> hd0 (tail_part url) = CHR ''?''"
proof -
  define t where "t = tail_part url"
  define dirs where "dirs = foldl push_dir [] (butlast (path_elements url))"
  define l where "l = last (path_elements url)"
  have l: "clean_elem l" unfolding l_def by (rule path_elements_clean) (rule last_in_set, simp)
  have g: "\<forall>d \<in> set dirs. clean_elem d \<and> \<not> is_dots d"
    unfolding dirs_def by (rule push_dirs_good) (auto dest: in_set_butlastD path_elements_clean)
  then have g': "\<forall>d \<in> set (pop_dir dirs). clean_elem d \<and> \<not> is_dots d" by (auto dest: pop_dir_elems)
  have r: "snd (urlpath_normalize url) = normal_form [] (path_elements url) t"
    by (simp add: urlpath_normalize_spec t_def)
  define D where "D = (if hd0 t \<noteq> CHR ''?'' \<and> is_dots l then push_dir dirs l else dirs)"
  define e where "e = (if hd0 t \<noteq> CHR ''?'' \<and> is_dots l then [] else l)"
  have tx: "snd (urlpath_normalize url) = dirs_text D @ e @ t"
    unfolding r by (simp add: normal_form_def Let_def D_def e_def is_dots_def dirs_def l_def)
  have D: "\<forall>d \<in> set D. clean_elem d \<and> \<not> is_dots d"
    using g g' by (auto simp: D_def push_dir_def is_dots_def split: if_splits)
  have e: "clean_elem e" using l by (auto simp: e_def clean_elem_def)
  have "path_elements (e @ t) = [e]" "tail_part (e @ t) = t"
    using e tail_part_stop [of url] by (auto simp: clean_elem_def t_def intro!: path_elements_last)
  then have "path_elements (dirs_text D @ e @ t) = D @ [e]" "tail_part (dirs_text D @ e @ t) = t"
    using path_elements_dirs [of D "e @ t"] D by auto
  moreover have "is_dots e \<Longrightarrow> hd0 t = CHR ''?''" by (auto simp: e_def is_dots_def split: if_splits)
  ultimately show thesis using that [of D e] tx D e by (simp add: t_def)
qed

lemma push_dirs_root: "st = [] # st' \<Longrightarrow> \<exists>st''. foldl push_dir st es = [] # st''"
proof (induction es arbitrary: st st')
  case (Cons e es)
  have "\<exists>st''. push_dir st e = [] # st''" using Cons.prems by (cases st') (auto simp: push_dir_def pop_dir_def)
  then show ?case using Cons.IH by auto
qed simp

lemma normalize_root:
  assumes "hd0 url = CHR ''/''"
  shows "hd0 (snd (urlpath_normalize url)) = CHR ''/''"
proof -
  obtain r where u: "url = CHR ''/'' # r" using assms by (cases url) auto
  then have es: "path_elements url = [] # path_elements r" using path_elements_dir [of "[]" r] by simp
  obtain st where "foldl push_dir [[]] (butlast (path_elements r)) = [] # st" using push_dirs_root by blast
  then have dirs: "foldl push_dir [] (butlast (path_elements url)) = [] # st" by (simp add: es push_dir_def)
  have "hd0 (dirs_text (push_dir ([] # st) e) @ t) = CHR ''/''" for e t
    by (cases st) (auto simp: push_dir_def pop_dir_def)
  then have "hd0 (normal_form [] (path_elements url) t) = CHR ''/''" for t
    unfolding normal_form_def dirs Let_def by simp
  then show ?thesis
    by (simp add: urlpath_normalize_spec)
qed

text \<open>
  C13: After \<^verbatim>\<open>urlpath_normalize\<close> no directory of the path is \<^verbatim>\<open>.\<close> or \<^verbatim>\<open>..\<close>, so a mounted directory cannot be left by
  them: the only dot element that can remain is the last one, and only in front of a
  question mark. The query is as it was, and a path that starts at the root still does.
\<close>

theorem normalize_no_dots:
  "let r = snd (urlpath_normalize url)
   in (\<forall>d \<in> set (butlast (path_elements r)). \<not> is_dots d)
      \<and> (is_dots (last (path_elements r)) \<longrightarrow> hd0 (tail_part r) = CHR ''?'')
      \<and> tail_part r = tail_part url \<and> (hd0 url = CHR ''/'' \<longrightarrow> hd0 r = CHR ''/'')"
proof -
  obtain D e where "path_elements (snd (urlpath_normalize url)) = D @ [e]" "tail_part (snd (urlpath_normalize url)) = tail_part url"
    "\<forall>d \<in> set D. clean_elem d \<and> \<not> is_dots d" "is_dots e \<longrightarrow> hd0 (tail_part url) = CHR ''?''"
    by (rule normalize_shape [of url]) blast
  then show ?thesis using normalize_root [of url] by (simp add: Let_def)
qed

theorem normalize_no_dots_witness:
  "list_all (\<lambda>d. \<not> is_dots d) (butlast (path_elements ''/etc/passwd''))
   \<and> \<not> is_dots (last (path_elements ''/etc/passwd''))
   \<and> snd (urlpath_normalize ''/pub/./../../etc/passwd'') = ''/etc/passwd''"
proof -
  have r: "snd (urlpath_normalize ''/pub/./../../etc/passwd'') = ''/etc/passwd''"
    by (simp add: urlpath_normalize_spec stop_eval normal_form_def push_dir_def pop_dir_def)
  have "hd0 (tail_part ''/etc/passwd'') \<noteq> CHR ''?''" by (simp add: stop_eval)
  then show ?thesis using normalize_no_dots [of "''/pub/./../../etc/passwd''"] unfolding r Let_def list_all_iff by blast
qed

lemma normalize_again: "snd (urlpath_normalize (snd (urlpath_normalize url))) = snd (urlpath_normalize url)"
proof -
  obtain D e where r: "snd (urlpath_normalize url) = dirs_text D @ e @ tail_part url"
    "path_elements (snd (urlpath_normalize url)) = D @ [e]" "tail_part (snd (urlpath_normalize url)) = tail_part url"
    "\<forall>d \<in> set D. clean_elem d \<and> \<not> is_dots d" "is_dots e \<longrightarrow> hd0 (tail_part url) = CHR ''?''"
    by (rule normalize_shape [of url]) blast
  then have "foldl push_dir [] D = D" using push_dirs_plain [of D "[]"] by simp
  then show ?thesis unfolding urlpath_normalize_spec [of "snd (urlpath_normalize url)"] r(2,3)
    using r(1,5) by (auto simp: normal_form_def is_dots_def)
qed

text \<open>
  Dots directly in front of a query are not removed: a path whose other elements are plain comes back
  unchanged when it ends in \<^verbatim>\<open>..\<close> and a question mark follows, so what
  is mounted below a directory is asked for its parent.
\<close>

theorem dots_before_query_stay:
  assumes "\<forall>d \<in> set D. clean_elem d \<and> \<not> is_dots d"
  shows "urlpath_normalize (dirs_text D @ ''..?'' @ q) = (False, dirs_text D @ ''..?'' @ q)"
proof -
  have st: "\<forall>e \<in> set D. CHR ''/'' \<notin> set e" using assms by (auto simp: clean_elem_def)
  have walk: "norm_loop (dirs_text st) (dirs_text D @ u) = norm_loop (dirs_text (st @ D)) u" for st u
    using assms
  proof (induction D arbitrary: st)
    case (Cons d D)
    have "norm_loop (dirs_text st) (d @ CHR ''/'' # dirs_text D @ u) = norm_loop (dirs_text (st @ [d])) (dirs_text D @ u)"
      using norm_loop_element [of d "CHR ''/'' # dirs_text D @ u" "dirs_text st"] Cons.prems
      by (simp add: clean_elem_def is_dots_def norm_loop_slash)
    then show ?case using Cons.IH [of "st @ [d]"] Cons.prems by simp
  qed simp
  have "norm_loop (dirs_text D) (''..?'' @ q) = (dirs_text D @ ''..'', CHR ''?'' # q)"
    using norm_loop_element [of "''..''" "CHR ''?'' # q" "dirs_text D"]
    by (simp add: norm_loop_stop)
  then have "norm_loop [] (dirs_text D @ ''..?'' @ q) = (dirs_text D @ ''..'', CHR ''?'' # q)"
    using walk [of "[]" "''..?'' @ q"] by simp
  then show ?thesis by (simp add: urlpath_normalize_def)
qed

theorem dots_before_query_stay_witness:
  "urlpath_normalize ''/pub/..?list'' = (False, ''/pub/..?list'')"
  using dots_before_query_stay [of "[[], ''pub'']" "''list''"]
  by (simp add: clean_elem_def is_dots_def ends_path_def UREND_def isspace_def uc_def)

text \<open>
  The normalisation does not know about sites: in a full URL the dots go up over the host, so
  \<^verbatim>\<open>http://a/../b/c\<close> is looked up as \<^verbatim>\<open>http://b/c\<close>, for every host and every rest.
\<close>

theorem dots_go_over_host:
  assumes "clean_elem host" and "\<not> is_dots host"
  shows "snd (urlpath_normalize (''http://'' @ host @ ''/../'' @ rest)) = snd (urlpath_normalize (''http://'' @ rest))"
proof -
  have c: "clean_elem ''http:''" "clean_elem ''..''" "clean_elem []"
    by (simp_all add: clean_elem_def ends_path_def UREND_def isspace_def uc_def)
  have a: "''http://'' @ host @ ''/../'' @ rest = dirs_text [''http:'', [], host, ''..''] @ rest"
    "''http://'' @ rest = dirs_text [''http:'', []] @ rest" by simp_all
  have "foldl push_dir [] [''http:'', [], host, ''..''] = [''http:'', []]"
    using assms(2) by (simp add: push_dir_def is_dots_def pop_dir_def)
  moreover have "foldl push_dir [] [''http:'', []] = [''http:'', []]" by (simp add: push_dir_def)
  ultimately have "normal_form [] ([''http:'', [], host, ''..''] @ es) t = normal_form [] ([''http:'', []] @ es) t" if "es \<noteq> []" for es t
    using that by (simp add: normal_form_def butlast_append)
  then show ?thesis unfolding a urlpath_normalize_spec using c assms(1)
    by (simp add: path_elements_dirs del: dirs_text_simps)
qed

theorem dots_go_over_host_witness:
  "snd (urlpath_normalize ''http://a/../b/c'') = snd (urlpath_normalize ''http://b/c'')"
  using dots_go_over_host [of "''a''" "''b/c''"] by (simp add: clean_elem_def is_dots_def ends_path_def UREND_def isspace_def uc_def)

end
