(* ===== verification/UrlSite.thy ===== *)
theory UrlSite
  imports Url
begin

section \<open>UrlSite: sites, credentials and ports\<close>

text \<open>
  What the scanners of \<open>src/url.cpp\<close> find in a site: user, password, host and port; when a password is hidden
  and when it is not; the parts of an absolute URL; a port that is moved into the path and back.
\<close>

subsection \<open>Credentials\<close>

definition upstop :: "char \<Rightarrow> bool" where
  "upstop c \<longleftrightarrow> c \<in> {CHR ''/'', CHR ''?'', CR, LF}"

lemma userpass_copy_upstop: "userpass_copy s = takeWhile (\<lambda>c. \<not> upstop c) (take 63 (line_text s))"
  by (simp add: userpass_copy_def upstop_def)

lemma line_upto_plain: "list_all (\<lambda>c. \<not> upstop c) w \<Longrightarrow> line_upto (w @ s) = w @ line_upto s"
  by (induction w) (auto simp: upstop_def)

lemma line_upto_cut:
  "c \<in> set (takeWhile (\<lambda>c. \<not> upstop c) (take k (line_upto h))) \<Longrightarrow> c \<in> set (takeWhile (\<lambda>c. \<not> upstop c) h)"
  by (induction h arbitrary: k) (auto simp: take_Cons' split: if_splits)

lemma strrchr_last: "c \<notin> set t \<Longrightarrow> strrchr (s @ c # t) c = Some (c # t)"
  by (simp add: strrchr_def takeWhile_append)

lemma strrchr_None [simp]: "c \<notin> set s \<Longrightarrow> strrchr s c = None"
  by (simp add: strrchr_def)

text \<open>Text in front of the last \<^verbatim>\<open>@\<close> of a site that fits into the 63 characters that are looked at.\<close>

definition cred_ok :: "string \<Rightarrow> bool" where
  "cred_ok w \<longleftrightarrow> list_all (\<lambda>c. \<not> upstop c) w \<and> hd0 w \<noteq> SP \<and> hd0 w \<noteq> TAB"

definition site_ok :: "string \<Rightarrow> bool" where
  "site_ok h \<longleftrightarrow> CHR ''@'' \<notin> set (takeWhile (\<lambda>c. \<not> upstop c) h)"

lemma skip_blank_none: "cred_ok w \<Longrightarrow> w \<noteq> [] \<Longrightarrow> line_text (w @ s) = w @ line_upto s"
  by (cases w) (auto simp: cred_ok_def line_text_def line_upto_plain [of w s, simplified] upstop_def line_upto_plain)

lemma userpass_at:
  assumes "cred_ok w" "w \<noteq> []" "length w \<le> 62" "site_ok h"
  obtains t where "userpass_copy (w @ CHR ''@'' # h) = w @ CHR ''@'' # t" "CHR ''@'' \<notin> set t"
proof -
  define t where "t = takeWhile (\<lambda>c. \<not> upstop c) (take (62 - length w) (line_upto h))"
  have at: "\<not> upstop CHR ''@''" by (simp add: upstop_def)
  define S where "S = (\<lambda>c. \<not> upstop c)"
  have 1: "line_text (w @ CHR ''@'' # h) = w @ CHR ''@'' # line_upto h"
    using skip_blank_none [OF assms(1,2), of "CHR ''@'' # h"] by simp
  have 2: "take 63 (w @ CHR ''@'' # l) = w @ CHR ''@'' # take (62 - length w) l" for l
    using assms(3) Suc_diff_le [of "length w" 62] by simp
  have 3: "takeWhile S (w @ CHR ''@'' # l) = w @ CHR ''@'' # takeWhile S l" for l
    using takeWhile_append2 [of w S "CHR ''@'' # l"] assms(1) at by (simp add: cred_ok_def list_all_iff S_def)
  have "userpass_copy (w @ CHR ''@'' # h) = w @ CHR ''@'' # t"
    unfolding userpass_copy_upstop t_def 1 2 S_def [symmetric] by (rule 3)
  moreover have "CHR ''@'' \<notin> set t" using assms(4) line_upto_cut [of "CHR ''@''"] unfolding t_def site_ok_def by blast
  ultimately show thesis by (rule that)
qed

lemma scan_userpass_ok:
  assumes "cred_ok (u @ '':'' @ p)" "CHR '':'' \<notin> set u" "length u + length p \<le> 61" "site_ok h"
  shows "scan_userpassX (u @ '':'' @ p @ ''@'' @ h) = (u, p, CHR ''@'' # h)"
proof -
  obtain t where t: "userpass_copy ((u @ '':'' @ p) @ CHR ''@'' # h) = (u @ '':'' @ p) @ CHR ''@'' # t" "CHR ''@'' \<notin> set t"
    using assms by (auto intro: userpass_at [of "u @ '':'' @ p" h])
  have up: "takeWhile (\<lambda>c. c \<noteq> CHR '':'') (u @ '':'' @ p) = u"
    using assms(2) by (simp add: takeWhile_append)
  have "take 63 (takeWhile (\<lambda>c. c \<noteq> CR \<and> c \<noteq> LF) p) = p"
    using assms(1,3) by (subst takeWhile_eq_all_conv [THEN iffD2]) (auto simp: cred_ok_def list_all_iff upstop_def)
  moreover have "before ((u @ '':'' @ p) @ CHR ''@'' # t) (CHR ''@'' # t) = u @ '':'' @ p" by (rule before_append)
  ultimately show ?thesis
    using t strrchr_last [OF t(2), of "u @ '':'' @ p"] up assms(3) by (simp add: scan_userpassX_def Let_def)
qed

text \<open>
  \<^verbatim>\<open>site_strippass\<close>, by which the gateway hides the password in what it prints, turns \<^verbatim>\<open>user:password@site\<close> into
  \<^verbatim>\<open>user@site\<close> when user and password together have at most 61 characters.
\<close>

theorem strippass_hides:
  assumes "cred_ok (u @ '':'' @ p)" and "CHR '':'' \<notin> set u" and "length u + length p \<le> 61" and "site_ok h"
  shows "site_strippass (u @ '':'' @ p @ ''@'' @ h) = u @ ''@'' @ h"
  using scan_userpass_ok [OF assms] by (simp add: site_strippass_def)

theorem strippass_hides_witness:
  "site_strippass ''joe:secret@ftp.example.com/a@b'' = ''joe@ftp.example.com/a@b''"
  using strippass_hides [of "''joe''" "''secret''" "''ftp.example.com/a@b''"]
  by (simp add: cred_ok_def site_ok_def upstop_def)

lemma long_userpass:
  assumes "cred_ok w" "CHR ''@'' \<notin> set w" "63 \<le> length w"
  shows "snd (snd (scan_userpassX (w @ h))) = []"
proof -
  have "w \<noteq> []" using assms(3) by auto
  then have "userpass_copy (w @ h) = take 63 w"
    using assms(1,3) skip_blank_none [OF assms(1), of h]
    by (auto simp: userpass_copy_upstop cred_ok_def list_all_iff takeWhile_eq_all_conv dest: in_set_takeD)
  moreover have "CHR ''@'' \<notin> set (take 63 w)" using assms(2) by (auto dest: in_set_takeD)
  ultimately show ?thesis by (simp add: scan_userpassX_def Let_def)
qed

text \<open>
  Longer credentials are not recognised: when user and password take 63 characters or more with the colon, the password stays in
  what is printed, and \<^verbatim>\<open>decomp_siteX\<close> finds no user at all and takes the user's name for the name of the host.
\<close>

theorem long_password_not_hidden:
  assumes "cred_ok (u @ '':'' @ p)" and "CHR ''@'' \<notin> set (u @ p)" and "62 \<le> length u + length p"
    and "list_all (\<lambda>c. c \<notin> EOHN) u" and "length u \<le> 101"
  shows "site_strippass (u @ '':'' @ p @ ''@'' @ h) = u @ '':'' @ p @ ''@'' @ h
    \<and> i_user (decomp_siteX serviceport proto (u @ '':'' @ p @ ''@'' @ h)) = []
    \<and> i_Host (decomp_siteX serviceport proto (u @ '':'' @ p @ ''@'' @ h)) = u"
proof -
  obtain a b where s: "scan_userpassX (u @ '':'' @ p @ ''@'' @ h) = (a, b, [])"
    using long_userpass [OF assms(1), of "''@'' @ h"] assms(2,3)
    by (cases "scan_userpassX (u @ '':'' @ p @ ''@'' @ h)") auto
  have "takeWhile (\<lambda>c. c \<notin> EOHN) (u @ '':'' @ x) = u" for x
    using assms(4) by (simp add: takeWhile_append list_all_iff EOHN_def)
  then show ?thesis using s assms(5) by (simp add: site_strippass_def decomp_siteX_def Let_def)
qed

theorem long_password_not_hidden_witness:
  "site_strippass (''joe:'' @ replicate 60 CHR ''x'' @ ''@host'') = ''joe:'' @ replicate 60 CHR ''x'' @ ''@host''
   \<and> i_user (decomp_siteX (\<lambda>_. 21) ''ftp'' (''joe:'' @ replicate 60 CHR ''x'' @ ''@host'')) = []
   \<and> i_Host (decomp_siteX (\<lambda>_. 21) ''ftp'' (''joe:'' @ replicate 60 CHR ''x'' @ ''@host'')) = ''joe''"
  using long_password_not_hidden [of "''joe''" "replicate 60 CHR ''x''" "''host''" "\<lambda>_. 21" "''ftp''"]
  by (simp add: cred_ok_def upstop_def EOHN_def list_all_iff)

subsection \<open>Host and port\<close>

lemma at_no_digit: "\<not> isdigit CHR ''@''" and nul_no_digit: "\<not> isdigit NUL"
  by (simp_all add: isdigit_def uc_def)

text \<open>
  C18: \<^verbatim>\<open>decomp_siteX\<close> on a full site gives back the user, the password, the host and the port it was put together from, when
  the user and the password have at most 61 characters together (beyond that they are taken for the host, see below) and
  the host at most 101; the port is kept in 16 bits, so that a number beyond 65535 silently names another port.
\<close>

theorem decomp_site_roundtrip:
  assumes "cred_ok (u @ '':'' @ p)" and "CHR '':'' \<notin> set u" and "length u + length p \<le> 61"
    and "list_all (\<lambda>c. c \<notin> EOHN \<and> c \<noteq> CHR ''@'') h" and "length h \<le> 101" and "n < 2 ^ 31"
  shows "decomp_siteX serviceport proto (u @ '':'' @ p @ ''@'' @ h @ '':'' @ show_nat n)
    = \<lparr>i_user = u, i_pass = p, i_Host = h, i_Port = int n mod 65536\<rparr>"
proof -
  have "CHR ''@'' \<notin> set (h @ '':'' @ show_nat n)"
    using assms(4) show_nat_digits [of n] by (simp add: list_all_iff) (metis at_no_digit)
  then have "site_ok (h @ '':'' @ show_nat n)" by (auto simp: site_ok_def dest: set_takeWhileD)
  note s = scan_userpass_ok [OF assms(1-3) this]
  have "takeWhile (\<lambda>c. c \<notin> EOHN) (h @ '':'' @ x) = h" for x
    using assms(4) by (simp add: takeWhile_append list_all_iff EOHN_def)
  then show ?thesis using s assms(5) atoi_number [OF assms(6), of "[]"] nul_no_digit
    by (simp add: decomp_siteX_def Let_def)
qed

theorem decomp_site_roundtrip_witness:
  "decomp_siteX (\<lambda>_. 21) ''ftp'' (''joe:secret@host:'' @ show_nat 65616) = \<lparr>i_user = ''joe'', i_pass = ''secret'', i_Host = ''host'', i_Port = 80\<rparr>"
  using decomp_site_roundtrip [of "''joe''" "''secret''" "''host''" 65616 "\<lambda>_. 21" "''ftp''"]
  by (simp add: cred_ok_def upstop_def EOHN_def)

definition site1_char :: "char \<Rightarrow> bool" where
  "site1_char c \<longleftrightarrow> 0x20 < uc c \<and> uc c < 128 \<and> c \<noteq> CHR ''/'' \<and> c \<noteq> CHR ''?''"

lemma site1_step:
  assumes "site1_char c" "c \<noteq> CHR '':''" "c \<noteq> CHR ''@''" "length out < xp"
  shows "hostport1_loop xp out port pp (c # sp) = hostport1_loop xp (out @ [c]) port pp sp"
proof -
  have "\<not> is_blank c" using assms(1) by (auto simp: site1_char_def is_blank_def uc_def)
  then show ?thesis using assms by (simp add: site1_char_def)
qed

lemma hostport1_creds:
  assumes "list_all site1_char w" "length out + length w < xp"
  shows "hostport1_loop xp out port pp (w @ CHR ''@'' # h) = hostport1_loop xp [] 0 None h"
  using assms
proof (induction w arbitrary: out port pp)
  case Nil
  then show ?case by (simp add: is_blank_def)
next
  case (Cons c w)
  consider "c = CHR '':''" | "c = CHR ''@''" | "c \<noteq> CHR '':''" "c \<noteq> CHR ''@''" by blast
  then show ?case
  proof cases
    case 3
    then show ?thesis using site1_step [of c out xp port pp] Cons by simp
  qed (use Cons in \<open>simp_all add: is_blank_def\<close>)
qed

lemma hostport1_host:
  assumes "list_all (\<lambda>c. site1_char c \<and> c \<noteq> CHR '':'' \<and> c \<noteq> CHR ''@'') h" "length out + length h < xp"
  shows "hostport1_loop xp out port pp (h @ s) = hostport1_loop xp (out @ h) port pp s"
  using assms by (induction h arbitrary: out) (simp_all add: site1_step del: hostport1_loop.simps(2))

lemma hostport1_port:
  assumes "list_all isdigit d" "t = [] \<or> hd t = CHR ''/'' \<or> hd t = CHR ''?''"
  shows "hostport1_loop xp (h @ x) port (Some (length h)) (d @ t) = (port, h)"
  using assms(1)
proof (induction d arbitrary: x)
  case Nil
  then show ?case using assms(2) by (cases t) auto
next
  case (Cons c d)
  then have c: "site1_char c" "c \<noteq> CHR '':''" "c \<noteq> CHR ''@''" by (auto simp: isdigit_def site1_char_def uc_def)
  show ?case
  proof (cases "length (h @ x) < xp")
    case True
    then show ?thesis using site1_step [OF c True] Cons.IH [of "x @ [c]"] Cons.prems by simp
  qed simp
qed

text \<open>
  \<^verbatim>\<open>scan_hostport1X\<close> skips credentials of any form, colons and \<^verbatim>\<open>@\<close> included, as long as they fit into the
  buffer of the host, and finds the host and the port after the last \<^verbatim>\<open>@\<close>.
\<close>

theorem hostport1_skips_credentials:
  assumes "list_all site1_char w" and "length w < hsiz - 1" and "length h < hsiz - 1" and "n < 2 ^ 31"
    and "list_all (\<lambda>c. site1_char c \<and> c \<noteq> CHR '':'' \<and> c \<noteq> CHR ''@'') h"
    and "t = [] \<or> hd t = CHR ''/'' \<or> hd t = CHR ''?''"
  shows "scan_hostport1X (w @ ''@'' @ h @ '':'' @ show_nat n @ t) hsiz = (int n, h)"
proof -
  have "\<not> isdigit (hd0 t)" using assms(6) by (cases t) (auto simp: isdigit_def uc_def)
  then have "atoi (show_nat n @ t) = int n" by (rule atoi_number [OF assms(4)])
  moreover have "hostport1_loop (hsiz - 1) h 0 None (CHR '':'' # show_nat n @ t)
      = hostport1_loop (hsiz - 1) h (atoi (show_nat n @ t)) (Some (length h)) (show_nat n @ t)"
    using assms(3) by (simp add: is_blank_def)
  ultimately show ?thesis
    using hostport1_creds [OF assms(1), of "[]"] hostport1_host [OF assms(5), of "[]"] assms(2,3)
      hostport1_port [OF show_nat_digits assms(6), of "hsiz - 1" h "[]"]
    by (simp add: scan_hostport1X_def)
qed

theorem hostport1_skips_credentials_witness:
  "scan_hostport1X (''joe:a@b:c'' @ ''@'' @ ''host'' @ '':'' @ show_nat 8080 @ ''/x'') 64 = (int 8080, ''host'')"
  by (rule hostport1_skips_credentials) (simp_all add: site1_char_def uc_def)

subsection \<open>Absolute URLs\<close>

lemma drop_scheme: "drop (3 + k) (a # b # c # s) = drop k s"
  by (simp add: numeral_3_eq_3)

text \<open>
  \<^verbatim>\<open>decomp_absurl\<close> takes an absolute URL apart into the scheme, the site and the path it was put together from, for sites of up to 255
  characters, when the whole URL (not the path alone) fits into the size of the buffer for the path.
\<close>

theorem decomp_absurl_roundtrip:
  assumes "CHR '':'' \<notin> set proto" and "length proto \<le> 31" and "list_all SITEC login" and "length login \<le> 255"
    and "list_all (\<lambda>c. c \<noteq> CR \<and> c \<noteq> LF) path" and "length proto + length login + length path + 4 < n"
  shows "decomp_absurl (proto @ ''://'' @ login @ ''/'' @ path) (Some n)
    = \<lparr>au_count = 3, au_proto = proto, au_login = login, au_upath = path, au_urlpath = Some (''/'' @ path)\<rparr>"
proof -
  have p: "takeWhile (\<lambda>c. c \<noteq> CHR '':'') (proto @ CHR '':'' # x) = proto" for x
    using assms(1) by (induction proto) auto
  have l: "takeWhile SITEC (login @ CHR ''/'' # x) = login" for x
    using assms(3) takeWhile_append2 [of login SITEC] by (simp add: list_all_iff SITEC_def [of "CHR ''/''"])
  have q: "takeWhile (\<lambda>c. c \<noteq> CR \<and> c \<noteq> LF) path = path"
    using assms(5) by (simp add: list_all_iff takeWhile_eq_all_conv)
  show ?thesis using p l q assms(2,4,6)
    by (simp add: decomp_absurl_def decomp_absurlX_def Let_def chr_at_def drop_scheme takeWhile_eq_all_conv [THEN iffD2])
qed

theorem decomp_absurl_roundtrip_witness:
  "decomp_absurl (''http'' @ ''://'' @ ''host:80'' @ ''/'' @ ''a?b'') (Some 64)
    = \<lparr>au_count = 3, au_proto = ''http'', au_login = ''host:80'', au_upath = ''a?b'', au_urlpath = Some (''/'' @ ''a?b'')\<rparr>"
  by (rule decomp_absurl_roundtrip) (simp_all add: SITEC_def uc_def)

subsection \<open>Moving the port\<close>

lemma mark_nowhere:
  assumes "strstr a PORT_MARK = None"
  shows "strstr (a @ PORT_MARK @ b) PORT_MARK = Some (PORT_MARK @ b)"
  using assms
proof (induction a)
  case Nil
  then show ?case by (simp add: PORT_MARK_def)
next
  case (Cons c a)
  have "\<not> is_prefix PORT_MARK ((c # a) @ PORT_MARK @ b)"
  proof
    assume p: "is_prefix PORT_MARK ((c # a) @ PORT_MARK @ b)"
    consider "a = []" | x where "a = [x]" | x y where "a = [x, y]" | x y z r where "a = x # y # z # r"
      by (metis neq_Nil_conv)
    then show False using p Cons.prems by cases (auto simp: PORT_MARK_def split: if_splits)
  qed
  moreover have "strstr a PORT_MARK = None" using Cons.prems by (auto split: if_splits)
  ultimately show ?case using Cons.IH by simp
qed

lemma strstr_scheme: "CHR '':'' \<notin> set proto \<Longrightarrow> strstr (proto @ ''://'' @ s) ''://'' = Some (''://'' @ s)"
  by (induction proto) auto

lemma takeWhile_stop: "list_all P w \<Longrightarrow> s = [] \<or> \<not> P (hd s) \<Longrightarrow> takeWhile P (w @ s) = w"
  by (induction w) (cases s; auto)+

definition site2_char :: "char \<Rightarrow> bool" where
  "site2_char c \<longleftrightarrow> c \<notin> EOURL \<and> c \<notin> set '':/?#''"

text \<open>The URL \<open>proto://host:n\<close>, path \<open>q\<close> and query or fragment \<open>r\<close> that \<^verbatim>\<open>url_movport\<close> reads.\<close>

lemma movport_moves:
  assumes "list_all site2_char proto" "list_all site2_char host" "length (show_nat n) \<le> 27"
    and "q = [] \<or> hd q = CHR ''/''" "list_all (\<lambda>c. c \<notin> EOURL \<and> c \<noteq> CHR ''?'' \<and> c \<noteq> CHR ''#'') q"
    and "r = [] \<or> hd r = CHR ''?'' \<or> hd r = CHR ''#''" "list_all (\<lambda>c. c \<notin> EOURL) r"
    and "url = proto @ ''://'' @ host @ '':'' @ show_nat n @ q @ r" "length url < siz"
  shows "url_movport True url siz = Some (length url, proto @ ''://'' @ host @ q @ PORT_MARK @ show_nat n @ r)"
proof -
  have eourl_colon: "CHR '':'' \<notin> EOURL" "CHR ''/'' \<notin> EOURL" by (simp_all add: EOURL_def)
  have dig: "c \<notin> EOURL" if "isdigit c" for c using that by (auto simp: EOURL_def isdigit_def uc_def)
  have "list_all (\<lambda>c. c \<notin> EOURL) proto" "list_all (\<lambda>c. c \<notin> EOURL) host" "list_all (\<lambda>c. c \<notin> EOURL) q"
    "list_all (\<lambda>c. c \<notin> EOURL) (show_nat n)" "list_all (\<lambda>c. c \<notin> EOURL) ''://''"
    using assms(1,2,5) show_nat_digits [of n] dig
    by (simp_all add: list_all_iff site2_char_def eourl_colon)
  then have "list_all (\<lambda>c. c \<notin> EOURL) url" unfolding assms(8) using assms(7) by simp
  then have v: "take (siz - 1) (takeWhile (\<lambda>c. c \<notin> EOURL) url) = url"
    using assms(9) by (simp add: list_all_iff takeWhile_eq_all_conv [THEN iffD2])
  have s: "strstr url ''://'' = Some (''://'' @ host @ '':'' @ show_nat n @ q @ r)"
    unfolding assms(8) using assms(1) by (intro strstr_scheme) (auto simp: list_all_iff site2_char_def)
  have h: "takeWhile (\<lambda>c. c \<notin> set '':/?'' \<and> c \<notin> {SP, TAB, CR, LF, DQ, SQ}) (host @ '':'' @ x) = host" for x
    using assms(2) by (intro takeWhile_stop) (auto simp: list_all_iff site2_char_def EOURL_def)
  have d: "takeWhile isdigit (show_nat n @ q @ r) = show_nat n"
    using show_nat_digits assms(4,6) by (intro takeWhile_stop) (cases q; auto simp: isdigit_def uc_def)+
  have b: "before url ('':'' @ show_nat n @ q @ r) = proto @ ''://'' @ host"
    using before_append [of "proto @ ''://'' @ host"] by (simp add: assms(8))
  have a: "takeWhile (\<lambda>c. c \<noteq> CHR ''?'' \<and> c \<noteq> CHR ''#'') ((proto @ ''://'' @ host @ q) @ r) = proto @ ''://'' @ host @ q"
  proof (rule takeWhile_stop)
    have "list_all (\<lambda>c. c \<noteq> CHR ''?'' \<and> c \<noteq> CHR ''#'') w" if "list_all site2_char w" for w
      using that by (simp add: list_all_iff site2_char_def)
    moreover have "list_all (\<lambda>c. c \<noteq> CHR ''?'' \<and> c \<noteq> CHR ''#'') q" using assms(5) by (simp add: list_all_iff)
    ultimately show "list_all (\<lambda>c. c \<noteq> CHR ''?'' \<and> c \<noteq> CHR ''#'') (proto @ ''://'' @ host @ q)" using assms(1,2) by simp
  qed (use assms(6) in blast)
  have "add_port_mark (proto @ ''://'' @ host @ q @ r) (show_nat n) = proto @ ''://'' @ host @ q @ PORT_MARK @ show_nat n @ r"
    using a assms(3) by (simp add: add_port_mark_def PORT_MARK_def Let_def drop_scheme)
  then show ?thesis using v s h [of "show_nat n @ q @ r"] d b assms(3)
    by (simp add: url_movport_def Let_def drop_scheme)
qed

text \<open>
  A port number that \<^verbatim>\<open>url_movport\<close> moves from the site into the path of a URL in a page is found again by \<^verbatim>\<open>url_delport\<close> when the
  URL comes back in a request: the same port, and the URL without it, query and fragment
  where they were.
\<close>

theorem movport_delport_roundtrip:
  assumes "list_all site2_char proto" and "list_all site2_char host" and "n < 2 ^ 31" and "length (show_nat n) \<le> 27"
    and "q = [] \<or> hd q = CHR ''/''" and "list_all (\<lambda>c. c \<notin> EOURL \<and> c \<noteq> CHR ''?'' \<and> c \<noteq> CHR ''#'') q"
    and "r = [] \<or> hd r = CHR ''?'' \<or> hd r = CHR ''#''" and "list_all (\<lambda>c. c \<notin> EOURL) r"
    and "url = proto @ ''://'' @ host @ '':'' @ show_nat n @ q @ r" and "length url < siz"
    and "strstr (proto @ ''://'' @ host @ q) PORT_MARK = None"
  shows "\<exists>v. url_movport True url siz = Some (length url, v)
    \<and> url_delport v = (Some (int n), proto @ ''://'' @ host @ q @ r)"
proof -
  define a where "a = proto @ ''://'' @ host @ q"
  have d: "takeWhile isdigit (show_nat n @ r) = show_nat n"
    using show_nat_digits assms(7) by (intro takeWhile_stop) (auto simp: isdigit_def uc_def)
  have m: "drop 4 (PORT_MARK @ x) = x" "length PORT_MARK = 4" for x by (simp_all add: PORT_MARK_def)
  have "strstr (a @ PORT_MARK @ show_nat n @ r) PORT_MARK = Some (PORT_MARK @ show_nat n @ r)"
    using assms(11) unfolding a_def [symmetric] by (rule mark_nowhere)
  then have "url_delport (a @ PORT_MARK @ show_nat n @ r) = (Some (int n), a @ r)"
    using d m assms(4) atoi_number [OF assms(3), of "[]"] nul_no_digit before_append [of a]
    by (simp add: url_delport_def Let_def del: append_assoc)
  then show ?thesis using movport_moves [OF assms(1,2,4-10)] by (simp add: a_def)
qed

theorem movport_delport_roundtrip_witness:
  "\<exists>v. url_movport True (''http'' @ ''://'' @ ''host'' @ '':'' @ show_nat 8080 @ ''/a'' @ ''?b'') 256
       = Some (length (''http'' @ ''://'' @ ''host'' @ '':'' @ show_nat 8080 @ ''/a'' @ ''?b''), v)
    \<and> url_delport v = (Some (int 8080), ''http'' @ ''://'' @ ''host'' @ ''/a'' @ ''?b'')"
  by (rule movport_delport_roundtrip) (simp_all add: site2_char_def EOURL_def show_nat.simps PORT_MARK_def)

end
