(* ===== verification/Http.thy ===== *)
theory Http
  imports Url MimeCodes ListScan
begin

section \<open>Http: request lines, methods and authorization (\<open>src/httphead.cpp\<close>)\<close>

text \<open>
  What the HTTP gateway decides before it relays: which methods are allowed (\<^verbatim>\<open>HTTPCONF=methods\<close>), the
  parts of a request line and of a status line, the credentials of an \<^verbatim>\<open>Authorization\<close> field, and the request
  that is shown to a user with the credentials removed.
\<close>

subsection \<open>Methods\<close>

type_synonym http_method = "string \<times> string"

definition validMethods :: "http_method list" where
  "validMethods =
     [(''OPTIONS'', ''1.1''), (''GET'', ''1.1''), (''HEAD'', ''1.1''), (''POST'', ''1.1''), (''PUT'', ''1.1''),
      (''DELETE'', ''1.1''), (''TRACE'', ''1.1''), (''CONNECT'', ''1.1''),
      (''PROPFIND'', ''webdav''), (''PROPPATCH'', ''webdav''), (''MKCOL'', ''webdav''), (''COPY'', ''webdav''),
      (''MOVE'', ''webdav''), (''LOCK'', ''webdav''), (''UNLOCK'', ''webdav''), (''REPORT'', ''webdav''),
      (''SEARCH'', ''draft''), (''LINK'', ''draft''), (''UNLINK'', ''draft''), (''PATCH'', ''?''),
      (''X-CACHE-GET'', ''delegate'')]"

text \<open>The table is null until it is configured.\<close>

record http_methods =
  allowMethodV :: "http_method list option"
  allowAnyMethods :: bool

text \<open>Deleting stops at the first method of the name; methods of a class of the name that come before are renamed.\<close>

fun del_method :: "string \<Rightarrow> http_method list \<Rightarrow> http_method list" where
  "del_method m [] = []"
| "del_method m ((n, c) # ms) =
     (if strcaseeq m n then ms
      else (if strcaseeq m c then ''-'' else n, c) # del_method m ms)"

definition add_method1 :: "nat \<Rightarrow> http_method list \<Rightarrow> string \<Rightarrow> http_method list" where
  "add_method1 mx ms method =
     (if hd0 method = CHR ''-'' then del_method (tl method) ms
      else if list_ex (\<lambda>(n, c). strcaseeq method n) ms then ms
      else if length ms < mx - 1 then ms @ [(method, [])] else ms)"

definition getMethods :: "http_method list \<Rightarrow> string" where
  "getMethods ms = foldl (\<lambda>mp (m, c). (if mp \<noteq> [] then mp @ '','' else mp) @ m) [] ms"

definition HTTP_allowMethods :: "http_methods \<Rightarrow> string" where
  "HTTP_allowMethods st = getMethods (case allowMethodV st of Some ms \<Rightarrow> ms | None \<Rightarrow> validMethods)"

definition HTTP_setMethods :: "string \<Rightarrow> http_methods \<Rightarrow> http_methods" where
  "HTTP_setMethods methods st =
     (if methods = ''*'' then st\<lparr>allowAnyMethods := True\<rparr>
      else let (methods', ms) =
             (if is_prefix ''+,'' methods then (drop 2 methods, validMethods)
              else if methods = ''+'' then (tl methods, validMethods)
              else if hd0 methods = CHR ''-'' then (methods, validMethods)
              else (methods, []))
           in st\<lparr>allowMethodV :=
                 Some (snd (scan_commaList methods' 1 (Some (\<lambda>ms e _. (0, add_method1 64 ms e))) ms))\<rparr>)"

definition ends_method :: "char \<Rightarrow> bool" where
  "ends_method mc \<longleftrightarrow> mc = NUL \<or> mc = SP \<or> mc = TAB \<or> mc = CR \<or> mc = LF"

definition isMethod :: "http_method list \<Rightarrow> string \<Rightarrow> bool" where
  "isMethod ms method = list_ex (\<lambda>(m, c). is_prefix m method \<and> ends_method (hd0 (drop (length m) method))) ms"

text \<open>\<open>accept\<close> is \<^verbatim>\<open>lHTTPACCEPT()\<close>, the \<^verbatim>\<open>ACCEPT\<close> request between DeleGates.\<close>

definition HTTP_isMethod :: "bool \<Rightarrow> http_methods \<Rightarrow> string \<Rightarrow> bool" where
  "HTTP_isMethod accept st method \<longleftrightarrow>
     accept \<and> strneq method ''ACCEPT'' 6
     \<or> (case allowMethodV st of Some ms \<Rightarrow> isMethod ms method | None \<Rightarrow> False)
     \<or> isMethod validMethods method"

subsection \<open>Requests of any method\<close>

text \<open>The directives of \<^verbatim>\<open>sscanf\<close> used: a set of characters, one of them at least, and literal text, in which a blank
  stands for any blanks.\<close>

definition scan_set :: "(char \<Rightarrow> bool) \<Rightarrow> string \<Rightarrow> string option" where
  "scan_set P s = (if takeWhile P s = [] then None else Some (dropWhile P s))"

fun scan_lit :: "string \<Rightarrow> string \<Rightarrow> string option" where
  "scan_lit [] s = Some s"
| "scan_lit (f # fs) s =
     (if isspace f then scan_lit fs (skip_ws s)
      else case s of [] \<Rightarrow> None | c # r \<Rightarrow> if c = f then scan_lit fs r else None)"

definition scan_version :: "string \<Rightarrow> bool" where
  "scan_version s \<longleftrightarrow>
     (case Option.bind (scan_lit '' HTTP/'' s) scan_d of
        None \<Rightarrow> False
      | Some (maj, r) \<Rightarrow> Option.bind (scan_lit ''.'' r) scan_d \<noteq> None)"

definition word_char :: "char \<Rightarrow> bool" where
  "word_char c \<longleftrightarrow> isalpha c \<or> c = CHR ''_''"

definition acceptableRequest :: "http_methods \<Rightarrow> string \<Rightarrow> bool" where
  "acceptableRequest st req \<longleftrightarrow> allowAnyMethods st \<and>
     (case scan_set word_char req of
        None \<Rightarrow> False
      | Some r \<Rightarrow>
          (case Option.bind (Option.bind (Option.bind (scan_lit '' '' r) (scan_set isalpha)) (scan_lit ''://''))
                  (scan_set (\<lambda>c. c \<noteq> SP)) of Some u \<Rightarrow> scan_version u | None \<Rightarrow> False)
          \<or> (case Option.bind (scan_lit '' /'' r) (scan_set (\<lambda>c. c \<noteq> SP)) of Some u \<Rightarrow> scan_version u | None \<Rightarrow> False)
          \<or> (case scan_lit '' /'' r of Some u \<Rightarrow> scan_version u | None \<Rightarrow> False)
          \<or> (case scan_lit '' *'' r of Some u \<Rightarrow> scan_version u | None \<Rightarrow> False))"

definition HTTP_allowMethod1 :: "bool \<Rightarrow> http_methods \<Rightarrow> string \<Rightarrow> bool" where
  "HTTP_allowMethod1 accept st req \<longleftrightarrow>
     accept \<and> strneq req ''ACCEPT'' 6
     \<or> isMethod (case allowMethodV st of Some ms \<Rightarrow> ms | None \<Rightarrow> validMethods) req
     \<or> acceptableRequest st req"

definition HTTP_methodWithoutBody :: "string \<Rightarrow> bool" where
  "HTTP_methodWithoutBody method \<longleftrightarrow> strcasecmp method ''GET'' = 0 \<or> strcasecmp method ''HEAD'' = 0"

definition HTTP_methodWithBody :: "string \<Rightarrow> bool" where
  "HTTP_methodWithBody method \<longleftrightarrow> \<not> HTTP_methodWithoutBody method"

definition HTTP_methodWithoutRespBody :: "string \<Rightarrow> bool" where
  "HTTP_methodWithoutRespBody method \<longleftrightarrow> strcasecmp method ''HEAD'' = 0"

subsection \<open>Request line and status line\<close>

definition URLSZ :: nat where "URLSZ = 16 * 1024"

record http_request =
  hq_method :: string
  hq_url :: string
  hq_ver :: string
  hq_vno :: int
  hq_isproxy :: bool

definition no_request :: http_request where
  "no_request = \<lparr>hq_method = [], hq_url = [], hq_ver = [], hq_vno = 0, hq_isproxy = False\<rparr>"

text \<open>\<^verbatim>\<open>wordScan\<close>: the word and the rest.\<close>

definition word_scan :: "string \<Rightarrow> nat \<Rightarrow> string \<times> string" where
  "word_scan s siz =
     (let t = dropWhile is_blank s; w = take (siz - 1) (takeWhile (\<lambda>c. \<not> is_blank c) t)
      in (w, drop (length w) t))"

text \<open>\<^verbatim>\<open>sscanf("%d.%d")\<close> with its defaults.\<close>

definition http_version :: "string \<Rightarrow> int \<times> int" where
  "http_version dp =
     (if strneq dp ''HTTP/'' 5 then
        (case scan_d (drop 5 dp) of
           None \<Rightarrow> (0, 9)
         | Some (vmaj, r) \<Rightarrow>
             (vmaj, if hd0 r = CHR ''.'' then (case scan_d (tl r) of Some (vmin, _) \<Rightarrow> vmin | None \<Rightarrow> 9) else 9))
      else (0, 9))"

definition decomp_http_request :: "bool \<Rightarrow> http_methods \<Rightarrow> string \<Rightarrow> http_request" where
  "decomp_http_request accept st req =
     (if strpbrk req [SP, TAB] = None then no_request
      else if \<not> HTTP_isMethod accept st req \<and> \<not> acceptableRequest st req then no_request
      else let (m, dp) = word_scan req 32; (u, dp') = word_scan dp URLSZ;
               (vmaj, vmin) = http_version (dropWhile (\<lambda>c. c = SP \<or> c = TAB) dp')
           in \<lparr>hq_method = m, hq_url = u, hq_ver = take 31 (print_int vmaj @ ''.'' @ print_int vmin),
               hq_vno = i32 (vmaj * 100 + vmin), hq_isproxy = (hd0 u \<noteq> CHR ''/'' \<and> hd0 u \<noteq> CHR ''*'')\<rparr>)"

definition R_BROKEN_RESPONSE :: int where "R_BROKEN_RESPONSE = -10007"

record http_response =
  hr_ver :: string
  hr_rcode :: int
  hr_reason :: string

definition decomp_http_status :: "string \<Rightarrow> http_response" where
  "decomp_http_status stat =
     (if \<not> strncaseeq stat ''HTTP/'' 5 then \<lparr>hr_ver = [], hr_rcode = 1200, hr_reason = []\<rparr>
      else let (ver, sp) = word_scan stat 256; sp' = (if hd0 sp = SP then tl sp else sp);
               (rest, rcode) = scanint sp'
           in \<lparr>hr_ver = ver, hr_rcode = (if rcode \<le> 0 then R_BROKEN_RESPONSE else rcode),
               hr_reason = take 255 (line_text rest)\<rparr>)"

subsection \<open>Splitting lists and pairs (\<open>rary/String.cpp\<close>)\<close>

definition addelem :: "nat \<Rightarrow> string list scanListFunc" where
  "addelem ac av elem slnep =
     (let av' = av @ [elem]
      in if ac \<le> length av' + 1 then (1, case slnep of Some r \<Rightarrow> av' @ [r] | None \<Rightarrow> av') else (0, av'))"

definition list2vectX :: "string \<Rightarrow> char \<Rightarrow> nat \<Rightarrow> nat \<Rightarrow> string list" where
  "list2vectX list del allocm ac =
     (if ac \<le> 1 then [list] else snd (scan_ListLX list del allocm (Some (addelem ac)) []))"

definition paramscanX :: "string \<Rightarrow> string \<Rightarrow> nat \<Rightarrow> string \<times> string" where
  "paramscanX src brk siz =
     (let w = take (siz - 1) (takeWhile (\<lambda>c. c \<noteq> CR \<and> c \<noteq> LF \<and> c \<notin> set brk) src) in (w, drop (length w) src))"

definition scan_namebody :: "string \<Rightarrow> nat \<Rightarrow> string \<Rightarrow> nat \<Rightarrow> string \<Rightarrow> string \<times> string" where
  "scan_namebody namebody nsiz nbrk bsiz bbrk =
     (let (name, dp) = paramscanX namebody nbrk nsiz
      in (name, if dp \<noteq> [] \<and> hd dp \<in> set nbrk then fst (paramscanX (tl dp) bbrk bsiz) else []))"

subsection \<open>Authorization\<close>

text \<open>\<^verbatim>\<open>str_from64\<close>: decoding into a buffer, whose string ends at the first zero byte.\<close>

definition str_from64 :: "string \<Rightarrow> nat \<Rightarrow> string" where
  "str_from64 inp osize = cstr (take (osize - 1) (fst (MIME_from64 inp)))"

text \<open>
  The local buffers of \<^verbatim>\<open>scanDigestParams\<close>: only \<^verbatim>\<open>user\<close> and \<^verbatim>\<open>resp\<close> are emptied before use, \<^verbatim>\<open>realm\<close>
  and \<^verbatim>\<open>uri\<close> are ended at the 64th byte, the others hold what the stack held; \<open>junk\<close> is that.
\<close>

record digest_params =
  dp_user :: string
  dp_resp :: string
  dp_realm :: string
  dp_uri :: string
  dp_nonce :: string
  dp_opaque :: string
  dp_qop :: string
  dp_cnonce :: string
  dp_nc :: string
  dp_stale :: bool

definition digest_start :: "digest_params \<Rightarrow> digest_params" where
  "digest_start junk = junk\<lparr>dp_user := [], dp_resp := [], dp_realm := take 64 (dp_realm junk), dp_uri := take 64 (dp_uri junk),
     dp_stale := False\<rparr>"

definition digest_set :: "string \<Rightarrow> string \<Rightarrow> digest_params \<Rightarrow> digest_params" where
  "digest_set name val d =
     (if strcaseeq name ''username'' then d\<lparr>dp_user := take 63 val\<rparr>
      else if strcaseeq name ''response'' then d\<lparr>dp_resp := take 63 val\<rparr>
      else if strcaseeq name ''realm'' then d\<lparr>dp_realm := take 127 val\<rparr>
      else if strcaseeq name ''uri'' then d\<lparr>dp_uri := take 4095 val\<rparr>
      else if strcaseeq name ''nonce'' then d\<lparr>dp_nonce := take 63 val\<rparr>
      else if strcaseeq name ''opaque'' then d\<lparr>dp_opaque := take 63 val\<rparr>
      else if strcaseeq name ''stale'' then d\<lparr>dp_stale := strcaseeq val ''true''\<rparr>
      else if strcaseeq name ''qop'' then d\<lparr>dp_qop := take 63 val\<rparr>
      else if strcaseeq name ''cnonce'' then d\<lparr>dp_cnonce := take 63 val\<rparr>
      else if strcaseeq name ''nc'' then d\<lparr>dp_nc := take 63 val\<rparr>
      else d)"

definition digest_param :: "digest_params \<Rightarrow> string \<Rightarrow> digest_params" where
  "digest_param d a =
     (let a1 = dropWhile isspace a; name = take 63 (takeWhile (\<lambda>c. c \<noteq> CHR ''='') a1); dp = drop (length name) a1
      in if hd0 dp \<noteq> CHR ''='' then d
         else digest_set name
                (if hd0 (tl dp) = DQ then take 4095 (takeWhile (\<lambda>c. c \<noteq> DQ) (drop 2 dp)) else fst (word_scan (tl dp) 4096)) d)"

definition scanDigestParams :: "digest_params \<Rightarrow> string \<Rightarrow> digest_params" where
  "scanDigestParams junk cp =
     foldl digest_param (digest_start junk) (list2vectX cp CHR '','' (STR_OVWR + STR_QUOTE) 16)"

text \<open>The parts of \<^verbatim>\<open>AuthInfo\<close> that are set here; the path is kept when the caller gave a buffer for it.\<close>

record http_ident =
  hi_user :: string
  hi_pass :: string
  hi_atyp :: string
  hi_host :: string
  hi_path :: string
  hi_realm :: string
  hi_nonce :: string
  hi_opaque :: string
  hi_qop :: string
  hi_cnonce :: string
  hi_nc :: string
  hi_stale :: bool

definition ident0 :: http_ident where
  "ident0 = \<lparr>hi_user = [], hi_pass = [], hi_atyp = [], hi_host = [], hi_path = [], hi_realm = [], hi_nonce = [],
     hi_opaque = [], hi_qop = [], hi_cnonce = [], hi_nc = [], hi_stale = False\<rparr>"

definition digest_ident :: "digest_params \<Rightarrow> http_ident \<Rightarrow> http_ident" where
  "digest_ident d ident =
     ident\<lparr>hi_path := dp_uri d, hi_realm := take 127 (line_text (dp_realm d)), hi_nonce := take 63 (line_text (dp_nonce d)),
       hi_opaque := take 63 (line_text (dp_opaque d)), hi_qop := take 31 (line_text (dp_qop d)),
       hi_cnonce := take 63 (line_text (dp_cnonce d)), hi_nc := take 31 (line_text (dp_nc d)),
       hi_stale := (hi_stale ident \<or> dp_stale d)\<rparr>"

definition MaxAuthFieldLen :: nat where "MaxAuthFieldLen = 4 * 1024"

text \<open>The number of parts, the type, the value and the identity; \<open>passesc\<close> is \<^verbatim>\<open>HTTP_passesc\<close>.\<close>

definition HTTP_decompAuthX ::
    "digest_params \<Rightarrow> string option \<Rightarrow> string \<Rightarrow> nat \<Rightarrow> nat \<Rightarrow> http_ident \<Rightarrow> nat \<times> string \<times> string \<times> http_ident" where
  "HTTP_decompAuthX junk passesc auth atsiz avsiz ident =
     (let (atype, cp) = word_scan (snd (RFC822_valuescan auth MaxAuthFieldLen)) atsiz;
          ident1 = ident\<lparr>hi_atyp := fst (word_scan atype 16)\<rparr>
      in if cp = [] then (if atype = [] then 0 else 1, atype, [], ident1)
         else if strcasecmp atype ''basic'' = 0 then
           (let aval = str_from64 (fst (word_scan cp 1024)) avsiz;
                (user, pass) = scan_field1 aval 64 64;
                aval1 = fst (url_escapeX True aval avsiz (''%S'' @ [DQ, SQ] @ ''<>'') (Some ''^:''));
                aval2 = (case passesc of Some e \<Rightarrow> fst (url_escapeX True aval1 avsiz e (Some [])) | None \<Rightarrow> aval1)
            in (2, atype, aval2, ident1\<lparr>hi_user := user, hi_pass := pass\<rparr>))
         else if strcaseeq atype ''Digest'' then
           (let d = scanDigestParams junk cp
            in (2, atype, take (avsiz - 1) (take 1023 (dp_user d @ '':'' @ dp_resp d)), digest_ident d ident1))
         else if strcaseeq atype ''Negotiate'' \<or> strcaseeq atype ''NTLM'' then (2, atype, [], ident1\<lparr>hi_path := cp\<rparr>)
         else (1, atype, [], ident1))"

definition HTTP_decompAuth :: "digest_params \<Rightarrow> string option \<Rightarrow> string \<Rightarrow> nat \<Rightarrow> nat \<Rightarrow> nat \<times> string \<times> string" where
  "HTTP_decompAuth junk passesc auth atsiz avsiz =
     (case HTTP_decompAuthX junk passesc auth atsiz avsiz ident0 of (n, atype, aval, _) \<Rightarrow> (n, atype, aval))"

text \<open>\<open>nthtuser\<close> is the user of an NTLM session, empty when there is none.\<close>

definition HTTP_auth2ident :: "digest_params \<Rightarrow> string option \<Rightarrow> string \<Rightarrow> string \<Rightarrow> bool \<Rightarrow> http_ident option" where
  "HTTP_auth2ident junk passesc nthtuser auth decomp =
     (if auth = [] then None
      else case HTTP_decompAuthX junk passesc auth 128 MaxAuthFieldLen ident0 of (n, atype, dauth, ident) \<Rightarrow>
        if n < 2 then None
        else let (user, pass) = scan_namebody dauth 64 '':'' 64 [CR, LF];
                 user' = (if nthtuser \<noteq> [] then take 63 nthtuser else user)
             in Some (case (if decomp then strrchr user' CHR ''@'' else None) of
                  Some dp \<Rightarrow> ident\<lparr>hi_user := before user' dp, hi_pass := pass, hi_host := fst (word_scan (tl dp) 102)\<rparr>
                | None \<Rightarrow> ident\<lparr>hi_user := user', hi_pass := pass\<rparr>))"

definition HTTP_forgedAuthorization :: "digest_params \<Rightarrow> string option \<Rightarrow> string \<Rightarrow> string \<Rightarrow> bool" where
  "HTTP_forgedAuthorization junk passesc hostname reqfields =
     (case findFieldValue reqfields ''Authorization'' of
        None \<Rightarrow> False
      | Some auth \<Rightarrow>
          (case HTTP_decompAuth junk passesc auth 128 256 of (n, atype, aval) \<Rightarrow>
             (case strrchr aval CHR ''/'' of Some dp \<Rightarrow> tl dp = hostname | None \<Rightarrow> False)))"

subsection \<open>Credentials in the URL\<close>

definition str_to64 :: "string \<Rightarrow> nat \<Rightarrow> string" where
  "str_to64 inp osize = cstr (take (osize - 1) (MIME_to64 inp))"

definition basic_field :: "string \<Rightarrow> string \<Rightarrow> string" where
  "basic_field user pass = take 255 (''Authorization: Basic '' @ str_to64 (take 255 (user @ '':'' @ pass)) 256 @ CRLF)"

text \<open>The host and port, and the fields of a request to a proxy, when the URL of the server (\<^verbatim>\<open>REAL_SITE\<close>) has a user.\<close>

definition forwardUserinfo :: "string \<Rightarrow> string \<Rightarrow> string \<Rightarrow> string \<times> string" where
  "forwardUserinfo real_site hostport reqfields =
     (if CHR ''@'' \<notin> set real_site then (hostport, reqfields)
      else let user = take 63 (takeWhile (\<lambda>c. c \<noteq> CHR '':'' \<and> c \<noteq> CHR ''@'') real_site); dp = drop (length user) real_site
           in if user = [] then (hostport, reqfields)
              else (take 255 (user @ ''@'' @ hostport),
                    if hd0 dp = CHR '':''
                    then RFC822_addHeaderField reqfields (basic_field user (take 63 (takeWhile (\<lambda>c. c \<noteq> CHR ''@'') (tl dp))))
                    else reqfields))"

subsection \<open>The request shown\<close>

text \<open>\<^verbatim>\<open>HTTP_fprintmsgX\<close> without entity encoding: line by line, the credentials replaced.\<close>

definition hide_auth :: "string \<Rightarrow> string \<Rightarrow> string" where
  "hide_auth mp line =
     (if strncaseeq mp ''Proxy-Authorization:'' 20 then take 20 line @ '' ******''
      else if strncaseeq mp ''Authorization:'' 14 then take 14 line @ '' ******''
      else line)"

function fprintmsg_loop :: "string \<Rightarrow> string" where
  "fprintmsg_loop mp =
     (if mp = [] then []
      else hide_auth mp (take 1023 (line_text mp)) @ CRLF @
        (case strchr mp LF of Some np \<Rightarrow> fprintmsg_loop (tl np) | None \<Rightarrow> []))"
  by pat_completeness auto
termination
proof (relation "measure length", goal_cases)
  case (2 mp np)
  then show ?case using strchr_length [of mp LF np] by (cases np) auto
qed simp

end
