(* ===== verification/HttpAuth.thy ===== *)
theory HttpAuth
  imports Http UrlSite
begin

section \<open>HttpAuth: what the HTTP gateway accepts, reads and shows\<close>

text \<open>
  The configured methods are the accepted ones, a request line is read back, credentials written
  in an \<^verbatim>\<open>Authorization\<close> field are those the gateway works with; and the cases in which this is not so.
\<close>

subsection \<open>Methods\<close>

definition method_name :: "string \<Rightarrow> bool" where
  "method_name m \<longleftrightarrow> m \<noteq> [] \<and> hd m \<noteq> CHR ''-'' \<and> list_all (\<lambda>c. isalnum c \<or> c = CHR ''-'' \<or> c = CHR ''_'') m"

lemma method_char:
  "isalnum c \<or> c = CHR ''-'' \<or> c = CHR ''_'' \<Longrightarrow>
     c \<noteq> NUL \<and> c \<noteq> CHR '','' \<and> c \<noteq> CHR ''{'' \<and> c \<noteq> CHR ''}'' \<and> c \<noteq> BSL \<and> c \<noteq> CHR ''+'' \<and> c \<noteq> CHR ''*'' \<and> c \<noteq> DQ"
  by (auto simp: isalnum_def isalpha_def isupper_def islower_def isdigit_def uc_def)

lemma method_esc: "method_name m \<Longrightarrow> esc_elem CHR '','' m = m"
proof -
  assume "method_name m"
  then have "list_all (\<lambda>c. \<not> special CHR '','' c) m"
    using method_char by (auto simp: method_name_def list_all_iff special_def)
  then show ?thesis by (induction m) auto
qed

lemma method_good: "method_name m \<Longrightarrow> esc_good CHR '','' m"
  using method_char by (auto simp: esc_good_def sep_ok_def method_name_def list_all_iff nonul_def)

lemma join_methods: "(\<forall>m \<in> set ms. method_name m) \<Longrightarrow> join_with (esc_elem CHR '','') CHR '','' ms = join_with (\<lambda>s. s) CHR '','' ms"
  by (induction "\<lambda>s::string. s" "CHR '',''" ms rule: join_with.induct) (auto simp: method_esc)

lemma methods_elems:
  assumes "\<forall>m \<in> set ms. method_name m" "ms \<noteq> []"
  shows "elems (join_with (\<lambda>s. s) CHR '','' ms) CHR '','' 1 = ms"
proof -
  have "esc_elem CHR '','' (last ms) \<noteq> []" using assms by (metis last_in_set method_esc method_name_def)
  then show ?thesis using escaped.elems_join [of ms "CHR '',''" 1] assms method_good join_methods by auto
qed

text \<open>The scan adds the elements one by one.\<close>

lemma setMethods_fold:
  "snd (scan_commaList s 1 (Some (\<lambda>ms e _. (0, add_method1 64 ms e))) ms) = fold (\<lambda>e ms. add_method1 64 ms e) (elems s CHR '','' 1) ms"
  using scan_ListX_fold [of s "CHR '',''" 1 "\<lambda>e ms. add_method1 64 ms e" ms] by (simp add: scan_commaList_def)

lemma method_nonul: "method_name m \<Longrightarrow> nonul m"
  using method_char by (auto simp: method_name_def list_all_iff nonul_def)

lemma add_methods:
  assumes "\<forall>m \<in> set (ds @ ms). method_name m" "distinct (map (map tolower) (ds @ ms))" "length (ds @ ms) \<le> 63"
  shows "fold (\<lambda>e ms. add_method1 64 ms e) ms (map (\<lambda>m. (m, [])) ds) = map (\<lambda>m. (m, [])) (ds @ ms)"
  using assms
proof (induction ms arbitrary: ds)
  case (Cons m ms)
  have m: "method_name m" "hd0 m \<noteq> CHR ''-''" using Cons.prems(1) by (auto simp: method_name_def hd0_def split: list.split)
  have "\<not> strcaseeq m n" if "n \<in> set ds" for n
    using that Cons.prems(1,2) strcaseeq_iff [of m n] method_nonul by force
  then have "add_method1 64 (map (\<lambda>m. (m, [])) ds) m = map (\<lambda>m. (m, [])) (ds @ [m])"
    using m(2) Cons.prems(3) by (auto simp: add_method1_def list_ex_iff)
  then show ?case using Cons.IH [of "ds @ [m]"] Cons.prems by simp
qed simp

lemma getMethods_join: "(\<forall>m \<in> set ms. m \<noteq> []) \<Longrightarrow> getMethods (map (\<lambda>m. (m, [])) ms) = join_with (\<lambda>s. s) CHR '','' ms"
proof -
  have *: "foldl (\<lambda>mp (m, c). (if mp \<noteq> [] then mp @ '','' else mp) @ m) x (map (\<lambda>m. (m, [])) ms) = x @ '','' @ join_with (\<lambda>s. s) CHR '','' ms"
    if "\<forall>m \<in> set ms. m \<noteq> []" "ms \<noteq> []" "x \<noteq> []" for x :: string and ms :: "string list"
    using that
  proof (induction ms arbitrary: x)
    case (Cons m ms)
    then show ?case using Cons.IH [of "x @ '','' @ m"] by (cases ms) auto
  qed simp
  assume "\<forall>m \<in> set ms. m \<noteq> []"
  then show ?thesis using * [of "tl ms" "hd ms"] by (cases ms; cases "tl ms") (auto simp: getMethods_def)
qed

text \<open>
  C17: \<^verbatim>\<open>HTTPCONF=methods:m1,m2,...\<close> allows exactly the methods it names: the table holds them in their order, they are printed
  back as they were given, and a request is allowed if and only if it starts with one of them as a
  word.
\<close>

theorem setMethods_exact:
  assumes "ms \<noteq> []" and "\<forall>m \<in> set ms. method_name m" and "distinct (map (map tolower) ms)" and "length ms \<le> 63"
    and "\<not> allowAnyMethods st" and "st' = HTTP_setMethods (join_with (\<lambda>s. s) CHR '','' ms) st"
  shows "HTTP_allowMethods st' = join_with (\<lambda>s. s) CHR '','' ms
    \<and> (HTTP_allowMethod1 False st' req \<longleftrightarrow> (\<exists>m \<in> set ms. is_prefix m req \<and> ends_method (hd0 (drop (length m) req))))"
proof -
  define s where "s = join_with (\<lambda>s. s) CHR '','' ms"
  obtain c t where s: "s = c # t" "isalnum c \<or> c = CHR ''_''"
    using assms(1,2) unfolding s_def by (cases ms; cases "hd ms"; cases "tl ms") (auto simp: method_name_def)
  then have c: "c \<noteq> CHR ''+''" "c \<noteq> CHR ''-''" "c \<noteq> CHR ''*''" using method_char [of c]
    by (auto simp: isalnum_def isalpha_def isupper_def islower_def isdigit_def uc_def)
  have "fold (\<lambda>e ms. add_method1 64 ms e) ms [] = map (\<lambda>m. (m, [])) ms"
    using add_methods [of "[]" ms] assms(2-4) by simp
  then have "st' = st\<lparr>allowMethodV := Some (map (\<lambda>m. (m, [])) ms)\<rparr>"
    using s(1) c assms(6) methods_elems [OF assms(2,1)]
    by (simp add: HTTP_setMethods_def setMethods_fold [simplified] flip: s_def)
  then show ?thesis using assms(2,5) getMethods_join [of ms]
    by (auto simp: HTTP_allowMethods_def HTTP_allowMethod1_def acceptableRequest_def isMethod_def list_ex_iff method_name_def)
qed

theorem setMethods_exact_witness:
  "HTTP_allowMethods (HTTP_setMethods (join_with (\<lambda>s. s) CHR '','' [''GET'', ''HEAD'']) \<lparr>allowMethodV = None, allowAnyMethods = False\<rparr>) = ''GET,HEAD''
   \<and> (HTTP_allowMethod1 False (HTTP_setMethods (join_with (\<lambda>s. s) CHR '','' [''GET'', ''HEAD'']) \<lparr>allowMethodV = None, allowAnyMethods = False\<rparr>) ''GET /''
      \<longleftrightarrow> (\<exists>m \<in> set [''GET'', ''HEAD'']. is_prefix m ''GET /'' \<and> ends_method (hd0 (drop (length m) ''GET /''))))"
  using setMethods_exact [of "[''GET'', ''HEAD'']" "\<lparr>allowMethodV = None, allowAnyMethods = False\<rparr>" _ "''GET /''", OF _ _ _ _ _ refl]
  by (simp add: method_name_def isalnum_def isalpha_def isupper_def uc_def tolower_def)

text \<open>The names and classes of the methods, by their lower-case letters.\<close>

lemma valid_method_names:
  "list_all (\<lambda>(n, c). method_name n \<and> nonul c \<and> length n \<le> 31 \<and> list_all (\<lambda>c. \<not> is_blank c) n) validMethods"
  by (simp add: validMethods_def method_name_def isalnum_def isalpha_def isupper_def islower_def isdigit_def uc_def nonul_def is_blank_def)

lemma del_class:
  assumes "nonul cls" "list_all (\<lambda>(n, c). nonul n \<and> nonul c \<and> map tolower cls \<noteq> map tolower n \<and> (map tolower cls = map tolower c \<longleftrightarrow> c = cls)) ms"
  shows "del_method cls ms = map (\<lambda>(n, c). (if c = cls then ''-'' else n, c)) ms"
  using assms(2)
proof (induction ms)
  case (Cons nc ms)
  then show ?case using strcaseeq_iff [OF assms(1)] by (cases nc) auto
qed simp

lemma class_names:
  assumes "cls \<in> {''1.1'', ''webdav'', ''draft'', ''delegate''}"
  shows "list_all (\<lambda>(n, c). nonul n \<and> nonul c \<and> map tolower cls \<noteq> map tolower n \<and> (map tolower cls = map tolower c \<longleftrightarrow> c = cls)) validMethods"
proof -
  have eq: "(c = char_of n) = (take_bit 8 n = of_char c)" "(char_of n = c) = (take_bit 8 n = of_char c)" for c and n :: nat
    using char_of_eq_iff [of n c] by metis+
  show ?thesis using assms
    by (elim insertE emptyE) (simp_all add: validMethods_def tolower_def isupper_def uc_def nonul_def eq)
qed

text \<open>
  Removing a class of methods by \<^verbatim>\<open>HTTPCONF=methods:-webdav\<close> rejects all methods of the class and keeps the others; but the
  removed ones stay in the table under the name \<^verbatim>\<open>-\<close>, so that a request whose method is a minus sign is
  allowed.
\<close>

theorem class_removed_but_dash:
  assumes "cls \<in> {''1.1'', ''webdav'', ''draft'', ''delegate''}" and "\<not> allowAnyMethods st"
    and "st' = HTTP_setMethods (''-'' @ cls) st"
  shows "HTTP_allowMethod1 False st' req \<longleftrightarrow>
    isMethod (filter (\<lambda>(n, c). c \<noteq> cls) validMethods) req \<or> hd0 req = CHR ''-'' \<and> ends_method (hd0 (tl req))"
proof -
  have nn: "nonul cls" "CHR '','' \<notin> set cls" "CHR ''{'' \<notin> set cls" "CHR ''}'' \<notin> set cls" "cls \<noteq> []" "last cls \<noteq> BSL"
    using assms(1) by (auto simp: nonul_def)
  have e: "esc_elem CHR '','' (CHR ''-'' # cls) = CHR ''-'' # cls"
    using assms(1) by (auto simp: special_def)
  have "esc_good CHR '','' (CHR ''-'' # cls)" using nn by (auto simp: esc_good_def sep_ok_def nonul_def)
  then have el: "elems (CHR ''-'' # cls) CHR '','' 1 = [CHR ''-'' # cls]"
    using escaped.elems_join [of "[CHR ''-'' # cls]" "CHR '',''" 1] e by simp
  have d: "del_method cls validMethods = map (\<lambda>(n, c). (if c = cls then ''-'' else n, c)) validMethods"
    by (rule del_class [OF nn(1) class_names [OF assms(1)]])
  then have f: "add_method1 64 validMethods (CHR ''-'' # cls) = map (\<lambda>(n, c). (if c = cls then ''-'' else n, c)) validMethods"
    by (simp add: add_method1_def)
  have "st' = st\<lparr>allowMethodV := Some (map (\<lambda>(n, c). (if c = cls then ''-'' else n, c)) validMethods)\<rparr>"
    using assms(3) el f by (simp add: HTTP_setMethods_def setMethods_fold [simplified])
  moreover have "\<exists>nc \<in> set validMethods. snd nc = cls" using assms(1) by (auto simp: validMethods_def)
  moreover have "is_prefix ''-'' req \<longleftrightarrow> hd0 req = CHR ''-''" "drop (length ''-'') req = tl req" by (cases req; auto)+
  ultimately show ?thesis using assms(2)
    by (auto simp: HTTP_allowMethod1_def acceptableRequest_def isMethod_def list_ex_iff split: if_splits prod.splits)
qed

theorem class_removed_but_dash_witness:
  "HTTP_allowMethod1 False (HTTP_setMethods (''-'' @ ''webdav'') \<lparr>allowMethodV = None, allowAnyMethods = False\<rparr>) ''- /''
   \<and> \<not> HTTP_allowMethod1 False (HTTP_setMethods (''-'' @ ''webdav'') \<lparr>allowMethodV = None, allowAnyMethods = False\<rparr>) ''LOCK /''"
proof -
  have r: "HTTP_allowMethod1 False (HTTP_setMethods (''-'' @ ''webdav'') \<lparr>allowMethodV = None, allowAnyMethods = False\<rparr>) req
    \<longleftrightarrow> isMethod (filter (\<lambda>(n, c). c \<noteq> ''webdav'') validMethods) req \<or> hd0 req = CHR ''-'' \<and> ends_method (hd0 (tl req))" for req
    by (rule class_removed_but_dash) simp_all
  show ?thesis unfolding r by (simp add: ends_method_def isMethod_def validMethods_def)
qed

subsection \<open>Request lines\<close>

lemma word_scan_word:
  assumes "list_all (\<lambda>c. \<not> is_blank c) w" "w \<noteq> []" "length w < siz" "is_blank b"
  shows "word_scan (w @ b # s) siz = (w, b # s)" "word_scan (b # w @ b # s) siz = (w, b # s)"
proof -
  have t: "takeWhile (\<lambda>c. \<not> is_blank c) (w @ b # s) = w" using assms(1,4) by (intro takeWhile_stop) auto
  have d: "dropWhile is_blank (w @ b # s) = w @ b # s" using assms(1,2) by (cases w) auto
  show "word_scan (w @ b # s) siz = (w, b # s)" "word_scan (b # w @ b # s) siz = (w, b # s)"
    using t d assms(3,4) by (simp_all add: word_scan_def Let_def)
qed

text \<open>
  \<^verbatim>\<open>decomp_http_request\<close> reads back the method, the URL and the version of the request line of a known method; the version is
  kept as a number with two digits for the minor part, and a URL that is not a path marks a request to a proxy.
\<close>

theorem request_roundtrip:
  assumes "(m, c) \<in> set validMethods" and "url \<noteq> []" and "list_all (\<lambda>c. \<not> is_blank c) url" and "length url < URLSZ"
    and "maj < 1000" and "minor < 1000"
  shows "decomp_http_request accept st (m @ '' '' @ url @ '' HTTP/'' @ show_nat maj @ ''.'' @ show_nat minor @ CRLF)
    = \<lparr>hq_method = m, hq_url = url, hq_ver = take 31 (show_nat maj @ ''.'' @ show_nat minor),
       hq_vno = 100 * int maj + int minor, hq_isproxy = (hd url \<noteq> CHR ''/'' \<and> hd url \<noteq> CHR ''*'')\<rparr>"
proof -
  define v where "v = CHR ''H'' # ''TTP/'' @ show_nat maj @ ''.'' @ show_nat minor @ CRLF"
  define req where "req = m @ SP # url @ SP # v"
  have m: "m \<noteq> []" "length m \<le> 31" "list_all (\<lambda>c. \<not> is_blank c) m"
    using assms(1) valid_method_names by (auto simp: list_all_iff method_name_def)
  have sp: "is_blank SP" by (simp add: is_blank_def)
  have "is_prefix m req" "hd0 (drop (length m) req) = SP" unfolding req_def by (induction m) auto
  then have ok: "HTTP_isMethod accept st req"
    using assms(1) by (auto simp: HTTP_isMethod_def isMethod_def list_ex_iff ends_method_def intro!: bexI [of _ "(m, c)"])
  have pb: "strpbrk req [SP, TAB] \<noteq> None" unfolding req_def by (induction m) auto
  have w1: "word_scan req 32 = (m, SP # url @ SP # v)"
    unfolding req_def by (rule word_scan_word(1)) (use m sp in auto)
  have w2: "word_scan (SP # url @ SP # v) URLSZ = (url, SP # v)"
    by (rule word_scan_word(2)) (use assms(2-4) sp in auto)
  have d: "scan_d (show_nat maj @ CHR ''.'' # x) = Some (int maj, CHR ''.'' # x)" "scan_d (show_nat minor @ CRLF) = Some (int minor, CRLF)" for x
    using scan_d_show_nat [of maj "CHR ''.'' # x"] scan_d_show_nat [of minor CRLF] assms(5,6) by (simp_all add: isdigit_def uc_def)
  have ver: "http_version (dropWhile (\<lambda>c. c = SP \<or> c = TAB) (SP # v)) = (int maj, int minor)"
    using d by (simp add: v_def http_version_def strneq_def)
  have "decomp_http_request accept st req = \<lparr>hq_method = m, hq_url = url, hq_ver = take 31 (show_nat maj @ ''.'' @ show_nat minor),
       hq_vno = 100 * int maj + int minor, hq_isproxy = (hd url \<noteq> CHR ''/'' \<and> hd url \<noteq> CHR ''*'')\<rparr>"
    using pb ok w1 w2 ver assms(2,5,6)
    by (cases url) (simp_all add: decomp_http_request_def print_int_def del: not_None_eq)
  then show ?thesis by (simp add: req_def v_def)
qed

theorem request_roundtrip_witness:
  "decomp_http_request False \<lparr>allowMethodV = None, allowAnyMethods = False\<rparr>
     (''GET'' @ '' '' @ ''http://host/'' @ '' HTTP/'' @ show_nat 1 @ ''.'' @ show_nat 1 @ CRLF)
    = \<lparr>hq_method = ''GET'', hq_url = ''http://host/'', hq_ver = take 31 (show_nat 1 @ ''.'' @ show_nat 1),
       hq_vno = 101, hq_isproxy = True\<rparr>"
  using request_roundtrip [of "''GET''" "''1.1''" "''http://host/''" 1 1 False "\<lparr>allowMethodV = None, allowAnyMethods = False\<rparr>"]
  by (simp add: validMethods_def is_blank_def URLSZ_def)

subsection \<open>Basic credentials\<close>

text \<open>Base64 without line breaks.\<close>

fun enc64 :: "string \<Rightarrow> string" where
  "enc64 s = (if s = [] then [] else to64_quad (take 3 s) @ enc64 (drop 3 s))"

declare enc64.simps [simp del]

lemma enc64_Nil [simp]: "enc64 [] = []"
  by (simp add: enc64.simps)

lemma from64_enc64: "from64_loop (enc64 s) = (s, [])"
proof (induction s rule: enc64.induct)
  case (1 s)
  show ?case
  proof (cases "s = []")
    case True
    then show ?thesis by (simp add: enc64.simps)
  next
    case False
    then show ?thesis using 1 from64_loop_quad [of "take 3 s" "enc64 (drop 3 s)"]
      by (subst enc64.simps) (simp add: apfst_def map_prod_def)
  qed
qed

definition b64_text :: "char \<Rightarrow> bool" where
  "b64_text c \<longleftrightarrow> c \<noteq> SP \<and> c \<noteq> TAB \<and> c \<noteq> CR \<and> c \<noteq> LF \<and> c \<noteq> FF \<and> c \<noteq> NUL"

lemma B64CH_plain: "list_all b64_text B64CH"
  by (simp add: B64CH_def b64_text_def)

lemma to64_quad_chars: "list_all b64_text (to64_quad bs)"
proof -
  obtain ks where ks: "\<forall>k \<in> set ks. k < 64"
    "to64_quad bs = map ((!) B64CH) ks @ replicate (3 - length bs) CHR ''=''"
    by (rule to64_quad_sextets)
  have "length B64CH = 64" by (simp add: B64CH_def)
  then have "b64_text (B64CH ! k)" if "k \<in> set ks" for k
    using that ks(1) B64CH_plain by (simp add: list_all_length)
  then show ?thesis unfolding ks(2) by (auto simp: list_all_iff b64_text_def)
qed

lemma enc64_chars: "list_all b64_text (enc64 s)"
  by (induction s rule: enc64.induct) (subst enc64.simps, simp add: to64_quad_chars)

lemma to64_quad_length: "length bs \<le> 3 \<Longrightarrow> length (to64_quad bs) = 4"
  by (simp add: to64_quad_def Let_def)

lemma enc64_length: "length (enc64 s) = 4 * ((length s + 2) div 3)"
proof (induction s rule: enc64.induct)
  case (1 s)
  show ?case
  proof (cases "s = []")
    case False
    then have "length (enc64 s) = 4 + 4 * ((length (drop 3 s) + 2) div 3)"
      using 1 to64_quad_length [of "take 3 s"] by (subst enc64.simps) simp
    also have "\<dots> = 4 * ((length s + 2) div 3)" using False by (cases "length s < 3") (auto simp: div_if neq_Nil_conv)
    finally show ?thesis .
  qed (simp add: enc64.simps)
qed

lemma to64_get3_icc: "to64_get3 k 0 icc inp acc = (bs, inp', icc', eof) \<Longrightarrow> icc' = icc"
  by (induction k "0 :: nat" icc inp acc rule: to64_get3.induct) (auto split: list.splits)

text \<open>The first line of the encoding holds the first 54 bytes.\<close>

lemma to64_first_line:
  assumes "k \<le> 18" "k = 0 \<longrightarrow> s \<noteq> []"
  shows "\<exists>r. to64_loop 0 0 (4 * k) s = enc64 (take (3 * (18 - k)) s) @ LF # r \<and> (r = [] \<or> b64_text (hd r))"
  using assms
proof (induction s arbitrary: k rule: length_induct)
  case (1 s)
  obtain bs inp' icc' eof where g: "to64_get3 3 0 0 s [] = (bs, inp', icc', eof)" by (cases "to64_get3 3 0 0 s []") auto
  have bs: "bs = take 3 s" "eof = (length s < 3)" "\<not> eof \<Longrightarrow> inp' = drop 3 s"
    using to64_get3_limited [OF g] by (auto simp: limited_def)
  have icc: "icc' = 0" using to64_get3_icc [OF g] by simp
  show ?case
  proof (cases "s = [] \<or> k = 18")
    case True
    have "to64_quad bs @ x \<noteq> [] \<and> b64_text (hd (to64_quad bs @ x))" for x
      using to64_quad_chars [of bs] to64_quad_length [of bs] bs(1) by (cases "to64_quad bs") auto
    then show ?thesis using True 1 g bs by (subst to64_loop.simps) (auto simp: Let_def)
  next
    case False
    have e: "enc64 (take (3 * (18 - k)) s) = to64_quad (take 3 s) @ enc64 (take (3 * (18 - (k + 1))) (drop 3 s))"
    proof -
      have n: "3 * (18 - k) = 3 + 3 * (18 - (k + 1))"
      proof -
        have "k < 18" using False 1(2) by auto
        then have "18 - k = Suc (18 - (k + 1))" by simp
        then show ?thesis by (metis mult_Suc_right)
      qed
      have "take 3 (take (3 * (18 - k)) s) = take 3 s" "drop 3 (take (3 * (18 - k)) s) = take (3 * (18 - (k + 1))) (drop 3 s)"
        unfolding n take_take drop_take by simp_all
      moreover have "take (3 * (18 - k)) s \<noteq> []" using False 1(2) by auto
      ultimately show ?thesis by (subst enc64.simps) simp
    qed
    have l: "to64_loop 0 0 (4 * k) s = to64_quad (take 3 s) @ (if length s < 3 then [LF] else to64_loop 0 0 (4 * (k + 1)) (drop 3 s))"
      using False 1(2) g bs icc by (subst to64_loop.simps) (simp add: Let_def add.commute)
    show ?thesis
    proof (cases "length s < 3")
      case True
      then show ?thesis using e l by simp
    next
      case long: False
      then obtain r where "to64_loop 0 0 (4 * (k + 1)) (drop 3 s) = enc64 (take (3 * (18 - (k + 1))) (drop 3 s)) @ LF # r" "r = [] \<or> b64_text (hd r)"
        using 1(1) [rule_format, of "drop 3 s" "k + 1"] 1(2) False by auto
      then show ?thesis using e l long by simp
    qed
  qed
qed

lemma to64_line: "s \<noteq> [] \<Longrightarrow> \<exists>r. MIME_to64 s = enc64 (take 54 s) @ LF # r \<and> (r = [] \<or> b64_text (hd r))"
  using to64_first_line [of 0 s] by (simp add: MIME_to64_def MIME_to64X_def)

lemma value_plain:
  assumes "list_all (\<lambda>c. c \<noteq> SP \<and> c \<noteq> TAB \<and> c \<noteq> CR \<and> c \<noteq> LF) w" "cc + length w < siz"
  shows "valuescan_loop siz cc psp acc (w @ s) = valuescan_loop siz (cc + length w) (psp \<and> w = []) (acc @ w) s"
  using assms by (induction w arbitrary: cc psp acc) (auto simp: Let_def)

text \<open>What is read from the value of a \<^verbatim>\<open>Basic\<close> field that ends at a newline.\<close>

lemma basic_value:
  assumes "list_all b64_text q" "q \<noteq> []" "length q \<le> 1000" "hd0 r \<noteq> SP" "hd0 r \<noteq> TAB"
  shows "snd (RFC822_valuescan ('' Basic '' @ q @ LF # r) 4096) = '' Basic '' @ q"
proof -
  have b: "list_all (\<lambda>c. c \<noteq> SP \<and> c \<noteq> TAB \<and> c \<noteq> CR \<and> c \<noteq> LF) ''Basic''"
    "list_all (\<lambda>c. c \<noteq> SP \<and> c \<noteq> TAB \<and> c \<noteq> CR \<and> c \<noteq> LF) q"
    using assms(1) by (auto simp: b64_text_def list_all_iff)
  have "valuescan_loop 4096 1 False [] (SP # ''Basic'' @ SP # q @ LF # r)
      = valuescan_loop 4096 (1 + 1 + length ''Basic'') False ('' '' @ ''Basic'') (SP # q @ LF # r)"
    using value_plain [OF b(1), of "1 + 1" 4096 True "'' ''" "SP # q @ LF # r"]
    by (subst valuescan_loop.simps) (simp add: Let_def del: valuescan_loop.simps)
  also have "\<dots> = valuescan_loop 4096 (1 + 1 + length ''Basic'' + 1 + length q) False ('' Basic '' @ q) (LF # r)"
    using value_plain [OF b(2), of "1 + 1 + length ''Basic'' + 1" 4096 True "'' Basic ''" "LF # r"] assms(2,3)
    by (subst valuescan_loop.simps) (simp add: Let_def del: valuescan_loop.simps)
  finally show ?thesis using assms(3-5) by (simp add: RFC822_valuescan_def)
qed

definition user_char :: "char \<Rightarrow> bool" where
  "user_char c \<longleftrightarrow> 0x20 < uc c \<and> uc c < 127 \<and> c \<notin> {CHR '':'', CHR ''%'', DQ, SQ, CHR ''<'', CHR ''>'', CHR ''^''}"

lemma user_char_not: "\<not> user_char NUL" "\<not> user_char ESC" "\<not> user_char CR" "\<not> user_char LF"
  by (simp_all add: user_char_def uc_def)

lemma escape_stops:
  assumes "list_all user_char u"
  shows "url_escape_loop (no_flags\<lparr>escspc := True\<rparr>) ([DQ, SQ] @ ''<>'') (Some ''^:'') siz False pre None 0 (u @ s)
    = (if s = [] \<or> hd s = CHR '':'' then (None, 0)
       else url_escape_loop (no_flags\<lparr>escspc := True\<rparr>) ([DQ, SQ] @ ''<>'') (Some ''^:'') siz False (pre @ u) None 0 s)"
  using assms
proof (induction u arbitrary: pre)
  case Nil
  then show ?case by (cases s) auto
next
  case (Cons c u)
  have c: "user_char c" using Cons.prems by simp
  have "c \<noteq> ESC" using c user_char_not(2) by metis
  moreover have "c \<notin> set ''^:''" using c by (simp add: user_char_def)
  moreover have "\<not> must_escape (no_flags\<lparr>escspc := True\<rparr>) ([DQ, SQ] @ ''<>'') False c"
    using c by (simp add: user_char_def must_escape_def no_flags_def iscntrl_def isspace_def)
  ultimately show ?case using Cons by simp
qed

lemma escape_user:
  assumes "list_all user_char u" "s = [] \<or> hd s = CHR '':''"
  shows "url_escapeX True (u @ s) siz (''%S'' @ [DQ, SQ] @ ''<>'') (Some ''^:'') = (u @ s, 0)"
  using escape_stops [OF assms(1)] assms(2) by (simp add: url_escapeX_def url_escapeY_def no_flags_def)

lemma cstr_append: "nonul a \<Longrightarrow> cstr (a @ s) = a @ cstr s"
  by (induction a) (auto simp: cstr_def nonul_def)

text \<open>The field as it is written: one line of Base64, then a line end, and no blank behind it.\<close>

lemma basic_field_line:
  assumes "nonul up" "up = user @ '':'' @ pass" "length up \<le> 255"
  shows "\<exists>r. basic_field user pass = ''Authorization: Basic '' @ enc64 (take 54 up) @ LF # r \<and> r \<noteq> [] \<and> hd r \<noteq> SP \<and> hd r \<noteq> TAB"
proof -
  define q where "q = enc64 (take 54 up)"
  have q: "list_all b64_text q" "length q \<le> 72"
    using enc64_chars [of "take 54 up"] enc64_length [of "take 54 up"] by (auto simp: q_def)
  obtain r where r: "MIME_to64 up = q @ LF # r" "r = [] \<or> b64_text (hd r)"
    using to64_line [of up] assms(2) by (auto simp: q_def)
  have "nonul q" using q(1) by (auto simp: list_all_iff b64_text_def nonul_def)
  then have "str_to64 up 256 = q @ LF # cstr (take (254 - length q) r)"
    using r(1) q(2) Suc_diff_le [of "length q" 254] cstr_append [of q "LF # take (254 - length q) r"]
    by (simp add: str_to64_def cstr_def [of "LF # _"] cstr_def [of "take _ _"])
  moreover define x where "x = cstr (take (254 - length q) r) @ CRLF"
  ultimately have "basic_field user pass = take 255 (''Authorization: Basic '' @ q @ LF # x)"
    using assms(2,3) by (simp add: basic_field_def)
  also have "\<dots> = ''Authorization: Basic '' @ q @ LF # take (233 - length q) x"
    using q(2) Suc_diff_le [of "length q" 233] by simp
  finally have "basic_field user pass = ''Authorization: Basic '' @ q @ LF # take (233 - length q) x" .
  moreover have "x \<noteq> [] \<and> hd x \<noteq> SP \<and> hd x \<noteq> TAB"
    using r(2) by (cases r) (auto simp: x_def cstr_def b64_text_def take_Cons' split: if_splits)
  ultimately show ?thesis using q(2) by (intro exI [of _ "take (233 - length q) x"]) (auto simp: q_def)
qed

lemma word_scan_end: "list_all (\<lambda>c. \<not> is_blank c) w \<Longrightarrow> w \<noteq> [] \<Longrightarrow> length w < siz \<Longrightarrow> word_scan (SP # w) siz = (w, [])"
  by (cases w) (auto simp: word_scan_def is_blank_def Let_def takeWhile_eq_all_conv [THEN iffD2] list_all_iff)

text \<open>What the gateway makes of credentials it has put into a request itself.\<close>

lemma read_basic_field:
  assumes "list_all user_char user" "nonul pass" "list_all (\<lambda>c. c \<noteq> CR \<and> c \<noteq> LF) pass" "length user \<le> 53" "length pass \<le> 63"
  shows "HTTP_auth2ident junk None [] (drop 14 (basic_field user pass) @ rest) False
    = Some (ident0\<lparr>hi_atyp := ''Basic'', hi_user := user, hi_pass := take (53 - length user) pass\<rparr>)"
proof -
  define up where "up = user @ '':'' @ pass"
  define q where "q = enc64 (take 54 up)"
  define p where "p = take (53 - length user) pass"
  have nn: "nonul up" using assms(1,2) user_char_not(1) by (auto simp: up_def list_all_iff nonul_def)
  have q: "list_all b64_text q" "q \<noteq> []" "length q \<le> 72"
    using enc64_chars [of "take 54 up"] enc64_length [of "take 54 up"] by (auto simp: q_def up_def)
  obtain r where r: "basic_field user pass = ''Authorization: Basic '' @ q @ LF # r" "r \<noteq> []" "hd r \<noteq> SP" "hd r \<noteq> TAB"
    using basic_field_line [OF nn up_def] assms(4,5) by (auto simp: up_def q_def)
  have t: "take 54 up = user @ '':'' @ p" using assms(4) Suc_diff_le [of "length user" 53] by (simp add: up_def p_def)
  have v: "snd (RFC822_valuescan (drop 14 (basic_field user pass) @ rest) MaxAuthFieldLen) = '' Basic '' @ q"
    using basic_value [OF q(1,2), of "r @ rest"] q(3) r by (cases r) (simp_all add: MaxAuthFieldLen_def)
  have qb: "list_all (\<lambda>c. \<not> is_blank c) q" using q(1) by (auto simp: list_all_iff b64_text_def is_blank_def)
  have w: "word_scan ('' Basic '' @ q) 128 = (''Basic'', SP # q)"
    using word_scan_word(2) [of "''Basic''" 128 SP q] by (simp add: is_blank_def)
  have w2: "word_scan (SP # q) 1024 = (q, [])" using word_scan_end [OF qb q(2)] q(3) by simp
  have "nonul (user @ '':'' @ p)" using nn unfolding t [symmetric] by (auto simp: nonul_def dest: in_set_takeD)
  then have f: "str_from64 q MaxAuthFieldLen = user @ '':'' @ p"
    using from64_enc64 [of "take 54 up"] t assms(4)
    by (simp add: str_from64_def MIME_from64_def q_def MaxAuthFieldLen_def p_def cstr_nonul)
  have e: "url_escapeX True (user @ '':'' @ p) n (''%S'' @ [DQ, SQ] @ ''<>'') (Some ''^:'') = (user @ '':'' @ p, 0)" for n
    by (rule escape_user) (simp_all add: assms(1))
  have "takeWhile (\<lambda>c. c \<noteq> CR \<and> c \<noteq> LF \<and> c \<notin> set '':'') (user @ '':'' @ p) = user"
  proof (rule takeWhile_stop)
    show "list_all (\<lambda>c. c \<noteq> CR \<and> c \<noteq> LF \<and> c \<notin> set '':'') user"
      using assms(1) user_char_not by (auto simp: list_all_iff user_char_def [of "CHR '':''"])
  qed simp
  moreover have "takeWhile (\<lambda>c. c \<noteq> CR \<and> c \<noteq> LF \<and> c \<notin> set [CR, LF]) p = p"
    using assms(3) by (auto simp: p_def list_all_iff takeWhile_eq_all_conv dest: in_set_takeD)
  ultimately have nb: "scan_namebody (user @ '':'' @ p) 64 '':'' 64 [CR, LF] = (user, p)"
    using assms(4) by (simp add: scan_namebody_def paramscanX_def Let_def p_def takeWhile_eq_all_conv [THEN iffD2])
  have b: "strcasecmp ''Basic'' ''basic'' = 0" by code_simp
  have w3: "fst (word_scan ''Basic'' 16) = ''Basic''" by (simp add: word_scan_def is_blank_def)
  have ne: "drop 14 (basic_field user pass) @ rest \<noteq> []" using r(1) by simp
  show ?thesis unfolding HTTP_auth2ident_def HTTP_decompAuthX_def v w Let_def prod.case
    using ne w2 f e nb b w3 by (simp add: p_def split: prod.split)
qed

text \<open>
  C16: Credentials of a URL that the gateway forwards to a proxy in an \<^verbatim>\<open>Authorization\<close> field (\<^verbatim>\<open>forwardUserinfo\<close>) are the ones it reads from
  such a field (\<^verbatim>\<open>HTTP_auth2ident\<close>): encoding, folding, decoding, escaping and splitting give back the user and the
  password when the two and the colon have at most 54 characters (longer ones are cut, see below), the user is
  of printing characters other than colon, percent, quotes, angle brackets and caret, and the password has no
  line end. The field is read without escaping of the password, without a user of NTLM and without
  decomposing the user.
\<close>

theorem forwarded_credentials_read:
  assumes "list_all user_char user" and "nonul pass" and "list_all (\<lambda>c. c \<noteq> CR \<and> c \<noteq> LF) pass"
    and "length user + length pass \<le> 53"
  shows "HTTP_auth2ident junk None [] (drop 14 (basic_field user pass) @ rest) False
    = Some (ident0\<lparr>hi_atyp := ''Basic'', hi_user := user, hi_pass := pass\<rparr>)"
  using read_basic_field [OF assms(1-3), of junk rest] assms(4) by simp

theorem forwarded_credentials_read_witness:
  "HTTP_auth2ident \<lparr>dp_user = [], dp_resp = [], dp_realm = [], dp_uri = [], dp_nonce = [], dp_opaque = [], dp_qop = [], dp_cnonce = [],
       dp_nc = [], dp_stale = False\<rparr> None [] (drop 14 (basic_field ''joe'' ''a:b c'') @ CRLF) False
    = Some (ident0\<lparr>hi_atyp := ''Basic'', hi_user := ''joe'', hi_pass := ''a:b c''\<rparr>)"
  by (rule forwarded_credentials_read) (simp_all add: user_char_def uc_def nonul_def)

text \<open>
  The encoder breaks its line after 54 bytes and \<^verbatim>\<open>forwardUserinfo\<close> does not remove the break, which ends the field: of longer
  credentials the password arrives cut, although both fit into the buffers for them.
\<close>

theorem long_credentials_cut:
  assumes "list_all user_char user" and "nonul pass" and "list_all (\<lambda>c. c \<noteq> CR \<and> c \<noteq> LF) pass"
    and "length user \<le> 53" and "length pass \<le> 63" and "53 < length user + length pass"
  shows "\<exists>ident. HTTP_auth2ident junk None [] (drop 14 (basic_field user pass) @ rest) False = Some ident
    \<and> hi_user ident = user \<and> hi_pass ident = take (53 - length user) pass \<and> hi_pass ident \<noteq> pass"
proof -
  have "length (take (53 - length user) pass) < length pass" using assms(4,6) by simp
  then have "take (53 - length user) pass \<noteq> pass" by auto
  then show ?thesis using read_basic_field [OF assms(1-5), of junk rest] by simp
qed

theorem long_credentials_cut_witness:
  "\<exists>ident. HTTP_auth2ident \<lparr>dp_user = [], dp_resp = [], dp_realm = [], dp_uri = [], dp_nonce = [], dp_opaque = [], dp_qop = [], dp_cnonce = [],
       dp_nc = [], dp_stale = False\<rparr> None [] (drop 14 (basic_field ''joe'' (replicate 60 CHR ''x'')) @ CRLF) False = Some ident
    \<and> hi_user ident = ''joe'' \<and> hi_pass ident = take (53 - length ''joe'') (replicate 60 CHR ''x'') \<and> hi_pass ident \<noteq> replicate 60 CHR ''x''"
  by (rule long_credentials_cut) (simp_all add: user_char_def uc_def nonul_def list_all_iff)

subsection \<open>Digest credentials\<close>

lemma digest_param_realm:
  assumes "\<not> strcaseeq (take 63 (takeWhile (\<lambda>c. c \<noteq> CHR ''='') (dropWhile isspace a))) ''realm''"
  shows "dp_realm (digest_param d a) = dp_realm d"
  using assms by (simp add: digest_param_def digest_set_def Let_def)

text \<open>
  \<^verbatim>\<open>scanDigestParams\<close> ends the buffer for the realm at its 64th byte instead of emptying it: when the credentials name no realm, the
  realm of the client is whatever the memory of the buffer held.
\<close>

theorem digest_realm_uninitialised:
  assumes "list_all (\<lambda>a. \<not> strcaseeq (take 63 (takeWhile (\<lambda>c. c \<noteq> CHR ''='') (dropWhile isspace a))) ''realm'')
      (list2vectX cp CHR '','' (STR_OVWR + STR_QUOTE) 16)"
  shows "dp_realm (scanDigestParams junk cp) = take 64 (dp_realm junk)"
proof -
  have "dp_realm (foldl digest_param d as) = dp_realm d"
    if "list_all (\<lambda>a. \<not> strcaseeq (take 63 (takeWhile (\<lambda>c. c \<noteq> CHR ''='') (dropWhile isspace a))) ''realm'') as" for d as
    using that by (induction as arbitrary: d) (simp_all add: digest_param_realm)
  then show ?thesis using assms by (simp add: scanDigestParams_def digest_start_def)
qed

theorem digest_realm_uninitialised_witness:
  "dp_realm (scanDigestParams \<lparr>dp_user = [], dp_resp = [], dp_realm = ''old'', dp_uri = [], dp_nonce = [], dp_opaque = [], dp_qop = [], dp_cnonce = [],
       dp_nc = [], dp_stale = False\<rparr> ''nc=1'') = ''old''"
proof -
  have "\<not> bit (2 :: nat) 2" "bit (32770 :: nat) 15" by (simp_all add: bit_nat_def)
  moreover have "scan_elem CHR '','' False True NUL 0 0 0 [] ''nc=1'' = (''nc=1'', [], 0, NUL, True)"
    by (simp add: scan_elem_plain quoting_def)
  moreover have "scan_list_loop sep ro care vola (Some f) base inq n st [] = (0, st)" for sep ro care vola f base inq n and st :: "string list"
    by (simp add: scan_list_loop.simps)
  ultimately have "list2vectX ''nc=1'' CHR '','' (STR_OVWR + STR_QUOTE) 16 = [''nc=1'']"
    by (simp add: list2vectX_def scan_ListLX_def scan_ListX_def STR_OVWR_def STR_QUOTE_def STR_VOLA_def Let_def)
      (subst scan_list_loop.simps, simp add: addelem_def Let_def cstr_def)
  moreover have "\<not> strcaseeq ''nc'' ''realm''" by code_simp
  ultimately show ?thesis
    using digest_realm_uninitialised [of "''nc=1''" "\<lparr>dp_user = [], dp_resp = [], dp_realm = ''old'', dp_uri = [], dp_nonce = [], dp_opaque = [],
       dp_qop = [], dp_cnonce = [], dp_nc = [], dp_stale = False\<rparr>"] by (simp add: isspace_def uc_def)
qed

subsection \<open>The request shown\<close>

lemma strchr_line: "LF \<notin> set l \<Longrightarrow> strchr (l @ LF # s) LF = Some (LF # s)"
  by (induction l) auto

declare fprintmsg_loop.simps [simp del]

lemma hide_auth_blank: "hide_auth (SP # m) line = line"
proof -
  have "tolower SP \<noteq> tolower CHR ''P''" "tolower SP \<noteq> tolower CHR ''A''" by code_simp+
  then show ?thesis by (simp add: hide_auth_def strncaseeq_def)
qed

lemma hide_auth_field: "hide_auth (''Authorization: Basic'' @ s) (''Authorization: Basic'') = ''Authorization: ******''"
proof -
  have "tolower CHR ''A'' \<noteq> tolower CHR ''P''" by code_simp
  then show ?thesis by (simp add: hide_auth_def strncaseeq_def)
qed

text \<open>
  A request that is shown to a user has its credentials replaced line by line; when the \<^verbatim>\<open>Authorization\<close> field is folded, which
  the gateway accepts, the line that holds the credentials is not recognised and is shown.
\<close>

theorem folded_credentials_shown:
  assumes "list_all (\<lambda>c. \<not> is_blank c) secret" and "secret \<noteq> []" and "length secret \<le> 1000"
  shows "fprintmsg_loop (''Authorization: Basic'' @ CRLF @ '' '' @ secret @ CRLF @ rest)
    = ''Authorization: ******'' @ CRLF @ secret @ CRLF @ fprintmsg_loop rest"
proof -
  have nb: "LF \<notin> set secret" "CR \<notin> set secret" using assms(1) by (auto simp: list_all_iff is_blank_def)
  have l: "line_upto (secret @ CRLF @ x) = secret" for x using nb by (induction secret) auto
  obtain c s where s: "secret = c # s" "c \<noteq> SP" "c \<noteq> TAB" using assms(1,2) by (cases secret) (auto simp: is_blank_def)
  have "fprintmsg_loop (SP # secret @ CRLF @ rest) = secret @ CRLF @ fprintmsg_loop rest"
    using l [of rest] s nb assms(3) strchr_line [of "SP # secret @ [CR]" rest]
    by (subst fprintmsg_loop.simps) (simp add: hide_auth_blank line_text_def)
  moreover have "fprintmsg_loop (''Authorization: Basic'' @ CRLF @ x) = ''Authorization: ******'' @ CRLF @ fprintmsg_loop x" for x
    using hide_auth_field [of "CRLF @ x"] by (subst fprintmsg_loop.simps) (simp add: line_text_def)
  ultimately show ?thesis by simp
qed

theorem folded_credentials_shown_witness:
  "fprintmsg_loop (''Authorization: Basic'' @ CRLF @ '' '' @ ''am9lOnNlY3JldA=='' @ CRLF @ CRLF)
    = ''Authorization: ******'' @ CRLF @ ''am9lOnNlY3JldA=='' @ CRLF @ fprintmsg_loop CRLF"
  by (rule folded_credentials_shown) (simp_all add: is_blank_def)

end
