(* ===== verification/DnsNode.thy ===== *)
theory DnsNode
  imports VStr
begin

section \<open>DnsNode: the tree of domain names\<close>

text \<open>
  \<^verbatim>\<open>resolvy/dnsnode.cpp\<close> keeps every domain name the resolver has seen as a node of a tree
  of labels and gives it a number; the resource records of a name are attributes of its
  node. A node is addressed by its number: \<^verbatim>\<open>Nodes[nid]\<close> is the only node with that
  \<^verbatim>\<open>n_nid\<close>, so a \<^verbatim>\<open>Node*\<close> is its index and the null pointer is \<open>None\<close>. The links
  \<^verbatim>\<open>n_parent\<close>, \<^verbatim>\<open>n_child\<close> and \<^verbatim>\<open>n_peer\<close> are kept as the code has them; the list of
  attributes, which nothing shares, is a list. The banks the nodes, labels and records are taken
  from are kept as counters, and a store outside a bank or outside the table sets \<open>d_bad\<close>,
  which is not in the code.
\<close>

subsection \<open>The table\<close>

record attr =
  a_flag :: u32
  a_date :: u32
  a_ttl :: u32
  a_leng :: nat
  a_data :: string

record node =
  n_flag :: u32
  n_label :: string
  n_phase :: int
  n_attr :: "attr list"
  n_parent :: "nat option"
  n_child :: "nat option"
  n_peer :: "nat option"

record dns =
  Nodes :: "node list"
  Nodes_cap :: nat
  NodesA :: nat
  NodesX :: nat
  Nodebanki :: "nat option"
  Stringi :: nat
  Recordi :: nat
  d_bad :: bool

definition NF_LEAF :: u32 where "NF_LEAF = 1"
definition MAXLEV :: nat where "MAXLEV = 36"
definition NBSIZE :: nat where "NBSIZE = 128"
definition SBSIZE :: nat where "SBSIZE = 512"
definition RBSIZE :: nat where "RBSIZE = 512"

lemmas dns_sizes = NF_LEAF_def MAXLEV_def NBSIZE_def SBSIZE_def RBSIZE_def

definition new_node_rec :: node where
  "new_node_rec = \<lparr>n_flag = 0, n_label = [], n_phase = 0, n_attr = [], n_parent = None,
     n_child = None, n_peer = None\<rparr>"

text \<open>Node 0 is \<^verbatim>\<open>NoNode\<close>, node 1 is \<^verbatim>\<open>TopNodeBuf\<close>.\<close>

definition init_dns :: dns where
  "init_dns = \<lparr>Nodes = [new_node_rec\<lparr>n_flag := NF_LEAF, n_label := ''?''\<rparr>, new_node_rec\<lparr>n_flag := NF_LEAF\<rparr>],
     Nodes_cap = 2, NodesA = 0, NodesX = 2, Nodebanki = None, Stringi = 0, Recordi = 0, d_bad = False\<rparr>"

abbreviation nd :: "dns \<Rightarrow> nat \<Rightarrow> node" where
  "nd d i \<equiv> Nodes d ! i"

definition upd_node :: "dns \<Rightarrow> nat \<Rightarrow> (node \<Rightarrow> node) \<Rightarrow> dns" where
  "upd_node d i f = d\<lparr>Nodes := (Nodes d)[i := f (nd d i)]\<rparr>"

subsection \<open>Memory banks\<close>

text \<open>The returned index is where the new object starts in its bank.\<close>

definition NewNode :: "dns \<Rightarrow> dns \<times> nat" where
  "NewNode d =
     (let i = (case Nodebanki d of None \<Rightarrow> 0 | Some k \<Rightarrow> if k = NBSIZE then 0 else k)
      in (d\<lparr>Nodebanki := Some (Suc i), d_bad := d_bad d \<or> NBSIZE \<le> i\<rparr>, i))"

text \<open>\<^verbatim>\<open>SBSIZE-Stringi < len\<close> is a comparison of ints.\<close>

definition NewString :: "dns \<Rightarrow> nat \<Rightarrow> dns \<times> nat" where
  "NewString d len =
     (let i = (if Stringi d = 0 \<or> int SBSIZE - int (Stringi d) < int len then 0 else Stringi d)
      in (d\<lparr>Stringi := i + len\<rparr>, i))"

definition NewLabel :: "dns \<Rightarrow> string \<Rightarrow> dns" where
  "NewLabel d label =
     (let len = length label + 1;
          (d1, i) = NewString d len
      in d1\<lparr>d_bad := d_bad d1 \<or> SBSIZE < i + len\<rparr>)"

text \<open>Sizes in ints; \<open>attr_size\<close> is \<^verbatim>\<open>sizeof(Attr)\<close>, whose data starts at byte 24.\<close>

definition attr_size :: nat where "attr_size = 32"

definition NewRecord :: "dns \<Rightarrow> nat \<Rightarrow> dns \<times> nat" where
  "NewRecord d siz =
     (let isiz = (siz + 4 - 1) div 4 + 1;
          i = (if Recordi d = 0 \<or> int RBSIZE - int (Recordi d) < int isiz then 0 else Recordi d)
      in (d\<lparr>Recordi := i + isiz\<rparr>, i))"

text \<open>\<^verbatim>\<open>++NID\<close>: the number of the new node is the length of the table.\<close>

definition newnode :: "dns \<Rightarrow> dns \<times> nat" where
  "newnode d =
     (let NID = length (Nodes d);
          d1 = (if NodesX d \<le> NID
                then let a = NodesA d + 1; x = a * MAXLEV; nsize = x * 8;
                         nsize' = (if nsize < 1024 then 1024 else nsize)
                     in d\<lparr>NodesA := a, NodesX := x, Nodes_cap := nsize' div 8\<rparr>
                else d);
          d2 = fst (NewNode d1)
      in (d2\<lparr>Nodes := Nodes d2 @ [new_node_rec], d_bad := d_bad d2 \<or> Nodes_cap d2 \<le> NID\<rparr>, NID))"

subsection \<open>Searching and entering a name\<close>

text \<open>
  The labels of a name: \<open>lc\<close> counts them, \<open>lp\<close> is the offset in \<^verbatim>\<open>labelb\<close>, whose 512 bytes
  are filled through a checked pointer. A label that runs out of it is cut, since the last
  byte is overwritten by its terminator.
\<close>

function nlabels :: "string \<Rightarrow> nat \<Rightarrow> nat \<Rightarrow> string list" where
  "nlabels np lc lp =
     (if np = [] \<or> 511 \<le> lp \<or> MAXLEV \<le> lc then []
      else let oct = takeWhile (\<lambda>c. c \<noteq> CHR ''.'') np
           in take (511 - lp) oct
              # nlabels (drop (Suc (length oct)) np) (Suc lc) (min 512 (lp + length oct + 1)))"
  by pat_completeness auto
termination by (relation "measure (\<lambda>(np, _). length np)") auto

declare nlabels.simps [simp del]

text \<open>\<^verbatim>\<open>for( Lp = Np->n_child; Lp; Lp = Lp->n_peer )\<close>; \<open>Some None\<close> is the null pointer.\<close>

partial_function (option) peer_search :: "node list \<Rightarrow> string \<Rightarrow> nat option \<Rightarrow> nat option option" where
  [code]: "peer_search ns label p =
     (case p of
        None \<Rightarrow> Some None
      | Some Lp \<Rightarrow>
          if strcasecmp (n_label (ns ! Lp)) label = 0 then Some (Some Lp)
          else peer_search ns label (n_peer (ns ! Lp)))"

definition link_child :: "dns \<Rightarrow> nat \<Rightarrow> string \<Rightarrow> dns \<times> nat" where
  "link_child d Np label =
     (let (d1, Lp) = newnode d;
          d2 = NewLabel d1 label;
          d3 = upd_node d2 Lp (\<lambda>n. n\<lparr>n_label := label, n_parent := Some Np\<rparr>);
          Tp = n_child (nd d3 Np);
          d4 = upd_node d3 Np (\<lambda>n. n\<lparr>n_child := Some Lp\<rparr>)
      in (upd_node d4 Lp (\<lambda>n. n\<lparr>n_peer := Tp\<rparr>), Lp))"

text \<open>The labels from the last to the first.\<close>

fun nwalk :: "dns \<Rightarrow> bool \<Rightarrow> nat \<Rightarrow> string list \<Rightarrow> (dns \<times> nat) option" where
  "nwalk d create Np [] = Some (d, Np)"
| "nwalk d create Np (label # ls) =
     (case peer_search (Nodes d) label (n_child (nd d Np)) of
        None \<Rightarrow> None
      | Some (Some Lp) \<Rightarrow> nwalk d create Lp ls
      | Some None \<Rightarrow>
          if \<not> create then Some (d, 0)
          else let (d', Lp) = link_child d Np label in nwalk d' create Lp ls)"

definition nsearch :: "dns \<Rightarrow> string \<Rightarrow> bool \<Rightarrow> (dns \<times> nat) option" where
  "nsearch d name create =
     (let labelv = nlabels name 0 0
      in case nwalk d create 1 (if labelv = [''''] then [] else rev labelv) of
           None \<Rightarrow> None
         | Some (d', Np) \<Rightarrow>
             Some (if create then upd_node d' Np (\<lambda>n. n\<lparr>n_flag := or (n_flag n) NF_LEAF\<rparr>) else d', Np))"

definition DNS_putbyname :: "dns \<Rightarrow> string \<Rightarrow> (dns \<times> nat) option" where
  "DNS_putbyname d name = nsearch d name True"

definition DNS_getbyname :: "dns \<Rightarrow> string \<Rightarrow> nat option" where
  "DNS_getbyname d name = map_option snd (nsearch d name False)"

definition DNS_parent :: "dns \<Rightarrow> nat \<Rightarrow> nat" where
  "DNS_parent d nid = (case n_parent (nd d nid) of Some Pp \<Rightarrow> Pp | None \<Rightarrow> 0)"

subsection \<open>The name of a node\<close>

text \<open>\<^verbatim>\<open>np += strlen(np)\<close>; without a terminator in the buffer the read leaves it.\<close>

definition skip_text :: "vstr \<Rightarrow> vstr" where
  "skip_text v =
     (let rest = drop (nat (vpos v)) (vmem v)
      in if vpos v < 0 \<or> NUL \<notin> set rest then v\<lparr>vbad := True\<rparr>
         else v\<lparr>vpos := vpos v + int (length (cstr rest))\<rparr>)"

partial_function (option) getnodename :: "node list \<Rightarrow> vstr \<Rightarrow> nat option \<Rightarrow> nat \<Rightarrow> (vstr \<times> nat) option" where
  [code]: "getnodename ns np Np lc =
     (case Np of
        None \<Rightarrow> Some (setVStrEnd np 0, lc)
      | Some i \<Rightarrow>
          let np1 = skip_text (Xstrcpy np (n_label (ns ! i)))
          in if n_parent (ns ! i) = Some 1 then Some (setVStrEnd np1 0, lc)
             else getnodename ns (setVStrPtrInc np1 (CHR ''.'')) (n_parent (ns ! i)) (Suc lc))"

definition DNS_nodename :: "dns \<Rightarrow> nat \<Rightarrow> vstr \<Rightarrow> (vstr \<times> nat) option" where
  "DNS_nodename d nid name = getnodename (Nodes d) name (Some nid) 0"

subsection \<open>Attributes\<close>

text \<open>\<open>now\<close> is \<^verbatim>\<open>time(0)\<close> cut to an int; \<open>leng\<close> bytes of \<open>data\<close> are compared and copied.\<close>

definition DNS_putattr :: "dns \<Rightarrow> u32 \<Rightarrow> nat \<Rightarrow> u32 \<Rightarrow> u32 \<Rightarrow> string \<Rightarrow> nat \<Rightarrow> dns \<times> int" where
  "DNS_putattr d now nid flag ttl data leng =
     (if list_ex (\<lambda>a. flag = a_flag a \<and> leng = a_leng a \<and> take leng (a_data a) = take leng data) (n_attr (nd d nid))
      then (d, 0)
      else let (d1, i) = NewRecord d (attr_size + leng);
               d2 = d1\<lparr>d_bad := d_bad d1 \<or> RBSIZE * 4 < i * 4 + 24 + leng \<or> RBSIZE * 4 < i * 4 + attr_size\<rparr>;
               a = \<lparr>a_flag = flag, a_date = now, a_ttl = ttl, a_leng = leng, a_data = take leng data\<rparr>
           in (upd_node d2 nid (\<lambda>n. n\<lparr>n_attr := a # n_attr n\<rparr>), 1))"

text \<open>The sums are sums of ints, compared as such.\<close>

definition stale :: "u32 \<Rightarrow> u32 \<Rightarrow> attr \<Rightarrow> bool" where
  "stale now ttl a \<longleftrightarrow> a_date a + a_ttl a \<le>s now \<or> a_date a + ttl \<le>s now"

definition matches_flag :: "u32 \<Rightarrow> attr \<Rightarrow> bool" where
  "matches_flag flag a \<longleftrightarrow> and flag (a_flag a) \<noteq> 0"

definition expireattr :: "u32 \<Rightarrow> u32 \<Rightarrow> u32 \<Rightarrow> attr list \<Rightarrow> attr list" where
  "expireattr now flag ttl as =
     (if ttl \<le>s 0 then as
      else if list_ex (\<lambda>a. matches_flag flag a \<and> stale now ttl a) as
      then map (\<lambda>a. if matches_flag flag a then a\<lparr>a_flag := 0\<rparr> else a) as
      else as)"

text \<open>\<open>ai\<close> counts what has been stored; the test of \<open>ac\<close> comes after the store.\<close>

fun collect_attrs :: "u32 \<Rightarrow> int \<Rightarrow> int \<Rightarrow> attr list \<Rightarrow> string list" where
  "collect_attrs flag ac ai [] = []"
| "collect_attrs flag ac ai (a # as) =
     (if matches_flag flag a
      then a_data a # (if ac \<le> ai + 1 then [] else collect_attrs flag ac (ai + 1) as)
      else collect_attrs flag ac ai as)"

definition DNS_getattr :: "dns \<Rightarrow> u32 \<Rightarrow> nat \<Rightarrow> u32 \<Rightarrow> u32 \<Rightarrow> int \<Rightarrow> dns \<times> string list" where
  "DNS_getattr d now nid flag ttl ac =
     (let as = expireattr now flag ttl (n_attr (nd d nid))
      in (upd_node d nid (\<lambda>n. n\<lparr>n_attr := as\<rparr>), collect_attrs flag ac 0 as))"

definition DNS_nodephase :: "dns \<Rightarrow> nat \<Rightarrow> int \<Rightarrow> dns \<times> int" where
  "DNS_nodephase d nid phase = (upd_node d nid (\<lambda>n. n\<lparr>n_phase := phase\<rparr>), n_phase (nd d nid))"

end
