(* ===== verification/DnsTree.thy ===== *)
theory DnsTree
  imports DnsNode "HOL-Library.Sublist"
begin

section \<open>DnsTree: the tree of names as a map\<close>

text \<open>
  The invariant of the table of \<open>DnsNode\<close>, that every operation keeps it, that searching and
  entering a name is looking up and extending a map from lists of labels, and that the name of a node leads back to it.
\<close>

subsection \<open>Linked lists of children\<close>

named_theorems dns_simps \<open>what the updates of the table leave unchanged\<close>

text \<open>\<open>linked ns p l\<close>: following \<^verbatim>\<open>n_peer\<close> from \<open>p\<close> visits the nodes \<open>l\<close>.\<close>

fun linked :: "node list \<Rightarrow> nat option \<Rightarrow> nat list \<Rightarrow> bool" where
  "linked ns p [] \<longleftrightarrow> p = None"
| "linked ns p (i # l) \<longleftrightarrow> p = Some i \<and> i < length ns \<and> linked ns (n_peer (ns ! i)) l"

lemma peer_search_linked:
  "linked ns p l \<Longrightarrow> peer_search ns label p = Some (find (\<lambda>i. strcasecmp (n_label (ns ! i)) label = 0) l)"
  by (induction l arbitrary: p) (subst peer_search.simps, simp)+

text \<open>The nodes below a node, the newest first, and the labels from a node up to the root.\<close>

definition children :: "node list \<Rightarrow> nat \<Rightarrow> nat list" where
  "children ns p = rev (filter (\<lambda>i. n_parent (ns ! i) = Some p) [2..<length ns])"

function path :: "node list \<Rightarrow> nat \<Rightarrow> string list" where
  "path ns i = (case n_parent (ns ! i) of None \<Rightarrow> [] | Some p \<Rightarrow> if p < i then n_label (ns ! i) # path ns p else [])"
  by pat_completeness auto
termination by (relation "measure snd") auto

declare path.simps [simp del]

definition lower :: "string list \<Rightarrow> string list" where
  "lower = map (map tolower)"

lemma lower_simps [simp]:
  "lower [] = []" "lower (l # ls) = map tolower l # lower ls" "lower (a @ b) = lower a @ lower b"
  "lower (rev a) = rev (lower a)" "length (lower a) = length a" "lower (lower a) = lower a"
  by (simp_all add: lower_def rev_map comp_def)

definition label_ok :: "string \<Rightarrow> bool" where
  "label_ok l \<longleftrightarrow> nonul l \<and> CHR ''.'' \<notin> set l"

text \<open>The text of a path, with dots between the labels.\<close>

fun dotted :: "string list \<Rightarrow> string" where
  "dotted [] = []"
| "dotted [l] = l"
| "dotted (l # ls) = l @ CHR ''.'' # dotted ls"

definition path_ok :: "string list \<Rightarrow> bool" where
  "path_ok ls \<longleftrightarrow> list_all label_ok ls \<and> length (dotted ls) \<le> 511 \<and> length ls \<le> MAXLEV"


definition tree_ok :: "node list \<Rightarrow> bool" where
  "tree_ok ns \<longleftrightarrow> 2 \<le> length ns \<and> n_parent (ns ! 0) = None \<and> n_parent (ns ! 1) = None
     \<and> (\<forall>i. 2 \<le> i \<and> i < length ns \<longrightarrow>
           (\<exists>p. n_parent (ns ! i) = Some p \<and> 1 \<le> p \<and> p < i) \<and> path_ok (path ns i))
     \<and> (\<forall>p < length ns. linked ns (n_child (ns ! p)) (children ns p))
     \<and> (\<forall>i j. 2 \<le> i \<and> i < length ns \<and> 2 \<le> j \<and> j < length ns \<and> n_parent (ns ! i) = n_parent (ns ! j)
           \<and> map tolower (n_label (ns ! i)) = map tolower (n_label (ns ! j)) \<longrightarrow> i = j)"

definition banks_ok :: "dns \<Rightarrow> bool" where
  "banks_ok d \<longleftrightarrow> \<not> d_bad d \<and> length (Nodes d) \<le> NodesX d \<and> NodesX d \<le> Nodes_cap d
     \<and> NodesX d = (if NodesA d = 0 then 2 else NodesA d * MAXLEV)
     \<and> (case Nodebanki d of None \<Rightarrow> True | Some k \<Rightarrow> k \<le> NBSIZE)"

definition dns_ok :: "dns \<Rightarrow> bool" where
  "dns_ok d \<longleftrightarrow> tree_ok (Nodes d) \<and> banks_ok d"

lemma tree_okD:
  assumes "tree_ok ns"
  shows "2 \<le> length ns" "n_parent (ns ! 0) = None" "n_parent (ns ! 1) = None"
    "2 \<le> i \<Longrightarrow> i < length ns \<Longrightarrow> \<exists>p. n_parent (ns ! i) = Some p \<and> 1 \<le> p \<and> p < i"
    "2 \<le> i \<Longrightarrow> i < length ns \<Longrightarrow> path_ok (path ns i)"
    "p < length ns \<Longrightarrow> linked ns (n_child (ns ! p)) (children ns p)"
    "2 \<le> i \<Longrightarrow> i < length ns \<Longrightarrow> 2 \<le> j \<Longrightarrow> j < length ns \<Longrightarrow> n_parent (ns ! i) = n_parent (ns ! j)
      \<Longrightarrow> map tolower (n_label (ns ! i)) = map tolower (n_label (ns ! j)) \<Longrightarrow> i = j"
  using assms unfolding tree_ok_def by blast+

lemma path_simps:
  assumes "tree_ok ns"
  shows "path ns 0 = []" "path ns (Suc 0) = []"
    "2 \<le> i \<Longrightarrow> i < length ns \<Longrightarrow> path ns i = n_label (ns ! i) # path ns (the (n_parent (ns ! i)))"
proof -
  show "path ns 0 = []" "path ns (Suc 0) = []"
    using tree_okD(2,3) [OF assms] by (simp_all add: path.simps [of ns 0] path.simps [of ns "Suc 0"])
  assume i: "2 \<le> i" "i < length ns"
  then obtain p where "n_parent (ns ! i) = Some p" "p < i" using tree_okD(4) [OF assms i] by blast
  then show "path ns i = n_label (ns ! i) # path ns (the (n_parent (ns ! i)))"
    by (simp add: path.simps [of ns i])
qed

lemma node_cases:
  assumes "tree_ok ns" "i < length ns" "1 \<le> i"
  obtains "i = 1" "path ns i = []"
  | p where "2 \<le> i" "n_parent (ns ! i) = Some p" "1 \<le> p" "p < i" "path ns i = n_label (ns ! i) # path ns p"
proof (cases "i = 1")
  case True
  then show ?thesis using that(1) path_simps(2) [OF assms(1)] by simp
next
  case False
  then have i: "2 \<le> i" using assms by simp
  obtain p where p: "n_parent (ns ! i) = Some p" "1 \<le> p" "p < i" using tree_okD(4) [OF assms(1) i assms(2)] by blast
  then show ?thesis using that(2) [OF i p] path_simps(3) [OF assms(1) i assms(2)] by simp
qed

text \<open>Different nodes have different paths, also up to case; the suffixes of a path are paths.\<close>

lemma path_inject:
  assumes "tree_ok ns"
  shows "1 \<le> i \<Longrightarrow> i < length ns \<Longrightarrow> 1 \<le> j \<Longrightarrow> j < length ns \<Longrightarrow> lower (path ns i) = lower (path ns j) \<Longrightarrow> i = j"
proof (induction i arbitrary: j rule: less_induct)
  case (less i)
  show ?case
    using node_cases [OF assms less.prems(2,1)]
  proof cases
    case 1
    then have e: "lower (path ns j) = []" using less.prems(5) by simp
    show ?thesis using node_cases [OF assms less.prems(4,3)] by cases (use 1 e in simp_all)
  next
    case (2 p)
    show ?thesis using node_cases [OF assms less.prems(4,3)]
    proof cases
      case 1
      then show ?thesis using 2 less.prems(5) by simp
    next
      case q: (2 q)
      have "p = q" using 2 q less.prems by (intro less.IH) auto
      then show ?thesis using tree_okD(7) [OF assms, of i j] 2 q less.prems by simp
    qed
  qed
qed

lemma path_suffix:
  assumes "tree_ok ns"
  shows "1 \<le> i \<Longrightarrow> i < length ns \<Longrightarrow> lower (path ns i) = a @ b \<Longrightarrow>
    \<exists>j. 1 \<le> j \<and> j < length ns \<and> lower (path ns j) = b"
proof (induction a arbitrary: i)
  case (Cons x a)
  show ?case
    using node_cases [OF assms Cons.prems(2,1)]
  proof cases
    case (2 p)
    then show ?thesis using Cons.IH [of p] Cons.prems by auto
  qed (use Cons.prems in auto)
qed auto

lemma children_iff:
  assumes "tree_ok ns"
  shows "i \<in> set (children ns p) \<longleftrightarrow> 2 \<le> i \<and> i < length ns \<and> n_parent (ns ! i) = Some p"
  by (auto simp: children_def)

subsection \<open>Tables that grow\<close>

text \<open>\<open>tree_grows ns ns'\<close>: the nodes of \<open>ns\<close> keep label, parent, attributes and phase.\<close>

definition tree_grows :: "node list \<Rightarrow> node list \<Rightarrow> bool" where
  "tree_grows ns ns' \<longleftrightarrow> length ns \<le> length ns' \<and>
     (\<forall>i < length ns. n_parent (ns' ! i) = n_parent (ns ! i) \<and> n_label (ns' ! i) = n_label (ns ! i)
        \<and> n_attr (ns' ! i) = n_attr (ns ! i) \<and> n_phase (ns' ! i) = n_phase (ns ! i))"

lemma tree_grows_refl [simp]: "tree_grows ns ns"
  by (simp add: tree_grows_def)

lemma tree_grows_trans: "tree_grows a b \<Longrightarrow> tree_grows b c \<Longrightarrow> tree_grows a c"
  by (auto simp: tree_grows_def)

lemma tree_grows_length: "tree_grows a b \<Longrightarrow> length a \<le> length b"
  by (simp add: tree_grows_def)

lemma path_cong:
  assumes "length ns \<le> length ns'"
    and "\<And>i. i < length ns \<Longrightarrow> n_parent (ns' ! i) = n_parent (ns ! i) \<and> n_label (ns' ! i) = n_label (ns ! i)"
  shows "i < length ns \<Longrightarrow> path ns' i = path ns i"
proof (induction i rule: less_induct)
  case (less i)
  then show ?case
    using assms(2) [OF less.prems] by (simp add: path.simps [of ns' i] path.simps [of ns i] split: option.split)
qed

lemma path_grows: "tree_grows ns ns' \<Longrightarrow> i < length ns \<Longrightarrow> path ns' i = path ns i"
  by (rule path_cong) (simp_all add: tree_grows_def)

lemma linked_cong:
  "linked ns p l \<Longrightarrow> length ns \<le> length ns' \<Longrightarrow> (\<And>i. i \<in> set l \<Longrightarrow> n_peer (ns' ! i) = n_peer (ns ! i))
   \<Longrightarrow> linked ns' p l"
  by (induction l arbitrary: p) auto

text \<open>A change of one node that keeps its links and its label changes nothing of the tree.\<close>

definition same_place :: "node \<Rightarrow> node \<Rightarrow> bool" where
  "same_place a b \<longleftrightarrow> n_parent a = n_parent b \<and> n_label a = n_label b \<and> n_child a = n_child b \<and> n_peer a = n_peer b"

lemma tree_ok_same_place:
  assumes "length ns' = length ns" and "\<And>i. i < length ns \<Longrightarrow> same_place (ns' ! i) (ns ! i)"
  shows "tree_ok ns \<Longrightarrow> tree_ok ns'"
proof -
  assume ok: "tree_ok ns"
  have p: "path ns' i = path ns i" if "i < length ns" for i
    using path_cong [of ns ns' i] assms that by (simp add: same_place_def)
  have c: "children ns' i = children ns i" for i
    unfolding children_def assms(1) using assms(2)
    by (intro arg_cong [where f = rev] filter_cong) (auto simp: same_place_def)
  have l: "linked ns' (n_child (ns' ! i)) (children ns' i)" if "i < length ns" for i
  proof -
    have "linked ns' (n_child (ns ! i)) (children ns i)"
      by (rule linked_cong [OF tree_okD(6) [OF ok that]])
        (use assms in \<open>simp_all add: children_iff [OF ok] same_place_def\<close>)
    then show ?thesis using assms(2) [OF that] c by (simp add: same_place_def)
  qed
  have "2 \<le> length ns" using tree_okD(1) [OF ok] .
  then have "same_place (ns' ! 0) (ns ! 0)" "same_place (ns' ! 1) (ns ! 1)" by (auto intro: assms(2))
  then show ?thesis
    using ok assms p l unfolding tree_ok_def same_place_def by auto
qed

subsection \<open>A new child\<close>

lemma newnode_nodes: "newnode d = (d', i) \<Longrightarrow> Nodes d' = Nodes d @ [new_node_rec] \<and> i = length (Nodes d)"
  by (auto simp: newnode_def NewNode_def Let_def)

lemma NewLabel_nodes [dns_simps]: "Nodes (NewLabel d l) = Nodes d"
  by (simp add: NewLabel_def NewString_def Let_def)

definition child_added :: "node list \<Rightarrow> nat \<Rightarrow> string \<Rightarrow> node list" where
  "child_added ns p label =
     ns[p := (ns ! p)\<lparr>n_child := Some (length ns)\<rparr>]
       @ [new_node_rec\<lparr>n_label := label, n_parent := Some p, n_peer := n_child (ns ! p)\<rparr>]"

lemma link_child_nodes:
  assumes "p < length (Nodes d)" and "link_child d p label = (d', i)"
  shows "Nodes d' = child_added (Nodes d) p label" "i = length (Nodes d)"
proof -
  obtain d1 where d1: "newnode d = (d1, length (Nodes d))" "Nodes d1 = Nodes d @ [new_node_rec]"
    by (cases "newnode d") (use newnode_nodes [of d] in blast)
  show "Nodes d' = child_added (Nodes d) p label" "i = length (Nodes d)"
    using assms d1
    by (auto simp: link_child_def upd_node_def dns_simps child_added_def nth_append list_update_append Let_def)
qed

lemma child_added_nth:
  assumes "p < length ns"
  shows "length (child_added ns p label) = Suc (length ns)"
    "i < length ns \<Longrightarrow> child_added ns p label ! i = (if i = p then (ns ! p)\<lparr>n_child := Some (length ns)\<rparr> else ns ! i)"
    "child_added ns p label ! length ns = new_node_rec\<lparr>n_label := label, n_parent := Some p, n_peer := n_child (ns ! p)\<rparr>"
  using assms by (auto simp: child_added_def nth_append)

lemma child_added_grows: "p < length ns \<Longrightarrow> tree_grows ns (child_added ns p label)"
  by (auto simp: tree_grows_def child_added_nth)

lemma path_child_added:
  assumes "p < length ns"
  shows "path (child_added ns p label) (length ns) = label # path ns p"
  using path_grows [OF child_added_grows [OF assms] assms] assms
  by (simp add: path.simps [of _ "length ns"] child_added_nth)

lemma children_child_added:
  assumes "tree_ok ns" "p < length ns"
  shows "children (child_added ns p label) q = (if q = p then [length ns] else []) @ children ns q"
proof -
  have "filter (\<lambda>i. n_parent (child_added ns p label ! i) = Some q) [2..<length ns]
      = filter (\<lambda>i. n_parent (ns ! i) = Some q) [2..<length ns]"
    using assms by (intro filter_cong) (auto simp: child_added_nth)
  then show ?thesis using assms tree_okD(1) [OF assms(1)] by (auto simp: children_def child_added_nth)
qed

lemma tree_ok_child_added:
  assumes ok: "tree_ok ns" and p: "1 \<le> p" "p < length ns" and path: "path_ok (label # path ns p)"
    and new: "\<And>i. i \<in> set (children ns p) \<Longrightarrow> map tolower (n_label (ns ! i)) \<noteq> map tolower label"
  shows "tree_ok (child_added ns p label)"
proof -
  let ?ns = "child_added ns p label"
  note nth = child_added_nth [OF p(2)]
  have len: "length ?ns = Suc (length ns)" "2 \<le> length ns" using nth tree_okD(1) [OF ok] by auto
  have par: "n_parent (?ns ! i) = n_parent (ns ! i)" "n_label (?ns ! i) = n_label (ns ! i)" if "i < length ns" for i
    using nth that by simp_all
  have "linked ?ns (n_child (?ns ! q)) (children ?ns q)" if "q < length ?ns" for q
  proof (cases "q = length ns")
    case True
    have "children ns (length ns) = []"
    proof (rule ccontr)
      assume "children ns (length ns) \<noteq> []"
      then obtain i where "i \<in> set (children ns (length ns))" by (meson hd_in_set)
      then show False using tree_okD(4) [OF ok, of i] by (auto simp: children_iff [OF ok])
    qed
    then show ?thesis using True nth p by (simp add: children_child_added [OF ok p(2)] new_node_rec_def)
  next
    case False
    then have q: "q < length ns" using that len by simp
    have "linked ?ns (n_child (ns ! q)) (children ns q)"
      by (rule linked_cong [OF tree_okD(6) [OF ok q]]) (use nth in \<open>simp_all add: children_iff [OF ok]\<close>)
    then show ?thesis using q nth by (auto simp: children_child_added [OF ok p(2)] len)
  qed
  moreover have "\<exists>q. n_parent (?ns ! i) = Some q \<and> 1 \<le> q \<and> q < i" "path_ok (path ?ns i)"
    if "2 \<le> i" "i < length ?ns" for i
  proof -
    have "i < length ns \<or> i = length ns" using that len by auto
    then show "\<exists>q. n_parent (?ns ! i) = Some q \<and> 1 \<le> q \<and> q < i" "path_ok (path ?ns i)"
      using tree_okD(4,5) [OF ok that(1)] par nth p path path_child_added [OF p(2), of label]
        path_grows [OF child_added_grows [OF p(2)]] by auto
  qed
  moreover have "i = j" if ij: "2 \<le> i" "i < length ?ns" "2 \<le> j" "j < length ?ns" "n_parent (?ns ! i) = n_parent (?ns ! j)"
      "map tolower (n_label (?ns ! i)) = map tolower (n_label (?ns ! j))" for i j
  proof -
    have new': "n_parent (?ns ! length ns) = Some p" "n_label (?ns ! length ns) = label" using nth by auto
    have one: "k = length ns" if "k < length ?ns" "2 \<le> k" "n_parent (?ns ! k) = Some p"
        "map tolower (n_label (?ns ! k)) = map tolower label" for k
    proof (rule ccontr)
      assume "k \<noteq> length ns"
      then have "k < length ns" using that len by simp
      then show False using that new [of k] par [of k] by (simp add: children_iff [OF ok])
    qed
    show ?thesis
    proof (cases "i = length ns \<or> j = length ns")
      case True
      have "i = length ns \<Longrightarrow> j = length ns" by (rule one) (use ij new' in simp_all)
      moreover have "j = length ns \<Longrightarrow> i = length ns" by (rule one) (use ij new' in simp_all)
      ultimately show ?thesis using True by blast
    next
      case False
      then have "i < length ns" "j < length ns" using ij len by auto
      then show ?thesis using ij par tree_okD(7) [OF ok, of i j] by simp
    qed
  qed
  moreover have "n_parent (?ns ! 0) = None" "n_parent (?ns ! 1) = None"
    using par(1) [of 0] par(1) [of 1] tree_okD(2,3) [OF ok] len by force+
  ultimately show ?thesis unfolding tree_ok_def using len by auto
qed

subsection \<open>The banks\<close>

lemma tolower_dot: "tolower c = CHR ''.'' \<longleftrightarrow> c = CHR ''.''"
  by (auto simp: ctype_defs uc_def simp flip: uc_inject)

lemma label_ok_tolower [simp]: "label_ok (map tolower l) = label_ok l"
proof -
  have "CHR ''.'' \<in> set (map tolower l) \<longleftrightarrow> CHR ''.'' \<in> set l"
    by (induction l) (simp_all add: eq_commute [of "CHR ''.''"] tolower_dot)
  then show ?thesis unfolding label_ok_def by simp
qed

lemma length_dotted_lower [simp]: "length (dotted (lower ls)) = length (dotted ls)"
  by (induction ls rule: dotted.induct) simp_all

lemma path_ok_lower [simp]: "path_ok (lower ls) = path_ok ls"
  by (simp add: path_ok_def) (simp add: lower_def list_all_iff)

lemma length_dotted_Cons: "length l \<le> length (dotted (l # ls)) \<and> length (dotted ls) \<le> length (dotted (l # ls))"
  by (cases ls) simp_all

lemma path_ok_Cons: "path_ok (l # ls) \<Longrightarrow> label_ok l \<and> length l \<le> 511 \<and> path_ok ls"
  using length_dotted_Cons [of l ls] by (auto simp: path_ok_def)

lemma path_ok_suffix: "path_ok (a @ b) \<Longrightarrow> path_ok b"
  by (induction a) (auto dest: path_ok_Cons)

lemma banks_link_child:
  assumes "banks_ok d" "2 \<le> length (Nodes d)" "length label \<le> 511" "link_child d p label = (d', i)"
  shows "banks_ok d'"
proof -
  obtain d1 j where n: "newnode d = (d1, j)" by (cases "newnode d")
  have b1: "banks_ok d1" using assms(1,2) n
    by (auto simp: banks_ok_def newnode_def NewNode_def Let_def dns_sizes split: option.splits if_splits)
  have b2: "banks_ok (NewLabel d1 label)"
    using b1 assms(3) by (auto simp: banks_ok_def NewLabel_def NewString_def Let_def dns_sizes)
  have upd: "banks_ok (upd_node e k f) = banks_ok e" for e k f
    by (simp add: banks_ok_def upd_node_def)
  show ?thesis using b2 assms(4) n by (auto simp: link_child_def upd Let_def)
qed

subsection \<open>Searching is looking up, entering is extending\<close>

text \<open>The map the tree represents: from lists of labels in lower case to node numbers.\<close>

definition ids :: "node list \<Rightarrow> string list \<Rightarrow> nat option" where
  "ids ns k = find (\<lambda>i. lower (path ns i) = k) [1..<length ns]"

lemma ids_iff:
  assumes "tree_ok ns"
  shows "ids ns k = Some i \<longleftrightarrow> 1 \<le> i \<and> i < length ns \<and> lower (path ns i) = k"
proof
  assume "ids ns k = Some i"
  then show "1 \<le> i \<and> i < length ns \<and> lower (path ns i) = k"
    by (auto simp: ids_def find_Some_iff)
next
  assume i: "1 \<le> i \<and> i < length ns \<and> lower (path ns i) = k"
  then have "ids ns k \<noteq> None" by (auto simp: ids_def find_None_iff)
  then obtain j where j: "ids ns k = Some j" by blast
  then have "1 \<le> j \<and> j < length ns \<and> lower (path ns j) = k" by (auto simp: ids_def find_Some_iff)
  then show "ids ns k = Some i" using path_inject [OF assms, of i j] i j by simp
qed

lemma ids_None:
  assumes "tree_ok ns"
  shows "ids ns k = None \<longleftrightarrow> (\<forall>i. 1 \<le> i \<and> i < length ns \<longrightarrow> lower (path ns i) \<noteq> k)"
  using ids_iff [OF assms, of k] by (cases "ids ns k") auto

lemma ids_root: "tree_ok ns \<Longrightarrow> ids ns [] = Some 1"
  using tree_okD(1) [of ns] path_simps(2) [of ns] by (simp add: ids_iff)

lemma child_search:
  assumes ok: "tree_ok ns" and p: "p < length ns" and l: "nonul label"
  obtains "peer_search ns label (n_child (ns ! p)) = Some None"
      "\<And>i. i \<in> set (children ns p) \<Longrightarrow> map tolower (n_label (ns ! i)) \<noteq> map tolower label"
  | i where "peer_search ns label (n_child (ns ! p)) = Some (Some i)" "i \<in> set (children ns p)"
      "map tolower (n_label (ns ! i)) = map tolower label"
proof -
  have eq: "strcasecmp (n_label (ns ! i)) label = 0 \<longleftrightarrow> map tolower (n_label (ns ! i)) = map tolower label"
    if "i \<in> set (children ns p)" for i
  proof -
    have i: "2 \<le> i" "i < length ns" using that by (auto simp: children_iff [OF ok])
    then have "label_ok (n_label (ns ! i))"
      using tree_okD(5) [OF ok i] path_simps(3) [OF ok i] path_ok_Cons by force
    then show ?thesis using l by (simp add: strcasecmp_0_iff label_ok_def)
  qed
  note found = peer_search_linked [OF tree_okD(6) [OF ok p], of label]
  show ?thesis
  proof (cases "find (\<lambda>i. strcasecmp (n_label (ns ! i)) label = 0) (children ns p)")
    case None
    then show ?thesis using that(1) found eq by (auto simp: find_None_iff)
  next
    case (Some i)
    then have "i \<in> set (children ns p)" "strcasecmp (n_label (ns ! i)) label = 0"
      by (auto simp: find_Some_iff)
    then show ?thesis using that(2) [of i] found Some eq by simp
  qed
qed

lemma child_path:
  assumes "tree_ok ns" "i \<in> set (children ns p)"
  shows "path ns i = n_label (ns ! i) # path ns p" "2 \<le> i" "i < length ns"
  using assms path_simps(3) [OF assms(1), of i] by (auto simp: children_iff)

lemma no_child_no_id:
  assumes ok: "tree_ok ns" and p: "1 \<le> p" "p < length ns"
    and new: "\<And>i. i \<in> set (children ns p) \<Longrightarrow> map tolower (n_label (ns ! i)) \<noteq> l"
  shows "ids ns (a @ l # lower (path ns p)) = None"
proof (rule ccontr)
  assume "ids ns (a @ l # lower (path ns p)) \<noteq> None"
  then obtain i where "ids ns (a @ l # lower (path ns p)) = Some i" by blast
  then have "1 \<le> i" "i < length ns" "lower (path ns i) = a @ l # lower (path ns p)"
    by (simp_all add: ids_iff [OF ok])
  then obtain j where j: "1 \<le> j" "j < length ns" "lower (path ns j) = l # lower (path ns p)"
    using path_suffix [OF ok] by blast
  show False
    using node_cases [OF ok j(2,1)]
  proof cases
    case (2 q)
    then have "q = p" using j p by (intro path_inject [OF ok]) auto
    then show False using 2 j new [of j] by (simp add: children_iff [OF ok])
  qed (use j in simp)
qed

lemma nwalk_get:
  assumes "tree_ok (Nodes d)"
  shows "1 \<le> p \<Longrightarrow> p < length (Nodes d) \<Longrightarrow> list_all label_ok ls \<Longrightarrow>
    nwalk d False p ls = Some (d, case ids (Nodes d) (rev (lower ls) @ lower (path (Nodes d) p)) of None \<Rightarrow> 0 | Some i \<Rightarrow> i)"
proof (induction ls arbitrary: p)
  case Nil
  then have "ids (Nodes d) (lower (path (Nodes d) p)) = Some p" by (simp add: ids_iff [OF assms])
  then show ?case by simp
next
  case (Cons l ls)
  have nn: "nonul l" using Cons.prems by (simp add: label_ok_def)
  show ?case
    using child_search [OF assms Cons.prems(2) nn]
  proof cases
    case 1
    then show ?thesis using no_child_no_id [OF assms Cons.prems(1,2)] by simp
  next
    case (2 i)
    then show ?thesis using Cons.IH [of i] Cons.prems child_path [OF assms 2(2)] by simp
  qed
qed

lemma dom_ids_child_added:
  assumes ok: "tree_ok ns" and ok': "tree_ok (child_added ns p label)" and p: "1 \<le> p" "p < length ns"
  shows "dom (ids (child_added ns p label)) = insert (map tolower label # lower (path ns p)) (dom (ids ns))"
proof -
  let ?ns = "child_added ns p label"
  have old: "path ?ns i = path ns i" if "i < length ns" for i
    using path_grows [OF child_added_grows [OF p(2)] that] .
  have mem: "k \<in> dom (ids m) \<longleftrightarrow> (\<exists>i. 1 \<le> i \<and> i < length m \<and> lower (path m i) = k)" if "tree_ok m" for m k
    using ids_iff [OF that, of k] by (simp add: dom_def)
  have "(\<exists>i. 1 \<le> i \<and> i < Suc (length ns) \<and> lower (path ?ns i) = k)
      \<longleftrightarrow> k = map tolower label # lower (path ns p) \<or> (\<exists>i. 1 \<le> i \<and> i < length ns \<and> lower (path ns i) = k)" (is "?l \<longleftrightarrow> ?r") for k
  proof
    assume ?l
    then obtain i where i: "1 \<le> i" "i < Suc (length ns)" "lower (path ?ns i) = k" by blast
    show ?r
    proof (cases "i = length ns")
      case True
      then show ?thesis using i path_child_added [OF p(2), of label] by simp
    next
      case False
      then show ?thesis using i old [of i] by (intro disjI2 exI [of _ i]) simp
    qed
  next
    assume ?r
    then show ?l
    proof
      assume "k = map tolower label # lower (path ns p)"
      then show ?l using p path_child_added [OF p(2), of label] by (intro exI [of _ "length ns"]) simp
    next
      assume "\<exists>i. 1 \<le> i \<and> i < length ns \<and> lower (path ns i) = k"
      then obtain i where "1 \<le> i" "i < length ns" "lower (path ns i) = k" by blast
      then show ?l using old [of i] by (intro exI [of _ i]) simp
    qed
  qed
  then show ?thesis using mem [OF ok] mem [OF ok'] child_added_nth(1) [OF p(2), of label] by (intro set_eqI) simp
qed

lemma link_child_ok:
  assumes ok: "dns_ok d" and p: "1 \<le> p" "p < length (Nodes d)" and path: "path_ok (label # path (Nodes d) p)"
    and new: "\<And>i. i \<in> set (children (Nodes d) p) \<Longrightarrow> map tolower (n_label (nd d i)) \<noteq> map tolower label"
    and lk: "link_child d p label = (d', i)"
  shows "dns_ok d'" "tree_grows (Nodes d) (Nodes d')" "1 \<le> i" "i < length (Nodes d')"
    "path (Nodes d') i = label # path (Nodes d) p"
    "dom (ids (Nodes d')) = insert (map tolower label # lower (path (Nodes d) p)) (dom (ids (Nodes d)))"
proof -
  have t: "tree_ok (Nodes d)" and b: "banks_ok d" using ok by (simp_all add: dns_ok_def)
  note n = link_child_nodes [OF p(2) lk]
  have t': "tree_ok (Nodes d')" unfolding n using tree_ok_child_added [OF t p path new] .
  show "dns_ok d'"
    using t' banks_link_child [OF b tree_okD(1) [OF t] _ lk] path_ok_Cons [OF path] by (simp add: dns_ok_def)
  show "tree_grows (Nodes d) (Nodes d')" unfolding n using child_added_grows [OF p(2)] .
  show "1 \<le> i" "i < length (Nodes d')" using n p child_added_nth(1) [OF p(2)] by auto
  show "path (Nodes d') i = label # path (Nodes d) p" unfolding n using path_child_added [OF p(2)] .
  show "dom (ids (Nodes d')) = insert (map tolower label # lower (path (Nodes d) p)) (dom (ids (Nodes d)))"
    using dom_ids_child_added [OF t _ p] t' unfolding n by simp
qed

text \<open>The paths between \<open>q\<close> and \<open>a @ q\<close>.\<close>

definition between :: "string list \<Rightarrow> string list \<Rightarrow> string list set" where
  "between a q = {b @ q | b. suffix b a}"

lemma between_snoc: "between (a @ [x]) q = insert q (between a (x # q))"
  by (auto simp: between_def suffix_snoc)

lemma between_self: "q \<in> between a q"
  unfolding between_def by force

lemma set_grown: "D' = insert k D \<union> B \<Longrightarrow> k \<in> B \<Longrightarrow> q \<in> D \<Longrightarrow> D' = D \<union> insert q B"
  by blast

lemma nwalk_put:
  "dns_ok d \<Longrightarrow> 1 \<le> p \<Longrightarrow> p < length (Nodes d) \<Longrightarrow> path_ok (rev (lower ls) @ lower (path (Nodes d) p)) \<Longrightarrow>
   \<exists>d' i. nwalk d True p ls = Some (d', i) \<and> dns_ok d' \<and> tree_grows (Nodes d) (Nodes d') \<and> 1 \<le> i \<and> i < length (Nodes d')
     \<and> lower (path (Nodes d') i) = rev (lower ls) @ lower (path (Nodes d) p)
     \<and> dom (ids (Nodes d')) = dom (ids (Nodes d)) \<union> between (rev (lower ls)) (lower (path (Nodes d) p))"
proof (induction ls arbitrary: d p)
  case Nil
  then have "ids (Nodes d) (lower (path (Nodes d) p)) = Some p" by (simp add: ids_iff dns_ok_def)
  then have "between [] (lower (path (Nodes d) p)) \<subseteq> dom (ids (Nodes d))" by (auto simp: between_def)
  then show ?case using Nil by auto
next
  case (Cons l ls)
  have t: "tree_ok (Nodes d)" using Cons.prems(1) by (simp add: dns_ok_def)
  have po: "path_ok (lower (l # path (Nodes d) p))"
    using path_ok_suffix [of "rev (lower ls)"] Cons.prems(4) by simp
  then have l: "path_ok (l # path (Nodes d) p)" by (simp only: path_ok_lower)
  then have nn: "nonul l" using path_ok_Cons by (auto simp: label_ok_def)
  have here: "lower (path (Nodes d) p) \<in> dom (ids (Nodes d))"
    using ids_iff [OF t, of "lower (path (Nodes d) p)" p] Cons.prems by auto
  show ?case
    using child_search [OF t Cons.prems(3) nn]
  proof cases
    case 1
    obtain d1 i where lk: "link_child d p l = (d1, i)" by (cases "link_child d p l")
    note c = link_child_ok [OF Cons.prems(1,2,3) l 1(2) lk]
    obtain d' j where j: "nwalk d1 True i ls = Some (d', j)" "dns_ok d'" "tree_grows (Nodes d1) (Nodes d')" "1 \<le> j"
        "j < length (Nodes d')" "lower (path (Nodes d') j) = rev (lower ls) @ lower (path (Nodes d1) i)"
        "dom (ids (Nodes d')) = dom (ids (Nodes d1)) \<union> between (rev (lower ls)) (lower (path (Nodes d1) i))"
      using Cons.IH [OF c(1,3,4)] Cons.prems(4) c(5) by auto
    have "nwalk d True p (l # ls) = Some (d', j)" using 1(1) lk j(1) by simp
    moreover have "tree_grows (Nodes d) (Nodes d')" using c(2) j(3) by (rule tree_grows_trans)
    moreover have "dom (ids (Nodes d')) = dom (ids (Nodes d)) \<union> between (rev (lower (l # ls))) (lower (path (Nodes d) p))"
    proof -
      have "dom (ids (Nodes d')) = insert (map tolower l # lower (path (Nodes d) p)) (dom (ids (Nodes d)))
          \<union> between (rev (lower ls)) (map tolower l # lower (path (Nodes d) p))"
        using j(7) c(5,6) by (simp only: lower_simps)
      from set_grown [OF this between_self here] show ?thesis
        by (simp only: lower_simps rev.simps between_snoc)
    qed
    ultimately show ?thesis using j(2,4,5,6) c(5) by auto
  next
    case (2 i)
    note c = child_path [OF t 2(2)]
    obtain d' j where "nwalk d True i ls = Some (d', j)" "dns_ok d'" "tree_grows (Nodes d) (Nodes d')" "1 \<le> j"
        "j < length (Nodes d')" "lower (path (Nodes d') j) = rev (lower ls) @ lower (path (Nodes d) i)"
        "dom (ids (Nodes d')) = dom (ids (Nodes d)) \<union> between (rev (lower ls)) (lower (path (Nodes d) i))"
      using Cons.IH [OF Cons.prems(1), of i] Cons.prems(4) c 2(3) by auto
    then show ?thesis using 2 c here by (auto simp: between_snoc simp del: domIff)
  qed
qed

end
