(* ===== verification/DnsNames.thy ===== *)
theory DnsNames
  imports DnsTree
begin

section \<open>DnsNames: entering, finding and naming domain names\<close>

text \<open>
  What the clients of the table of names rely on: searching is looking up a map, entering extends it, numbers
  identify names up to case, and the name of a node leads back to the node. The interface is the locale \<open>name_ids\<close>.
\<close>

subsection \<open>The labels of a name\<close>

lemma nlabels_Nil [simp]: "nlabels [] lc lp = []"
  by (subst nlabels.simps) simp

lemma nlabels_step:
  assumes "np \<noteq> []" "lp < 511" "lc < MAXLEV" "takeWhile (\<lambda>c. c \<noteq> CHR ''.'') np = oct"
  shows "nlabels np lc lp = take (511 - lp) oct # nlabels (drop (Suc (length oct)) np) (Suc lc) (min 512 (lp + length oct + 1))"
  using assms(1-3) unfolding assms(4) [symmetric] by (subst nlabels.simps) (simp add: Let_def)

lemma nlabels_le: "length (nlabels np lc lp) \<le> MAXLEV - lc"
proof (induction np lc lp rule: nlabels.induct)
  case (1 np lc lp)
  then show ?case by (subst nlabels.simps) (auto simp: Let_def)
qed

lemma nlabels_Cons:
  assumes "nlabels np lc lp = l # ls"
  shows "lp < 511" "lc < MAXLEV" "np \<noteq> []" "l = take (511 - lp) (takeWhile (\<lambda>c. c \<noteq> CHR ''.'') np)"
    "ls = nlabels (drop (Suc (length (takeWhile (\<lambda>c. c \<noteq> CHR ''.'') np))) np) (Suc lc)
            (min 512 (lp + length (takeWhile (\<lambda>c. c \<noteq> CHR ''.'') np) + 1))"
  using assms by (subst (asm) nlabels.simps; auto simp: Let_def split: if_splits)+

lemma nlabels_label_ok: "nonul np \<Longrightarrow> list_all label_ok (nlabels np lc lp)"
proof (induction np lc lp rule: nlabels.induct)
  case (1 np lc lp)
  have "nonul (drop n np)" for n using 1 by (auto simp: nonul_def dest: in_set_dropD)
  moreover have "label_ok (take n (takeWhile (\<lambda>c. c \<noteq> CHR ''.'') np))" for n
    using 1 by (auto simp: label_ok_def nonul_def dest!: in_set_takeD set_takeWhileD)
  ultimately show ?case using 1 by (subst nlabels.simps) (auto simp: Let_def)
qed

lemma nlabels_length: "lp \<le> 511 \<Longrightarrow> length (dotted (nlabels np lc lp)) \<le> 511 - lp"
proof (induction np lc lp rule: nlabels.induct)
  case (1 np lc lp)
  show ?case
  proof (cases "nlabels np lc lp")
    case (Cons l ls)
    note c = nlabels_Cons [OF Cons]
    show ?thesis
    proof (cases ls)
      case Nil
      then show ?thesis using Cons c by simp
    next
      case (Cons l' ls')
      let ?oct = "takeWhile (\<lambda>c. c \<noteq> CHR ''.'') np"
      have "min 512 (lp + length ?oct + 1) < 511" by (rule nlabels_Cons(1) [OF c(5) [symmetric, unfolded Cons]])
      then have lt: "lp + length ?oct + 1 < 511" by simp
      have "length (dotted ls) \<le> 511 - (lp + length ?oct + 1)"
        using 1(1) [OF _ refl] c lt by simp
      then show ?thesis using \<open>nlabels np lc lp = l # ls\<close> Cons c(4) lt by simp
    qed
  qed simp
qed

lemma nlabels_path_ok: "nonul name \<Longrightarrow> path_ok (nlabels name 0 0)"
  using nlabels_label_ok nlabels_length [of 0 name 0] nlabels_le [of name 0 0] by (simp add: path_ok_def)

text \<open>A path is read back from its text, unless its last label is empty.\<close>

lemma nlabels_dotted:
  "list_all label_ok ls \<Longrightarrow> lp + length (dotted ls) \<le> 511 \<Longrightarrow> length ls + lc \<le> MAXLEV \<Longrightarrow> ls \<noteq> [] \<Longrightarrow> last ls \<noteq> [] \<Longrightarrow>
   nlabels (dotted ls) lc lp = ls"
proof (induction ls arbitrary: lc lp rule: dotted.induct)
  case (2 l)
  have tw: "takeWhile (\<lambda>c. c \<noteq> CHR ''.'') l = l"
    using "2.prems"(1) unfolding takeWhile_eq_all_conv label_ok_def by auto
  have "nlabels l lc lp = take (511 - lp) l # nlabels (drop (Suc (length l)) l) (Suc lc) (min 512 (lp + length l + 1))"
    by (rule nlabels_step [OF _ _ _ tw]) (use "2.prems" in \<open>cases l; simp\<close>)+
  then show ?case using "2.prems" by simp
next
  case (3 l l' ls)
  have nodot: "CHR ''.'' \<notin> set l" using "3.prems"(1) by (simp add: label_ok_def)
  define t where "t = dotted (l' # ls)"
  have "\<forall>c \<in> set l. c \<noteq> CHR ''.''" using nodot by blast
  then have tw: "takeWhile (\<lambda>c. c \<noteq> CHR ''.'') (l @ CHR ''.'' # t) = l" by (simp add: takeWhile_append2)
  have len: "lp + length l + 1 + length t \<le> 511" using "3.prems"(2) by (simp add: t_def)
  have "nlabels (l @ CHR ''.'' # t) lc lp = take (511 - lp) l # nlabels t (Suc lc) (min 512 (lp + length l + 1))"
    using nlabels_step [OF _ _ _ tw, of lp lc] "3.prems"(3) len by simp
  moreover have "nlabels t (Suc lc) (lp + length l + 1) = l' # ls"
    unfolding t_def using "3.prems" len by (intro "3.IH") (auto simp: t_def)
  ultimately show ?case using len by (simp add: t_def)
qed simp

text \<open>The key of a name in the map.\<close>

definition name_key :: "string \<Rightarrow> string list" where
  "name_key name = (let l = nlabels name 0 0 in if l = [''''] then [] else lower l)"

lemma path_ok_name_key: "nonul name \<Longrightarrow> path_ok (name_key name)"
  using nlabels_path_ok [of name]
  by (cases "nlabels name 0 0 = ['''']") (simp_all add: name_key_def path_ok_def [of "[]"])

subsection \<open>Searching and entering\<close>

lemma path_root: "tree_ok ns \<Longrightarrow> path ns 1 = []"
  using path_simps(2) by simp

lemma getbyname_ids:
  assumes "dns_ok d" "nonul name"
  shows "DNS_getbyname d name = Some (case ids (Nodes d) (name_key name) of None \<Rightarrow> 0 | Some i \<Rightarrow> i)"
proof -
  have t: "tree_ok (Nodes d)" using assms by (simp add: dns_ok_def)
  let ?ls = "if nlabels name 0 0 = [''''] then [] else rev (nlabels name 0 0)"
  have "list_all label_ok ?ls" using nlabels_label_ok [OF assms(2)] by (simp add: list_all_iff)
  then have "nwalk d False 1 ?ls = Some (d, case ids (Nodes d) (name_key name) of None \<Rightarrow> 0 | Some i \<Rightarrow> i)"
    using nwalk_get [OF t, of 1 ?ls] tree_okD(1) [OF t] path_root [OF t]
    by (simp add: name_key_def Let_def split: if_splits)
  then show ?thesis unfolding DNS_getbyname_def nsearch_def Let_def by simp
qed

lemma upd_node_same:
  assumes "\<And>n. same_place (f n) n" "i < length (Nodes d)"
  shows "same_place (nd (upd_node d j f) i) (nd d i)"
  using assms by (cases "i = j") (simp_all add: upd_node_def same_place_def)

lemma upd_node_tree:
  assumes "tree_ok (Nodes d)" "\<And>n. same_place (f n) n"
  shows "tree_ok (Nodes (upd_node d i f))"
  by (rule tree_ok_same_place [OF _ _ assms(1)]) (simp_all add: upd_node_same [OF assms(2)], simp add: upd_node_def)

lemma banks_upd_node [simp]: "banks_ok (upd_node d i f) = banks_ok d"
  by (simp add: upd_node_def banks_ok_def)

lemma upd_node_ok: "dns_ok d \<Longrightarrow> (\<And>n. same_place (f n) n) \<Longrightarrow> dns_ok (upd_node d i f)"
  unfolding dns_ok_def using upd_node_tree by simp

lemma upd_node_path:
  assumes "\<And>n. same_place (f n) n"
  shows "i < length (Nodes d) \<Longrightarrow> path (Nodes (upd_node d j f)) i = path (Nodes d) i"
  using upd_node_same [OF assms, of _ d j]
  by (intro path_cong) (simp add: upd_node_def, simp add: same_place_def)

lemma upd_node_ids:
  assumes "\<And>n. same_place (f n) n"
  shows "ids (Nodes (upd_node d j f)) = ids (Nodes d)"
proof
  fix k
  have len: "length (Nodes (upd_node d j f)) = length (Nodes d)" by (simp add: upd_node_def)
  show "ids (Nodes (upd_node d j f)) k = ids (Nodes d) k"
    unfolding ids_def len by (rule find_cong) (auto simp: upd_node_path [OF assms])
qed

lemma putbyname_ids:
  assumes "dns_ok d" "nonul name"
  obtains d' i where "DNS_putbyname d name = Some (d', i)" "dns_ok d'" "ids (Nodes d') (name_key name) = Some i"
    "ids (Nodes d) \<subseteq>\<^sub>m ids (Nodes d')" "dom (ids (Nodes d')) = dom (ids (Nodes d)) \<union> set (suffixes (name_key name))"
proof -
  have t: "tree_ok (Nodes d)" using assms by (simp add: dns_ok_def)
  let ?ls = "if nlabels name 0 0 = [''''] then [] else rev (nlabels name 0 0)"
  have key: "rev (lower ?ls) = name_key name" by (simp add: name_key_def Let_def)
  have root: "1 < length (Nodes d)" "path (Nodes d) 1 = []" using tree_okD(1) [OF t] path_root [OF t] by auto
  then obtain e i where e: "nwalk d True 1 ?ls = Some (e, i)" "dns_ok e" "tree_grows (Nodes d) (Nodes e)" "1 \<le> i" "i < length (Nodes e)"
      "lower (path (Nodes e) i) = name_key name" "dom (ids (Nodes e)) = dom (ids (Nodes d)) \<union> between (name_key name) []"
    using nwalk_put [OF assms(1), of 1 ?ls] path_ok_name_key [OF assms(2)] unfolding key by auto
  have te: "tree_ok (Nodes e)" using e(2) by (simp add: dns_ok_def)
  let ?f = "\<lambda>n. n\<lparr>n_flag := or (n_flag n) NF_LEAF\<rparr>"
  have sp: "same_place (?f n) n" for n by (simp add: same_place_def)
  have "ids (Nodes d) \<subseteq>\<^sub>m ids (Nodes e)"
  proof (unfold map_le_def, intro ballI)
    fix k
    assume "k \<in> dom (ids (Nodes d))"
    then obtain j where j: "ids (Nodes d) k = Some j" by blast
    then have "ids (Nodes e) k = Some j"
      using tree_grows_length [OF e(3)] path_grows [OF e(3), of j] by (simp add: ids_iff [OF t] ids_iff [OF te])
    then show "ids (Nodes d) k = ids (Nodes e) k" using j by simp
  qed
  moreover have "between (name_key name) [] = set (suffixes (name_key name))" by (auto simp: between_def)
  moreover have "DNS_putbyname d name = Some (upd_node e i ?f, i)"
    unfolding DNS_putbyname_def nsearch_def Let_def e(1) by simp
  moreover have "ids (Nodes e) (name_key name) = Some i" using e ids_iff [OF te] by simp
  ultimately show ?thesis using that [of "upd_node e i ?f" i] e(7) upd_node_ok [OF e(2) sp] by (simp add: upd_node_ids [OF sp])
qed

subsection \<open>The name of a node\<close>

lemma vwrote_strcpy:
  assumes w: "vwrote n v s" and fit: "length s + length l < n" and nn: "nonul l"
  shows "vwrote n (skip_text (Xstrcpy v l)) (s @ l)"
proof -
  have v: "vok v" "length (vmem v) = n" "vpos v = int (length s)" "take (length s) (vmem v) = s"
    using w fit by (auto simp: vwrote_def min_def split: if_splits)
  have r: "\<not> outofrange v 0" using v fit by (auto simp: outofrange_def UTail_def vsize_def)
  have cut: "take (nat (UTail v - vpos v)) l = l" using v fit by (simp add: UTail_def vsize_def)
  have m: "vmem (Xstrcpy v l) = s @ l @ NUL # drop (Suc (length s + length l)) (vmem v)"
    unfolding Xstrcpy_store_all [OF r] cut using v fit by (subst store_all_mem) (simp_all add: vsize_def)
  have pos: "vpos (Xstrcpy v l) = int (length s)" unfolding Xstrcpy_store_all [OF r] using v by simp
  have st: "skip_text (Xstrcpy v l) = (Xstrcpy v l)\<lparr>vpos := int (length s + length l)\<rparr>"
    unfolding skip_text_def Let_def pos m using nn by simp
  show ?thesis
    unfolding vwrote_def st using vok_Xstrcpy [OF v(1)] fit v(2) by (simp add: m)
qed

lemma nonul_dotted: "list_all label_ok ls \<Longrightarrow> nonul (dotted ls)"
  by (induction ls rule: dotted.induct) (simp_all add: label_ok_def)

lemma dotted_Cons: "ls \<noteq> [] \<Longrightarrow> dotted (l # ls) = l @ CHR ''.'' # dotted ls"
  by (cases ls) simp_all

lemma getnodename_text:
  assumes t: "tree_ok ns"
  shows "2 \<le> i \<Longrightarrow> i < length ns \<Longrightarrow> vwrote n v s \<Longrightarrow> nonul s \<Longrightarrow> length s + length (dotted (path ns i)) < n \<Longrightarrow>
    \<exists>v' lc'. getnodename ns v (Some i) lc = Some (v', lc') \<and> vok v' \<and> cstr (vmem v') = s @ dotted (path ns i)"
proof (induction i arbitrary: v s lc rule: less_induct)
  case (less i)
  have i1: "1 \<le> i" using less.prems by simp
  show ?case
    using node_cases [OF t less.prems(2) i1]
  proof cases
    case (2 p)
    let ?l = "n_label (ns ! i)" and ?w = "skip_text (Xstrcpy v (n_label (ns ! i)))"
    have po: "path_ok (?l # path ns p)" using tree_okD(5) [OF t less.prems(1,2)] 2 by simp
    then have l: "nonul ?l" using path_ok_Cons by (auto simp: label_ok_def)
    have "length s + length ?l < n" using less.prems(5) 2(5) length_dotted_Cons [of ?l "path ns p"] by simp
    then have w: "vwrote n ?w (s @ ?l)" by (rule vwrote_strcpy [OF less.prems(3) _ l])
    show ?thesis
    proof (cases "p = 1")
      case True
      then have d: "dotted (path ns i) = ?l" using 2 path_root [OF t] by simp
      have "vok (setVStrEnd ?w 0)" using w by (intro vok_setVStrEnd) (auto simp: vwrote_def)
      moreover have "cstr (vmem (setVStrEnd ?w 0)) = s @ ?l"
        using vwrote_end [OF w] less.prems l d by simp
      ultimately show ?thesis using 2 True d by (subst getnodename.simps) simp
    next
      case False
      then have p: "2 \<le> p" "p < length ns" using 2 less.prems by auto
      have "path ns p \<noteq> []" using path_simps(3) [OF t p] by simp
      then have d: "dotted (path ns i) = ?l @ CHR ''.'' # dotted (path ns p)" using 2 by (simp add: dotted_Cons)
      have w': "vwrote n (setVStrPtrInc ?w (CHR ''.'')) ((s @ ?l) @ ''.'')" using w by (rule vwrote_put)
      obtain v' lc' where "getnodename ns (setVStrPtrInc ?w (CHR ''.'')) (Some p) (Suc lc) = Some (v', lc')" "vok v'"
          "cstr (vmem v') = ((s @ ?l) @ ''.'') @ dotted (path ns p)"
        using less.IH [OF 2(4) p w', of "Suc lc"] less.prems l d by auto
      then show ?thesis using 2 False d by (subst getnodename.simps) simp
    qed
  qed (use less.prems in simp)
qed

lemma nodename_text:
  assumes "tree_ok (Nodes d)" "2 \<le> i" "i < length (Nodes d)"
  obtains v lc where "DNS_nodename d i (new_vstr 512) = Some (v, lc)" "vok v" "cstr (vmem v) = dotted (path (Nodes d) i)"
proof -
  have "length (dotted (path (Nodes d) i)) < 512" using tree_okD(5) [OF assms] by (simp add: path_ok_def)
  then show ?thesis
    using getnodename_text [OF assms vwrote_new, of 512 0] that unfolding DNS_nodename_def by auto
qed

lemma name_key_dotted:
  assumes "path_ok ls" "ls \<noteq> []" "last ls \<noteq> []"
  shows "name_key (dotted ls) = lower ls"
proof -
  have "nlabels (dotted ls) 0 0 = ls" using assms by (intro nlabels_dotted) (auto simp: path_ok_def)
  then show ?thesis using assms by (auto simp: name_key_def)
qed

subsection \<open>Reachable tables\<close>

text \<open>Every use the resolver makes of the table; records are at most 512 bytes, the size of the buffer they are made in.\<close>

inductive dns_reach :: "dns \<Rightarrow> bool" where
  start: "dns_reach init_dns"
| putname: "dns_reach d \<Longrightarrow> nonul name \<Longrightarrow> DNS_putbyname d name = Some (d', i) \<Longrightarrow> dns_reach d'"
| putattr: "dns_reach d \<Longrightarrow> nid < length (Nodes d) \<Longrightarrow> leng \<le> 512 \<Longrightarrow>
    dns_reach (fst (DNS_putattr d now nid flag ttl data leng))"
| getattr: "dns_reach d \<Longrightarrow> nid < length (Nodes d) \<Longrightarrow> dns_reach (fst (DNS_getattr d now nid flag ttl ac))"
| phase: "dns_reach d \<Longrightarrow> nid < length (Nodes d) \<Longrightarrow> dns_reach (fst (DNS_nodephase d nid ph))"

lemma init_dns_ok: "dns_ok init_dns"
  by (auto simp: dns_ok_def tree_ok_def banks_ok_def init_dns_def new_node_rec_def children_def dns_sizes less_Suc_eq)

lemma putattr_ok:
  assumes "dns_ok d" "leng \<le> 512"
  shows "dns_ok (fst (DNS_putattr d now nid flag ttl data leng))"
proof -
  define d2 where "d2 = (fst (NewRecord d (attr_size + leng)))\<lparr>d_bad := d_bad d \<or>
      RBSIZE * 4 < snd (NewRecord d (attr_size + leng)) * 4 + 24 + leng \<or> RBSIZE * 4 < snd (NewRecord d (attr_size + leng)) * 4 + attr_size\<rparr>"
  have bad: "d_bad (fst (NewRecord d n)) = d_bad d" for n by (simp add: NewRecord_def Let_def)
  have "snd (NewRecord d (attr_size + leng)) * 4 + 32 + leng \<le> RBSIZE * 4"
    using assms(2) by (auto simp: NewRecord_def attr_size_def RBSIZE_def Let_def)
  then have "dns_ok d2" using assms(1)
    by (simp add: d2_def dns_ok_def banks_ok_def NewRecord_def Let_def attr_size_def)
  then have "dns_ok (upd_node d2 nid (\<lambda>n. n\<lparr>n_attr := a # n_attr n\<rparr>))" for a
    by (rule upd_node_ok) (simp add: same_place_def)
  then show ?thesis using assms(1) by (auto simp: DNS_putattr_def d2_def bad Let_def split_beta)
qed

lemma reach_ok: "dns_reach d \<Longrightarrow> dns_ok d"
proof (induction rule: dns_reach.induct)
  case start
  show ?case by (rule init_dns_ok)
next
  case (putname d name d' i)
  then show ?case using putbyname_ids [OF putname.IH putname.hyps(2)] by (metis option.inject prod.inject)
next
  case (putattr d nid leng now flag ttl data)
  then show ?case by (intro putattr_ok)
next
  case (getattr d nid now flag ttl ac)
  then show ?case by (auto simp: DNS_getattr_def Let_def same_place_def intro: upd_node_ok)
next
  case (phase d nid ph)
  then show ?case by (auto simp: DNS_nodephase_def same_place_def intro: upd_node_ok)
qed

subsection \<open>The interface of the table\<close>

text \<open>
  What the code that calls \<^verbatim>\<open>DNS_putbyname\<close> and \<^verbatim>\<open>DNS_getbyname\<close> relies on: entering succeeds, keeps the
  numbers that were given, and two names share a number exactly when their keys agree. Number 0 is no name.
\<close>

locale name_ids =
  fixes ok :: "'t \<Rightarrow> bool"
    and put :: "'t \<Rightarrow> string \<Rightarrow> ('t \<times> nat) option"
    and get :: "'t \<Rightarrow> string \<Rightarrow> nat option"
    and key :: "string \<Rightarrow> 'k"
  assumes put_get: "ok t \<Longrightarrow> nonul n \<Longrightarrow> \<exists>t' i. put t n = Some (t', i) \<and> ok t' \<and> i \<noteq> 0 \<and> get t' n = Some i"
    and put_keeps: "ok t \<Longrightarrow> nonul n \<Longrightarrow> put t n = Some (t', i) \<Longrightarrow> nonul m \<Longrightarrow> get t m = Some j \<Longrightarrow> j \<noteq> 0 \<Longrightarrow> get t' m = Some j"
    and get_key: "ok t \<Longrightarrow> nonul m \<Longrightarrow> nonul n \<Longrightarrow> key m = key n \<Longrightarrow> get t m = get t n"
    and get_inject: "ok t \<Longrightarrow> nonul m \<Longrightarrow> nonul n \<Longrightarrow> get t m = Some i \<Longrightarrow> get t n = Some i \<Longrightarrow> i \<noteq> 0 \<Longrightarrow> key m = key n"
begin

fun puts :: "'t \<Rightarrow> string list \<Rightarrow> ('t \<times> nat list) option" where
  "puts t [] = Some (t, [])"
| "puts t (n # ns) = (case put t n of None \<Rightarrow> None | Some (t', i) \<Rightarrow>
     map_option (\<lambda>(t'', is). (t'', i # is)) (puts t' ns))"

lemma puts_keep:
  "ok t \<Longrightarrow> list_all nonul ns \<Longrightarrow> puts t ns = Some (t', is) \<Longrightarrow> nonul m \<Longrightarrow> get t m = Some j \<Longrightarrow> j \<noteq> 0 \<Longrightarrow> get t' m = Some j"
proof (induction ns arbitrary: t "is")
  case (Cons n ns)
  obtain t1 i where p: "put t n = Some (t1, i)" "ok t1" using put_get [OF Cons.prems(1), of n] Cons.prems(2) by auto
  moreover obtain js where "puts t1 ns = Some (t', js)" using Cons.prems(3) p by auto
  ultimately show ?case using Cons.IH [of t1 js] Cons.prems put_keeps [OF Cons.prems(1) _ p(1)] by simp
qed simp

lemma puts_get:
  "ok t \<Longrightarrow> list_all nonul ns \<Longrightarrow> \<exists>t' is. puts t ns = Some (t', is) \<and> ok t' \<and> list_all2 (\<lambda>n i. i \<noteq> 0 \<and> get t' n = Some i) ns is"
proof (induction ns arbitrary: t)
  case (Cons n ns)
  obtain t1 i where p: "put t n = Some (t1, i)" "ok t1" "i \<noteq> 0" "get t1 n = Some i"
    using put_get [OF Cons.prems(1), of n] Cons.prems(2) by auto
  obtain t' js where j: "puts t1 ns = Some (t', js)" "ok t'" "list_all2 (\<lambda>n i. i \<noteq> 0 \<and> get t' n = Some i) ns js"
    using Cons.IH [OF p(2)] Cons.prems(2) by auto
  have "get t' n = Some i" using puts_keep [OF p(2) _ j(1) _ p(4,3)] Cons.prems(2) by simp
  then show ?case using p j by simp
qed simp

lemma puts_same_id:
  assumes "ok t" "list_all nonul ns" "puts t ns = Some (t', is)" "a < length ns" "b < length ns"
  shows "is ! a = is ! b \<longleftrightarrow> key (ns ! a) = key (ns ! b)"
proof -
  have l: "ok t'" "list_all2 (\<lambda>n i. i \<noteq> 0 \<and> get t' n = Some i) ns is" using puts_get [OF assms(1,2)] assms(3) by auto
  then have g: "is ! a \<noteq> 0" "get t' (ns ! a) = Some (is ! a)" "get t' (ns ! b) = Some (is ! b)"
    using assms(4,5) by (auto simp: list_all2_conv_all_nth)
  moreover have "nonul (ns ! a)" "nonul (ns ! b)" using assms by (simp_all add: list_all_length)
  ultimately show ?thesis using get_key [OF l(1)] get_inject [OF l(1)] by (metis option.inject)
qed

end

lemma getbyname_nonzero:
  assumes "dns_ok d" "nonul name"
  shows "DNS_getbyname d name = Some i \<and> i \<noteq> 0 \<longleftrightarrow> ids (Nodes d) (name_key name) = Some i"
  using getbyname_ids [OF assms] ids_iff [of "Nodes d" "name_key name" i] assms(1)
  by (auto simp: dns_ok_def split: option.splits)

interpretation dns: name_ids dns_ok DNS_putbyname DNS_getbyname name_key
proof
  fix t n
  assume t: "dns_ok t" "nonul n"
  obtain d' i where "DNS_putbyname t n = Some (d', i)" "dns_ok d'" "ids (Nodes d') (name_key n) = Some i"
    using putbyname_ids [OF t] by blast
  then show "\<exists>t' i. DNS_putbyname t n = Some (t', i) \<and> dns_ok t' \<and> i \<noteq> 0 \<and> DNS_getbyname t' n = Some i"
    using getbyname_nonzero [OF _ t(2)] by blast
next
  fix t n t' i m j
  assume a: "dns_ok t" "nonul n" "DNS_putbyname t n = Some (t', i)" "nonul m" "DNS_getbyname t m = Some j" "j \<noteq> 0"
  obtain d' k where d: "DNS_putbyname t n = Some (d', k)" "dns_ok d'" "ids (Nodes t) \<subseteq>\<^sub>m ids (Nodes d')"
    using putbyname_ids [OF a(1,2)] by blast
  have "ids (Nodes t) (name_key m) = Some j" using getbyname_nonzero [OF a(1,4)] a(5,6) by blast
  then have "ids (Nodes d') (name_key m) = Some j" using d(3) by (metis domI map_le_def)
  then show "DNS_getbyname t' m = Some j" using getbyname_nonzero [OF d(2) a(4)] d(1) a(3) by auto
next
  fix t m n
  assume "dns_ok t" "nonul m" "nonul n" "name_key m = name_key n"
  then show "DNS_getbyname t m = DNS_getbyname t n" by (simp add: getbyname_ids)
next
  fix t m n i
  assume a: "dns_ok t" "nonul m" "nonul n" "DNS_getbyname t m = Some i" "DNS_getbyname t n = Some i" "i \<noteq> 0"
  then have "ids (Nodes t) (name_key m) = Some i" "ids (Nodes t) (name_key n) = Some i"
    using getbyname_nonzero by blast+
  then show "name_key m = name_key n" using ids_iff [of "Nodes t"] a(1) by (simp add: dns_ok_def)
qed

subsection \<open>Names that are too deep\<close>

text \<open>After \<^verbatim>\<open>MAXLEV\<close> labels the rest of a name, its top level, is dropped.\<close>

lemma nlabels_deep:
  "list_all label_ok ls \<Longrightarrow> lp + length (dotted ls) \<le> 511 \<Longrightarrow> length ls + lc = MAXLEV \<Longrightarrow> ls \<noteq> [] \<Longrightarrow> last ls \<noteq> [] \<Longrightarrow>
   nlabels (dotted ls @ CHR ''.'' # x) lc lp = ls"
proof (induction ls arbitrary: lc lp rule: dotted.induct)
  case (2 l)
  have "\<forall>c \<in> set l. c \<noteq> CHR ''.''" using "2.prems"(1) by (auto simp: label_ok_def)
  then have tw: "takeWhile (\<lambda>c. c \<noteq> CHR ''.'') (l @ CHR ''.'' # x) = l" by (simp add: takeWhile_append2)
  have lt: "lp < 511" "lc < MAXLEV" using "2.prems" by (cases l; simp)+
  have stop: "nlabels np (Suc lc) lp' = []" for np lp' using "2.prems"(3) by (subst nlabels.simps) simp
  show ?case using nlabels_step [OF _ lt tw] "2.prems"(2) by (simp add: stop)
next
  case (3 l l' ls)
  have "\<forall>c \<in> set l. c \<noteq> CHR ''.''" using "3.prems"(1) by (auto simp: label_ok_def)
  define t where "t = dotted (l' # ls) @ CHR ''.'' # x"
  then have tw: "takeWhile (\<lambda>c. c \<noteq> CHR ''.'') (l @ CHR ''.'' # t) = l"
    using \<open>\<forall>c \<in> set l. c \<noteq> CHR ''.''\<close> by (simp add: takeWhile_append2)
  have len: "lp + length l + 1 + length (dotted (l' # ls)) \<le> 511" using "3.prems"(2) by simp
  have "nlabels t (Suc lc) (lp + length l + 1) = l' # ls"
    unfolding t_def using "3.prems" len by (intro "3.IH") auto
  then show ?case using nlabels_step [OF _ _ _ tw, of lp lc] "3.prems"(3) len by (simp add: t_def)
qed simp

subsection \<open>Properties\<close>

lemma dotted_lower: "map tolower (dotted ls) = dotted (lower ls)"
proof -
  have "tolower (CHR ''.'') = CHR ''.''" by (simp add: tolower_dot)
  then show ?thesis by (induction ls rule: dotted.induct) simp_all
qed

lemma last_lower: "ls \<noteq> [] \<Longrightarrow> last (lower ls) = map tolower (last ls)"
  by (simp add: lower_def last_map)

text \<open>C5: In every table the resolver can reach by entering names, storing and reading records, the links form a
  tree of labels: each node hangs below its parent in a list without cycles, no two children of a node have the same label
  up to case, every name fits into its buffer, and no store has left the table or a memory bank.\<close>

theorem names_form_a_tree: "dns_reach d \<Longrightarrow> dns_ok d"
  by (rule reach_ok)

theorem names_form_a_tree_witness:
  "\<exists>d i. DNS_putbyname init_dns ''www.example.com'' = Some (d, i) \<and> dns_ok d"
proof -
  obtain d i where d: "DNS_putbyname init_dns ''www.example.com'' = Some (d, i)"
    using dns.put_get [OF init_dns_ok, of "''www.example.com''"] by auto
  have "dns_reach d" by (rule dns_reach.putname [OF dns_reach.start _ d]) simp
  then show ?thesis using names_form_a_tree d by blast
qed

text \<open>C4: The tree refines a map from lists of labels, in lower case, to numbers: \<^verbatim>\<open>DNS_getbyname\<close> looks the labels of
  the name up (0 when there is none), and \<^verbatim>\<open>DNS_putbyname\<close> returns, gives the name a number that is found afterwards,
  changes no number, and adds exactly the name and the domains it lies in.\<close>

theorem names_refine_map:
  assumes "dns_reach d" and "nonul name"
  shows "DNS_getbyname d name = Some (case ids (Nodes d) (name_key name) of None \<Rightarrow> 0 | Some i \<Rightarrow> i)
    \<and> (\<exists>d' i. DNS_putbyname d name = Some (d', i) \<and> DNS_getbyname d' name = Some i \<and> i \<noteq> 0
         \<and> ids (Nodes d) \<subseteq>\<^sub>m ids (Nodes d')
         \<and> dom (ids (Nodes d')) = dom (ids (Nodes d)) \<union> set (suffixes (name_key name)))"
proof -
  obtain d' i where "DNS_putbyname d name = Some (d', i)" "dns_ok d'" "ids (Nodes d') (name_key name) = Some i"
    "ids (Nodes d) \<subseteq>\<^sub>m ids (Nodes d')" "dom (ids (Nodes d')) = dom (ids (Nodes d)) \<union> set (suffixes (name_key name))"
    using putbyname_ids [OF reach_ok [OF assms(1)] assms(2)] by blast
  moreover have "DNS_getbyname d' name = Some i \<and> i \<noteq> 0"
    using getbyname_nonzero [OF \<open>dns_ok d'\<close> assms(2)] calculation(3) by blast
  ultimately show ?thesis using getbyname_ids [OF reach_ok [OF assms(1)] assms(2)] by blast
qed

theorem names_refine_map_witness:
  "\<exists>d' i. DNS_putbyname init_dns ''ns.Example.com.'' = Some (d', i) \<and> DNS_getbyname d' ''ns.Example.com.'' = Some i \<and> i \<noteq> 0"
  using names_refine_map [OF dns_reach.start, of "''ns.Example.com.''"] by auto

text \<open>C23: When a list of domain names is entered into the empty table, in any order and with repetitions, two of
  them get the same number exactly when they consist of the same labels up to case. The names are those the
  tree holds in full: at least one label, at most 36, the last one not empty, and at most 511 bytes.\<close>

theorem numbers_identify_names:
  assumes "list_all (\<lambda>ls. path_ok ls \<and> ls \<noteq> [] \<and> last ls \<noteq> []) lss" and "a < length lss" and "b < length lss"
  shows "\<exists>d is. dns.puts init_dns (map dotted lss) = Some (d, is)
    \<and> (is ! a = is ! b \<longleftrightarrow> map (map tolower) (lss ! a) = map (map tolower) (lss ! b))"
proof -
  let ?ns = "map dotted lss"
  have n: "list_all nonul ?ns" using assms(1) by (auto simp: list_all_iff path_ok_def intro: nonul_dotted)
  have k: "name_key (?ns ! i) = map (map tolower) (lss ! i)" if "i < length lss" for i
    using name_key_dotted [of "lss ! i"] assms(1) that by (simp add: list_all_length lower_def)
  have l: "a < length ?ns" "b < length ?ns" using assms(2,3) by simp_all
  obtain d "is" where "dns.puts init_dns ?ns = Some (d, is)" using dns.puts_get [OF init_dns_ok n] by blast
  with dns.puts_same_id [OF init_dns_ok n _ l] k [OF assms(2)] k [OF assms(3)] show ?thesis by simp
qed

theorem numbers_identify_names_witness:
  "\<exists>d is. dns.puts init_dns [''a.b'', ''B'', ''A.B''] = Some (d, is) \<and> is ! 0 = is ! 2 \<and> is ! 0 \<noteq> is ! 1"
proof -
  let ?lss = "[[''a'', ''b''], [''B''], [''A'', ''B'']]"
  have p: "list_all (\<lambda>ls. path_ok ls \<and> ls \<noteq> [] \<and> last ls \<noteq> []) ?lss" by code_simp
  have m: "map dotted ?lss = [''a.b'', ''B'', ''A.B'']" by code_simp
  have c: "map (map tolower) (?lss ! 0) = map (map tolower) (?lss ! 2)" "map (map tolower) (?lss ! 0) \<noteq> map (map tolower) (?lss ! 1)"
    by code_simp+
  obtain d "is" where e: "dns.puts init_dns [''a.b'', ''B'', ''A.B''] = Some (d, is)" "is ! 0 = is ! 2"
    using numbers_identify_names [OF p, of 0 2] c(1) m by auto
  have "is ! 0 \<noteq> is ! 1"
    using numbers_identify_names [OF p, of 0 1] c(2) m e(1) by auto
  then show ?thesis using e by auto
qed

text \<open>C24: The name of the node a name was entered as is that name, up to case; it fits into the buffer of 512 bytes its
  callers have, and looking it up finds the node again, which \<^verbatim>\<open>lookupCache\<close> relies on to follow an alias.\<close>

theorem nodename_roundtrip:
  assumes "dns_reach d" and "path_ok ls" and "ls \<noteq> []" and "last ls \<noteq> []"
  shows "\<exists>d' i v lc. DNS_putbyname d (dotted ls) = Some (d', i) \<and> DNS_nodename d' i (new_vstr 512) = Some (v, lc) \<and> vok v
    \<and> map tolower (cstr (vmem v)) = map tolower (dotted ls) \<and> DNS_getbyname d' (cstr (vmem v)) = Some i"
proof -
  have nn: "nonul (dotted ls)" using assms(2) by (intro nonul_dotted) (simp add: path_ok_def)
  obtain d' i where d: "DNS_putbyname d (dotted ls) = Some (d', i)" "dns_ok d'" "ids (Nodes d') (name_key (dotted ls)) = Some i"
    using putbyname_ids [OF reach_ok [OF assms(1)] nn] by blast
  have t: "tree_ok (Nodes d')" using d(2) by (simp add: dns_ok_def)
  note key = name_key_dotted [OF assms(2-4)]
  have i: "1 \<le> i" "i < length (Nodes d')" "lower (path (Nodes d') i) = lower ls"
    using d(3) by (simp_all add: key ids_iff [OF t])
  have ne: "path (Nodes d') i \<noteq> []" using i(3) assms(3) by (metis length_0_conv lower_simps(5))
  then have i2: "2 \<le> i" using i(1) path_root [OF t] by (cases "i = 1") auto
  obtain v lc where v: "DNS_nodename d' i (new_vstr 512) = Some (v, lc)" "vok v" "cstr (vmem v) = dotted (path (Nodes d') i)"
    using nodename_text [OF t i2 i(2)] by blast
  have po: "path_ok (path (Nodes d') i)" using tree_okD(5) [OF t i2 i(2)] .
  have "map tolower (last (path (Nodes d') i)) = map tolower (last ls)"
    using i(3) last_lower ne assms(3) by metis
  then have "last (path (Nodes d') i) \<noteq> []" using assms(4) by auto
  then have "name_key (dotted (path (Nodes d') i)) = name_key (dotted ls)"
    using name_key_dotted [OF po ne] i(3) key by simp
  moreover have "nonul (dotted (path (Nodes d') i))" using po by (intro nonul_dotted) (simp add: path_ok_def)
  ultimately have "DNS_getbyname d' (cstr (vmem v)) = Some i" using getbyname_nonzero [OF d(2)] d(3) v(3) by metis
  then show ?thesis using d(1) v i(3) by (auto simp: dotted_lower)
qed

theorem nodename_roundtrip_witness:
  "\<exists>d' i v lc. DNS_putbyname init_dns ''www.Example.com'' = Some (d', i) \<and> DNS_nodename d' i (new_vstr 512) = Some (v, lc)
    \<and> map tolower (cstr (vmem v)) = ''www.example.com''"
proof -
  have "path_ok [''www'', ''Example'', ''com'']" "map tolower ''www.Example.com'' = ''www.example.com''" by code_simp+
  then show ?thesis using nodename_roundtrip [OF dns_reach.start, of "[''www'', ''Example'', ''com'']"] by auto
qed

text \<open>C40: A name of more than 36 labels loses its last labels, the top of the domain: two names that agree in the first 36 labels
  are one node, whatever domains they are in, so the records of one answer queries for the other.\<close>

theorem deep_names_collide:
  assumes "dns_reach d" and "path_ok ls" and "length ls = MAXLEV" and "last ls \<noteq> []" and "nonul x" and "nonul y"
  shows "\<exists>d' i. DNS_putbyname d (dotted ls @ CHR ''.'' # x) = Some (d', i) \<and> DNS_getbyname d' (dotted ls @ CHR ''.'' # y) = Some i"
proof -
  have ne: "ls \<noteq> []" using assms(3) by (auto simp: MAXLEV_def)
  have "nlabels (dotted ls @ CHR ''.'' # z) 0 0 = ls" for z
    using nlabels_deep [of ls 0 0 z] assms(2-4) ne by (simp add: path_ok_def)
  then have k: "name_key (dotted ls @ CHR ''.'' # x) = name_key (dotted ls @ CHR ''.'' # y)" by (simp add: name_key_def)
  have nn: "nonul (dotted ls @ CHR ''.'' # x)" "nonul (dotted ls @ CHR ''.'' # y)"
    using nonul_dotted [of ls] assms(2,5,6) by (simp_all add: path_ok_def)
  then show ?thesis
    using dns.put_get [OF reach_ok [OF assms(1)] nn(1)] dns.get_key [OF _ nn k] by metis
qed

theorem deep_names_collide_witness:
  "\<exists>d' i. DNS_putbyname init_dns (dotted (replicate 36 ''a'') @ ''.good.example'') = Some (d', i)
    \<and> DNS_getbyname d' (dotted (replicate 36 ''a'') @ ''.evil.test'') = Some i"
proof -
  have "path_ok (replicate 36 ''a'')" by code_simp
  moreover have "length (replicate 36 ''a'') = MAXLEV" by (simp add: MAXLEV_def)
  ultimately show ?thesis
    using deep_names_collide [OF dns_reach.start, of "replicate 36 ''a''" "''good.example''" "''evil.test''"] by simp
qed

end
