(* ===== verification/DnsAddr.thy ===== *)
theory DnsAddr
  imports DnsNames
begin

section \<open>DnsAddr: addresses as names, records of a name\<close>

text \<open>
  The rest of \<^verbatim>\<open>resolvy/dnsnode.cpp\<close>: the name an address is entered under, and what the
  records of a node are read as; and \<^verbatim>\<open>ipv6_domain\<close>, \<^verbatim>\<open>domain_ipv6\<close> of \<^verbatim>\<open>rary/vsaddr.cpp\<close>.
  \<^verbatim>\<open>xinet_pton\<close>, the system's reader of IPv6 addresses, is a parameter.
\<close>

subsection \<open>Reverse names\<close>

definition REVERSE_DOM :: string where "REVERSE_DOM = ''in-addr.arpa''"

text \<open>The values \<^verbatim>\<open>sscanf(s,"%d.%d. ...")\<close> of \<open>n\<close> numbers stores.\<close>

fun scan_ds :: "nat \<Rightarrow> string \<Rightarrow> int list" where
  "scan_ds 0 s = []"
| "scan_ds (Suc n) s =
     (case scan_d s of
        None \<Rightarrow> []
      | Some (v, r) \<Rightarrow> v # (if hd0 r = CHR ''.'' then scan_ds n (tl r) else []))"

definition rev_name :: "int list \<Rightarrow> string" where
  "rev_name vs = dotted (map print_int (rev vs)) @ CHR ''.'' # REVERSE_DOM"

definition gethostdomname :: "string \<Rightarrow> string" where
  "gethostdomname addr = rev_name (map (int \<circ> uc) (take 4 addr)) @ ''.''"

text \<open>Numbers that are not read are not initialised: the result is unknown (\<open>None\<close>).\<close>

definition addr2dom :: "string \<Rightarrow> string option" where
  "addr2dom addr = (let vs = scan_ds 4 addr in if length vs = 4 then Some (rev_name vs) else None)"

definition hexdigit :: "nat \<Rightarrow> char" where
  "hexdigit n = ''0123456789abcdef'' ! n"

text \<open>The low half of a byte comes before the high half.\<close>

definition ipv6_nibbles :: "string \<Rightarrow> nat list" where
  "ipv6_nibbles i6 = concat (map (\<lambda>c. [uc c mod 16, uc c div 16]) (rev i6))"

definition ipv6_domain :: "(string \<Rightarrow> string option) \<Rightarrow> string \<Rightarrow> string" where
  "ipv6_domain xinet_pton addr =
     (case xinet_pton addr of
        None \<Rightarrow> ''?''
      | Some i6 \<Rightarrow> concat (map (\<lambda>n. [hexdigit n, CHR ''.'']) (ipv6_nibbles i6)) @ ''IP6.INT'')"

definition DNS_putbyaddr :: "(string \<Rightarrow> string option) \<Rightarrow> dns \<Rightarrow> string \<Rightarrow> (dns \<times> nat) option" where
  "DNS_putbyaddr xinet_pton d addr =
     (let vs = scan_ds 4 addr
      in DNS_putbyname d (if length vs = 4 then rev_name vs else ipv6_domain xinet_pton addr))"

definition DNS_getbyaddr :: "dns \<Rightarrow> string \<Rightarrow> nat option" where
  "DNS_getbyaddr d addr = DNS_getbyname d (take 255 (addr @ CHR ''.'' # REVERSE_DOM))"

text \<open>One \<^verbatim>\<open>%x\<close> directive, and \<open>n\<close> of them with dots between them.\<close>

definition scan_xd :: "string \<Rightarrow> (int \<times> string) option" where
  "scan_xd s =
     (let s1 = skip_ws s;
          neg = (hd0 s1 = CHR ''-'');
          s2 = (if neg \<or> hd0 s1 = CHR ''+'' then tl s1 else s1);
          s3 = (if chr_at s2 0 = CHR ''0'' \<and> tolower (chr_at s2 1) = CHR ''x'' then drop 2 s2 else s2);
          ds = takeWhile isxdigit s3;
          v = min (hex_val ds 0) (2 ^ 64 - 1)
      in if ds = [] then None else Some (i32 (if neg then - v else v), dropWhile isxdigit s3))"

fun scan_xs :: "nat \<Rightarrow> string \<Rightarrow> int list" where
  "scan_xs 0 s = []"
| "scan_xs (Suc n) s =
     (case scan_xd s of
        None \<Rightarrow> []
      | Some (v, r) \<Rightarrow> v # (if hd0 r = CHR ''.'' then scan_xs n (tl r) else []))"

text \<open>Byte \<open>i\<close> is \<^verbatim>\<open>(v[sx] << 4) | v[sx-1]\<close>, cut to a char, for \<^verbatim>\<open>sx = 31 - 2 * i\<close>.\<close>

definition domain_ipv6 :: "string \<Rightarrow> string option" where
  "domain_ipv6 revaddr =
     (case strcasestr revaddr ''.IP6.INT'' of
        None \<Rightarrow> None
      | Some dp \<Rightarrow>
          if drop 8 dp \<noteq> [] then None
          else let v = scan_xs 32 revaddr
               in if length v = 32
                  then Some (map (\<lambda>i. let sx = 31 - 2 * i in byte (or (push_bit 4 (v ! sx)) (v ! (sx - 1)))) [0..<16])
                  else None)"

subsection \<open>Reading an IPv6 name back\<close>

lemma digits_table:
  "list_all (\<lambda>k. xdig (hexdigit k) = int k \<and> isxdigit (hexdigit k) \<and> \<not> isspace (hexdigit k)
      \<and> hexdigit k \<noteq> CHR ''-'' \<and> hexdigit k \<noteq> CHR ''+''
      \<and> tolower (hexdigit k) \<noteq> CHR ''i'' \<and> tolower (hexdigit k) \<noteq> CHR ''.'') [0..<16]"
  by code_simp

lemma hexdigit_facts:
  assumes "k < 16"
  shows "xdig (hexdigit k) = int k" "isxdigit (hexdigit k)" "\<not> isspace (hexdigit k)" "hexdigit k \<noteq> CHR ''-''"
    "hexdigit k \<noteq> CHR ''+''" "tolower (hexdigit k) \<noteq> CHR ''i''" "tolower (hexdigit k) \<noteq> CHR ''.''"
  using digits_table assms by (simp_all add: list_all_iff)

lemma dot_facts: "\<not> isxdigit (CHR ''.'')" "tolower (CHR ''.'') = CHR ''.''" "tolower (CHR ''I'') = CHR ''i''"
  by code_simp+

lemma scan_xd_digit:
  assumes "k < 16"
  shows "scan_xd (hexdigit k # CHR ''.'' # r) = Some (int k, CHR ''.'' # r)"
  using hexdigit_facts [OF assms] assms by (simp add: scan_xd_def skip_ws_def Let_def dot_facts)

lemma scan_xs_digits:
  "list_all (\<lambda>k. k < 16) ks \<Longrightarrow>
   scan_xs (length ks) (concat (map (\<lambda>n. [hexdigit n, CHR ''.'']) ks) @ r) = map int ks"
  by (induction ks) (simp_all add: scan_xd_digit)

lemma nibbles_nth:
  "j < length xs \<Longrightarrow> concat (map (\<lambda>c. [f c, g c]) xs) ! (2 * j) = f (xs ! j)
     \<and> concat (map (\<lambda>c. [f c, g c]) xs) ! (2 * j + 1) = g (xs ! j)"
proof (induction xs arbitrary: j)
  case (Cons x xs)
  then show ?case by (cases j) simp_all
qed simp

lemma join_nibbles: "byte (or (push_bit 4 (int (uc c div 16))) (int (uc c mod 16))) = c"
proof -
  have "int (uc c div 16) = drop_bit 4 (int (uc c))" "int (uc c mod 16) = take_bit 4 (int (uc c))"
    by (simp_all add: drop_bit_eq_div take_bit_eq_mod zdiv_int zmod_int)
  moreover have "or (push_bit 4 (drop_bit 4 x)) (take_bit 4 x) = x" for x :: int
    by (rule bit_eqI) (auto simp: bit_simps)
  ultimately show ?thesis by simp
qed

lemma strcasestr_skip1:
  assumes "tolower c \<noteq> CHR ''.'' \<or> tolower (hd0 t) \<noteq> CHR ''i''" "t \<noteq> []"
  shows "strcasestr (c # t) ''.IP6.INT'' = strcasestr t ''.IP6.INT''"
proof -
  obtain e u where t: "t = e # u" using assms(2) by (cases t) auto
  have "\<not> strncaseeq (c # t) ''.IP6.INT'' (length ''.IP6.INT'')"
    using assms(1) t by (auto simp: strncaseeq_def dot_facts)
  then show ?thesis by (simp only: strcasestr.simps if_False)
qed

lemma strcasestr_skip:
  "list_all (\<lambda>k. k < 16) ks \<Longrightarrow> ks \<noteq> [] \<Longrightarrow>
   strcasestr (concat (map (\<lambda>n. [hexdigit n, CHR ''.'']) ks) @ ''IP6.INT'') ''.IP6.INT'' = Some ''.IP6.INT''"
proof (induction ks)
  case (Cons k ks)
  then have k: "k < 16" by simp
  have first: "strcasestr (hexdigit k # CHR ''.'' # t) ''.IP6.INT'' = strcasestr (CHR ''.'' # t) ''.IP6.INT''" for t
    using hexdigit_facts(7) [OF k] by (intro strcasestr_skip1) simp_all
  show ?case
  proof (cases ks)
    case Nil
    have "strncaseeq ''.IP6.INT'' ''.IP6.INT'' (length ''.IP6.INT'')" by (simp only: strncaseeq_def)
    then have "strcasestr ''.IP6.INT'' ''.IP6.INT'' = Some ''.IP6.INT''" by (simp only: strcasestr.simps if_True)
    then show ?thesis using Nil first [of "''IP6.INT''"] by (simp del: strcasestr.simps)
  next
    case (Cons k' ks')
    then have k': "k' < 16" using \<open>list_all (\<lambda>k. k < 16) (k # ks)\<close> by simp
    have "strcasestr (CHR ''.'' # hexdigit k' # t) ''.IP6.INT'' = strcasestr (hexdigit k' # t) ''.IP6.INT''" for t
      using hexdigit_facts(6) [OF k'] by (intro strcasestr_skip1) simp_all
    then show ?thesis using Cons Cons.IH \<open>list_all (\<lambda>k. k < 16) (k # ks)\<close> first by (simp del: strcasestr.simps)
  qed
qed simp

lemma ipv6_nibbles_facts:
  "list_all (\<lambda>k. k < 16) (ipv6_nibbles i6)" "length (ipv6_nibbles i6) = 2 * length i6"
proof -
  have "list_all (\<lambda>k. k < 16) (concat (map (\<lambda>c. [uc c mod 16, uc c div 16]) xs))
      \<and> length (concat (map (\<lambda>c. [uc c mod 16, uc c div 16]) xs)) = 2 * length xs" for xs
    by (induction xs) (auto simp: less_mult_imp_div_less)
  from this [of "rev i6"] show "list_all (\<lambda>k. k < 16) (ipv6_nibbles i6)" "length (ipv6_nibbles i6) = 2 * length i6"
    by (simp_all add: ipv6_nibbles_def)
qed

subsection \<open>Records of a node\<close>

lemma collect_attrs_take:
  "collect_attrs flag ac ai as = take (if ac \<le> ai then 1 else nat (ac - ai)) (map a_data (filter (matches_flag flag) as))"
proof (induction flag ac ai as rule: collect_attrs.induct)
  case (2 flag ac ai a as)
  show ?case
  proof (cases "ac \<le> ai + 1")
    case True
    then have "(if ac \<le> ai then 1 else nat (ac - ai)) = 1" by auto
    then show ?thesis using 2 True by simp
  next
    case False
    then have "nat (ac - ai) = Suc (nat (ac - (ai + 1)))" by auto
    then show ?thesis using 2 False by simp
  qed
qed simp

lemma expired_none:
  "filter (matches_flag flag) (map (\<lambda>a. if matches_flag flag a then a\<lparr>a_flag := 0\<rparr> else a) as) = []"
  by (induction as) (auto simp: matches_flag_def)

lemma stale_at_once:
  assumes "0 <s now" and "a_date a = now" and "a_ttl a = 0x7FFFFFFF"
  shows "stale now ttl a"
proof -
  have n: "0 < sint now" "sint now < 2 ^ 31" using assms(1) sint_lt [of now] by (simp_all add: word_sless_alt)
  have m: "sint (0x7FFFFFFF :: u32) = 2 ^ 31 - 1" by simp
  have "sint (now + 0x7FFFFFFF) = signed_take_bit 31 (sint now + (2 ^ 31 - 1))"
    using sint_word_add [of now "0x7FFFFFFF"] unfolding m by simp
  also have "\<dots> = (sint now - 1 + 2 ^ 32) mod 2 ^ 32 - 2 ^ 31"
    by (simp add: signed_take_bit_eq_take_bit_shift take_bit_eq_mod algebra_simps)
  also have "\<dots> = sint now - 1 - 2 ^ 31" unfolding mod_add_self2 using n by (subst mod_pos_pos_trivial) simp_all
  finally show ?thesis using assms by (simp add: stale_def word_sle_eq)
qed

subsection \<open>Properties\<close>

text \<open>The address that \<^verbatim>\<open>domain_ipv6\<close> reads from the name \<^verbatim>\<open>ipv6_domain\<close> makes of an IPv6 address is that address.\<close>

theorem ipv6_domain_roundtrip:
  assumes "xinet_pton addr = Some i6" and "length i6 = 16"
  shows "domain_ipv6 (ipv6_domain xinet_pton addr) = Some i6"
proof -
  let ?ks = "ipv6_nibbles i6"
  have ks: "list_all (\<lambda>k. k < 16) ?ks" "length ?ks = 32" using ipv6_nibbles_facts [of i6] assms(2) by simp_all
  then have "?ks \<noteq> []" by auto
  then have s: "strcasestr (ipv6_domain xinet_pton addr) ''.IP6.INT'' = Some ''.IP6.INT''"
    using strcasestr_skip [OF ks(1)] assms(1) by (simp add: ipv6_domain_def)
  have v: "scan_xs 32 (ipv6_domain xinet_pton addr) = map int ?ks"
    using scan_xs_digits [OF ks(1)] ks(2) assms(1) by (simp add: ipv6_domain_def)
  have n: "map int ?ks ! (31 - 2 * i) = int (uc (i6 ! i) div 16) \<and> map int ?ks ! (31 - 2 * i - 1) = int (uc (i6 ! i) mod 16)"
    if "i < 16" for i
  proof -
    have "?ks ! (2 * (15 - i)) = uc (rev i6 ! (15 - i)) mod 16" "?ks ! (2 * (15 - i) + 1) = uc (rev i6 ! (15 - i)) div 16"
      using nibbles_nth [of "15 - i" "rev i6" "\<lambda>c. uc c mod 16" "\<lambda>c. uc c div 16"] assms(2) unfolding ipv6_nibbles_def by simp_all
    moreover have "31 - 2 * i = 2 * (15 - i) + 1" "31 - 2 * i - 1 = 2 * (15 - i)" using that by auto
    moreover have "rev i6 ! (15 - i) = i6 ! i" using that assms(2) by (simp add: rev_nth)
    ultimately show ?thesis using that ks(2) by simp
  qed
  have "map (\<lambda>i. let sx = 31 - 2 * i in byte (or (push_bit 4 (map int ?ks ! sx)) (map int ?ks ! (sx - 1)))) [0..<16]
      = map (\<lambda>i. i6 ! i) [0..<16]"
    by (rule map_cong) (use n in \<open>auto simp: Let_def join_nibbles\<close>)
  also have "\<dots> = i6" using assms(2) map_nth [of i6] by simp
  finally show ?thesis using s v ks(2) by (simp add: domain_ipv6_def)
qed

theorem ipv6_domain_roundtrip_witness:
  "domain_ipv6 (ipv6_domain (\<lambda>a. if a = ''::1'' then Some (replicate 15 NUL @ [CHR 0x01]) else None) ''::1'')
     = Some (replicate 15 NUL @ [CHR 0x01])"
  by (rule ipv6_domain_roundtrip) simp_all

text \<open>\<^verbatim>\<open>DNS_getattr\<close> returns the records of the asked types, the newest first, cut to \<open>ac\<close> of them (but never to none);
  with a maximum age it returns none as soon as one of them is out of date, and none of them is found until it is stored again.\<close>

theorem getattr_exact:
  "snd (DNS_getattr d now nid flag ttl ac) =
     (if \<not> ttl \<le>s 0 \<and> list_ex (\<lambda>a. matches_flag flag a \<and> stale now ttl a) (n_attr (nd d nid)) then []
      else take (max 1 (nat ac)) (map a_data (filter (matches_flag flag) (n_attr (nd d nid)))))"
proof -
  have "(if ac \<le> 0 then 1 else nat (ac - 0)) = max 1 (nat ac)" by auto
  then show ?thesis
    by (simp add: DNS_getattr_def expireattr_def collect_attrs_take Let_def expired_none)
qed

text \<open>The sum of the time of arrival and the time to live is a sum of ints: a record with the longest time to live is out of
  date in the second in which it is stored, so a resolver that expires its records (\<^verbatim>\<open>ttl\<close> positive) never finds it.\<close>

theorem longest_ttl_never_found:
  assumes "0 <s now" and "0 <s ttl" and "nid < length (Nodes d)" and "flag \<noteq> 0"
    and "\<not> list_ex (\<lambda>a. flag = a_flag a) (n_attr (nd d nid))"
  shows "snd (DNS_getattr (fst (DNS_putattr d now nid flag 0x7FFFFFFF data leng)) now nid flag ttl ac) = []"
proof -
  obtain d2 where d2: "fst (DNS_putattr d now nid flag 0x7FFFFFFF data leng) =
      upd_node d2 nid (\<lambda>n. n\<lparr>n_attr := \<lparr>a_flag = flag, a_date = now, a_ttl = 0x7FFFFFFF, a_leng = leng, a_data = take leng data\<rparr> # n_attr n\<rparr>)"
    "Nodes d2 = Nodes d"
    using assms(5) by (auto simp: DNS_putattr_def NewRecord_def Let_def list_ex_iff)
  let ?a = "\<lparr>a_flag = flag, a_date = now, a_ttl = 0x7FFFFFFF, a_leng = leng, a_data = take leng data\<rparr>"
  have st: "stale now ttl ?a" by (rule stale_at_once [OF assms(1)]) simp_all
  have "\<not> ttl \<le>s 0" using assms(2) by (simp add: word_sle_eq word_sless_alt)
  moreover have "n_attr (nd (fst (DNS_putattr d now nid flag 0x7FFFFFFF data leng)) nid) = ?a # n_attr (nd d nid)"
    using assms(3) d2 by (simp add: upd_node_def)
  moreover have "matches_flag flag ?a" using assms(4) by (simp add: matches_flag_def)
  ultimately show ?thesis
    using st expired_none [of flag "?a # n_attr (nd d nid)"] by (simp add: DNS_getattr_def expireattr_def Let_def collect_attrs_take)
qed

theorem longest_ttl_never_found_witness:
  "snd (DNS_getattr (fst (DNS_putattr init_dns 0x50000000 1 2 0x7FFFFFFF ''data'' 4)) 0x50000000 1 2 600 8) = []"
  by (rule longest_ttl_never_found) (simp_all add: init_dns_def new_node_rec_def word_sless_alt)

end
