(* ===== verification/DnsWire.thy ===== *)
theory DnsWire
  imports DnsAddr "HOL-Library.Monad_Syntax"
begin

section \<open>DnsWire: messages of the domain name protocol\<close>

text \<open>
  The encoder and the decoder of messages in \<^verbatim>\<open>resolvy/resolv.cpp\<close>, with the macros of
  \<^verbatim>\<open>resolvy/dns.h\<close>. What is received is the list of its bytes, a pointer into it is an
  index, and \<open>None\<close> is a read behind its end, which the code does not prevent. What is sent is
  written into a checked buffer; \<^verbatim>\<open>putShort\<close> and \<^verbatim>\<open>putLong\<close> store without a check. Lines of
  the log (\<^verbatim>\<open>debug\<close>, \<^verbatim>\<open>errlog\<close>) are left out.
\<close>

subsection \<open>Integers\<close>

definition oct_at :: "string \<Rightarrow> nat \<Rightarrow> nat option" where
  "oct_at msg p = (if p < length msg then Some (uc (msg ! p)) else None)"

definition getShort :: "string \<Rightarrow> nat \<Rightarrow> (nat \<times> nat) option" where
  "getShort msg p = do { a \<leftarrow> oct_at msg p; b \<leftarrow> oct_at msg (p + 1); Some (a * 256 + b, p + 2) }"

definition getLong :: "string \<Rightarrow> nat \<Rightarrow> (u32 \<times> nat) option" where
  "getLong msg p =
     do { (a, p1) \<leftarrow> getShort msg p; (b, p2) \<leftarrow> getShort msg p1; Some (of_nat (a * 65536 + b), p2) }"

definition raw_put :: "vstr \<Rightarrow> char \<Rightarrow> vstr" where
  "raw_put v c = (vstore v (vpos v) c)\<lparr>vpos := vpos v + 1\<rparr>"

definition putShort :: "vstr \<Rightarrow> int \<Rightarrow> vstr" where
  "putShort v n = raw_put (raw_put v (byte (drop_bit 8 n))) (byte n)"

definition putLong :: "vstr \<Rightarrow> int \<Rightarrow> vstr" where
  "putLong v n = putShort (putShort v (drop_bit 16 n)) n"

text \<open>The bytes of a number, the most significant first.\<close>

definition short_bytes :: "int \<Rightarrow> string" where
  "short_bytes n = [byte (drop_bit 8 n), byte n]"

definition long_bytes :: "int \<Rightarrow> string" where
  "long_bytes n = short_bytes (drop_bit 16 n) @ short_bytes n"

subsection \<open>The header\<close>

record Header =
  h_id :: nat
  h_M :: nat
  qdcount :: nat
  ancount :: nat
  nscount :: nat
  arcount :: nat

definition H_QR :: "nat \<Rightarrow> nat" where "H_QR M = drop_bit 15 (and M 0x8000)"
definition H_OPCODE :: "nat \<Rightarrow> nat" where "H_OPCODE M = drop_bit 11 (and M 0x7800)"
definition H_AA :: "nat \<Rightarrow> nat" where "H_AA M = drop_bit 10 (and M 0x0400)"
definition H_TC :: "nat \<Rightarrow> nat" where "H_TC M = drop_bit 9 (and M 0x0200)"
definition H_RD :: "nat \<Rightarrow> nat" where "H_RD M = drop_bit 8 (and M 0x0100)"
definition H_RA :: "nat \<Rightarrow> nat" where "H_RA M = drop_bit 7 (and M 0x0080)"
definition H_Z :: "nat \<Rightarrow> nat" where "H_Z M = drop_bit 4 (and M 0x0070)"
definition H_RCODE :: "nat \<Rightarrow> nat" where "H_RCODE M = and M 0xF"

lemmas header_bits = H_QR_def H_OPCODE_def H_AA_def H_TC_def H_RD_def H_RA_def H_Z_def H_RCODE_def

definition makeHeader :: "int \<Rightarrow> int \<Rightarrow> int \<Rightarrow> int \<Rightarrow> int \<Rightarrow> int \<Rightarrow> int \<Rightarrow> int \<Rightarrow> int \<Rightarrow> int \<Rightarrow> int \<Rightarrow> int \<Rightarrow> int \<Rightarrow> string" where
  "makeHeader hid qr opcode aa tc rd ra z rcode qdc anc nsc arc =
     [byte (drop_bit 8 hid), byte hid,
      byte (or (or (or (or (push_bit 7 qr) (push_bit 3 opcode)) (push_bit 2 aa)) (push_bit 1 tc)) rd),
      byte (or (or (push_bit 7 ra) (push_bit 4 z)) rcode),
      byte (drop_bit 8 qdc), byte qdc, byte (drop_bit 8 anc), byte anc,
      byte (drop_bit 8 nsc), byte nsc, byte (drop_bit 8 arc), byte arc]"

definition scanHeader :: "string \<Rightarrow> (Header \<times> nat) option" where
  "scanHeader head =
     do { (i, p1) \<leftarrow> getShort head 0; (m, p2) \<leftarrow> getShort head p1; (qd, p3) \<leftarrow> getShort head p2;
          (an, p4) \<leftarrow> getShort head p3; (ns, p5) \<leftarrow> getShort head p4; (ar, p6) \<leftarrow> getShort head p5;
          Some (\<lparr>h_id = i, h_M = m, qdcount = qd, ancount = an, nscount = ns, arcount = ar\<rparr>, 12) }"

subsection \<open>Names\<close>

text \<open>
  \<^verbatim>\<open>label\<close> holds 63 characters; a longer one is cut there and the loop goes on behind the
  next character. An empty label ends the name.
\<close>

function putName_loop :: "vstr \<Rightarrow> string \<Rightarrow> vstr" where
  "putName_loop qp np =
     (if np = [] then qp
      else if hd np = CHR ''.'' then qp
      else let label = take 63 (takeWhile (\<lambda>c. c \<noteq> CHR ''.'') np);
               rest = drop (length label) np;
               qp1 = skip_text (Xstrcpy (setVStrPtrInc qp (char_of (length label))) label)
           in if rest = [] then qp1 else putName_loop qp1 (tl rest))"
  by pat_completeness auto
termination by (relation "measure (\<lambda>(_, np). length np)") (auto simp: Let_def)

declare putName_loop.simps [simp del]

definition putName :: "vstr \<Rightarrow> string \<Rightarrow> vstr" where
  "putName qp name = setVStrPtrInc (putName_loop qp name) NUL"

text \<open>\<^verbatim>\<open>question[0]\<close> is the byte at the pointer the caller gave.\<close>

definition makeQuestion :: "vstr \<Rightarrow> string \<Rightarrow> int \<Rightarrow> int \<Rightarrow> vstr option" where
  "makeQuestion question name type xclass =
     (let qp = putName question name
      in if chr_at (vmem qp) (nat (vpos question)) = NUL then None
         else Some (foldl setVStrPtrInc qp
                [byte (drop_bit 8 type), byte type, byte (drop_bit 8 xclass), byte xclass]))"

text \<open>\<^verbatim>\<open>sprintf("%x")\<close>.\<close>

fun print_x :: "nat \<Rightarrow> string" where
  "print_x n = (if n < 16 then [hexdigit n] else print_x (n div 16) @ [hexdigit (n mod 16)])"

declare print_x.simps [simp del]

text \<open>
  The loop of \<^verbatim>\<open>scanName\<close>. \<open>np\<close> is what this call has put into its buffer of \<open>siz\<close> bytes, \<open>ssp\<close> where it
  started; the result is the text and the pointer behind the name. A pointer must lead to before the start
  of the name it occurs in, and at most 32 calls are nested. \<open>msg\<close> is the memory the message lies in, up to
  where it may be read; \<open>None\<close> is a read behind that. The texts for bad pointers go through a checked
  \<^verbatim>\<open>sprintf\<close>, which cuts them at the extent of the buffer (\<open>room\<close>); every caller passes that extent as \<open>siz\<close>.
\<close>

definition room :: "int \<Rightarrow> string \<Rightarrow> string \<Rightarrow> string" where
  "room siz np t = np @ take (nat (siz - 1 - int (length np))) t"

function scan_loop :: "string \<Rightarrow> nat \<Rightarrow> int \<Rightarrow> nat \<Rightarrow> nat \<Rightarrow> string \<Rightarrow> (string \<times> nat) option" where
  "scan_loop msg ssp siz lev sp np =
     (if length msg \<le> sp then None
      else let len = uc (msg ! sp); sp1 = sp + 1
           in if len = 0 then Some (np, sp1)
              else if and len 0xC0 \<noteq> 0 then
                (if and len 0xC0 \<noteq> 0xC0 then Some (room siz np (''BAD-POINTER-'' @ print_x len), sp1)
                 else if length msg \<le> sp1 then None
                 else let low = uc (msg ! sp1); here = sp + 2;
                          off = or (push_bit 8 (and len 0x3F)) low
                      in if here \<le> off then Some (room siz np (''BAD-POINTER-'' @ print_x len @ ''-'' @ print_x low), here)
                         else if here - 2 \<le> off \<or> ssp \<le> off then Some (room siz np (''LOOP-POINTER-'' @ print_x off), here)
                         else let siz' = siz - int (length np)
                              in if siz' \<le> 1 \<or> 32 \<le> lev + 1 then Some (np, here)
                                 else map_option (\<lambda>(t, _). (np @ t, here)) (scan_loop msg off siz' (lev + 1) off []))
              else if siz - int (length np) < int len + 2 then Some (np, sp1)
              else if length msg \<le> sp1 + len then None
              else scan_loop msg ssp siz lev (sp1 + len)
                     (np @ take len (drop sp1 msg) @ (if msg ! (sp1 + len) \<noteq> NUL then ''.'' else [])))"
  by pat_completeness auto
termination
  by (relation "measures [\<lambda>(msg, ssp, siz, lev, sp, np). 32 - lev, \<lambda>(msg, ssp, siz, lev, sp, np). length msg - sp]")
    (auto simp: Let_def)

declare scan_loop.simps [simp del]

definition scanName :: "string \<Rightarrow> nat \<Rightarrow> int \<Rightarrow> nat \<Rightarrow> (string \<times> nat) option" where
  "scanName msg ssp siz lev =
     (if siz \<le> 1 \<or> 32 \<le> lev then Some ([], ssp) else scan_loop msg ssp siz lev ssp [])"

definition scanQuery :: "string \<Rightarrow> nat \<Rightarrow> int \<Rightarrow> (string \<times> nat \<times> nat \<times> nat) option" where
  "scanQuery msg question nsiz =
     do { (name, qp) \<leftarrow> scanName msg question nsiz 0;
          (ty, qp1) \<leftarrow> getShort msg qp;
          (cl, qp2) \<leftarrow> getShort msg qp1;
          Some (cstr name, ty, cl, qp2) }"

text \<open>A record of an answer: \<^verbatim>\<open>Bcopy\<close> is checked, the pointer moves by \<open>leng\<close> all the same.\<close>

definition putRR :: "vstr \<Rightarrow> string \<Rightarrow> int \<Rightarrow> int \<Rightarrow> nat \<Rightarrow> string \<Rightarrow> vstr" where
  "putRR rrp name type ttl leng data =
     (let p1 = putName rrp name;
          p2 = putShort (putLong (putShort (putShort p1 type) 1) ttl) (int leng);
          p3 = Xbcopy data p2 (int leng)
      in p3\<lparr>vpos := vpos p2 + int leng\<rparr>)"

text \<open>
  The answers to queries for addresses. The host is what \<^verbatim>\<open>gethostbyNX\<close> found, \<open>None\<close> when
  there is none; \<open>minttl\<close> is \<^verbatim>\<open>DNS_MINTTL\<close>. The result is the buffer and the number of records.
\<close>

record hostent =
  h_name :: string
  h_addrtype :: int
  h_length :: nat
  h_addr_list :: "string list"

definition AF_INET6 :: int where "AF_INET6 = 10"

definition put_addrs :: "vstr \<Rightarrow> string \<Rightarrow> int \<Rightarrow> int \<Rightarrow> nat \<Rightarrow> string list \<Rightarrow> vstr" where
  "put_addrs rrp name type ttl leng as = foldl (\<lambda>p baddr. putRR p name type ttl leng baddr) rrp as"

definition putRR_A :: "int \<Rightarrow> vstr \<Rightarrow> string \<Rightarrow> hostent option \<Rightarrow> vstr \<times> nat" where
  "putRR_A minttl rrp name ht =
     (case ht of
        None \<Rightarrow> (rrp, 0)
      | Some h \<Rightarrow> if h_addrtype h = AF_INET6 then (rrp, 0)
                  else (put_addrs rrp name 1 minttl (h_length h) (h_addr_list h), length (h_addr_list h)))"

definition putRR_AAAA :: "int \<Rightarrow> vstr \<Rightarrow> string \<Rightarrow> hostent option \<Rightarrow> vstr \<times> nat" where
  "putRR_AAAA minttl rrp name ht =
     (case ht of
        None \<Rightarrow> (rrp, 0)
      | Some h \<Rightarrow> (put_addrs rrp name 28 minttl (h_length h) (h_addr_list h), length (h_addr_list h)))"

text \<open>The record of a name; for \<^verbatim>\<open>TY_MX\<close> one per address, with the host \<open>byaddr\<close> finds for it. \<^verbatim>\<open>rbuff\<close> has 512 bytes.\<close>

definition name_rdata :: "string \<Rightarrow> string \<Rightarrow> vstr" where
  "name_rdata pre name = putName (foldl raw_put (new_vstr 512) pre) name"

definition put_name_rr :: "int \<Rightarrow> vstr \<Rightarrow> string \<Rightarrow> int \<Rightarrow> vstr \<Rightarrow> vstr" where
  "put_name_rr minttl rrp name type np = putRR rrp name type minttl (nat (vpos np)) (vmem np)"

definition putRR_name :: "(string \<Rightarrow> hostent option) \<Rightarrow> int \<Rightarrow> vstr \<Rightarrow> hostent \<Rightarrow> int \<Rightarrow> string \<Rightarrow> vstr \<times> nat" where
  "putRR_name byaddr minttl rrp ht type name =
     (if type = 15
      then foldl (\<lambda>(p, anc) baddr.
                    case byaddr (take (h_length ht) baddr) of
                      None \<Rightarrow> (p, anc)
                    | Some ht1 \<Rightarrow> (put_name_rr minttl p name type (name_rdata (short_bytes 0) (h_name ht1)), anc + 1))
                 (rrp, 0) (take 16 (h_addr_list ht))
      else (put_name_rr minttl rrp name type (name_rdata [] (h_name ht)), 1))"

subsection \<open>Records of a response\<close>

text \<open>
  The resolver's state: the table of names and \<^verbatim>\<open>LastSOAdom\<close>. The environment gives the time and
  the system's conversions of IPv6 addresses.
\<close>

record rstate =
  rs_dns :: dns
  LastSOAdom :: string

record renv =
  e_now :: u32
  e_ltoa6 :: "string \<Rightarrow> string"
  e_pton6 :: "string \<Rightarrow> string option"

definition TY_A :: nat where "TY_A = 1"
definition TY_NS :: nat where "TY_NS = 2"
definition TY_CNAME :: nat where "TY_CNAME = 5"
definition TY_SOA :: nat where "TY_SOA = 6"
definition TY_PTR :: nat where "TY_PTR = 12"
definition TY_MX :: nat where "TY_MX = 15"
definition TY_AAAA :: nat where "TY_AAAA = 28"

lemmas ty_defs = TY_A_def TY_NS_def TY_CNAME_def TY_SOA_def TY_PTR_def TY_MX_def TY_AAAA_def

text \<open>\<^verbatim>\<open>1 << type\<close>: the processor cuts a shift count to five bits.\<close>

definition typemask :: "nat \<Rightarrow> u32" where
  "typemask type = push_bit (type mod 32) 1"

definition ltoa4 :: "string \<Rightarrow> string" where
  "ltoa4 bytes = dotted (map (show_nat \<circ> uc) bytes)"

text \<open>\<open>n\<close> bytes at a pointer.\<close>

definition bytes_at :: "string \<Rightarrow> nat \<Rightarrow> nat \<Rightarrow> string option" where
  "bytes_at msg p n = (if p + n \<le> length msg then Some (take n (drop p msg)) else None)"

definition dumpQuestion :: "rstate \<Rightarrow> string \<Rightarrow> nat \<Rightarrow> (rstate \<times> nat option) option" where
  "dumpQuestion st msg question =
     (if length msg \<le> question then Some (st, None)
      else do { (name, ty, cl, qp) \<leftarrow> scanQuery msg question 512;
                (d1, nid) \<leftarrow> DNS_putbyname (rs_dns st) name;
                (d2, nid') \<leftarrow> DNS_putbyname d1 name;
                Some (st\<lparr>rs_dns := d2\<rparr>, Some qp) })"

definition store_rr :: "renv \<Rightarrow> bool \<Rightarrow> dns \<Rightarrow> nat \<Rightarrow> nat \<Rightarrow> u32 \<Rightarrow> string \<Rightarrow> dns" where
  "store_rr env store d nid type ttl rdata =
     (if store then fst (DNS_putattr d (e_now env) nid (typemask type) ttl rdata (length rdata)) else d)"

definition rr_head :: "nat \<Rightarrow> nat \<Rightarrow> string" where
  "rr_head type xclass = [byte (int type), byte (int xclass)]"

definition dump_addr :: "renv \<Rightarrow> bool \<Rightarrow> dns \<Rightarrow> nat \<Rightarrow> nat \<Rightarrow> nat \<Rightarrow> u32 \<Rightarrow> string \<Rightarrow> nat \<Rightarrow> dns option" where
  "dump_addr env store d nid type xclass ttl msg mp =
     do { bs \<leftarrow> bytes_at msg mp (if type = TY_AAAA then 16 else 4);
          (d1, rnid) \<leftarrow> DNS_putbyaddr (e_pton6 env) d (if type = TY_AAAA then take 63 (e_ltoa6 env bs) else ltoa4 bs);
          Some (store_rr env store d1 nid type ttl (rr_head type xclass @ bs)) }"

definition dump_name :: "renv \<Rightarrow> bool \<Rightarrow> dns \<Rightarrow> nat \<Rightarrow> nat \<Rightarrow> nat \<Rightarrow> u32 \<Rightarrow> string \<Rightarrow> nat \<Rightarrow> dns option" where
  "dump_name env store d nid type xclass ttl msg mp =
     do { (rname, _) \<leftarrow> scanName msg (if type \<noteq> TY_MX then mp else mp + 2) 512 0;
          if cstr rname = [] then Some d
          else do { (d1, rnid) \<leftarrow> DNS_putbyname d (cstr rname);
                    pref \<leftarrow> (if type = TY_MX then bytes_at msg mp 2 else Some []);
                    Some (store_rr env store d1 nid type ttl (rr_head type xclass @ long_bytes (int rnid) @ pref)) } }"

definition dump_SOA :: "renv \<Rightarrow> bool \<Rightarrow> rstate \<Rightarrow> string \<Rightarrow> nat \<Rightarrow> nat \<Rightarrow> u32 \<Rightarrow> string \<Rightarrow> nat \<Rightarrow> rstate option" where
  "dump_SOA env store st name nid xclass ttl msg mp =
     do { (mname, mp1) \<leftarrow> scanName msg mp 512 0;
          (rname, mp2) \<leftarrow> scanName msg mp1 512 0;
          (serial, mp3) \<leftarrow> getLong msg mp2;
          (refresh, mp4) \<leftarrow> getLong msg mp3;
          (retry, mp5) \<leftarrow> getLong msg mp4;
          (expire, mp6) \<leftarrow> getLong msg mp5;
          (minimum, mp7) \<leftarrow> getLong msg mp6;
          (d1, mnid) \<leftarrow> DNS_putbyname (rs_dns st) (cstr mname);
          (d2, rnid) \<leftarrow> DNS_putbyname d1 (cstr rname);
          Some (st\<lparr>rs_dns := store_rr env store d2 nid TY_SOA ttl (rr_head TY_SOA xclass @
                     concat (map long_bytes [int mnid, int rnid, uint serial, uint refresh, uint retry, uint expire, uint minimum])),
                   LastSOAdom := take 127 name\<rparr>) }"

text \<open>The pointer behind the record; \<open>None\<close> in the pair is a null pointer, which ends the section.\<close>

definition dumpResourceRecord :: "renv \<Rightarrow> bool \<Rightarrow> rstate \<Rightarrow> string \<Rightarrow> nat \<Rightarrow> (rstate \<times> nat option) option" where
  "dumpResourceRecord env store st msg rr =
     (if length msg \<le> rr then Some (st, None)
      else do { (nm, mp0) \<leftarrow> scanName msg rr 512 0;
                (d1, nid) \<leftarrow> DNS_putbyname (rs_dns st) (cstr nm);
                (type, mp1) \<leftarrow> getShort msg mp0;
                (xclass, mp2) \<leftarrow> getShort msg mp1;
                (ttl, mp3) \<leftarrow> getLong msg mp2;
                (rdlength, mp) \<leftarrow> getShort msg mp3;
                let st1 = st\<lparr>rs_dns := d1\<rparr>;
                if type \<noteq> TY_AAAA \<and> (type = 0 \<or> 16 < type \<or> xclass = 0 \<or> 4 < xclass) then Some (st1, None)
                else do {
                  st2 \<leftarrow> (if type = TY_AAAA \<or> type = TY_A
                          then map_option (\<lambda>d. st1\<lparr>rs_dns := d\<rparr>) (dump_addr env store d1 nid type xclass ttl msg mp)
                          else if type = TY_MX \<or> type = TY_NS \<or> type = TY_CNAME \<or> type = TY_PTR
                          then map_option (\<lambda>d. st1\<lparr>rs_dns := d\<rparr>) (dump_name env store d1 nid type xclass ttl msg mp)
                          else if type = TY_SOA then dump_SOA env store st1 (cstr nm) nid xclass ttl msg mp
                          else Some st1);
                  Some (st2, Some (mp + rdlength)) } })"

text \<open>
  A section of \<open>n\<close> records. The last byte of the message (\<^verbatim>\<open>mx\<close>) must lie behind the pointer, or the
  response is given up (\<open>Inl\<close>).
\<close>

fun dump_section :: "(rstate \<Rightarrow> nat \<Rightarrow> (rstate \<times> nat option) option) \<Rightarrow> nat \<Rightarrow> nat \<Rightarrow> rstate \<Rightarrow> nat option
    \<Rightarrow> (rstate + rstate \<times> nat option) option" where
  "dump_section f rc 0 st mp = Some (Inr (st, mp))"
| "dump_section f rc (Suc n) st mp =
     (case mp of
        None \<Rightarrow> Some (Inr (st, mp))
      | Some p \<Rightarrow> if rc \<le> p + 1 then Some (Inl st) else do { (st', mp') \<leftarrow> f st p; dump_section f rc n st' mp' })"

definition question_step :: "string \<Rightarrow> rstate \<Rightarrow> nat \<Rightarrow> (rstate \<times> nat option) option" where
  "question_step resp st mp = do { qname \<leftarrow> scanName resp mp 1024 0; dumpQuestion st resp mp }"

text \<open>The header, the questions and the three sections of records; the number of records is returned.\<close>

definition dumpResponse :: "renv \<Rightarrow> bool \<Rightarrow> rstate \<Rightarrow> string \<Rightarrow> (rstate \<times> Header \<times> nat) option" where
  "dumpResponse env store st resp =
     do { (hp, mp) \<leftarrow> scanHeader resp;
          let n = ancount hp + nscount hp + arcount hp;
          let rc = length resp;
          let rr = dumpResourceRecord env store;
          r1 \<leftarrow> dump_section (question_step resp) rc (qdcount hp) st (Some mp);
          case r1 of Inl st1 \<Rightarrow> Some (st1, hp, n) | Inr (st1, mp1) \<Rightarrow>
          do { r2 \<leftarrow> dump_section (\<lambda>s p. rr s resp p) rc (ancount hp) st1 mp1;
               case r2 of Inl st2 \<Rightarrow> Some (st2, hp, n) | Inr (st2, mp2) \<Rightarrow>
               do { r3 \<leftarrow> dump_section (\<lambda>s p. rr s resp p) rc (nscount hp) st2 mp2;
                    case r3 of Inl st3 \<Rightarrow> Some (st3, hp, n) | Inr (st3, mp3) \<Rightarrow>
                    do { r4 \<leftarrow> dump_section (\<lambda>s p. rr s resp p) rc (arcount hp) st3 mp3;
                         case r4 of Inl st4 \<Rightarrow> Some (st4, hp, n) | Inr (st4, mp4) \<Rightarrow> Some (st4, hp, n) } } } }"

end
