(* ===== verification/DnsCodec.thy ===== *)
theory DnsCodec
  imports DnsWire
begin

section \<open>DnsCodec: what is encoded is decoded\<close>

text \<open>
  Round trips of headers, questions and names with and without compression, the bound of what
  \<^verbatim>\<open>scanName\<close> writes, and where the encoder changes or overruns what it is given.
\<close>

subsection \<open>Integers and the header\<close>

lemma oct_at_append: "oct_at (pre @ c # post) (length pre) = Some (uc c)"
  by (simp add: oct_at_def)

lemma getShort_bytes:
  "getShort (pre @ a # b # post) (length pre) = Some (uc a * 256 + uc b, length pre + 2)"
  using oct_at_append [of "pre @ [a]" b post] by (simp add: getShort_def oct_at_append)

lemma getShort_at:
  "p = length pre \<Longrightarrow> getShort (pre @ a # b # post) p = Some (uc a * 256 + uc b, p + 2)"
  by (simp add: getShort_bytes)

lemma uc_byte_nat: "uc (byte n) = nat (n mod 256)"
  using uc_byte [of n] by simp

lemma short_value:
  assumes "0 \<le> n" "n < 65536"
  shows "uc (byte (drop_bit 8 n)) * 256 + uc (byte n) = nat n"
proof -
  have "int (uc (byte (drop_bit 8 n))) = n div 256" using assms by (simp add: uc_byte drop_bit_eq_div)
  moreover have "int (uc (byte n)) = n mod 256" by (simp add: uc_byte)
  ultimately have "int (uc (byte (drop_bit 8 n)) * 256 + uc (byte n)) = n" by simp
  then show ?thesis by simp
qed

lemma getShort_short:
  assumes "0 \<le> n" "n < 65536" "p = length pre"
  shows "getShort (pre @ short_bytes n @ post) p = Some (nat n, p + 2)"
  using getShort_bytes [of pre "byte (drop_bit 8 n)" "byte n" post] short_value [OF assms(1,2)] assms(3)
  by (simp add: short_bytes_def)

lemma or_shifted:
  assumes "0 \<le> (l :: int)" "l < 2 ^ k"
  shows "or (push_bit k h) l = h * 2 ^ k + l"
proof -
  have "take_bit k l = l" using assms by (simp add: take_bit_int_eq_self_iff)
  then show ?thesis using concat_bit_eq [of k l h] by (simp add: concat_bit_def or.commute push_bit_eq_mult)
qed

lemma flag_byte1:
  assumes "0 \<le> qr" "qr < 2" "0 \<le> oc" "oc < 16" "0 \<le> aa" "aa < 2" "0 \<le> tc" "tc < 2" "0 \<le> rd" "rd < 2"
  shows "or (or (or (or (push_bit 7 qr) (push_bit 3 oc)) (push_bit 2 aa)) (push_bit 1 tc)) rd
    = qr * 128 + oc * 8 + aa * 4 + tc * 2 + (rd :: int)"
proof -
  have "or (push_bit 7 qr) (push_bit 3 oc) = push_bit 3 (qr * 16 + oc)"
    using assms or_shifted [of "push_bit 3 oc" 7 qr] by (simp add: push_bit_eq_mult)
  moreover have "or (push_bit 3 (qr * 16 + oc)) (push_bit 2 aa) = push_bit 2 ((qr * 16 + oc) * 2 + aa)"
    using assms or_shifted [of "push_bit 2 aa" 3 "qr * 16 + oc"] by (simp add: push_bit_eq_mult)
  moreover have "or (push_bit 2 ((qr * 16 + oc) * 2 + aa)) (push_bit 1 tc) = push_bit 1 (((qr * 16 + oc) * 2 + aa) * 2 + tc)"
    using assms or_shifted [of "push_bit 1 tc" 2 "(qr * 16 + oc) * 2 + aa"] by (simp add: push_bit_eq_mult)
  ultimately show ?thesis
    using assms or_shifted [of rd 1 "((qr * 16 + oc) * 2 + aa) * 2 + tc"] by simp
qed

lemma flag_byte2:
  assumes "0 \<le> ra" "ra < 2" "0 \<le> z" "z < 8" "0 \<le> rc" "rc < 16"
  shows "or (or (push_bit 7 ra) (push_bit 4 z)) rc = ra * 128 + z * 16 + (rc :: int)"
proof -
  have "or (push_bit 7 ra) (push_bit 4 z) = push_bit 4 (ra * 8 + z)"
    using assms or_shifted [of "push_bit 4 z" 7 ra] by (simp add: push_bit_eq_mult)
  then show ?thesis using assms or_shifted [of rc 4 "ra * 8 + z"] by simp
qed

lemma header_field:
  assumes "c = push_bit k (mask w :: nat)"
  shows "drop_bit k (and M c) = M div 2 ^ k mod 2 ^ w"
proof -
  have "drop_bit k (and M (push_bit k (mask w))) = take_bit w (drop_bit k M)"
    by (rule bit_eqI) (auto simp: bit_simps)
  then show ?thesis using assms by (simp add: take_bit_eq_mod drop_bit_eq_div)
qed

lemma H_QR_value: "H_QR M = M div 32768 mod 2"
  unfolding H_QR_def by (subst header_field [where w = 1]) (simp_all add: mask_eq_exp_minus_1 push_bit_eq_mult)

lemma H_OPCODE_value: "H_OPCODE M = M div 2048 mod 16"
  unfolding H_OPCODE_def by (subst header_field [where w = 4]) (simp_all add: mask_eq_exp_minus_1 push_bit_eq_mult)

lemma H_AA_value: "H_AA M = M div 1024 mod 2"
  unfolding H_AA_def by (subst header_field [where w = 1]) (simp_all add: mask_eq_exp_minus_1 push_bit_eq_mult)

lemma H_TC_value: "H_TC M = M div 512 mod 2"
  unfolding H_TC_def by (subst header_field [where w = 1]) (simp_all add: mask_eq_exp_minus_1 push_bit_eq_mult)

lemma H_RD_value: "H_RD M = M div 256 mod 2"
  unfolding H_RD_def by (subst header_field [where w = 1]) (simp_all add: mask_eq_exp_minus_1 push_bit_eq_mult)

lemma H_RA_value: "H_RA M = M div 128 mod 2"
  unfolding H_RA_def by (subst header_field [where w = 1]) (simp_all add: mask_eq_exp_minus_1 push_bit_eq_mult)

lemma H_Z_value: "H_Z M = M div 16 mod 8"
  unfolding H_Z_def by (subst header_field [where w = 3]) (simp_all add: mask_eq_exp_minus_1 push_bit_eq_mult)

lemma H_RCODE_value: "H_RCODE M = M mod 16"
  unfolding H_RCODE_def using header_field [of "0xF" 0 4 M] by (simp add: mask_eq_exp_minus_1)

lemmas header_values = H_QR_value H_OPCODE_value H_AA_value H_TC_value H_RD_value H_RA_value H_Z_value H_RCODE_value

subsection \<open>Encoded names\<close>

definition wire_label :: "string \<Rightarrow> bool" where
  "wire_label l \<longleftrightarrow> label_ok l \<and> l \<noteq> [] \<and> length l \<le> 63"

definition enc_label :: "string \<Rightarrow> string" where
  "enc_label l = char_of (length l) # l"

definition enc_labels :: "string list \<Rightarrow> string" where
  "enc_labels ls = concat (map enc_label ls)"

lemma enc_labels_simps [simp]:
  "enc_labels [] = []" "enc_labels (l # ls) = char_of (length l) # l @ enc_labels ls"
  by (simp_all add: enc_labels_def enc_label_def)

lemma putName_loop_step:
  assumes "wire_label l" "rest = [] \<or> hd rest = CHR ''.''"
  shows "putName_loop qp (l @ rest) =
    (let qp1 = skip_text (Xstrcpy (setVStrPtrInc qp (char_of (length l))) l)
     in if rest = [] then qp1 else putName_loop qp1 (tl rest))"
proof -
  have l: "l \<noteq> []" "\<forall>c \<in> set l. c \<noteq> CHR ''.''" "length l \<le> 63" using assms(1) by (auto simp: wire_label_def label_ok_def)
  then have "hd (l @ rest) \<noteq> CHR ''.''" by (cases l) auto
  moreover have "takeWhile (\<lambda>c. c \<noteq> CHR ''.'') (l @ rest) = l"
    using l assms(2) by (cases rest) (auto simp: takeWhile_append2)
  ultimately show ?thesis using l by (subst putName_loop.simps) (simp add: Let_def)
qed

lemma putName_loop_enc:
  "list_all wire_label ls \<Longrightarrow> vwrote n v s \<Longrightarrow> length s + length (enc_labels ls) < n \<Longrightarrow>
   vwrote n (putName_loop v (dotted ls)) (s @ enc_labels ls)"
proof (induction ls arbitrary: v s rule: dotted.induct)
  case 1
  then show ?case by (subst putName_loop.simps) simp
next
  case (2 l)
  have "nonul l" "wire_label l" using 2 by (auto simp: wire_label_def label_ok_def)
  then show ?case
    using putName_loop_step [of l "[]" v] vwrote_strcpy [OF vwrote_put [OF "2.prems"(2)], of "char_of (length l)" l] "2.prems"(3)
    by simp
next
  case (3 l l' ls)
  have l: "nonul l" "wire_label l" using 3 by (auto simp: wire_label_def label_ok_def)
  let ?v = "skip_text (Xstrcpy (setVStrPtrInc v (char_of (length l))) l)"
  have "vwrote n ?v ((s @ [char_of (length l)]) @ l)"
    using "3.prems"(3) by (intro vwrote_strcpy vwrote_put "3.prems"(2) l) simp
  then have "vwrote n (putName_loop ?v (dotted (l' # ls))) (((s @ [char_of (length l)]) @ l) @ enc_labels (l' # ls))"
    using "3.prems" by (intro "3.IH") simp_all
  then show ?case using putName_loop_step [OF l(2), of "CHR ''.'' # dotted (l' # ls)" v] by simp
qed

lemma putName_enc:
  assumes "list_all wire_label ls" "vwrote n v s" "length s + length (enc_labels ls) < n"
  shows "vwrote n (putName v (dotted ls)) (s @ enc_labels ls @ [NUL])"
  using vwrote_put [OF putName_loop_enc [OF assms], of NUL] by (simp add: putName_def)

lemma low_length: "n < 64 \<Longrightarrow> and n 0xC0 = (0 :: nat)"
proof -
  assume "n < 64"
  then have "n = take_bit 6 n" by (simp add: take_bit_eq_mod)
  then have "and n 0xC0 = and n (take_bit 6 0xC0)" by (metis take_bit_and take_bit_eq_mask and.left_commute and.commute)
  then show ?thesis by (simp add: take_bit_eq_mod)
qed

lemma scan_loop_enc:
  "list_all wire_label ls \<Longrightarrow> msg = pre @ enc_labels ls @ rest \<Longrightarrow> rest \<noteq> [] \<Longrightarrow> sp = length pre \<Longrightarrow>
   int (length np + length (enc_labels ls)) + 1 \<le> siz \<Longrightarrow>
   scan_loop msg ssp siz lev sp np =
     scan_loop msg ssp siz lev (sp + length (enc_labels ls)) (np @ dotted ls @ (if ls \<noteq> [] \<and> hd rest \<noteq> NUL then ''.'' else []))"
proof (induction ls arbitrary: pre sp np)
  case (Cons l ls)
  have l: "l \<noteq> []" "length l \<le> 63" "wire_label l" using Cons.prems by (auto simp: wire_label_def)
  let ?nx = "hd (enc_labels ls @ rest)"
  have nx: "?nx = NUL \<longleftrightarrow> ls = [] \<and> hd rest = NUL"
  proof (cases ls)
    case (Cons k ks)
    then have "0 < length k" "length k \<le> 63" using \<open>list_all wire_label (l # ls)\<close> by (auto simp: wire_label_def)
    then have "uc (char_of (length k)) \<noteq> uc NUL" by (simp add: uc_def)
    then show ?thesis using Cons by auto
  qed simp
  have m: "length pre < length msg" "msg ! length pre = char_of (length l)" "uc (char_of (length l)) = length l"
    "take (length l) (drop (length pre + 1) msg) = l" "length pre + 1 + length l < length msg"
    "msg ! (length pre + 1 + length l) = ?nx"
    using Cons.prems(2,3) l(2) by (simp_all add: nth_append hd_conv_nth)
  have "scan_loop msg ssp siz lev sp np =
      scan_loop msg ssp siz lev (length pre + 1 + length l) (np @ l @ (if ?nx \<noteq> NUL then ''.'' else []))"
    using m l Cons.prems(4,5) by (subst scan_loop.simps) (simp add: Let_def low_length)
  also have "\<dots> = scan_loop msg ssp siz lev (length pre + 1 + length l + length (enc_labels ls))
      ((np @ l @ (if ?nx \<noteq> NUL then ''.'' else [])) @ dotted ls @ (if ls \<noteq> [] \<and> hd rest \<noteq> NUL then ''.'' else []))"
    using Cons.prems by (intro Cons.IH [of "pre @ char_of (length l) # l"]) auto
  finally show ?case using Cons.prems(4) nx by (cases ls) (simp_all add: add.commute add.left_commute)
qed simp

lemma length_dotted_enc: "ls \<noteq> [] \<Longrightarrow> length (enc_labels ls) = length (dotted ls) + 1"
  by (induction ls rule: dotted.induct) simp_all

lemma scanName_enc:
  assumes "list_all wire_label ls" "msg = pre @ enc_labels ls @ NUL # post" "int (length (enc_labels ls)) + 1 \<le> siz" "1 < siz" "lev < 32"
  shows "scanName msg (length pre) siz lev = Some (dotted ls, length pre + length (enc_labels ls) + 1)"
proof -
  have "scan_loop msg (length pre) siz lev (length pre) [] =
      scan_loop msg (length pre) siz lev (length pre + length (enc_labels ls)) (dotted ls)"
    using scan_loop_enc [OF assms(1,2) _ refl, of "[]" siz "length pre" lev] assms(3) by simp
  moreover have "length pre + length (enc_labels ls) < length msg" "msg ! (length pre + length (enc_labels ls)) = NUL"
    using assms(2) by (simp_all add: nth_append)
  moreover have "uc NUL = 0" by (simp add: uc_def)
  ultimately show ?thesis using assms(4,5) by (simp add: scanName_def scan_loop.simps [of _ _ _ _ "length pre + length (enc_labels ls)"])
qed

text \<open>A pointer to a name that was put before.\<close>

definition pointer_bytes :: "nat \<Rightarrow> string" where
  "pointer_bytes off = [char_of (192 + off div 256), char_of (off mod 256)]"

lemma or_bits: "or (push_bit k x) (take_bit k y) = push_bit k x + (take_bit k y :: nat)"
  by (rule disjunctive_add_eq_or [symmetric], rule bit_eqI) (auto simp: bit_simps)

lemma join_bytes: "l < 256 \<Longrightarrow> or (push_bit 8 h) l = h * 256 + (l :: nat)"
  using or_bits [of 8 h l] by (simp add: take_bit_eq_mod push_bit_eq_mult)

lemma header_high_bits: "and (or (push_bit k x) (take_bit k y)) (push_bit k x) = (push_bit k x :: nat)"
  by (rule bit_eqI) (auto simp: bit_simps)

lemma low_bits: "and (or (push_bit k x) (take_bit k y)) (mask k) = (take_bit k y :: nat)"
  by (rule bit_eqI) (auto simp: bit_simps)

lemma pointer_mark: "h < 64 \<Longrightarrow> and (192 + h) 0xC0 = (0xC0 :: nat) \<and> and (192 + h) 0x3F = h"
  using or_bits [of 6 3 h] header_high_bits [of 6 3 h] low_bits [of 6 3 h]
  by (simp add: take_bit_eq_mod push_bit_eq_mult mask_eq_exp_minus_1)

lemma scan_loop_pointer:
  assumes msg: "msg = pre @ pointer_bytes off @ post" and off: "off < 16384" "off < ssp" "ssp \<le> length pre"
    and siz: "1 < siz - int (length np)" "lev < 31"
  shows "scan_loop msg ssp siz lev (length pre) np =
    map_option (\<lambda>(t, _). (np @ t, length pre + 2)) (scanName msg off (siz - int (length np)) (lev + 1))"
proof -
  have h: "off div 256 < 64" using off(1) by simp
  have m: "length pre < length msg" "uc (msg ! length pre) = 192 + off div 256" "length pre + 1 < length msg"
    "uc (msg ! (length pre + 1)) = off mod 256"
    using msg h by (simp_all add: pointer_bytes_def nth_append uc_def)
  have "or (push_bit 8 (off div 256)) (off mod 256) = off" by (simp add: join_bytes)
  moreover have "and (192 + off div 256) 0xC0 = 0xC0" "and (192 + off div 256) 0x3F = off div 256"
    using pointer_mark [OF h] by simp_all
  ultimately show ?thesis
    using m off siz by (subst scan_loop.simps) (simp add: Let_def scanName_def)
qed

subsection \<open>The bound of a decoded name\<close>

text \<open>
  What has been read of a name is at most one byte more than what it has put into the buffer: a label of
  \<open>n\<close> characters takes \<open>n + 1\<close> bytes and puts \<open>n + 1\<close> characters, the dot being left out only when
  the name ends. So the size of the buffer bounds what is read.
\<close>

lemma scan_loop_bound:
  "int (length np) < siz \<Longrightarrow> ssp + nat siz < length msg \<Longrightarrow>
   sp = ssp + length np \<or> sp = ssp + length np + 1 \<and> msg ! sp = NUL \<Longrightarrow>
   \<exists>t p. scan_loop msg ssp siz lev sp np = Some (t, p) \<and> int (length t) < siz \<and> sp < p \<and> p \<le> ssp + nat siz + 1"
proof (induction msg ssp siz lev sp np rule: scan_loop.induct)
  case (1 msg ssp siz lev sp np)
  have room: "int (length (room siz np u)) < siz" for u using "1.prems"(1) by (auto simp: room_def min_def)
  define len where "len = uc (msg ! sp)"
  define off where "off = or (push_bit 8 (and len 0x3F)) (uc (msg ! (sp + 1)))"
  define np' where "np' = np @ take len (drop (sp + 1) msg) @ (if msg ! (sp + 1 + len) \<noteq> NUL then ''.'' else [])"
  have sp: "sp < length msg" "sp \<le> ssp + nat siz" using "1.prems" by auto
  note unf = scan_loop.simps [of msg ssp siz lev sp np, unfolded Let_def, folded len_def, folded off_def, folded np'_def]
  have np: "sp = ssp + length np" if "len \<noteq> 0" using "1.prems"(3) that by (auto simp: len_def uc_def)
  consider "len = 0" | "len \<noteq> 0" "and len 0xC0 \<noteq> 0" | "len \<noteq> 0" "and len 0xC0 = 0" by blast
  then show ?case
  proof cases
    case 1
    then show ?thesis using unf sp "1.prems"(1) by auto
  next
    case 2
    have sp1: "sp + 1 < length msg" "sp + 1 \<le> ssp + nat siz" using np 2 "1.prems"(1,2) by auto
    show ?thesis
    proof (cases "and len 0xC0 = 0xC0 \<and> \<not> sp + 2 \<le> off \<and> \<not> (sp + 2 - 2 \<le> off \<or> ssp \<le> off)
        \<and> \<not> (siz - int (length np) \<le> 1 \<or> 32 \<le> lev + 1)")
      case True
      have "off + nat (siz - int (length np)) < length msg" using True "1.prems"(2) by auto
      then obtain u q where u: "scan_loop msg off (siz - int (length np)) (lev + 1) off [] = Some (u, q)"
          "int (length u) < siz - int (length np)"
        using "1.IH"(1) [of len "sp + 1" "uc (msg ! (sp + 1))" "sp + 2" off "siz - int (length np)"] sp sp1 2 True
        by (auto simp: len_def off_def)
      have "scan_loop msg ssp siz lev sp np = Some (np @ u, sp + 2)" using unf sp sp1 2 True u(1) by auto
      then show ?thesis using u(2) sp1 by simp
    next
      case False
      then show ?thesis using unf sp sp1 2 room "1.prems"(1) by auto
    qed
  next
    case 3
    show ?thesis
    proof (cases "siz - int (length np) < int len + 2")
      case True
      then show ?thesis using unf sp 3 "1.prems"(1) by auto
    next
      case False
      have l: "sp + 1 + len < length msg" "sp + 1 + len < ssp + nat siz" using np 3 False "1.prems"(2) by linarith+
      have n: "length (take len (drop (sp + 1) msg)) = len" using l(1) by simp
      then have "int (length np') < siz" "sp + 1 + len = ssp + length np' \<or>
          sp + 1 + len = ssp + length np' + 1 \<and> msg ! (sp + 1 + len) = NUL"
        using False np 3 by (auto simp: np'_def)
      then obtain t p where "scan_loop msg ssp siz lev (sp + 1 + len) np' = Some (t, p)" "int (length t) < siz"
          "sp + 1 + len < p" "p \<le> ssp + nat siz + 1"
        using "1.IH"(2) [of len "sp + 1"] l sp 3 False "1.prems"(2) by (auto simp: len_def np'_def)
      moreover have "scan_loop msg ssp siz lev sp np = scan_loop msg ssp siz lev (sp + 1 + len) np'"
        using unf sp 3 False l by simp
      ultimately show ?thesis by auto
    qed
  qed
qed

subsection \<open>Records\<close>

lemma vwrote_bytes: "vwrote n v s \<Longrightarrow> length s < n \<Longrightarrow> vpos v = int (length s) \<and> take (length s) (vmem v) = s"
  by (auto simp: vwrote_def min_def split: if_splits)

lemma vwrote_msg: "vwrote n v s \<Longrightarrow> length s < n \<Longrightarrow> nat (vpos v) = length s \<and> take (nat (vpos v)) (vmem v) = s"
  using vwrote_bytes [of n v s] by simp

lemma vwrote_raw: "vwrote n v s \<Longrightarrow> length s < n \<Longrightarrow> vwrote n (raw_put v c) (s @ [c])"
  using vwrote_put [of n v s c]
  by (auto simp: raw_put_def setVStrPtrInc_def rangeOK_def vwrote_def UTail_def vsize_def min_def split: if_splits)

lemma vwrote_short: "vwrote n v s \<Longrightarrow> length s + 1 < n \<Longrightarrow> vwrote n (putShort v k) (s @ short_bytes k)"
  using vwrote_raw [OF vwrote_raw [of n v s], of "byte (drop_bit 8 k)" "byte k"] by (simp add: putShort_def short_bytes_def)

lemma vwrote_long: "vwrote n v s \<Longrightarrow> length s + 3 < n \<Longrightarrow> vwrote n (putLong v k) (s @ long_bytes k)"
  using vwrote_short [OF vwrote_short [of n v s "drop_bit 16 k"], of k] by (simp add: putLong_def long_bytes_def short_bytes_def)

lemma vwrote_bcopy:
  assumes w: "vwrote n v s" and fit: "length s + length data < n"
  shows "vwrote n ((Xbcopy data v (int (length data)))\<lparr>vpos := vpos v + int (length data)\<rparr>) (s @ data)"
proof -
  have v: "vok v" "length (vmem v) = n" "vpos v = int (length s)" "take (length s) (vmem v) = s"
    using w fit by (auto simp: vwrote_def min_def split: if_splits)
  have "Xbcopy data v (int (length data)) = store_all v (int (length s)) data"
    using v fit by (simp add: Xbcopy_def outofrange_def UTail_def vsize_def)
  moreover have "vmem (store_all v (int (length s)) data) = s @ data @ drop (length s + length data) (vmem v)"
    using v fit by (subst store_all_mem) (simp_all add: vsize_def)
  moreover have "vok (store_all v (int (length s)) data)" using v fit by (simp add: vsize_def)
  ultimately show ?thesis using v fit by (simp add: vwrote_def)
qed

definition rr_bytes :: "string list \<Rightarrow> int \<Rightarrow> int \<Rightarrow> string \<Rightarrow> string" where
  "rr_bytes ls type ttl data =
     enc_labels ls @ NUL # short_bytes type @ short_bytes 1 @ long_bytes ttl @ short_bytes (int (length data)) @ data"

lemma length_rr_bytes: "length (rr_bytes ls type ttl data) = length (enc_labels ls) + 11 + length data"
  by (simp add: rr_bytes_def short_bytes_def long_bytes_def)

lemma vwrote_rr_head:
  assumes "list_all wire_label ls" "vwrote n v s" "length s + length (enc_labels ls) + 11 < n"
  shows "vwrote n (putShort (putLong (putShort (putShort (putName v (dotted ls)) type) 1) ttl) k)
    (s @ enc_labels ls @ NUL # short_bytes type @ short_bytes 1 @ long_bytes ttl @ short_bytes k)"
proof -
  have "vwrote n (putName v (dotted ls)) (s @ enc_labels ls @ [NUL])" using assms by (intro putName_enc) auto
  from vwrote_short [OF vwrote_long [OF vwrote_short [OF vwrote_short [OF this]]], of type 1 ttl k] assms(3)
  show ?thesis by (simp add: short_bytes_def long_bytes_def)
qed

lemma putRR_bytes:
  assumes "list_all wire_label ls" "vwrote n v s" "length s + length (rr_bytes ls type ttl data) < n"
  shows "vwrote n (putRR v (dotted ls) type ttl (length data) data) (s @ rr_bytes ls type ttl data)"
  using vwrote_bcopy [OF vwrote_rr_head [OF assms(1,2), of type ttl "int (length data)"], of data] assms(3)
  by (simp add: putRR_def Let_def length_rr_bytes rr_bytes_def short_bytes_def long_bytes_def)

lemma put_addrs_bytes:
  "list_all wire_label ls \<Longrightarrow> vwrote n v s \<Longrightarrow> list_all (\<lambda>a. length a = k) as \<Longrightarrow>
   length s + length as * (length (enc_labels ls) + 11 + k) < n \<Longrightarrow>
   vwrote n (put_addrs v (dotted ls) type ttl k as) (s @ concat (map (rr_bytes ls type ttl) as))"
proof (induction as arbitrary: v s)
  case (Cons a as)
  have "vwrote n (putRR v (dotted ls) type ttl k a) (s @ rr_bytes ls type ttl a)"
    using putRR_bytes [OF Cons.prems(1,2), of type ttl a] Cons.prems(3,4) by (simp add: length_rr_bytes)
  from Cons.IH [OF Cons.prems(1) this] show ?case using Cons.prems by (simp add: put_addrs_def length_rr_bytes)
qed (simp add: put_addrs_def)

text \<open>A store outside the buffer stays recorded.\<close>

named_theorems bad_stays \<open>operations that keep the flag of a bad store\<close>

lemma vbad_vstore [bad_stays]: "vbad v \<Longrightarrow> vbad (vstore v i c)"
  by (simp add: vstore_def)

lemma vbad_store_all [bad_stays]: "vbad v \<Longrightarrow> vbad (store_all v e s)"
  by (induction s arbitrary: v e) (simp_all add: vbad_vstore)

lemma vbad_XsetVStrEnd [bad_stays]: "vbad v \<Longrightarrow> vbad (fst (XsetVStrEnd v x))"
  by (simp add: XsetVStrEnd_def vbad_vstore)

lemma vbad_setVStrPtrInc [bad_stays]: "vbad v \<Longrightarrow> vbad (setVStrPtrInc v c)"
  by (simp add: setVStrPtrInc_def vbad_vstore vbad_XsetVStrEnd)

lemma vbad_Xstrcpy [bad_stays]: "vbad v \<Longrightarrow> vbad (Xstrcpy v s)"
  by (simp add: Xstrcpy_def Let_def Xstrcpy_loop_store_all vbad_store_all)

lemma vbad_skip_text [bad_stays]: "vbad v \<Longrightarrow> vbad (skip_text v)"
  by (simp add: skip_text_def Let_def)

lemma vbad_raw_put [bad_stays]: "vbad v \<Longrightarrow> vbad (raw_put v c)"
  by (simp add: raw_put_def vbad_vstore)

lemma vbad_Xbcopy [bad_stays]: "vbad v \<Longrightarrow> vbad (Xbcopy s v z)"
  by (simp add: Xbcopy_def Let_def vbad_store_all)

lemma vbad_putName_loop [bad_stays]: "vbad v \<Longrightarrow> vbad (putName_loop v np)"
proof (induction v np rule: putName_loop.induct)
  case (1 qp np)
  show ?case using 1 by (subst putName_loop.simps) (auto simp: Let_def bad_stays)
qed

lemma vbad_putRR [bad_stays]: "vbad v \<Longrightarrow> vbad (putRR v name type ttl leng data)"
  by (simp add: putRR_def putName_def putShort_def putLong_def Let_def bad_stays)

lemma vbad_put_addrs [bad_stays]: "vbad v \<Longrightarrow> vbad (put_addrs v name type ttl leng as)"
  by (induction as arbitrary: v) (simp_all add: put_addrs_def bad_stays)

lemma raw_put_outside: "vsize v \<le> vpos v \<Longrightarrow> vbad (raw_put v c)"
  by (simp add: raw_put_def vstore_def)

lemma raw_puts_overrun:
  "vsize v \<le> vpos v + int (length s) - 1 \<Longrightarrow> s \<noteq> [] \<Longrightarrow> vbad (foldl raw_put v s)"
proof (induction s rule: rev_induct)
  case (snoc c s)
  have "vpos (foldl raw_put v s) = vpos v + int (length s) \<and> vsize (foldl raw_put v s) = vsize v"
    by (induction s rule: rev_induct) (simp_all add: raw_put_def)
  then show ?case using snoc.prems raw_put_outside [of "foldl raw_put v s" c] by simp
qed simp

lemma putRR_overrun:
  assumes "list_all wire_label ls" "vwrote n v s" "length s + length (enc_labels ls) + 1 < n" "n < length s + length (enc_labels ls) + 11"
  shows "vbad (putRR v (dotted ls) type ttl leng data)"
proof -
  let ?p = "putName v (dotted ls)"
  have w: "vwrote n ?p (s @ enc_labels ls @ [NUL])" using assms by (intro putName_enc) auto
  have e: "putShort (putLong (putShort (putShort ?p type) 1) ttl) (int leng)
      = foldl raw_put ?p (short_bytes type @ short_bytes 1 @ long_bytes ttl @ short_bytes (int leng))"
    by (simp add: putShort_def putLong_def short_bytes_def long_bytes_def)
  have "vbad (foldl raw_put ?p (short_bytes type @ short_bytes 1 @ long_bytes ttl @ short_bytes (int leng)))"
    using w assms(3,4) by (intro raw_puts_overrun) (auto simp: vwrote_def vsize_def short_bytes_def long_bytes_def)
  then show ?thesis by (simp add: putRR_def Let_def e bad_stays)
qed

lemma digit_split: "b < k \<Longrightarrow> (a * k + b) div k = a \<and> (a * k + b) mod k = (b :: nat)"
  by simp

lemma scanHeader_makeHeader:
  assumes "hid < 65536" "qr < 2" "oc < 16" "aa < 2" "tc < 2" "rd < 2" "ra < 2" "z < 8" "rc < 16"
    "qdc < 65536" "anc < 65536" "nsc < 65536" "arc < 65536"
  shows "\<exists>h. scanHeader (makeHeader (int hid) (int qr) (int oc) (int aa) (int tc) (int rd) (int ra) (int z) (int rc)
        (int qdc) (int anc) (int nsc) (int arc) @ rest) = Some (h, 12)
    \<and> h_id h = hid \<and> H_QR (h_M h) = qr \<and> H_OPCODE (h_M h) = oc \<and> H_AA (h_M h) = aa \<and> H_TC (h_M h) = tc
    \<and> H_RD (h_M h) = rd \<and> H_RA (h_M h) = ra \<and> H_Z (h_M h) = z \<and> H_RCODE (h_M h) = rc
    \<and> qdcount h = qdc \<and> ancount h = anc \<and> nscount h = nsc \<and> arcount h = arc"
proof -
  define f1 where "f1 = qr * 128 + oc * 8 + aa * 4 + tc * 2 + rd"
  define f2 where "f2 = ra * 128 + z * 16 + rc"
  have f: "f1 < 256" "f2 < 256" using assms(2-9) by (simp_all add: f1_def f2_def)
  have e1: "or (or (or (or (push_bit 7 (int qr)) (push_bit 3 (int oc))) (push_bit 2 (int aa))) (push_bit 1 (int tc))) (int rd) = int f1"
    using flag_byte1 [of "int qr" "int oc" "int aa" "int tc" "int rd"] assms(2-6) by (simp add: f1_def)
  have e2: "or (or (push_bit 7 (int ra)) (push_bit 4 (int z))) (int rc) = int f2"
    using flag_byte2 [of "int ra" "int z" "int rc"] assms(7-9) by (simp add: f2_def)
  let ?m = "makeHeader (int hid) (int qr) (int oc) (int aa) (int tc) (int rd) (int ra) (int z) (int rc)
        (int qdc) (int anc) (int nsc) (int arc)"
  have m: "?m = short_bytes (int hid) @ [byte (int f1), byte (int f2)] @ short_bytes (int qdc) @ short_bytes (int anc)
      @ short_bytes (int nsc) @ short_bytes (int arc)"
    unfolding makeHeader_def e1 e2 by (simp add: short_bytes_def)
  have M: "getShort (?m @ rest) 2 = Some (f1 * 256 + f2, 4)"
    using getShort_at [of 2 "short_bytes (int hid)" "byte (int f1)" "byte (int f2)"] f
    unfolding m by (simp add: short_bytes_def uc_byte_nat)
  have i: "getShort (?m @ rest) 0 = Some (hid, 2)" unfolding m
    using getShort_short [of "int hid" 0 "[]"] assms(1) by simp
  have q: "getShort (?m @ rest) 4 = Some (qdc, 6)" unfolding m
    using getShort_short [of "int qdc" 4 "short_bytes (int hid) @ [byte (int f1), byte (int f2)]"] assms(10)
    by (simp add: short_bytes_def)
  have a: "getShort (?m @ rest) 6 = Some (anc, 8)" unfolding m
    using getShort_short [of "int anc" 6 "short_bytes (int hid) @ [byte (int f1), byte (int f2)] @ short_bytes (int qdc)"] assms(11)
    by (simp add: short_bytes_def)
  have n: "getShort (?m @ rest) 8 = Some (nsc, 10)" unfolding m
    using getShort_short [of "int nsc" 8 "short_bytes (int hid) @ [byte (int f1), byte (int f2)] @ short_bytes (int qdc)
      @ short_bytes (int anc)"] assms(12) by (simp add: short_bytes_def)
  have r: "getShort (?m @ rest) 10 = Some (arc, 12)" unfolding m
    using getShort_short [of "int arc" 10 "short_bytes (int hid) @ [byte (int f1), byte (int f2)] @ short_bytes (int qdc)
      @ short_bytes (int anc) @ short_bytes (int nsc)"] assms(13) by (simp add: short_bytes_def)
  have "scanHeader (?m @ rest) = Some (\<lparr>h_id = hid, h_M = f1 * 256 + f2, qdcount = qdc, ancount = anc, nscount = nsc, arcount = arc\<rparr>, 12)"
    unfolding scanHeader_def by (simp add: i M q a n r)
  moreover have "H_QR (f1 * 256 + f2) = qr \<and> H_OPCODE (f1 * 256 + f2) = oc \<and> H_AA (f1 * 256 + f2) = aa \<and> H_TC (f1 * 256 + f2) = tc
      \<and> H_RD (f1 * 256 + f2) = rd \<and> H_RA (f1 * 256 + f2) = ra \<and> H_Z (f1 * 256 + f2) = z \<and> H_RCODE (f1 * 256 + f2) = rc"
    unfolding header_values
  proof -
    define m7 where "m7 = qr * 16 + oc"
    define m6 where "m6 = m7 * 2 + aa"
    define m5 where "m5 = m6 * 2 + tc"
    define m4 where "m4 = m5 * 2 + rd"
    define m3 where "m3 = m4 * 2 + ra"
    define m2 where "m2 = m3 * 8 + z"
    have M: "f1 * 256 + f2 = m2 * 16 + rc" by (simp add: f1_def f2_def m2_def m3_def m4_def m5_def m6_def m7_def)
    have d: "m2 div 8 = m3" "m2 mod 8 = z" "m3 div 2 = m4" "m3 mod 2 = ra" "m4 div 2 = m5" "m4 mod 2 = rd"
      "m5 div 2 = m6" "m5 mod 2 = tc" "m6 div 2 = m7" "m6 mod 2 = aa" "m7 div 16 = qr" "m7 mod 16 = oc" "qr mod 2 = qr"
      using digit_split [OF assms(8), of m3] digit_split [OF assms(7), of m4] digit_split [OF assms(6), of m5]
        digit_split [OF assms(5), of m6] digit_split [OF assms(4), of m7] digit_split [OF assms(3), of qr] assms(2)
      unfolding m2_def [symmetric] m3_def [symmetric] m4_def [symmetric] m5_def [symmetric] m6_def [symmetric] m7_def [symmetric]
      by simp_all
    have k: "(m2 * 16 + rc) div 16 = m2" "(m2 * 16 + rc) mod 16 = rc" using assms(9) by simp_all
    have c: "(32768 :: nat) = 16 * 8 * 2 * 2 * 2 * 2 * 16" "(2048 :: nat) = 16 * 8 * 2 * 2 * 2 * 2" "(1024 :: nat) = 16 * 8 * 2 * 2 * 2"
      "(512 :: nat) = 16 * 8 * 2 * 2" "(256 :: nat) = 16 * 8 * 2" "(128 :: nat) = 16 * 8" by simp_all
    show "(f1 * 256 + f2) div 32768 mod 2 = qr \<and> (f1 * 256 + f2) div 2048 mod 16 = oc \<and> (f1 * 256 + f2) div 1024 mod 2 = aa
        \<and> (f1 * 256 + f2) div 512 mod 2 = tc \<and> (f1 * 256 + f2) div 256 mod 2 = rd \<and> (f1 * 256 + f2) div 128 mod 2 = ra
        \<and> (f1 * 256 + f2) div 16 mod 8 = z \<and> (f1 * 256 + f2) mod 16 = rc"
      unfolding M unfolding c div_mult2_eq k d by simp
  qed
  ultimately show ?thesis by simp
qed

subsection \<open>Properties\<close>

text \<open>\<^verbatim>\<open>scanHeader\<close> and the macros for the flags read back every field \<^verbatim>\<open>makeHeader\<close> was given.\<close>

theorem header_roundtrip:
  assumes "hid < 65536" "qr < 2" "oc < 16" "aa < 2" "tc < 2" "rd < 2" "ra < 2" "z < 8" "rc < 16"
    "qdc < 65536" "anc < 65536" "nsc < 65536" "arc < 65536"
  shows "\<exists>h. scanHeader (makeHeader (int hid) (int qr) (int oc) (int aa) (int tc) (int rd) (int ra) (int z) (int rc)
        (int qdc) (int anc) (int nsc) (int arc) @ rest) = Some (h, 12)
    \<and> h_id h = hid \<and> H_QR (h_M h) = qr \<and> H_OPCODE (h_M h) = oc \<and> H_AA (h_M h) = aa \<and> H_TC (h_M h) = tc
    \<and> H_RD (h_M h) = rd \<and> H_RA (h_M h) = ra \<and> H_Z (h_M h) = z \<and> H_RCODE (h_M h) = rc
    \<and> qdcount h = qdc \<and> ancount h = anc \<and> nscount h = nsc \<and> arcount h = arc"
  using assms by (rule scanHeader_makeHeader)

theorem header_roundtrip_witness:
  "\<exists>h. scanHeader (makeHeader 4711 0 0 0 0 1 0 0 0 1 0 0 0) = Some (h, 12) \<and> h_id h = 4711 \<and> H_RD (h_M h) = 1 \<and> qdcount h = 1"
  using header_roundtrip [of 4711 0 0 0 0 1 0 0 0 1 0 0 0 "[]"] by auto

text \<open>C10: A question put behind the header of a message by \<^verbatim>\<open>makeQuestion\<close> is read back by \<^verbatim>\<open>scanQuery\<close>: name, type and class,
  and the pointer is at the end of the message.\<close>

theorem question_roundtrip:
  assumes "vwrote 2048 v head" and "length head = 12" and "list_all wire_label ls" and "ls \<noteq> []" and "length (dotted ls) \<le> 510"
    and "qtype < 65536" and "qclass < 65536"
  shows "\<exists>v'. makeQuestion v (dotted ls) (int qtype) (int qclass) = Some v' \<and> vok v'
    \<and> scanQuery (take (nat (vpos v')) (vmem v')) 12 512 = Some (dotted ls, qtype, qclass, nat (vpos v'))"
proof -
  note len = length_dotted_enc [OF assms(4)]
  let ?n = "head @ enc_labels ls @ [NUL]" and ?q = "putName v (dotted ls)"
  have w: "vwrote 2048 ?q ?n" using assms len by (intro putName_enc) auto
  let ?tail = "short_bytes (int qtype) @ short_bytes (int qclass)"
  let ?v = "foldl setVStrPtrInc ?q ?tail"
  have w': "vwrote 2048 ?v (?n @ ?tail)"
    using vwrote_put [OF vwrote_put [OF vwrote_put [OF vwrote_put [OF w]]]] by (simp add: short_bytes_def)
  have fit: "length (?n @ ?tail) < 2048" using assms(2,5) len by (simp add: short_bytes_def)
  have msg: "nat (vpos ?v) = length (?n @ ?tail)" "take (nat (vpos ?v)) (vmem ?v) = ?n @ ?tail"
    using vwrote_msg [OF w' fit] by blast+
  obtain l ls' where l: "ls = l # ls'" "wire_label l" using assms(3,4) by (cases ls) auto
  have "take (length ?n) (vmem ?q) ! 12 = ?n ! 12" using vwrote_bytes [OF w] fit by simp
  moreover have "?n ! 12 = char_of (length l)" using assms(2) l by (simp add: nth_append)
  moreover have "12 < length ?n" using assms(2) by simp
  moreover have "length (vmem ?q) = 2048" using w by (simp add: vwrote_def)
  ultimately have first: "chr_at (vmem ?q) 12 = char_of (length l)" using fit by (simp add: chr_at_def)
  have "uc (char_of (length l)) \<noteq> uc NUL" using l(2) by (auto simp: wire_label_def uc_def)
  then have "chr_at (vmem ?q) 12 \<noteq> NUL" using first by auto
  moreover have "vpos v = 12" using vwrote_bytes [OF assms(1)] assms(2) by simp
  ultimately have mk: "makeQuestion v (dotted ls) (int qtype) (int qclass) = Some ?v"
    by (simp add: makeQuestion_def Let_def short_bytes_def)
  have nm: "scanName (?n @ ?tail) 12 512 0 = Some (dotted ls, length ?n)"
    using scanName_enc [OF assms(3), of "?n @ ?tail" head ?tail 512 0] assms(2,5) len by simp
  have t: "getShort (?n @ ?tail) (length ?n) = Some (qtype, length ?n + 2)"
    using getShort_short [of "int qtype" "length ?n" ?n "short_bytes (int qclass)"] assms(6) by (simp add: short_bytes_def)
  have c: "getShort (?n @ ?tail) (length ?n + 2) = Some (qclass, length ?n + 4)"
    using getShort_short [of "int qclass" "length ?n + 2" "?n @ short_bytes (int qtype)" "[]"] assms(7) by (simp add: short_bytes_def)
  have "nonul (dotted ls)" using assms(3) by (intro nonul_dotted) (auto simp: wire_label_def list_all_iff)
  then have sq: "scanQuery (?n @ ?tail) 12 512 = Some (dotted ls, qtype, qclass, length ?n + 4)"
    unfolding scanQuery_def nm by (simp only: bind.simps prod.case t c cstr_nonul)
  have pos: "nat (vpos ?v) = length ?n + 4" unfolding msg(1) by (simp add: short_bytes_def)
  have "scanQuery (take (nat (vpos ?v)) (vmem ?v)) 12 512 = Some (dotted ls, qtype, qclass, nat (vpos ?v))"
    using sq unfolding msg(2) by (simp only: pos)
  moreover have "vok ?v" using w' unfolding vwrote_def by (rule conjunct1)
  ultimately show ?thesis using mk by blast
qed

theorem question_roundtrip_witness:
  "\<exists>v v'. makeQuestion v ''www.example.com'' 1 1 = Some v'
    \<and> scanQuery (take (nat (vpos v')) (vmem v')) 12 512 = Some (''www.example.com'', 1, 1, nat (vpos v'))"
proof -
  let ?h = "makeHeader 7 0 0 0 0 1 0 0 0 1 0 0 0" and ?ls = "[''www'', ''example'', ''com'']"
  obtain v where v: "vwrote 2048 v ?h"
    using vsink.wrote_puts [OF vwrote_new, of 2048 ?h] by fastforce
  have "list_all wire_label ?ls" by code_simp
  moreover have "length ?h = 12" by (simp add: makeHeader_def)
  ultimately show ?thesis using question_roundtrip [OF v, of ?ls 1 1] by auto
qed

text \<open>C22: A compressed name, labels followed by a pointer to labels earlier in the message, is decoded to all its labels,
  and the pointer of the caller ends behind the two bytes of the pointer.\<close>

theorem compressed_name_read:
  assumes "list_all wire_label (ls @ ms)" and "ms \<noteq> []" and "msg = a @ enc_labels ms @ NUL # b @ enc_labels ls @ pointer_bytes (length a) @ c"
    and "length a < 16384" and "int (length (enc_labels (ls @ ms))) + 1 \<le> siz"
  shows "scanName msg (length (a @ enc_labels ms @ NUL # b)) siz 0
    = Some (dotted (ls @ ms), length (a @ enc_labels ms @ NUL # b @ enc_labels ls @ pointer_bytes (length a)))"
proof -
  let ?p = "a @ enc_labels ms @ NUL # b"
  have wl: "list_all wire_label ls" "list_all wire_label ms" using assms(1) by simp_all
  have len: "length (enc_labels ms) = length (dotted ms) + 1" using length_dotted_enc [OF assms(2)] .
  have siz: "int (length (enc_labels ls) + length (enc_labels ms)) + 1 \<le> siz" using assms(5) by (simp add: enc_labels_def)
  let ?np = "dotted ls @ (if ls \<noteq> [] then ''.'' else [])"
  have np: "length ?np = length (enc_labels ls)" by (cases "ls = []") (simp_all add: length_dotted_enc)
  have first: "hd (pointer_bytes (length a) @ c) \<noteq> NUL"
  proof -
    have "uc (char_of (192 + length a div 256)) \<noteq> uc NUL" using assms(4) by (simp add: uc_def [of NUL])
    then show ?thesis by (auto simp: pointer_bytes_def)
  qed
  have m: "msg = ?p @ enc_labels ls @ (pointer_bytes (length a) @ c)" using assms(3) by simp
  have "scanName msg (length ?p) siz 0 = scan_loop msg (length ?p) siz 0 (length ?p) []"
    using siz len by (simp add: scanName_def)
  also have "\<dots> = scan_loop msg (length ?p) siz 0 (length ?p + length (enc_labels ls)) ?np"
    using scan_loop_enc [OF wl(1) m _ refl, of "[]" siz "length ?p" 0] first siz by (simp add: pointer_bytes_def)
  also have "\<dots> = map_option (\<lambda>(t, _). (?np @ t, length (?p @ enc_labels ls) + 2))
      (scanName msg (length a) (siz - int (length ?np)) (0 + 1))"
    unfolding length_append [symmetric]
    by (rule scan_loop_pointer [where post = c]) (use m assms(4) siz np len in simp_all)
  also have "scanName msg (length a) (siz - int (length ?np)) (0 + 1) = Some (dotted ms, length a + length (enc_labels ms) + 1)"
    unfolding np
    by (rule scanName_enc [OF wl(2), where post = "b @ enc_labels ls @ pointer_bytes (length a) @ c"]) (use assms(3) siz len in simp_all)
  finally have r: "scanName msg (length ?p) siz 0 = Some (?np @ dotted ms, length (?p @ enc_labels ls) + 2)" by simp
  have "?np @ dotted ms = dotted (ls @ ms)"
    using assms(2) by (induction ls rule: dotted.induct) (simp_all add: dotted_Cons)
  then show ?thesis unfolding r by (simp add: pointer_bytes_def)
qed

theorem compressed_name_read_witness:
  "scanName (''xx'' @ enc_labels [''example'', ''com''] @ NUL # [] @ enc_labels [''www''] @ pointer_bytes (length ''xx'') @ [])
      (length (''xx'' @ enc_labels [''example'', ''com''] @ NUL # [])) 512 0
    = Some (''www.example.com'', length (''xx'' @ enc_labels [''example'', ''com''] @ NUL # [] @ enc_labels [''www''] @ pointer_bytes (length ''xx'')))"
proof -
  have "list_all wire_label ([''www''] @ [''example'', ''com''])" by code_simp
  from compressed_name_read [OF this _ refl, of "''xx''" 512 "[]" "[]"] show ?thesis by simp
qed

text \<open>C19: Whatever bytes a message and the memory behind it hold, and wherever in it a name is said to start, \<^verbatim>\<open>scanName\<close>
  returns: it puts fewer characters into its buffer than the size it was told, so that the terminator fits, follows pointers
  only backwards and to a bounded depth, and reads at most one byte more from the start of the name than the size
  of the buffer. The message itself does not bound it: with a buffer of 512 bytes a name that is not terminated is read up to
  that far behind the end.\<close>

theorem scanName_bounded:
  assumes "1 \<le> siz" and "ssp + nat siz < length mem"
  shows "\<exists>t p. scanName mem ssp siz lev = Some (t, p) \<and> int (length t) < siz \<and> ssp \<le> p \<and> p \<le> ssp + nat siz + 1"
proof (cases "siz \<le> 1 \<or> 32 \<le> lev")
  case True
  then show ?thesis using assms(1) by (simp add: scanName_def)
next
  case False
  then have "int (length ([]::string)) < siz" by simp
  from scan_loop_bound [OF this assms(2), of ssp lev] show ?thesis using False by (auto simp: scanName_def)
qed

theorem scanName_bounded_witness:
  "\<exists>t p. scanName (replicate 600 CHR 0xC0) 20 512 0 = Some (t, p) \<and> int (length t) < 512 \<and> 20 \<le> p \<and> p \<le> 533"
  using scanName_bounded [of 512 20 "replicate 600 CHR 0xC0" 0] by simp

text \<open>A label of more than 63 characters is sent as two labels, and the character between them is lost: the query is for another name.\<close>

theorem long_label_split:
  assumes "label_ok l" and "64 < length l" and "length l \<le> 127"
  shows "putName v l = putName v (take 63 l @ CHR ''.'' # drop 64 l)"
proof -
  let ?a = "take 63 l" and ?b = "drop 64 l"
  have l: "\<forall>c \<in> set l. c \<noteq> CHR ''.''" using assms(1) by (auto simp: label_ok_def)
  have a: "wire_label ?a" using assms by (auto simp: wire_label_def label_ok_def nonul_def dest: in_set_takeD)
  have ne: "l \<noteq> []" "hd l \<noteq> CHR ''.''" using assms(2) l by (cases l; auto)+
  have tw: "takeWhile (\<lambda>c. c \<noteq> CHR ''.'') l = l" using l by (simp add: takeWhile_eq_all_conv)
  have rest: "drop 63 l \<noteq> []" "tl (drop 63 l) = ?b" using assms(2) by (simp_all add: tl_drop drop_Suc flip: drop_Suc)
  have "putName_loop v l = putName_loop (skip_text (Xstrcpy (setVStrPtrInc v (char_of (length ?a))) ?a)) ?b"
    unfolding putName_loop.simps [of v l] tw using ne rest assms(2) by (simp add: Let_def min_def)
  also have "\<dots> = putName_loop v (?a @ CHR ''.'' # ?b)"
    using putName_loop_step [OF a, of "CHR ''.'' # ?b" v] by (simp add: Let_def)
  finally show ?thesis by (simp add: putName_def)
qed

theorem long_label_split_witness:
  "putName (new_vstr 512) (replicate 63 CHR ''a'' @ ''Xb'') = putName (new_vstr 512) (replicate 63 CHR ''a'' @ ''.b'')"
proof -
  have "label_ok (replicate 63 CHR ''a'' @ ''Xb'')" by (simp add: label_ok_def nonul_def)
  from long_label_split [OF this, of "new_vstr 512"] show ?thesis by simp
qed

text \<open>\<^verbatim>\<open>scanName\<close> is not told where the message ends: a query whose name is not terminated makes it read on behind the message.\<close>

theorem unterminated_name_read_on:
  assumes "list_all wire_label ls" and "length (enc_labels ls) \<le> 510" and "ls \<noteq> []"
  shows "scanQuery (head @ enc_labels ls) (length head) 512 = None"
proof -
  obtain ks l where ls: "ls = ks @ [l]" using assms(3) by (metis rev_exhaust)
  have wl: "list_all wire_label ks" "wire_label l" using assms(1) ls by simp_all
  have e: "enc_labels ls = enc_labels ks @ char_of (length l) # l" using ls by (simp add: enc_labels_def enc_label_def)
  let ?m = "head @ enc_labels ls" and ?p = "length head + length (enc_labels ks)"
  have len: "length l \<noteq> 0" "length l \<le> 63" using wl(2) by (simp_all add: wire_label_def)
  have "uc (char_of (length l)) \<noteq> uc NUL" using len by (simp add: uc_def)
  then have first: "char_of (length l) \<noteq> NUL" by auto
  have np: "length (dotted ks @ (if ks \<noteq> [] then ''.'' else [])) = length (enc_labels ks)"
    by (cases "ks = []") (simp_all add: length_dotted_enc)
  have "scan_loop ?m (length head) 512 0 (length head) [] = scan_loop ?m (length head) 512 0 ?p (dotted ks @ (if ks \<noteq> [] then ''.'' else []))"
    using scan_loop_enc [OF wl(1) _ _ refl, of ?m head "char_of (length l) # l" "[]" 512 "length head" 0] e first assms(2) by simp
  also have "\<dots> = None"
    using e len np assms(2) by (subst scan_loop.simps) (simp add: Let_def nth_append low_length)
  finally show ?thesis by (simp add: scanQuery_def scanName_def)
qed

theorem unterminated_name_read_on_witness:
  "scanQuery (makeHeader 1 0 0 0 0 1 0 0 0 1 0 0 0 @ enc_labels [''victim'']) 12 512 = None"
proof -
  have "list_all wire_label [''victim'']" "length (makeHeader 1 0 0 0 0 1 0 0 0 1 0 0 0) = 12"
    by (simp_all add: wire_label_def label_ok_def makeHeader_def)
  then show ?thesis using unterminated_name_read_on [of "[''victim'']" "makeHeader 1 0 0 0 0 1 0 0 0 1 0 0 0"] by simp
qed

text \<open>The addresses of a host are answered by one record each, and the bytes of the answer are the encodings of the records, as long as they fit into
  the buffer of 2048 bytes.\<close>

theorem address_answer_bytes:
  assumes "list_all wire_label ls" and "h_addrtype h \<noteq> AF_INET6" and "list_all (\<lambda>a. length a = h_length h) (h_addr_list h)"
    and "length (h_addr_list h) * (length (enc_labels ls) + 11 + h_length h) < 2048"
  shows "\<exists>v. putRR_A ttl (new_vstr 2048) (dotted ls) (Some h) = (v, length (h_addr_list h)) \<and> vok v
    \<and> take (nat (vpos v)) (vmem v) = concat (map (rr_bytes ls 1 ttl) (h_addr_list h))"
proof -
  let ?v = "put_addrs (new_vstr 2048) (dotted ls) 1 ttl (h_length h) (h_addr_list h)"
  have w: "vwrote 2048 ?v (concat (map (rr_bytes ls 1 ttl) (h_addr_list h)))"
    using put_addrs_bytes [OF assms(1) vwrote_new assms(3), of 2048 1 ttl] assms(4) by simp
  have "length (concat (map (rr_bytes ls 1 ttl) as)) = length as * (length (enc_labels ls) + 11 + k)"
    if "list_all (\<lambda>a. length a = k) as" for as k
    using that by (induction as) (simp_all add: length_rr_bytes)
  from this [OF assms(3)] have "length (concat (map (rr_bytes ls 1 ttl) (h_addr_list h))) < 2048" using assms(4) by (simp only:)
  then have "take (nat (vpos ?v)) (vmem ?v) = concat (map (rr_bytes ls 1 ttl) (h_addr_list h))" using vwrote_msg [OF w] by blast
  then show ?thesis using w assms(2) by (simp add: putRR_A_def vwrote_def)
qed

theorem address_answer_bytes_witness:
  "\<exists>v. putRR_A 60 (new_vstr 2048) ''a.b'' (Some \<lparr>h_name = ''a.b'', h_addrtype = 2, h_length = 4, h_addr_list = [''1234'']\<rparr>) = (v, 1)
    \<and> take (nat (vpos v)) (vmem v) = rr_bytes [''a'', ''b''] 1 60 ''1234''"
  using address_answer_bytes [of "[''a'', ''b'']" "\<lparr>h_name = ''a.b'', h_addrtype = 2, h_length = 4, h_addr_list = [''1234'']\<rparr>" 60]
  by (auto simp: wire_label_def label_ok_def AF_INET6_def)

text \<open>C39: The fixed part of a record is stored without a check of the end of the buffer, while its name and data are checked: when the
  record behind \<open>j\<close> records that fit into the 2048 bytes starts where its name still fits but the name and its fixed part of ten
  bytes do not, the answer is written behind the end of the buffer.\<close>

theorem address_answer_overrun:
  assumes "list_all wire_label ls" and "h_addrtype h \<noteq> AF_INET6" and "list_all (\<lambda>a. length a = h_length h) (h_addr_list h)"
    and "j < length (h_addr_list h)" and "j * (length (enc_labels ls) + 11 + h_length h) + length (enc_labels ls) + 1 < 2048"
    and "2048 < j * (length (enc_labels ls) + 11 + h_length h) + length (enc_labels ls) + 11"
  shows "vbad (fst (putRR_A ttl (new_vstr 2048) (dotted ls) (Some h)))"
proof -
  let ?as = "h_addr_list h" and ?k = "length (enc_labels ls) + 11 + h_length h"
  have as: "?as = take j ?as @ ?as ! j # drop (Suc j) ?as" using assms(4) by (simp add: id_take_nth_drop)
  let ?s = "concat (map (rr_bytes ls 1 ttl) (take j ?as))" and ?v = "put_addrs (new_vstr 2048) (dotted ls) 1 ttl (h_length h) (take j ?as)"
  have tk: "list_all (\<lambda>a. length a = h_length h) (take j ?as)" "length (take j ?as) = j"
    using assms(3,4) by (auto simp: list_all_iff dest: in_set_takeD)
  have w: "vwrote 2048 ?v ?s"
    using put_addrs_bytes [OF assms(1) vwrote_new tk(1), of 2048 1 ttl] tk(2) assms(5) by simp
  have len: "length (concat (map (rr_bytes ls 1 ttl) as)) = length as * ?k" if "list_all (\<lambda>a. length a = h_length h) as" for as
    using that by (induction as) (simp_all add: length_rr_bytes)
  have ls: "length ?s = j * ?k" using len [OF tk(1)] tk(2) by simp
  have "vbad (putRR ?v (dotted ls) 1 ttl (h_length h) (?as ! j))"
    by (rule putRR_overrun [OF assms(1) w]) (use assms(5,6) ls in simp_all)
  then have "vbad (put_addrs (new_vstr 2048) (dotted ls) 1 ttl (h_length h) ?as)"
    by (subst as) (simp add: put_addrs_def vbad_put_addrs [unfolded put_addrs_def])
  then show ?thesis using assms(2) by (simp add: putRR_A_def)
qed

theorem address_answer_overrun_witness:
  "vbad (fst (putRR_A 60 (new_vstr 2048) (replicate 26 CHR ''a'') (Some \<lparr>h_name = ''x'', h_addrtype = 2, h_length = 4, h_addr_list = replicate 60 ''1234''\<rparr>)))"
proof -
  have "wire_label (replicate 26 CHR ''a'')" by (simp add: wire_label_def label_ok_def nonul_def)
  then show ?thesis
    using address_answer_overrun [of "[replicate 26 CHR ''a'']"
        "\<lparr>h_name = ''x'', h_addrtype = 2, h_length = 4, h_addr_list = replicate 60 ''1234''\<rparr>" 48 60]
    by (simp add: AF_INET6_def list_all_iff)
qed

end
