(* ===== verification/DnsAnswer.thy ===== *)
theory DnsAnswer
  imports DnsCodec
begin

section \<open>DnsAnswer: from a response to the table of names\<close>

text \<open>
  The composition of the decoder with the table: what a response says is found under the name that was asked for.
\<close>

subsection \<open>Records of all nodes\<close>

text \<open>
  \<open>all_attrs P\<close>: the records of every node satisfy \<open>P\<close>. Entering a name keeps it when a node without records
  satisfies \<open>P\<close>, since it moves no records.
\<close>

definition all_attrs :: "(attr list \<Rightarrow> bool) \<Rightarrow> node list \<Rightarrow> bool" where
  "all_attrs P ns \<longleftrightarrow> (\<forall>i < length ns. P (n_attr (ns ! i)))"

lemma all_attrsD: "all_attrs P ns \<Longrightarrow> i < length ns \<Longrightarrow> P (n_attr (ns ! i))"
  by (simp add: all_attrs_def)

lemma all_attrs_mono: "all_attrs P ns \<Longrightarrow> (\<And>as. P as \<Longrightarrow> Q as) \<Longrightarrow> all_attrs Q ns"
  by (simp add: all_attrs_def)

lemma all_attrs_upd:
  assumes "all_attrs P (Nodes d)" "i < length (Nodes d) \<Longrightarrow> P (n_attr (nd d i)) \<Longrightarrow> P (n_attr (f (nd d i)))"
  shows "all_attrs P (Nodes (upd_node d i f))"
  unfolding all_attrs_def
proof (intro allI impI)
  fix j
  assume "j < length (Nodes (upd_node d i f))"
  then have "j < length (Nodes d)" by (simp add: upd_node_def)
  then show "P (n_attr (nd (upd_node d i f) j))"
    using assms by (cases "j = i") (simp_all add: upd_node_def all_attrs_def)
qed

lemma all_attrs_link:
  assumes "all_attrs P (Nodes d)" "P []" "link_child d p l = (d', i)"
  shows "all_attrs P (Nodes d')"
proof -
  obtain d1 j where n: "newnode d = (d1, j)" by (cases "newnode d")
  have "all_attrs P (Nodes d1)" using newnode_nodes [OF n] assms(1,2)
    by (simp add: all_attrs_def nth_append less_Suc_eq new_node_rec_def)
  then have "all_attrs P (Nodes (NewLabel d1 l))" by (simp add: NewLabel_nodes)
  then have "all_attrs P (Nodes (upd_node (upd_node (upd_node (NewLabel d1 l) j (\<lambda>n. n\<lparr>n_label := l, n_parent := Some p\<rparr>)) p
      (\<lambda>n. n\<lparr>n_child := Some j\<rparr>)) j (\<lambda>n. n\<lparr>n_peer := tp\<rparr>)))" for tp
    by (intro all_attrs_upd) simp_all
  then show ?thesis using assms(3) n by (auto simp: link_child_def Let_def)
qed

lemma all_attrs_nwalk:
  assumes "P []"
  shows "all_attrs P (Nodes d) \<Longrightarrow> nwalk d c p ls = Some (d', i) \<Longrightarrow> all_attrs P (Nodes d')"
proof (induction ls arbitrary: d p)
  case (Cons l ls)
  show ?case
  proof (cases "peer_search (Nodes d) l (n_child (nd d p))")
    case (Some r)
    show ?thesis
    proof (cases r)
      case None
      obtain d1 k where lk: "link_child d p l = (d1, k)" by (cases "link_child d p l")
      show ?thesis
      proof (cases c)
        case True
        then show ?thesis using Cons.IH [OF all_attrs_link [OF Cons.prems(1) assms lk], of k] Cons.prems(2) Some None lk by simp
      next
        case False
        then show ?thesis using Cons.prems Some None by simp
      qed
    next
      case (Some k)
      then show ?thesis using Cons.IH [OF Cons.prems(1), of k] Cons.prems(2) \<open>peer_search _ _ _ = Some r\<close> by simp
    qed
  qed (use Cons.prems in simp)
qed simp

lemma all_attrs_putbyname:
  assumes "all_attrs P (Nodes d)" "P []" "DNS_putbyname d name = Some (d', i)"
  shows "all_attrs P (Nodes d')"
  using assms(3) all_attrs_nwalk [OF assms(2,1)] unfolding DNS_putbyname_def nsearch_def Let_def
  by (auto split: option.splits intro!: all_attrs_upd)

text \<open>Storing a record keeps what holds of every record.\<close>

lemma all_attrs_putattr:
  assumes "all_attrs (list_all Q) (Nodes d)" "Q \<lparr>a_flag = flag, a_date = now, a_ttl = ttl, a_leng = leng, a_data = take leng data\<rparr>"
  shows "all_attrs (list_all Q) (Nodes (fst (DNS_putattr d now nid flag ttl data leng)))"
proof -
  obtain d1 i where n: "NewRecord d (attr_size + leng) = (d1, i)" by (cases "NewRecord d (attr_size + leng)")
  then have "Nodes d1 = Nodes d" by (auto simp: NewRecord_def Let_def)
  then show ?thesis using assms n by (auto simp: DNS_putattr_def intro!: all_attrs_upd)
qed

lemma all_attrs_getattr:
  assumes "all_attrs (list_all Q) (Nodes d)" "\<And>a. Q a \<Longrightarrow> Q (a\<lparr>a_flag := 0\<rparr>)"
  shows "all_attrs (list_all Q) (Nodes (fst (DNS_getattr d now nid flag ttl ac)))"
proof -
  have "list_all Q as \<Longrightarrow> list_all Q (expireattr now flag ttl as)" for as
    using assms(2) by (auto simp: expireattr_def list_all_iff)
  then have "all_attrs (list_all Q) (Nodes (upd_node d nid (\<lambda>n. n\<lparr>n_attr := expireattr now flag ttl (n_attr (nd d nid))\<rparr>)))"
    by (intro all_attrs_upd [OF assms(1)]) simp
  then show ?thesis by (simp add: DNS_getattr_def Let_def)
qed

lemma all_attrs_phase: "all_attrs P (Nodes d) \<Longrightarrow> all_attrs P (Nodes (fst (DNS_nodephase d nid ph)))"
  by (auto simp: DNS_nodephase_def intro!: all_attrs_upd)

lemma all_attrs_init: "P [] \<Longrightarrow> all_attrs P (Nodes init_dns)"
  by (simp add: all_attrs_def init_dns_def new_node_rec_def less_Suc_eq)

subsection \<open>Records keep their length\<close>

abbreviation attrs_ok :: "node list \<Rightarrow> bool" where
  "attrs_ok \<equiv> all_attrs (list_all (\<lambda>a. length (a_data a) \<le> a_leng a))"

lemma reach_attrs: "dns_reach d \<Longrightarrow> attrs_ok (Nodes d)"
proof (induction rule: dns_reach.induct)
  case start
  show ?case by (simp add: all_attrs_init)
next
  case (putname d name d' i)
  then show ?case by (auto intro: all_attrs_putbyname)
next
  case (putattr d nid leng now flag ttl data)
  then show ?case by (auto intro: all_attrs_putattr)
next
  case (getattr d nid now flag ttl ac)
  then show ?case by (auto intro: all_attrs_getattr)
next
  case (phase d nid ph)
  then show ?case by (auto intro: all_attrs_phase)
qed

lemma putattr_stored:
  assumes "attrs_ok (Nodes d)" "nid < length (Nodes d)" "length data = leng"
  shows "\<exists>a \<in> set (n_attr (nd (fst (DNS_putattr d now nid flag ttl data leng)) nid)). a_flag a = flag \<and> a_data a = data"
proof (cases "list_ex (\<lambda>a. flag = a_flag a \<and> leng = a_leng a \<and> take leng (a_data a) = take leng data) (n_attr (nd d nid))")
  case True
  then obtain a where a: "a \<in> set (n_attr (nd d nid))" "flag = a_flag a" "leng = a_leng a" "take leng (a_data a) = take leng data"
    by (auto simp: list_ex_iff)
  have "length (a_data a) \<le> a_leng a" using assms(1,2) a(1) by (auto simp: all_attrs_def list_all_iff)
  then have "a_data a = data" using a assms(3) by simp
  then show ?thesis using True a by (auto simp: DNS_putattr_def)
next
  case False
  obtain d1 i where n: "NewRecord d (attr_size + leng) = (d1, i)" by (cases "NewRecord d (attr_size + leng)")
  then have "Nodes d1 = Nodes d" by (auto simp: NewRecord_def Let_def)
  then show ?thesis using False n assms(2,3) by (auto simp: DNS_putattr_def upd_node_def)
qed

lemma getattr_all:
  assumes "a \<in> set (n_attr (nd d i))" "and flag (a_flag a) \<noteq> 0"
  shows "a_data a \<in> set (snd (DNS_getattr d now i flag 0 (int (length (n_attr (nd d i))))))"
proof -
  let ?l = "map a_data (filter (matches_flag flag) (n_attr (nd d i)))"
  have len: "length ?l \<le> length (n_attr (nd d i))" by simp
  have "snd (DNS_getattr d now i flag 0 (int (length (n_attr (nd d i)))))
      = take (if int (length (n_attr (nd d i))) \<le> 0 then 1 else nat (int (length (n_attr (nd d i))) - 0)) ?l"
    by (simp only: DNS_getattr_def expireattr_def Let_def snd_conv collect_attrs_take) simp
  moreover have "n_attr (nd d i) \<noteq> []" using assms(1) by auto
  ultimately have "snd (DNS_getattr d now i flag 0 (int (length (n_attr (nd d i))))) = ?l" using len by simp
  then show ?thesis using assms by (auto simp: matches_flag_def)
qed

subsection \<open>Entering names while reading a response\<close>

lemma put_reach:
  assumes "dns_reach d" "nonul name"
  obtains d' i where "DNS_putbyname d name = Some (d', i)" "dns_reach d'" "ids (Nodes d') (name_key name) = Some i"
    "ids (Nodes d) \<subseteq>\<^sub>m ids (Nodes d')"
  using putbyname_ids [OF reach_ok [OF assms(1)] assms(2)] dns_reach.putname [OF assms] that by metis

lemma ids_le: "m \<subseteq>\<^sub>m m' \<Longrightarrow> m k = Some v \<Longrightarrow> m' k = Some v"
  by (metis domI map_le_def)

lemma show_octets_dotted:
  "length bs = 4 \<Longrightarrow> scan_ds 4 (ltoa4 bs) = map (int \<circ> uc) bs"
proof -
  assume "length bs = 4"
  then obtain a b c e where bs: "bs = [a, b, c, e]" by (auto simp: numeral_eq_Suc length_Suc_conv)
  have s: "scan_d (show_nat (uc x) @ CHR ''.'' # t) = Some (int (uc x), CHR ''.'' # t)" for x t
  proof (rule scan_d_show_nat)
    show "uc x < 2 ^ 31" by (rule order.strict_trans [OF uc_less]) simp
    show "\<not> isdigit (hd0 (CHR ''.'' # t))" by (simp add: isdigit_def uc_def)
  qed
  have l: "scan_d (show_nat (uc x)) = Some (int (uc x), [])" for x
  proof -
    have "uc x < 2 ^ 31" by (rule order.strict_trans [OF uc_less]) simp
    moreover have "\<not> isdigit (hd0 [])" by (simp add: isdigit_def uc_def)
    ultimately show ?thesis by (metis scan_d_show_nat append_Nil2)
  qed
  show ?thesis by (simp add: bs ltoa4_def s l numeral_eq_Suc)
qed

lemma nonul_show_nat: "nonul (show_nat n)"
proof -
  have "\<not> isdigit NUL" by (simp add: isdigit_def uc_def)
  then show ?thesis using show_nat_digits [of n] by (auto simp: nonul_def list_all_iff)
qed

lemma nonul_rev_octets: "length bs = 4 \<Longrightarrow> nonul (rev_name (map (int \<circ> uc) bs))"
proof -
  assume "length bs = 4"
  then obtain a b c e where bs: "bs = [a, b, c, e]" by (auto simp: numeral_eq_Suc length_Suc_conv)
  show ?thesis by (simp add: bs rev_name_def print_int_def REVERSE_DOM_def nonul_show_nat)
qed

lemma putbyaddr_reach:
  assumes "dns_reach d" "length bs = 4"
  obtains d' i where "DNS_putbyaddr pton d (ltoa4 bs) = Some (d', i)" "dns_reach d'" "ids (Nodes d) \<subseteq>\<^sub>m ids (Nodes d')"
  using put_reach [OF assms(1) nonul_rev_octets [OF assms(2)]] that
  by (auto simp: DNS_putbyaddr_def show_octets_dotted [OF assms(2)] assms(2) Let_def)

lemma getLong_long:
  assumes "0 \<le> n" "n < 2 ^ 32" "p = length pre"
  shows "getLong (pre @ long_bytes n @ post) p = Some (word_of_int n, p + 4)"
proof -
  have h: "0 \<le> drop_bit 16 n" "drop_bit 16 n < 65536" using assms by (simp_all add: drop_bit_eq_div)
  have lo: "uc (byte (drop_bit 8 n)) * 256 + uc (byte n) = nat (n mod 65536)"
  proof -
    have "n mod 65536 div 256 = n div 256 mod 256" 
      using zmod_zmult2_eq [of 256 n 256] by simp
    then have "byte (drop_bit 8 n) = byte (drop_bit 8 (n mod 65536))" "byte n = byte (n mod 65536)"
      by (simp_all add: byte_def drop_bit_eq_div mod_mod_cancel)
    then show ?thesis using short_value [of "n mod 65536"] by simp
  qed
  have a: "getShort (pre @ long_bytes n @ post) p = Some (nat (drop_bit 16 n), p + 2)"
    using getShort_short [OF h assms(3), of "short_bytes n @ post"] by (simp add: long_bytes_def)
  have b: "getShort (pre @ long_bytes n @ post) (p + 2) = Some (nat (n mod 65536), p + 4)"
    using getShort_at [of "p + 2" "pre @ short_bytes (drop_bit 16 n)" "byte (drop_bit 8 n)" "byte n" post] assms(3) lo
    by (simp add: long_bytes_def short_bytes_def)
  have "int (nat (drop_bit 16 n) * 65536 + nat (n mod 65536)) = n"
    using assms(1) by (simp add: drop_bit_eq_div pos_imp_zdiv_nonneg_iff)
  then have "(of_nat (nat (drop_bit 16 n) * 65536 + nat (n mod 65536)) :: u32) = word_of_int n"
    by (metis of_int_of_nat_eq)
  then show ?thesis unfolding getLong_def a by (simp only: bind.simps prod.case b)
qed

subsection \<open>A response with one address\<close>

text \<open>The response to a query for the address of a name, whose answer refers to the name of the question.\<close>

definition a_response :: "nat \<Rightarrow> string list \<Rightarrow> nat \<Rightarrow> string \<Rightarrow> string" where
  "a_response hid ls ttl ip =
     makeHeader (int hid) 1 0 0 0 1 1 0 0 1 1 0 0 @ enc_labels ls @ NUL # short_bytes 1 @ short_bytes 1
     @ pointer_bytes 12 @ short_bytes 1 @ short_bytes 1 @ long_bytes (int ttl) @ short_bytes 4 @ ip"

lemma a_response_read:
  fixes hid ttl :: nat and ls :: "string list" and ip :: string and siz :: int
  assumes ls: "list_all wire_label ls" "ls \<noteq> []" "length (dotted ls) \<le> 510" and ip: "length ip = 4" and ttl: "ttl < 2 ^ 32"
  defines "m \<equiv> a_response hid ls ttl ip" and "q \<equiv> length (enc_labels ls) + 13"
  shows "length m = q + 20" "512 \<le> siz \<Longrightarrow> scanName m 12 siz 0 = Some (dotted ls, q)"
    "getShort m q = Some (1, q + 2)" "getShort m (q + 2) = Some (1, q + 4)" "scanName m (q + 4) 512 0 = Some (dotted ls, q + 6)"
    "getShort m (q + 6) = Some (1, q + 8)" "getShort m (q + 8) = Some (1, q + 10)" "getLong m (q + 10) = Some (of_nat ttl, q + 14)"
    "getShort m (q + 14) = Some (4, q + 16)" "bytes_at m (q + 16) 4 = Some ip"
proof -
  let ?h = "makeHeader (int hid) 1 0 0 0 1 1 0 0 1 1 0 0" and ?s1 = "short_bytes 1"
  note len = length_dotted_enc [OF ls(2)]
  have h: "length ?h = 12" by (simp add: makeHeader_def)
  have l2: "length (short_bytes n) = 2" for n by (simp add: short_bytes_def)
  have l4: "length (long_bytes n) = 4" for n by (simp add: long_bytes_def l2)
  have lp: "length (pointer_bytes n) = 2" for n by (simp add: pointer_bytes_def)
  define a where "a = ?h @ enc_labels ls @ [NUL]"
  have a: "length a = q" by (simp add: h q_def a_def)
  have m: "m = a @ ?s1 @ ?s1 @ pointer_bytes 12 @ ?s1 @ ?s1 @ long_bytes (int ttl) @ short_bytes 4 @ ip"
    by (simp add: m_def a_response_def a_def)
  show "length m = q + 20" unfolding m using a l2 l4 lp ip by simp
  have nm: "scanName m 12 siz lev = Some (dotted ls, q)" if "int (length (enc_labels ls)) + 1 \<le> siz" "lev < 32" for siz lev
    using scanName_enc [OF ls(1), of m ?h "?s1 @ ?s1 @ pointer_bytes 12 @ ?s1 @ ?s1 @ long_bytes (int ttl) @ short_bytes 4 @ ip" siz lev] that len
    by (simp add: m h q_def a_def add.commute)
  show "scanName m 12 siz 0 = Some (dotted ls, q)" if "512 \<le> siz" using nm [of siz 0] that ls(3) len by simp
  show "getShort m q = Some (1, q + 2)"
    unfolding m using getShort_short [of 1 q a] a by simp
  show "getShort m (q + 2) = Some (1, q + 4)"
    unfolding m using getShort_short [of 1 "q + 2" "a @ ?s1"] a l2 by simp
  have sl: "scan_loop m (q + 4) 512 0 (length (a @ ?s1 @ ?s1)) [] = map_option (\<lambda>(t, _). (([]::string) @ t, length (a @ ?s1 @ ?s1) + 2)) (scanName m 12 (512 - int (length ([]::string))) (0 + 1))"
    by (rule scan_loop_pointer [where post = "?s1 @ ?s1 @ long_bytes (int ttl) @ short_bytes 4 @ ip"])
      (use m a l2 in \<open>simp_all add: q_def\<close>)
  have q4: "length (a @ ?s1 @ ?s1) = q + 4" using a l2 by simp
  have "scanName m 12 (512 - int (length ([]::string))) (0 + 1) = Some (dotted ls, q)" using nm [of 512 1] ls(3) len by simp
  then have "scan_loop m (q + 4) 512 0 (q + 4) [] = Some (dotted ls, q + 6)" using sl unfolding q4 by simp
  then show "scanName m (q + 4) 512 0 = Some (dotted ls, q + 6)" by (simp add: scanName_def)
  show "getShort m (q + 6) = Some (1, q + 8)"
    unfolding m using getShort_short [of 1 "q + 6" "a @ ?s1 @ ?s1 @ pointer_bytes 12"] a l2 lp by simp
  show "getShort m (q + 8) = Some (1, q + 10)"
    unfolding m using getShort_short [of 1 "q + 8" "a @ ?s1 @ ?s1 @ pointer_bytes 12 @ ?s1"] a l2 lp by simp
  show "getLong m (q + 10) = Some (of_nat ttl, q + 14)"
    unfolding m using getLong_long [of "int ttl" "q + 10" "a @ ?s1 @ ?s1 @ pointer_bytes 12 @ ?s1 @ ?s1"] a l2 lp ttl by simp
  show "getShort m (q + 14) = Some (4, q + 16)"
    unfolding m using getShort_short [of 4 "q + 14" "a @ ?s1 @ ?s1 @ pointer_bytes 12 @ ?s1 @ ?s1 @ long_bytes (int ttl)"] a l2 l4 lp by simp
  show "bytes_at m (q + 16) 4 = Some ip"
    using \<open>length m = q + 20\<close> a l2 l4 lp ip by (simp add: bytes_at_def m)
qed

lemma dump_question_a:
  fixes hid :: nat
  assumes reach: "dns_reach (rs_dns st)" and ls: "list_all wire_label ls" "ls \<noteq> []" "length (dotted ls) \<le> 510"
    and ip: "length ip = 4" and ttl: "ttl < 2 ^ 32"
  defines "m \<equiv> a_response hid ls ttl ip" and "q \<equiv> length (enc_labels ls) + 13"
  obtains d where "question_step m st 12 = Some (st\<lparr>rs_dns := d\<rparr>, Some (q + 4))" "dns_reach d"
proof -
  note r = a_response_read [OF ls ip ttl, where hid = hid, folded m_def q_def]
  have nn: "nonul (dotted ls)" using ls(1) by (intro nonul_dotted) (auto simp: wire_label_def list_all_iff)
  obtain d1 i1 where d1: "DNS_putbyname (rs_dns st) (dotted ls) = Some (d1, i1)" "dns_reach d1" using put_reach [OF reach nn] by blast
  obtain d2 i2 where d2: "DNS_putbyname d1 (dotted ls) = Some (d2, i2)" "dns_reach d2" using put_reach [OF d1(2) nn] by blast
  have "scanQuery m 12 512 = Some (dotted ls, 1, 1, q + 4)"
    unfolding scanQuery_def r(2) [of 512, simplified] by (simp only: bind.simps prod.case r(3,4) cstr_nonul [OF nn])
  moreover have "\<not> length m \<le> 12" using r(1) by (simp add: q_def)
  ultimately have "dumpQuestion st m 12 = Some (st\<lparr>rs_dns := d2\<rparr>, Some (q + 4))" by (simp add: dumpQuestion_def d1 d2)
  then have "question_step m st 12 = Some (st\<lparr>rs_dns := d2\<rparr>, Some (q + 4))" using r(2) [of 1024] by (simp add: question_step_def)
  then show ?thesis using that d2 by blast
qed

lemma dump_answer_a:
  fixes hid :: nat
  assumes reach: "dns_reach (rs_dns st)" and ls: "list_all wire_label ls" "ls \<noteq> []" "length (dotted ls) \<le> 510"
    and ip: "length ip = 4" and ttl: "ttl < 2 ^ 32"
  defines "m \<equiv> a_response hid ls ttl ip" and "q \<equiv> length (enc_labels ls) + 13"
  obtains d i a where "dumpResourceRecord env True st m (q + 4) = Some (st\<lparr>rs_dns := d\<rparr>, Some (q + 20))" "dns_reach d"
    "DNS_getbyname d (dotted ls) = Some i" "i \<noteq> 0" "a \<in> set (n_attr (nd d i))" "a_flag a = typemask TY_A" "a_data a = rr_head 1 1 @ ip"
proof -
  note r = a_response_read [OF ls ip ttl, where hid = hid, folded m_def q_def]
  have nn: "nonul (dotted ls)" using ls(1) by (intro nonul_dotted) (auto simp: wire_label_def list_all_iff)
  obtain d1 i where d1: "DNS_putbyname (rs_dns st) (dotted ls) = Some (d1, i)" "dns_reach d1" "ids (Nodes d1) (name_key (dotted ls)) = Some i"
    using put_reach [OF reach nn] by blast
  obtain d2 j where d2: "DNS_putbyaddr (e_pton6 env) d1 (ltoa4 ip) = Some (d2, j)" "dns_reach d2" "ids (Nodes d1) \<subseteq>\<^sub>m ids (Nodes d2)"
    using putbyaddr_reach [OF d1(2) ip] by blast
  let ?rr = "rr_head 1 1 @ ip"
  define d3 where "d3 = fst (DNS_putattr d2 (e_now env) i (typemask TY_A) (of_nat ttl) ?rr (length ?rr))"
  have key: "ids (Nodes d2) (name_key (dotted ls)) = Some i" using ids_le [OF d2(3) d1(3)] .
  have i: "1 \<le> i" "i < length (Nodes d2)"
    using key ids_iff [of "Nodes d2"] reach_ok [OF d2(2)] by (simp_all add: dns_ok_def)
  have d3: "dns_reach d3" unfolding d3_def by (rule dns_reach.putattr [OF d2(2) i(2)]) (simp add: rr_head_def ip)
  have "ids (Nodes d3) = ids (Nodes d2)"
  proof -
    obtain e k where n: "NewRecord d2 (attr_size + length ?rr) = (e, k)" by (cases "NewRecord d2 (attr_size + length ?rr)")
    then have "Nodes e = Nodes d2" by (auto simp: NewRecord_def Let_def)
    then show ?thesis using n by (auto simp: d3_def DNS_putattr_def upd_node_ids same_place_def)
  qed
  then have g: "DNS_getbyname d3 (dotted ls) = Some i" using getbyname_nonzero [OF reach_ok [OF d3] nn] key i(1) by auto
  have "dump_addr env True d1 i 1 1 (of_nat ttl) m (q + 16) = Some d3"
    using r(10) d2(1) by (simp add: dump_addr_def store_rr_def d3_def ty_defs)
  moreover have "\<not> length m \<le> q + 4" using r(1) by simp
  ultimately have "dumpResourceRecord env True st m (q + 4) = Some (st\<lparr>rs_dns := d3\<rparr>, Some (q + 20))"
    unfolding dumpResourceRecord_def r(5) by (simp add: r(6-9) d1(1) cstr_nonul [OF nn] ty_defs)
  moreover have "i \<noteq> 0" using i(1) by simp
  ultimately show ?thesis
    using that d3 g putattr_stored [OF reach_attrs [OF d2(2)] i(2) refl, of "e_now env" "typemask TY_A" "of_nat ttl" ?rr] unfolding d3_def by blast
qed

subsection \<open>Properties\<close>

text \<open>C7: When a response to a query for the address of a name is read that has the question and one answer, whose name is a pointer to that of the question, the
  address is stored: the name is found in the table afterwards, and the address is among its records, whatever their age. The table stays reachable, so
  all its properties hold on.\<close>

theorem answer_is_stored:
  assumes "dns_reach (rs_dns st)" and "list_all wire_label ls" and "ls \<noteq> []" and "length (dotted ls) \<le> 510"
    and "length ip = 4" and "ttl < 2 ^ 32" and "hid < 65536"
  shows "\<exists>st' h i. dumpResponse env True st (a_response hid ls ttl ip) = Some (st', h, 1) \<and> h_id h = hid \<and> dns_reach (rs_dns st')
    \<and> DNS_getbyname (rs_dns st') (dotted ls) = Some i
    \<and> rr_head 1 1 @ ip \<in> set (snd (DNS_getattr (rs_dns st') now i (typemask TY_A) 0 (int (length (n_attr (nd (rs_dns st') i))))))"
proof -
  define m where "m = a_response hid ls ttl ip"
  define q where "q = length (enc_labels ls) + 13"
  have len: "length m = q + 20" using a_response_read(1) [OF assms(2-6), of hid] by (simp add: m_def q_def)
  obtain h where h: "scanHeader m = Some (h, 12)" "h_id h = hid" "qdcount h = 1" "ancount h = 1" "nscount h = 0" "arcount h = 0"
    using scanHeader_makeHeader [of hid 1 0 0 0 1 1 0 0 1 1 0 0] assms(7) by (auto simp: m_def a_response_def)
  obtain d1 where d1: "question_step m st 12 = Some (st\<lparr>rs_dns := d1\<rparr>, Some (q + 4))" "dns_reach d1"
    using dump_question_a [OF assms(1-6), of hid] unfolding m_def q_def by blast
  have reach1: "dns_reach (rs_dns (st\<lparr>rs_dns := d1\<rparr>))" using d1(2) by simp
  obtain d i a where d: "dumpResourceRecord env True (st\<lparr>rs_dns := d1\<rparr>) m (q + 4) = Some (st\<lparr>rs_dns := d1, rs_dns := d\<rparr>, Some (q + 20))"
      "dns_reach d" "DNS_getbyname d (dotted ls) = Some i" "a \<in> set (n_attr (nd d i))" "a_flag a = typemask TY_A" "a_data a = rr_head 1 1 @ ip"
    using dump_answer_a [OF reach1 assms(2-6), of env hid] unfolding m_def q_def by blast
  have "dumpResponse env True st m = Some (st\<lparr>rs_dns := d\<rparr>, h, 1)"
    unfolding dumpResponse_def h(1) using h(3-6) len d(1) by (simp add: d1(1) Let_def)
  moreover have "and (typemask TY_A) (a_flag a) \<noteq> 0" unfolding d(5) by (simp add: typemask_def ty_defs)
  ultimately show ?thesis using h(2) d(2,3) getattr_all [OF d(4), of "typemask TY_A" now] d(6) unfolding m_def by force
qed

theorem answer_is_stored_witness:
  "\<exists>st' h i. dumpResponse \<lparr>e_now = 1000, e_ltoa6 = (\<lambda>b. b), e_pton6 = (\<lambda>s. None)\<rparr> True \<lparr>rs_dns = init_dns, LastSOAdom = []\<rparr>
       (a_response 77 [''www'', ''example'', ''com''] 3600 [CHR 0x0A, CHR 0x01, CHR 0x02, CHR 0x03]) = Some (st', h, 1)
    \<and> DNS_getbyname (rs_dns st') ''www.example.com'' = Some i
    \<and> rr_head 1 1 @ [CHR 0x0A, CHR 0x01, CHR 0x02, CHR 0x03]
        \<in> set (snd (DNS_getattr (rs_dns st') 1001 i (typemask TY_A) 0 (int (length (n_attr (nd (rs_dns st') i))))))"
proof -
  have "list_all wire_label [''www'', ''example'', ''com'']" by code_simp
  then show ?thesis
    using answer_is_stored [of "\<lparr>rs_dns = init_dns, LastSOAdom = []\<rparr>" "[''www'', ''example'', ''com'']" "[CHR 0x0A, CHR 0x01, CHR 0x02, CHR 0x03]" 3600 77
        "\<lparr>e_now = 1000, e_ltoa6 = (\<lambda>b. b), e_pton6 = (\<lambda>s. None)\<rparr>" 1001] dns_reach.start by fastforce
qed

end
