(* ===== verification/DnsLookup.thy ===== *)
theory DnsLookup
  imports DnsAnswer
begin

section \<open>DnsLookup: records from the table\<close>

text \<open>
  \<^verbatim>\<open>lookupCache\<close> of \<^verbatim>\<open>resolvy/resolv.cpp\<close> collects the records of a name in the array \<^verbatim>\<open>rrv\<close> and
  follows aliases. A pointer to a record is the number of its node, its place in the list of the node counted
  from the oldest, which does not change, and its bytes. Lines of the log are left out.
\<close>

type_synonym rrptr = "nat \<times> nat \<times> string"

fun collect_rrs :: "u32 \<Rightarrow> nat \<Rightarrow> int \<Rightarrow> int \<Rightarrow> attr list \<Rightarrow> rrptr list" where
  "collect_rrs flag nid ac ai [] = []"
| "collect_rrs flag nid ac ai (a # as) =
     (if matches_flag flag a
      then (nid, length as, a_data a) # (if ac \<le> ai + 1 then [] else collect_rrs flag nid ac (ai + 1) as)
      else collect_rrs flag nid ac ai as)"

definition DNS_getattr_rr :: "dns \<Rightarrow> u32 \<Rightarrow> nat \<Rightarrow> u32 \<Rightarrow> u32 \<Rightarrow> int \<Rightarrow> dns \<times> rrptr list" where
  "DNS_getattr_rr d now nid flag ttl ac =
     (let as = expireattr now flag ttl (n_attr (nd d nid))
      in (upd_node d nid (\<lambda>n. n\<lparr>n_attr := as\<rparr>), collect_rrs flag nid ac 0 as))"

definition rr_data :: "rrptr \<Rightarrow> string" where
  "rr_data r = snd (snd r)"

definition rr_type :: "rrptr \<Rightarrow> nat" where
  "rr_type r = uc (chr_at (rr_data r) 0)"

text \<open>\<^verbatim>\<open>getLong\<close> of the four bytes behind type and class.\<close>

definition rr_ival :: "rrptr \<Rightarrow> u32 option" where
  "rr_ival r = map_option fst (getLong (rr_data r) 2)"

text \<open>The pointer itself, or an address record with the same six bytes.\<close>

definition RR_isin :: "rrptr \<Rightarrow> rrptr list \<Rightarrow> bool" where
  "RR_isin v1 rrv \<longleftrightarrow>
     list_ex (\<lambda>r1. r1 = v1 \<or> (rr_type r1 = TY_A \<and> take 6 (rr_data r1) = take 6 (rr_data v1))) rrv"

record lstate =
  l_dns :: dns
  Phase :: int

text \<open>
  \<open>fuel\<close> bounds the depth of the calls; \<open>ttl\<close> is the age up to which records are used, 0 for any. \<open>rri\<close> is the length of \<open>rrv\<close>.
\<close>

function lookupCache :: "nat \<Rightarrow> u32 \<Rightarrow> u32 \<Rightarrow> nat \<Rightarrow> nat \<Rightarrow> lstate \<Rightarrow> nat \<Rightarrow> rrptr list \<Rightarrow> (lstate \<times> rrptr list) option"
  and lookup_loop :: "nat \<Rightarrow> u32 \<Rightarrow> u32 \<Rightarrow> nat \<Rightarrow> nat \<Rightarrow> lstate \<Rightarrow> rrptr list \<Rightarrow> rrptr list \<Rightarrow> (lstate \<times> rrptr list) option" where
  "lookupCache 0 now ttl qtype rrc st nid rrv = None"
| "lookupCache (Suc fuel) now ttl qtype rrc st nid rrv =
     (let ph = i32 (Phase st + 1);
          d1 = fst (DNS_nodephase (l_dns st) nid ph);
          (d2, av) = DNS_getattr_rr d1 now nid (or (typemask qtype) (typemask TY_CNAME)) ttl 128
      in lookup_loop fuel now ttl qtype rrc \<lparr>l_dns = d2, Phase = ph\<rparr> av rrv)"
| "lookup_loop fuel now ttl qtype rrc st [] rrv = Some (st, rrv)"
| "lookup_loop fuel now ttl qtype rrc st (a1 # av) rrv =
     (if rrc \<le> length rrv then Some (st, rrv)
      else case rr_ival a1 of None \<Rightarrow> None | Some ival \<Rightarrow>
        if RR_isin a1 rrv then lookup_loop fuel now ttl qtype rrc st av rrv
        else if rr_type a1 \<in> {TY_SOA, TY_AAAA, TY_A, TY_PTR, TY_MX}
        then lookup_loop fuel now ttl qtype rrc st av (rrv @ [a1])
        else if rr_type a1 = TY_CNAME then
          (let cn = unat ival
           in if length (Nodes (l_dns st)) \<le> cn then None
              else case DNS_nodename (l_dns st) cn (new_vstr 512) of None \<Rightarrow> None | Some (cdname, _) \<Rightarrow>
                let (d1, old) = DNS_nodephase (l_dns st) cn (Phase st); st1 = st\<lparr>l_dns := d1\<rparr>
                in if old = Phase st then lookup_loop fuel now ttl qtype rrc st1 av rrv
                   else case DNS_getbyname d1 (cstr (vmem cdname)) of None \<Rightarrow> None | Some cnid \<Rightarrow>
                     case lookupCache fuel now ttl qtype rrc st1 cnid (rrv @ [a1]) of None \<Rightarrow> None
                     | Some (st2, rrv') \<Rightarrow> lookup_loop fuel now ttl qtype rrc st2 av rrv')
        else lookup_loop fuel now ttl qtype rrc st av rrv)"
  by pat_completeness auto
termination
  by (relation "measures [\<lambda>x. case x of Inl (fuel, _) \<Rightarrow> 2 * fuel | Inr (fuel, _) \<Rightarrow> 2 * fuel + 1,
      \<lambda>x. case x of Inl _ \<Rightarrow> 0 | Inr (_, _, _, _, _, _, av, _) \<Rightarrow> length av]") auto

subsection \<open>Lookups return\<close>

text \<open>
  A record has its type in its first byte and is kept under the mask of that type, or under none when it is out of date;
  behind type and class it has four bytes, and those of a record that leads to a name are the number of one of the \<open>n\<close> nodes.
\<close>

definition rec_ok :: "nat \<Rightarrow> string \<Rightarrow> bool" where
  "rec_ok n data \<longleftrightarrow>
     (case getLong data 2 of
        None \<Rightarrow> False
      | Some (v, _) \<Rightarrow> uc (chr_at data 0) \<in> {TY_A, TY_AAAA} \<or> uc (chr_at data 0) \<in> {TY_NS, TY_CNAME, TY_SOA, TY_PTR, TY_MX} \<and> unat v < n)"

definition att_ok :: "nat \<Rightarrow> attr \<Rightarrow> bool" where
  "att_ok n a \<longleftrightarrow> (a_flag a = 0 \<or> a_flag a = typemask (uc (chr_at (a_data a) 0))) \<and> rec_ok n (a_data a)"

definition recs_ok :: "dns \<Rightarrow> bool" where
  "recs_ok d \<longleftrightarrow> all_attrs (list_all (att_ok (length (Nodes d)))) (Nodes d)"

definition lookup_ok :: "nat \<Rightarrow> lstate \<Rightarrow> bool" where
  "lookup_ok n st \<longleftrightarrow> dns_reach (l_dns st) \<and> length (Nodes (l_dns st)) = n \<and> recs_ok (l_dns st)"

lemma length_upd_node [simp]: "length (Nodes (upd_node d i f)) = length (Nodes d)"
  by (simp add: upd_node_def)

lemma length_phase [simp]: "length (Nodes (fst (DNS_nodephase d i ph))) = length (Nodes d)"
  by (simp add: DNS_nodephase_def)

lemma length_getattr [simp]: "length (Nodes (fst (DNS_getattr d now i flag ttl ac))) = length (Nodes d)"
  by (simp add: DNS_getattr_def Let_def)

lemma lookup_ok_phase:
  assumes "lookup_ok n st" "i < n"
  shows "lookup_ok n \<lparr>l_dns = fst (DNS_nodephase (l_dns st) i ph), Phase = ph'\<rparr>"
  using assms dns_reach.phase [of "l_dns st" i ph] by (auto simp: lookup_ok_def recs_ok_def intro: all_attrs_phase)

lemma recs_ok_getattr: "recs_ok d \<Longrightarrow> recs_ok (fst (DNS_getattr d now i flag ttl ac))"
  unfolding recs_ok_def length_getattr by (rule all_attrs_getattr) (auto simp: att_ok_def)

lemma expireattr_data: "map a_data (expireattr now flag ttl as) = map a_data as"
  by (simp add: expireattr_def comp_def if_distrib [of a_data] cong: if_cong)

lemma lookup_ok_getattr:
  assumes "lookup_ok n \<lparr>l_dns = d, Phase = ph\<rparr>" "i < n" "DNS_getattr_rr d now i flag ttl ac = (d', av)"
  shows "lookup_ok n \<lparr>l_dns = d', Phase = ph\<rparr>" "list_all (\<lambda>r. rec_ok n (rr_data r)) av"
proof -
  have d: "dns_reach d" "length (Nodes d) = n" "recs_ok d" using assms(1) by (simp_all add: lookup_ok_def)
  have e: "d' = fst (DNS_getattr d now i flag ttl ac)" using assms(3) by (auto simp: DNS_getattr_rr_def DNS_getattr_def Let_def)
  show "lookup_ok n \<lparr>l_dns = d', Phase = ph\<rparr>"
    using dns_reach.getattr [OF d(1)] recs_ok_getattr [OF d(3)] d(2) assms(2) by (simp add: lookup_ok_def e)
  have c: "list_all (rec_ok n) (map a_data as) \<Longrightarrow> list_all (\<lambda>r. rec_ok n (rr_data r)) (collect_rrs flag i ac ai as)" for ai as
    by (induction flag i ac ai as rule: collect_rrs.induct) (simp_all add: rr_data_def)
  have "list_all (att_ok n) (n_attr (nd d i))" using all_attrsD [of _ "Nodes d" i] d assms(2) by (simp add: recs_ok_def)
  then have "list_all (rec_ok n) (map a_data (n_attr (nd d i)))" by (auto simp: att_ok_def list_all_iff)
  then have "list_all (rec_ok n) (map a_data (expireattr now flag ttl (n_attr (nd d i))))" by (simp only: expireattr_data)
  from c [OF this] show "list_all (\<lambda>r. rec_ok n (rr_data r)) av" using assms(3) by (auto simp: DNS_getattr_rr_def Let_def)
qed

lemma nodename_total:
  assumes "dns_reach d" "i < length (Nodes d)"
  shows "\<exists>v lc. DNS_nodename d i (new_vstr 512) = Some (v, lc)"
proof -
  have t: "tree_ok (Nodes d)" using reach_ok [OF assms(1)] by (simp add: dns_ok_def)
  show ?thesis
  proof (cases "2 \<le> i")
    case True
    show ?thesis by (rule nodename_text [OF t True assms(2)]) blast
  next
    case False
    then have "i = 0 \<or> i = 1" by auto
    then have "n_parent (nd d i) = None" using tree_okD(2,3) [OF t] by auto
    then show ?thesis unfolding DNS_nodename_def
      by (simp add: getnodename.simps [of _ _ "Some i"] getnodename.simps [of _ _ None] Let_def)
  qed
qed

lemma getbyname_total:
  assumes "dns_reach d" "nonul name"
  shows "\<exists>i. DNS_getbyname d name = Some i \<and> i < length (Nodes d)"
proof -
  have t: "tree_ok (Nodes d)" using reach_ok [OF assms(1)] by (simp add: dns_ok_def)
  then show ?thesis
    using getbyname_ids [OF reach_ok [OF assms(1)] assms(2)] ids_iff [OF t] tree_okD(1) [OF t]
    by (auto split: option.splits)
qed

definition returns :: "nat \<Rightarrow> nat \<Rightarrow> rrptr list \<Rightarrow> (lstate \<times> rrptr list) option \<Rightarrow> bool" where
  "returns n rrc rrv r \<longleftrightarrow>
     (\<exists>st' rrv'. r = Some (st', rrv') \<and> lookup_ok n st' \<and> prefix rrv rrv' \<and> length rrv' \<le> max rrc (length rrv))"

lemma returns_mono: "returns n rrc rrv' r \<Longrightarrow> prefix rrv rrv' \<Longrightarrow> length rrv' \<le> max rrc (length rrv) \<Longrightarrow> returns n rrc rrv r"
  unfolding returns_def by (auto intro: prefix_order.trans)

lemma lookup_loop_returns:
  assumes calls: "\<And>st nid rrv. lookup_ok n st \<Longrightarrow> nid < n \<Longrightarrow> rrc - length rrv < fuel \<Longrightarrow>
      returns n rrc rrv (lookupCache fuel now ttl qtype rrc st nid rrv)"
  shows "lookup_ok n st \<Longrightarrow> list_all (\<lambda>r. rec_ok n (rr_data r)) av \<Longrightarrow> rrc - length rrv \<le> fuel \<Longrightarrow>
      returns n rrc rrv (lookup_loop fuel now ttl qtype rrc st av rrv)"
proof (induction av arbitrary: st rrv)
  case Nil
  then show ?case by (simp add: returns_def)
next
  case (Cons a av)
  have here: "returns n rrc rrv (Some (st, rrv))" using Cons.prems(1) by (simp add: returns_def)
  have step: "returns n rrc rrv (lookup_loop fuel now ttl qtype rrc st' av rrv')"
    if "lookup_ok n st'" "prefix rrv rrv'" "length rrv' \<le> max rrc (length rrv)" for st' rrv'
  proof -
    have "length rrv \<le> length rrv'" using that(2) by (rule prefix_length_le)
    then have "rrc - length rrv' \<le> fuel" using Cons.prems(3) by simp
    then show ?thesis using returns_mono [OF Cons.IH [OF that(1)] that(2,3)] Cons.prems(2) by simp
  qed
  have r: "rec_ok n (rr_data a)" using Cons.prems(2) by simp
  then obtain ival where iv: "rr_ival a = Some ival" "rr_type a = TY_CNAME \<Longrightarrow> unat ival < n"
    by (auto simp: rec_ok_def rr_ival_def rr_type_def ty_defs split: option.splits)
  show ?case
  proof (cases "rrc \<le> length rrv \<or> RR_isin a rrv \<or> rr_type a \<noteq> TY_CNAME")
    case True
    have "returns n rrc rrv (lookup_loop fuel now ttl qtype rrc st av rrv)" using step [OF Cons.prems(1)] by simp
    moreover have "\<not> rrc \<le> length rrv \<Longrightarrow> returns n rrc rrv (lookup_loop fuel now ttl qtype rrc st av (rrv @ [a]))"
      using step [OF Cons.prems(1), of "rrv @ [a]"] by simp
    ultimately show ?thesis using True here iv(1) by auto
  next
    case False
    define cn where "cn = unat ival"
    let ?d = "l_dns st"
    have cn: "cn < n" using iv(2) False by (simp add: cn_def)
    have d: "dns_reach ?d" "length (Nodes ?d) = n" using Cons.prems(1) by (simp_all add: lookup_ok_def)
    obtain v lc where v: "DNS_nodename ?d cn (new_vstr 512) = Some (v, lc)" using nodename_total [OF d(1), of cn] cn d(2) by auto
    let ?st = "st\<lparr>l_dns := fst (DNS_nodephase ?d cn (Phase st))\<rparr>"
    have st1: "lookup_ok n ?st" using lookup_ok_phase [OF Cons.prems(1) cn, of "Phase st"] by (simp add: lookup_ok_def)
    obtain k where k: "DNS_getbyname (l_dns ?st) (cstr (vmem v)) = Some k" "k < n"
      using getbyname_total [of "l_dns ?st" "cstr (vmem v)"] st1 by (auto simp: lookup_ok_def)
    have "returns n rrc (rrv @ [a]) (lookupCache fuel now ttl qtype rrc ?st k (rrv @ [a]))"
      using False Cons.prems(3) by (intro calls [OF st1 k(2)]) auto
    then obtain st2 rrv2 where c: "lookupCache fuel now ttl qtype rrc ?st k (rrv @ [a]) = Some (st2, rrv2)" "lookup_ok n st2"
        "prefix (rrv @ [a]) rrv2" "length rrv2 \<le> max rrc (length (rrv @ [a]))" by (auto simp: returns_def)
    have "prefix rrv rrv2" using c(3) by (meson append_prefixD)
    moreover have "length rrv2 \<le> max rrc (length rrv)" using c(4) False by simp
    ultimately have more: "returns n rrc rrv (lookup_loop fuel now ttl qtype rrc st2 av rrv2)" using step [OF c(2)] by blast
    have same: "returns n rrc rrv (lookup_loop fuel now ttl qtype rrc ?st av rrv)" using step [OF st1] by simp
    have t: "rr_type a = TY_CNAME" "rr_type a \<notin> {TY_SOA, TY_AAAA, TY_A, TY_PTR, TY_MX}" using False by (simp_all add: ty_defs)
    have "lookup_loop fuel now ttl qtype rrc st (a # av) rrv =
        (if snd (DNS_nodephase ?d cn (Phase st)) = Phase st then lookup_loop fuel now ttl qtype rrc ?st av rrv
         else lookup_loop fuel now ttl qtype rrc st2 av rrv2)"
      using False iv(1) t v k(1) c(1) cn d(2) by (simp add: cn_def [symmetric] Let_def split_beta)
    then show ?thesis using same more by simp
  qed
qed

lemma lookupCache_returns:
  "lookup_ok n st \<Longrightarrow> nid < n \<Longrightarrow> rrc - length rrv < fuel \<Longrightarrow> returns n rrc rrv (lookupCache fuel now ttl qtype rrc st nid rrv)"
proof (induction fuel arbitrary: st nid rrv)
  case (Suc fuel)
  define ph where "ph = i32 (Phase st + 1)"
  obtain d2 av where g: "DNS_getattr_rr (fst (DNS_nodephase (l_dns st) nid ph)) now nid (or (typemask qtype) (typemask TY_CNAME)) ttl 128 = (d2, av)"
    by (cases "DNS_getattr_rr (fst (DNS_nodephase (l_dns st) nid ph)) now nid (or (typemask qtype) (typemask TY_CNAME)) ttl 128")
  note ok = lookup_ok_getattr [OF lookup_ok_phase [OF Suc.prems(1,2)] Suc.prems(2) g]
  have "returns n rrc rrv (lookup_loop fuel now ttl qtype rrc \<lparr>l_dns = d2, Phase = ph\<rparr> av rrv)"
    by (rule lookup_loop_returns [OF Suc.IH ok]) (use Suc.prems(3) in auto)
  then show ?case using g by (simp add: ph_def [symmetric] Let_def)
qed simp

text \<open>The type asked for matters only through its mask.\<close>

lemma lookup_loop_mask:
  assumes "\<And>st nid rrv. lookupCache fuel now ttl q rrc st nid rrv = lookupCache fuel now ttl q' rrc st nid rrv"
  shows "lookup_loop fuel now ttl q rrc st av rrv = lookup_loop fuel now ttl q' rrc st av rrv"
proof (induction av arbitrary: st rrv)
  case (Cons a av)
  show ?case by (simp only: lookup_loop.simps assms Cons.IH cong: option.case_cong if_cong prod.case_cong)
qed simp

lemma lookup_mask:
  "typemask q = typemask q' \<Longrightarrow> lookupCache fuel now ttl q rrc st nid rrv = lookupCache fuel now ttl q' rrc st nid rrv"
proof (induction fuel arbitrary: st nid rrv)
  case (Suc fuel)
  then have "lookup_loop fuel now ttl q rrc st av rrv = lookup_loop fuel now ttl q' rrc st av rrv" for st av rrv
    by (intro lookup_loop_mask) simp
  then show ?case using Suc.prems by (simp add: Let_def)
qed simp

subsection \<open>Properties\<close>

text \<open>The mask of a type is one shifted by the type, and the type of service records is 33: on a processor that cuts the shift to five bits a lookup
  of service records is a lookup of addresses, and returns them.\<close>

theorem srv_lookup_finds_addresses:
  "lookupCache fuel now ttl 33 rrc st nid rrv = lookupCache fuel now ttl TY_A rrc st nid rrv"
  by (rule lookup_mask) (simp add: typemask_def ty_defs)

end
