(* ===== verification/DnsServers.thy ===== *)
theory DnsServers
  imports DnsLookup
begin

section \<open>DnsServers: the name servers of a domain\<close>

text \<open>
  Name servers given in the configuration for a domain are put into the table of names (\<^verbatim>\<open>set_nameserver\<close> of
  \<^verbatim>\<open>resolvy/resolv.cpp\<close>), those a response names are put there by the decoder; \<^verbatim>\<open>getns\<close> collects the servers to be
  asked for a name: the general ones of the configuration, then those of each domain the name lies in, from the
  innermost. Socket addresses are as in \<^verbatim>\<open>rary/vsaddr.cpp\<close>. The byte order of the machine is little-endian.
\<close>

subsection \<open>Socket addresses\<close>

record vsaddr =
  va_family :: int
  va_addr :: string
  va_port :: nat

definition AF_INET :: int where "AF_INET = 2"

definition VSA_btosa :: "int \<Rightarrow> string \<Rightarrow> nat \<Rightarrow> vsaddr" where
  "VSA_btosa atype baddr port =
     \<lparr>va_family = atype, va_addr = take (if atype = AF_INET6 then 16 else 4) baddr, va_port = port mod 65536\<rparr>"

text \<open>
  The third test reads the four bytes of an IPv4 address; in an IPv6 address the flow number is there, which is
  zero in every address the program makes.
\<close>

definition VSA_comp :: "vsaddr \<Rightarrow> vsaddr \<Rightarrow> int" where
  "VSA_comp vsa1 vsa2 =
     (if va_family vsa1 \<noteq> va_family vsa2 then 1
      else if va_port vsa1 \<noteq> va_port vsa2 then 2
      else if va_family vsa1 \<noteq> AF_INET6 \<and> va_addr vsa1 \<noteq> va_addr vsa2 then 3
      else 0)"

text \<open>
  \<^verbatim>\<open>inet_addr\<close> on what \<^verbatim>\<open>VSA_ntoa\<close> prints: four decimal numbers without leading zeros, or the text of an IPv6
  address, for which it fails with \<^verbatim>\<open>INADDR_NONE\<close>. The first number is in the first byte of the int in memory.
\<close>

definition le_int :: "string \<Rightarrow> u32" where
  "le_int bs = of_nat (foldr (\<lambda>b n. uc b + 256 * n) bs 0)"

definition inet_addrV4 :: "string \<Rightarrow> u32" where
  "inet_addrV4 addr =
     (let bs = map byte (scan_ds 4 addr) in if length bs = 4 \<and> ltoa4 bs = addr then le_int bs else 0xFFFFFFFF)"

subsection \<open>Servers in the table\<close>

definition set_nameserver :: "renv \<Rightarrow> dns \<Rightarrow> string \<Rightarrow> string \<Rightarrow> dns option" where
  "set_nameserver env d domain addr =
     do { (d1, nsnid) \<leftarrow> DNS_putbyname d domain;
          (d2, nsanid) \<leftarrow> DNS_putbyaddr (e_pton6 env) d1 addr;
          let d3 = fst (DNS_putattr d2 (e_now env) nsnid (typemask TY_NS) 3600 (rr_head TY_NS 1 @ long_bytes (int nsanid)) 6);
          let iaddr = inet_addrV4 addr;
          Some (fst (DNS_putattr d3 (e_now env) nsanid (typemask TY_A) 3600 (rr_head TY_A 1 @ long_bytes (uint iaddr)) 6)) }"

text \<open>
  \<open>s\<close> is what has been stored in \<^verbatim>\<open>nservv\<close>, \<^verbatim>\<open>nsx\<close> its length; the test of \<^verbatim>\<open>nsc\<close> comes after a store. Asked with the
  age 0, \<^verbatim>\<open>DNS_getattr\<close> does not change the table. A number that is no node's is a read outside of \<^verbatim>\<open>Nodes\<close>.
\<close>

fun getns1_loop :: "dns \<Rightarrow> u32 \<Rightarrow> nat \<Rightarrow> string list \<Rightarrow> vsaddr list \<Rightarrow> vsaddr list option" where
  "getns1_loop d now nsc [] s = Some s"
| "getns1_loop d now nsc (ap # nsv) s =
     do { (nsnid, _) \<leftarrow> getLong ap 2;
          if length (Nodes d) \<le> unat nsnid then None
          else case snd (DNS_getattr d now (unat nsnid) (typemask TY_A) 0 32) of
                 [] \<Rightarrow> getns1_loop d now nsc nsv s
               | a # _ \<Rightarrow> (let s' = s @ [VSA_btosa AF_INET (drop 2 a) 53]
                           in if nsc \<le> length s' then Some s' else getns1_loop d now nsc nsv s') }"

definition getns1 :: "dns \<Rightarrow> u32 \<Rightarrow> nat \<Rightarrow> nat \<Rightarrow> vsaddr list \<Rightarrow> vsaddr list option" where
  "getns1 d now nsc nid s = getns1_loop d now nsc (rev (snd (DNS_getattr d now nid (typemask TY_NS) 0 32))) s"

subsection \<open>Which server answers\<close>

text \<open>The eight entries of \<^verbatim>\<open>LOGX_resStats\<close>; \<open>dsort\<close> is the option \<^verbatim>\<open>lDNS_SORT\<close>.\<close>

record res_stat =
  rs_stat :: int
  rs_vsaddr :: vsaddr
  rs_req :: int
  rs_resp :: int
  rs_reqlast :: u32
  rs_resplast :: u32

definition RES_addns :: "bool \<Rightarrow> res_stat list \<Rightarrow> vsaddr \<Rightarrow> res_stat list" where
  "RES_addns dsort rss ns =
     (if \<not> dsort \<or> list_ex (\<lambda>rs. VSA_comp ns (rs_vsaddr rs) = 0) rss then rss
      else case find (\<lambda>i. rs_stat (rss ! i) = 0) [0..<length rss] of
             None \<Rightarrow> rss
           | Some nsx \<Rightarrow> rss[nsx := (rss ! nsx)\<lparr>rs_stat := 1, rs_vsaddr := ns\<rparr>])"

definition getrs :: "res_stat list \<Rightarrow> vsaddr \<Rightarrow> res_stat option" where
  "getrs rss ns = find (\<lambda>rs. rs_stat rs \<noteq> 0 \<and> VSA_comp ns (rs_vsaddr rs) = 0) rss"

datatype ns_event = NS_REQ | NS_RESP

fun putns_loop :: "res_stat list \<Rightarrow> u32 \<Rightarrow> vsaddr \<Rightarrow> ns_event \<Rightarrow> res_stat list" where
  "putns_loop [] now ns ev = []"
| "putns_loop (rs # rss) now ns ev =
     (if rs_stat rs = 0 then rs # rss
      else if VSA_comp ns (rs_vsaddr rs) = 0
      then (case ev of
              NS_REQ \<Rightarrow> rs\<lparr>rs_req := i32 (rs_req rs + 1), rs_reqlast := now\<rparr>
            | NS_RESP \<Rightarrow> rs\<lparr>rs_resp := i32 (rs_resp rs + 1), rs_resplast := now\<rparr>) # rss
      else rs # putns_loop rss now ns ev)"

definition putnsStat :: "bool \<Rightarrow> res_stat list \<Rightarrow> u32 \<Rightarrow> vsaddr \<Rightarrow> ns_event \<Rightarrow> res_stat list" where
  "putnsStat dsort rss now ns ev = (if dsort then putns_loop rss now ns ev else rss)"

definition sortns :: "bool \<Rightarrow> res_stat list \<Rightarrow> vsaddr list \<Rightarrow> vsaddr list" where
  "sortns dsort rss nsv =
     (if length nsv \<le> 1 \<or> \<not> dsort then nsv
      else case getrs rss (hd nsv) of
             None \<Rightarrow> nsv
           | Some rs \<Rightarrow> if 0 < rs_req rs \<and> rs_resp rs = 0 then tl nsv @ [hd nsv] else nsv)"

subsection \<open>The servers to ask\<close>

text \<open>
  \<open>nslist\<close> is the \<^verbatim>\<open>NSLIST\<close> of the configuration, which \<^verbatim>\<open>RES_getns1\<close> reads; an entry that is being set up has no port and
  is overwritten by the next.
\<close>

definition RES_getns1 :: "vsaddr list \<Rightarrow> nat \<Rightarrow> vsaddr option" where
  "RES_getns1 nslist nsi = (if nsi < length nslist then Some (nslist ! nsi) else None)"

function conf_servers :: "vsaddr list \<Rightarrow> nat \<Rightarrow> vsaddr list" where
  "conf_servers nslist nsi =
     (case RES_getns1 nslist nsi of
        None \<Rightarrow> []
      | Some ns \<Rightarrow> if va_port ns = 0 then conf_servers nslist (nsi + 1) else ns # conf_servers nslist (nsi + 1))"
  by pat_completeness auto
termination
  by (relation "measure (\<lambda>(nslist, nsi). length nslist - nsi)") (auto simp: RES_getns1_def split: if_splits)

declare conf_servers.simps [simp del]

partial_function (option) getns_walk :: "dns \<Rightarrow> u32 \<Rightarrow> nat \<Rightarrow> nat \<Rightarrow> vsaddr list \<Rightarrow> vsaddr list option" where
  [code]: "getns_walk d now nsc nid s =
     (if nid = 0 then Some s
      else case getns1 d now nsc nid s of None \<Rightarrow> None | Some s' \<Rightarrow> getns_walk d now nsc (DNS_parent d nid) s')"

definition getns :: "dns \<Rightarrow> u32 \<Rightarrow> bool \<Rightarrow> res_stat list \<Rightarrow> vsaddr list \<Rightarrow> nat \<Rightarrow> nat \<Rightarrow> vsaddr list option" where
  "getns d now dsort rss nslist nid nsc = getns_walk d now nsc nid (sortns dsort rss (conf_servers nslist 0))"

end
