(* ===== verification/DnsResolver.thy ===== *)
theory DnsResolver
  imports DnsServers
begin

section \<open>DnsResolver: the states of the resolver\<close>

text \<open>
  The table of names together with everything that writes to it: responses, lookups, configured name servers. Every
  response, whatever its bytes, leaves well-formed records, so lookups and the collection of name servers return in every state the
  resolver can reach.
\<close>

subsection \<open>Numbers in records\<close>

lemma byte_drop_bit_mod:
  assumes "k + 8 \<le> 32"
  shows "byte (drop_bit k (n mod 2 ^ 32)) = byte (drop_bit k n)"
proof -
  have "take_bit 8 (drop_bit k (take_bit 32 n)) = take_bit 8 (drop_bit k n)"
    using assms by (intro bit_eqI) (auto simp: bit_take_bit_iff bit_drop_bit_eq)
  then have "drop_bit k (n mod 2 ^ 32) mod 256 = drop_bit k n mod 256"
    by (simp add: take_bit_eq_mod)
  then show ?thesis by (simp only: byte_def)
qed

lemma long_bytes_mod: "long_bytes (n mod 2 ^ 32) = long_bytes n"
  using byte_drop_bit_mod [of 0 n] byte_drop_bit_mod [of 8 n] byte_drop_bit_mod [of 16 n] byte_drop_bit_mod [of 24 n]
  by (simp add: long_bytes_def short_bytes_def)

lemma getLong_any:
  assumes "p = length pre"
  shows "getLong (pre @ long_bytes n @ post) p = Some (word_of_int n, p + 4)"
proof -
  have "getLong (pre @ long_bytes (n mod 2 ^ 32) @ post) p = Some (word_of_int (n mod 2 ^ 32), p + 4)"
    by (rule getLong_long [OF _ _ assms]) simp_all
  moreover have "(word_of_int (n mod 2 ^ 32) :: u32) = word_of_int n"
    by (rule word_of_int_eq_iff [THEN iffD2]) (simp add: take_bit_eq_mod)
  ultimately show ?thesis unfolding long_bytes_mod by simp
qed

lemma rr_head_type: "t < 256 \<Longrightarrow> uc (chr_at (rr_head t c @ bs) 0) = t"
  by (simp add: rr_head_def byte_def)

lemma rec_ok_mono: "rec_ok n data \<Longrightarrow> n \<le> m \<Longrightarrow> rec_ok m data"
  by (auto simp: rec_ok_def split: option.splits)

lemma rec_ok_addr:
  assumes "t \<in> {TY_A, TY_AAAA}" "4 \<le> length bs"
  shows "rec_ok n (rr_head t c @ bs)"
proof -
  have "\<exists>r. getLong (rr_head t c @ bs) 2 = Some r"
    using assms(2) by (auto simp: getLong_def getShort_def oct_at_def rr_head_def)
  moreover have "uc (chr_at (rr_head t c @ bs) 0) = t" using assms(1) by (intro rr_head_type) (auto simp: ty_defs)
  ultimately show ?thesis using assms(1) by (auto simp: rec_ok_def)
qed

lemma rec_ok_name:
  assumes "t \<in> {TY_NS, TY_CNAME, TY_SOA, TY_PTR, TY_MX}" "i < n"
  shows "rec_ok n (rr_head t c @ long_bytes (int i) @ post)"
proof -
  have "getLong (rr_head t c @ long_bytes (int i) @ post) 2 = Some (word_of_int (int i), 6)"
    using getLong_any [of 2 "rr_head t c" "int i" post] by (simp add: rr_head_def)
  moreover have "unat (word_of_int (int i) :: u32) \<le> i" by (simp add: unat_of_nat)
  moreover have "uc (chr_at (rr_head t c @ long_bytes (int i) @ post) 0) = t" using assms(1) by (intro rr_head_type) (auto simp: ty_defs)
  ultimately show ?thesis using assms by (auto simp: rec_ok_def)
qed

subsection \<open>The table stays well-formed\<close>

definition res_ok :: "dns \<Rightarrow> bool" where
  "res_ok d \<longleftrightarrow> dns_reach d \<and> recs_ok d"

lemma res_ok_init: "res_ok init_dns"
  by (simp add: res_ok_def recs_ok_def dns_reach.start all_attrs_init)

lemma ids_length:
  assumes "dns_reach d" "dns_reach d'" "ids (Nodes d) \<subseteq>\<^sub>m ids (Nodes d')"
  shows "length (Nodes d) \<le> length (Nodes d')"
proof -
  have t: "tree_ok (Nodes d)" "tree_ok (Nodes d')" using assms(1,2) reach_ok by (auto simp: dns_ok_def)
  let ?j = "length (Nodes d) - 1"
  have "ids (Nodes d) (lower (path (Nodes d) ?j)) = Some ?j" using tree_okD(1) [OF t(1)] by (auto simp: ids_iff [OF t(1)])
  then have "ids (Nodes d') (lower (path (Nodes d) ?j)) = Some ?j" by (rule ids_le [OF assms(3)])
  then show ?thesis by (auto simp: ids_iff [OF t(2)])
qed

lemma res_ok_put:
  assumes "res_ok d" "nonul name" "DNS_putbyname d name = Some (d', i)"
  shows "res_ok d'" "length (Nodes d) \<le> length (Nodes d')" "1 \<le> i" "i < length (Nodes d')"
proof -
  have d: "dns_reach d" "recs_ok d" using assms(1) by (simp_all add: res_ok_def)
  have p: "dns_reach d'" "ids (Nodes d') (name_key name) = Some i" "ids (Nodes d) \<subseteq>\<^sub>m ids (Nodes d')"
    using put_reach [OF d(1) assms(2)] assms(3) by (metis option.inject prod.inject)+
  show len: "length (Nodes d) \<le> length (Nodes d')" by (rule ids_length [OF d(1) p(1,3)])
  have "tree_ok (Nodes d')" using reach_ok [OF p(1)] by (simp add: dns_ok_def)
  then show "1 \<le> i" "i < length (Nodes d')" using p(2) by (simp_all add: ids_iff)
  have "all_attrs (list_all (att_ok (length (Nodes d)))) (Nodes d')"
    using d(2) assms(3) unfolding recs_ok_def by (auto intro: all_attrs_putbyname)
  then have "recs_ok d'" unfolding recs_ok_def
    by (rule all_attrs_mono) (use rec_ok_mono len in \<open>auto simp: list_all_iff att_ok_def\<close>)
  then show "res_ok d'" using p(1) by (simp add: res_ok_def)
qed

lemma length_putattr [simp]: "length (Nodes (fst (DNS_putattr d now nid flag ttl data leng))) = length (Nodes d)"
  by (auto simp: DNS_putattr_def NewRecord_def Let_def)

lemma res_ok_putattr:
  assumes "res_ok d" "nid < length (Nodes d)" "leng = length data" "leng \<le> 512" "rec_ok (length (Nodes d)) data"
    "uc (chr_at data 0) = t"
  shows "res_ok (fst (DNS_putattr d now nid (typemask t) ttl data leng))"
proof -
  have "all_attrs (list_all (att_ok (length (Nodes d)))) (Nodes (fst (DNS_putattr d now nid (typemask t) ttl data leng)))"
    using assms by (intro all_attrs_putattr) (simp_all add: res_ok_def recs_ok_def att_ok_def)
  then show ?thesis using assms dns_reach.putattr [of d nid leng] by (simp add: res_ok_def recs_ok_def)
qed

lemma res_ok_store:
  assumes "res_ok d" "nid < length (Nodes d)" "length data \<le> 512" "rec_ok (length (Nodes d)) data" "uc (chr_at data 0) = t"
  shows "res_ok (store_rr env store d nid t ttl data)"
  using assms by (simp add: store_rr_def res_ok_putattr)

lemma nonul_print_int: "nonul (print_int n)"
  by (simp add: print_int_def nonul_show_nat)

lemma nonul_dots: "list_all nonul ls \<Longrightarrow> nonul (dotted ls)"
  by (induction ls rule: dotted.induct) simp_all

lemma nonul_addr_name: "nonul (if length vs = 4 then rev_name vs else ipv6_domain pton addr)"
proof -
  have "nonul (rev_name vs)" by (simp add: rev_name_def REVERSE_DOM_def list_all_iff nonul_print_int nonul_dots)
  moreover have "list_all (\<lambda>k. hexdigit k \<noteq> NUL) [0..<16]" by code_simp
  then have h: "hexdigit (uc c div 16) \<noteq> NUL" "hexdigit (uc c mod 16) \<noteq> NUL" for c
    using uc_less [of c] by (auto simp: list_all_iff less_mult_imp_div_less)
  have "nonul (concat (map (\<lambda>n. [hexdigit n, CHR ''.'']) (concat (map (\<lambda>c. [uc c mod 16, uc c div 16]) bs))))" for bs
    by (induction bs) (use h in simp_all)
  then have "nonul (ipv6_domain pton addr)" by (simp add: ipv6_domain_def ipv6_nibbles_def split: option.split)
  ultimately show ?thesis by simp
qed

lemma res_ok_putaddr:
  assumes "res_ok d" "DNS_putbyaddr pton d addr = Some (d', i)"
  shows "res_ok d'" "length (Nodes d) \<le> length (Nodes d')" "1 \<le> i" "i < length (Nodes d')"
  using res_ok_put [OF assms(1) nonul_addr_name] assms(2) by (auto simp: DNS_putbyaddr_def Let_def)

subsection \<open>Responses\<close>

lemma bytes_at_length: "bytes_at msg p n = Some bs \<Longrightarrow> length bs = n"
  by (auto simp: bytes_at_def split: if_splits)

lemma dump_addr_ok:
  assumes "res_ok d" "nid < length (Nodes d)" "t \<in> {TY_A, TY_AAAA}" "dump_addr env store d nid t c ttl msg mp = Some d'"
  shows "res_ok d'"
proof -
  obtain bs d1 i addr where b: "bytes_at msg mp (if t = TY_AAAA then 16 else 4) = Some bs" "DNS_putbyaddr (e_pton6 env) d addr = Some (d1, i)"
    "d' = store_rr env store d1 nid t ttl (rr_head t c @ bs)"
    using assms(4) by (auto simp: dump_addr_def bind_eq_Some_conv)
  note p = res_ok_putaddr [OF assms(1) b(2)]
  have "4 \<le> length bs" "length bs \<le> 16" using bytes_at_length [OF b(1)] by (auto split: if_splits)
  then show ?thesis unfolding b(3) using assms(2,3) p(2)
    by (intro res_ok_store [OF p(1)] rec_ok_addr rr_head_type) (auto simp: rr_head_def ty_defs)
qed

lemma dump_name_ok:
  assumes "res_ok d" "nid < length (Nodes d)" "t \<in> {TY_MX, TY_NS, TY_CNAME, TY_PTR}" "dump_name env store d nid t c ttl msg mp = Some d'"
  shows "res_ok d'"
proof -
  obtain rname p where r: "scanName msg (if t \<noteq> TY_MX then mp else mp + 2) 512 0 = Some (rname, p)"
    using assms(4) by (auto simp: dump_name_def bind_eq_Some_conv)
  show ?thesis
  proof (cases "cstr rname = []")
    case True
    then show ?thesis using assms(1,4) r by (simp add: dump_name_def)
  next
    case False
    then obtain d1 i pref where q: "DNS_putbyname d (cstr rname) = Some (d1, i)" "(if t = TY_MX then bytes_at msg mp 2 else Some []) = Some pref"
      "d' = store_rr env store d1 nid t ttl (rr_head t c @ long_bytes (int i) @ pref)"
      using assms(4) r by (auto simp: dump_name_def bind_eq_Some_conv)
    note p = res_ok_put [OF assms(1) nonul_cstr q(1)]
    have "length pref \<le> 2" using q(2) by (auto split: if_splits dest: bytes_at_length)
    then show ?thesis unfolding q(3) using assms(2,3) p(2,4)
      by (intro res_ok_store [OF p(1)] rec_ok_name rr_head_type) (auto simp: rr_head_def long_bytes_def short_bytes_def ty_defs)
  qed
qed

lemma dump_SOA_ok:
  assumes "res_ok (rs_dns st)" "nid < length (Nodes (rs_dns st))" "dump_SOA env store st name nid c ttl msg mp = Some st'"
  shows "res_ok (rs_dns st')"
proof -
  have store: "res_ok (store_rr env store d2 nid TY_SOA ttl (rr_head TY_SOA c @ long_bytes (int i) @ concat (map long_bytes vs)))"
    if q: "DNS_putbyname (rs_dns st) (cstr mname) = Some (d1, i)" "DNS_putbyname d1 (cstr rname) = Some (d2, j)" "length vs = 6"
    for mname d1 i rname d2 j vs
  proof -
    note p = res_ok_put [OF assms(1) nonul_cstr q(1)]
    note p2 = res_ok_put [OF p(1) nonul_cstr q(2)]
    have "length (long_bytes n) = 4" for n by (simp add: long_bytes_def short_bytes_def)
    then have "length (concat (map long_bytes vs)) = 24" using q(3) by (simp add: length_concat comp_def sum_list_triv)
    then show ?thesis using assms(2) p(2,4) p2(2)
      by (intro res_ok_store [OF p2(1)] rec_ok_name rr_head_type) (auto simp: rr_head_def long_bytes_def short_bytes_def ty_defs)
  qed
  show ?thesis using assms(3) store [where vs = "[v1, v2, v3, v4, v5, v6]" for v1 v2 v3 v4 v5 v6, simplified]
    by (auto simp: dump_SOA_def bind_eq_Some_conv)
qed

lemma dump_record_ok:
  assumes "res_ok (rs_dns st)" "dumpResourceRecord env store st msg rr = Some (st', p)"
  shows "res_ok (rs_dns st')"
proof (cases "length msg \<le> rr")
  case True
  then show ?thesis using assms by (simp add: dumpResourceRecord_def)
next
  case False
  then obtain nm mp0 d1 nid where q: "scanName msg rr 512 0 = Some (nm, mp0)" "DNS_putbyname (rs_dns st) (cstr nm) = Some (d1, nid)"
    using assms(2) by (auto simp: dumpResourceRecord_def bind_eq_Some_conv)
  note p = res_ok_put [OF assms(1) nonul_cstr q(2)]
  note soa = dump_SOA_ok [of "st\<lparr>rs_dns := d1\<rparr>" nid env store, simplified, OF p(1,4)]
  show ?thesis using assms(2) False q p(1)
    by (auto simp: dumpResourceRecord_def bind_eq_Some_conv Let_def split: if_splits
        dest!: dump_addr_ok [OF p(1,4), rotated] dump_name_ok [OF p(1,4), rotated] soa)
qed

lemma question_ok:
  assumes "res_ok (rs_dns st)" "question_step msg st mp = Some (st', p)"
  shows "res_ok (rs_dns st')"
proof -
  have "res_ok d2" if "DNS_putbyname (rs_dns st) (cstr nm) = Some (d1, i)" "DNS_putbyname d1 (cstr nm) = Some (d2, j)" for nm d1 i d2 j
    using res_ok_put(1) [OF res_ok_put(1) [OF assms(1) nonul_cstr that(1)] nonul_cstr that(2)] .
  then show ?thesis using assms by (auto simp: question_step_def dumpQuestion_def scanQuery_def bind_eq_Some_conv split: if_splits)
qed

lemma dump_section_ok:
  assumes "\<And>s p s' p'. res_ok (rs_dns s) \<Longrightarrow> f s p = Some (s', p') \<Longrightarrow> res_ok (rs_dns s')"
  shows "res_ok (rs_dns st) \<Longrightarrow> dump_section f rc n st mp = Some r \<Longrightarrow>
    (case r of Inl s \<Rightarrow> res_ok (rs_dns s) | Inr (s, _) \<Rightarrow> res_ok (rs_dns s))"
proof (induction n arbitrary: st mp)
  case (Suc n)
  then show ?case using assms by (cases mp) (fastforce simp: bind_eq_Some_conv split: if_splits)+
qed auto

lemma dump_section_next:
  assumes "\<And>s p s' p'. res_ok (rs_dns s) \<Longrightarrow> f s p = Some (s', p') \<Longrightarrow> res_ok (rs_dns s')" "res_ok (rs_dns st)"
    and "\<And>s p. res_ok (rs_dns s) \<Longrightarrow> k s p = Some (st', h, m') \<Longrightarrow> res_ok (rs_dns st')"
    and "dump_section f rc n st mp \<bind> (\<lambda>r. case r of Inl s \<Rightarrow> Some (s, hp, m) | Inr (s, p) \<Rightarrow> k s p) = Some (st', h, m')"
  shows "res_ok (rs_dns st')"
proof -
  obtain r where r: "dump_section f rc n st mp = Some r" "(case r of Inl s \<Rightarrow> Some (s, hp, m) | Inr (s, p) \<Rightarrow> k s p) = Some (st', h, m')"
    using assms(4) by (auto simp: bind_eq_Some_conv)
  have ok: "case r of Inl s \<Rightarrow> res_ok (rs_dns s) | Inr (s, _) \<Rightarrow> res_ok (rs_dns s)"
    by (rule dump_section_ok [OF _ assms(2) r(1)]) (rule assms(1))
  show ?thesis using ok r(2) assms(3) by (cases r) auto
qed

lemma dump_response_ok:
  assumes "res_ok (rs_dns st)" "dumpResponse env store st resp = Some (st', h, n)"
  shows "res_ok (rs_dns st')"
proof -
  obtain hp mp where "scanHeader resp = Some (hp, mp)" using assms(2) by (auto simp: dumpResponse_def bind_eq_Some_conv)
  with assms(2) show ?thesis unfolding dumpResponse_def Let_def
    apply simp
    apply (erule dump_section_next [rotated -1], erule (1) question_ok, rule assms(1))
    apply (erule dump_section_next [rotated -1], erule (1) dump_record_ok, assumption)
    apply (erule dump_section_next [rotated -1], erule (1) dump_record_ok, assumption)
    apply (erule dump_section_next [rotated -1], erule (1) dump_record_ok, assumption)
    apply simp
    done
qed

subsection \<open>Name servers\<close>

lemma set_nameserver_ok:
  assumes "res_ok d" "nonul domain" "set_nameserver env d domain addr = Some d'"
  shows "res_ok d'"
proof -
  obtain d1 i d2 j where q: "DNS_putbyname d domain = Some (d1, i)" "DNS_putbyaddr (e_pton6 env) d1 addr = Some (d2, j)"
    "d' = fst (DNS_putattr (fst (DNS_putattr d2 (e_now env) i (typemask TY_NS) 3600 (rr_head TY_NS 1 @ long_bytes (int j)) 6))
       (e_now env) j (typemask TY_A) 3600 (rr_head TY_A 1 @ long_bytes (uint (inet_addrV4 addr))) 6)"
    using assms(3) by (auto simp: set_nameserver_def bind_eq_Some_conv Let_def)
  note p = res_ok_put [OF assms(1,2) q(1)] and p2 = res_ok_putaddr [OF res_ok_put(1) [OF assms(1,2) q(1)] q(2)]
  have len: "length (long_bytes n) = 4" "length (rr_head t c) = 2" for n t c by (simp_all add: long_bytes_def short_bytes_def rr_head_def)
  let ?d3 = "fst (DNS_putattr d2 (e_now env) i (typemask TY_NS) 3600 (rr_head TY_NS 1 @ long_bytes (int j)) 6)"
  have d3: "res_ok ?d3"
    using p(4) p2(2,4) rec_ok_name [of TY_NS j "length (Nodes d2)" 1 "[]"]
    by (intro res_ok_putattr [OF p2(1)] rr_head_type) (auto simp: len ty_defs)
  show ?thesis unfolding q(3)
    by (rule res_ok_putattr [OF d3]) (use p2(4) in \<open>simp_all add: len rec_ok_addr rr_head_type\<close>, simp add: rr_head_type TY_A_def)
qed

text \<open>With the age 0 nothing expires.\<close>

lemma getattr_0:
  "snd (DNS_getattr d now i flag 0 32) = take 32 (map a_data (filter (matches_flag flag) (n_attr (nd d i))))"
  by (simp add: DNS_getattr_def expireattr_def Let_def collect_attrs_take)

lemma masks_differ: "t \<in> {TY_A, TY_AAAA, TY_NS, TY_CNAME, TY_SOA, TY_PTR, TY_MX} \<Longrightarrow> and (typemask TY_NS) (typemask t) \<noteq> 0 \<Longrightarrow> t = TY_NS"
  by (auto simp: typemask_def ty_defs)

lemma ns_records:
  assumes "res_ok d" "i < length (Nodes d)" "data \<in> set (snd (DNS_getattr d now i (typemask TY_NS) 0 32))"
  shows "\<exists>v p. getLong data 2 = Some (v, p) \<and> unat v < length (Nodes d)"
proof -
  have "data \<in> set (map a_data (filter (matches_flag (typemask TY_NS)) (n_attr (nd d i))))"
    using assms(3) unfolding getattr_0 by (rule in_set_takeD)
  then obtain a where a: "a \<in> set (n_attr (nd d i))" "and (typemask TY_NS) (a_flag a) \<noteq> 0" "data = a_data a"
    by (auto simp: matches_flag_def)
  have "list_all (att_ok (length (Nodes d))) (n_attr (nd d i))"
    using all_attrsD [OF _ assms(2)] assms(1) unfolding res_ok_def recs_ok_def by blast
  then have "att_ok (length (Nodes d)) a" using a(1) by (simp add: list_all_iff)
  then have r: "a_flag a = typemask (uc (chr_at data 0))" "rec_ok (length (Nodes d)) data" using a by (auto simp: att_ok_def)
  then have "uc (chr_at data 0) = TY_NS" using a(2) by (intro masks_differ) (auto simp: rec_ok_def split: option.splits)
  then show ?thesis using r(2) by (auto simp: rec_ok_def ty_defs split: option.splits)
qed

text \<open>What is stored is added at the end; a full array takes one more server.\<close>

lemma getns1_loop_step:
  assumes "getns1_loop d now nsc (ap # nsv) s = Some r"
  obtains v p where "getLong ap 2 = Some (v, p)" "unat v < length (Nodes d)"
  using assms by (cases "getLong ap 2") (auto split: if_splits)

lemma getns1_loop_prefix: "getns1_loop d now nsc nsv s = Some r \<Longrightarrow> prefix s r"
proof (induction nsv arbitrary: s)
  case (Cons ap nsv)
  obtain v p where v: "getLong ap 2 = Some (v, p)" "unat v < length (Nodes d)" by (rule getns1_loop_step [OF Cons.prems])
  show ?case
  proof (cases "snd (DNS_getattr d now (unat v) (typemask TY_A) 0 32)")
    case Nil
    then show ?thesis using v Cons.IH [of s] Cons.prems by simp
  next
    case (Cons a as)
    then show ?thesis using v Cons.IH [of "s @ [VSA_btosa AF_INET (drop 2 a) 53]"] Cons.prems
      by (auto simp: Let_def split: if_splits dest: append_prefixD)
  qed
qed simp

lemma getns1_loop_full:
  assumes "nsc \<le> length s"
  shows "getns1_loop d now nsc nsv [] = Some xs \<Longrightarrow> getns1_loop d now nsc nsv s = Some (s @ take 1 xs)"
proof (induction nsv)
  case (Cons ap nsv)
  obtain v p where v: "getLong ap 2 = Some (v, p)" "unat v < length (Nodes d)" by (rule getns1_loop_step [OF Cons.prems])
  show ?case
  proof (cases "snd (DNS_getattr d now (unat v) (typemask TY_A) 0 32)")
    case Nil
    then show ?thesis using v Cons.IH Cons.prems by simp
  next
    case (Cons a as)
    then have "take 1 xs = [VSA_btosa AF_INET (drop 2 a) 53]"
      using v Cons.prems getns1_loop_prefix [of d now nsc nsv "[VSA_btosa AF_INET (drop 2 a) 53]" xs]
      by (auto simp: Let_def prefix_def split: if_splits)
    then show ?thesis using v Cons assms by (simp add: Let_def)
  qed
qed simp

lemma getns1_loop_returns:
  assumes "\<And>ap. ap \<in> set nsv \<Longrightarrow> \<exists>v p. getLong ap 2 = Some (v, p) \<and> unat v < length (Nodes d)"
  shows "\<exists>r. getns1_loop d now nsc nsv s = Some r \<and> length r \<le> max nsc (length s + 1)"
  using assms
proof (induction nsv arbitrary: s)
  case (Cons ap nsv)
  obtain v p where v: "getLong ap 2 = Some (v, p)" "unat v < length (Nodes d)" using Cons.prems [of ap] by auto
  note IH = Cons.IH [OF Cons.prems]
  show ?case
  proof (cases "snd (DNS_getattr d now (unat v) (typemask TY_A) 0 32)")
    case Nil
    then show ?thesis using v IH [of s] by auto
  next
    case (Cons a as)
    then show ?thesis using v IH [of "s @ [VSA_btosa AF_INET (drop 2 a) 53]"] by (auto simp: Let_def)
  qed
qed simp

lemma getns1_returns:
  assumes "res_ok d" "nid < length (Nodes d)"
  shows "\<exists>r. getns1 d now nsc nid s = Some r \<and> length r \<le> max nsc (length s + 1)"
  unfolding getns1_def by (rule getns1_loop_returns) (use ns_records [OF assms] in simp)

lemma getns_walk_returns:
  assumes "res_ok d"
  shows "1 \<le> nid \<Longrightarrow> nid < length (Nodes d) \<Longrightarrow>
    \<exists>r. getns_walk d now nsc nid s = Some r \<and> length r \<le> max nsc (length s) + length (path (Nodes d) nid) + 1"
proof (induction nid arbitrary: s rule: less_induct)
  case (less nid)
  have t: "tree_ok (Nodes d)" using assms reach_ok by (auto simp: res_ok_def dns_ok_def)
  obtain s1 where s1: "getns1 d now nsc nid s = Some s1" "length s1 \<le> max nsc (length s + 1)"
    using getns1_returns [OF assms less.prems(2)] by blast
  show ?case
  proof (cases "nid = 1")
    case True
    then have "DNS_parent d nid = 0" using tree_okD(3) [OF t] by (simp add: DNS_parent_def)
    then have "getns_walk d now nsc nid s = Some s1"
      using s1(1) True by (subst getns_walk.simps) (simp add: getns_walk.simps [of _ _ _ 0])
    then show ?thesis using s1(2) by auto
  next
    case False
    then have "2 \<le> nid" using less.prems(1) by simp
    then obtain p where p: "n_parent (nd d nid) = Some p" "1 \<le> p" "p < nid" using tree_okD(4) [OF t _ less.prems(2)] by blast
    have "length (path (Nodes d) nid) = length (path (Nodes d) p) + 1" using path_simps(3) [OF t \<open>2 \<le> nid\<close> less.prems(2)] p(1) by simp
    moreover have "DNS_parent d nid = p" using p(1) by (simp add: DNS_parent_def)
    then have "getns_walk d now nsc nid s = getns_walk d now nsc p s1"
      using s1(1) less.prems(1) by (subst getns_walk.simps) simp
    ultimately show ?thesis using less.IH [OF p(3,2), of s1] less.prems(2) p(3) s1(2) by fastforce
  qed
qed

text \<open>The domains around a node up to the root, and the first server of a domain, if it has one.\<close>

function domains_above :: "node list \<Rightarrow> nat \<Rightarrow> nat list" where
  "domains_above ns i = (case n_parent (ns ! i) of None \<Rightarrow> [] | Some p \<Rightarrow> if p < i then p # domains_above ns p else [])"
  by pat_completeness auto
termination by (relation "measure snd") auto

declare domains_above.simps [simp del]

definition first_server :: "dns \<Rightarrow> u32 \<Rightarrow> nat \<Rightarrow> vsaddr list" where
  "first_server d now p = (case getns1 d now 1 p [] of Some (x # _) \<Rightarrow> [x] | _ \<Rightarrow> [])"

lemma getns1_loop_first:
  "getns1_loop d now nsc nsv [] = Some xs \<Longrightarrow> \<exists>ys. getns1_loop d now 1 nsv [] = Some ys \<and> take 1 ys = take 1 xs"
proof (induction nsv)
  case (Cons ap nsv)
  obtain v p where v: "getLong ap 2 = Some (v, p)" "unat v < length (Nodes d)" by (rule getns1_loop_step [OF Cons.prems])
  show ?case
  proof (cases "snd (DNS_getattr d now (unat v) (typemask TY_A) 0 32)")
    case (Cons a as)
    then have "take 1 xs = [VSA_btosa AF_INET (drop 2 a) 53]"
      using v Cons.prems getns1_loop_prefix [of d now nsc nsv "[VSA_btosa AF_INET (drop 2 a) 53]" xs]
      by (auto simp: Let_def prefix_def split: if_splits)
    then show ?thesis using v Cons by (simp add: Let_def)
  qed (use v Cons in simp)
qed simp

lemma getns1_full:
  assumes "res_ok d" "nid < length (Nodes d)" "nsc \<le> length s"
  shows "getns1 d now nsc nid s = Some (s @ first_server d now nid)"
proof -
  obtain xs where xs: "getns1 d now nsc nid [] = Some xs" using getns1_returns [OF assms(1,2)] by blast
  then obtain ys where ys: "getns1 d now 1 nid [] = Some ys" "take 1 ys = take 1 xs"
    using getns1_loop_first unfolding getns1_def by blast
  then have "first_server d now nid = take 1 xs" by (cases ys; cases xs) (auto simp: first_server_def)
  then show ?thesis using getns1_loop_full [OF assms(3)] xs unfolding getns1_def by simp
qed

lemma getns_walk_full:
  assumes "res_ok d"
  shows "1 \<le> nid \<Longrightarrow> nid < length (Nodes d) \<Longrightarrow> nsc \<le> length s \<Longrightarrow>
    getns_walk d now nsc (DNS_parent d nid) s = Some (s @ concat (map (first_server d now) (domains_above (Nodes d) nid)))"
proof (induction nid arbitrary: s rule: less_induct)
  case (less nid)
  have t: "tree_ok (Nodes d)" using assms reach_ok by (auto simp: res_ok_def dns_ok_def)
  show ?case
  proof (cases "nid = 1")
    case True
    then show ?thesis using tree_okD(3) [OF t]
      by (simp add: DNS_parent_def domains_above.simps [of _ "Suc 0"] getns_walk.simps [of _ _ _ 0])
  next
    case False
    then have "2 \<le> nid" using less.prems(1) by simp
    then obtain p where p: "n_parent (nd d nid) = Some p" "1 \<le> p" "p < nid" using tree_okD(4) [OF t _ less.prems(2)] by blast
    have l: "p < length (Nodes d)" using p(3) less.prems(2) by simp
    have "domains_above (Nodes d) nid = p # domains_above (Nodes d) p" using p by (simp add: domains_above.simps [of _ nid])
    moreover have "getns_walk d now nsc (DNS_parent d nid) s
        = getns_walk d now nsc (DNS_parent d p) (s @ first_server d now p)"
      using getns1_full [OF assms l less.prems(3)] p by (subst getns_walk.simps) (simp add: DNS_parent_def)
    ultimately show ?thesis using less.IH [OF p(3,2) l, of "s @ first_server d now p"] less.prems(3) by simp
  qed
qed

lemma length_conf_servers: "length (conf_servers nslist i) \<le> length nslist - i"
proof (induction nslist i rule: conf_servers.induct)
  case (1 nslist i)
  show ?case
  proof (cases "i < length nslist")
    case True
    then show ?thesis using 1 by (subst conf_servers.simps) (auto simp: RES_getns1_def)
  next
    case False
    then show ?thesis by (subst conf_servers.simps) (simp add: RES_getns1_def)
  qed
qed

lemma length_sortns [simp]: "length (sortns dsort rss nsv) = length nsv"
  by (cases nsv) (auto simp: sortns_def split: option.split)

lemma set_nameserver_total:
  assumes "dns_reach d" "nonul domain"
  obtains d1 i d2 j where "DNS_putbyname d domain = Some (d1, i)" "dns_reach d1" "ids (Nodes d1) (name_key domain) = Some i"
    "DNS_putbyaddr (e_pton6 env) d1 addr = Some (d2, j)" "dns_reach d2" "ids (Nodes d1) \<subseteq>\<^sub>m ids (Nodes d2)"
    "set_nameserver env d domain addr = Some (fst (DNS_putattr (fst (DNS_putattr d2 (e_now env) i (typemask TY_NS) 3600
       (rr_head TY_NS 1 @ long_bytes (int j)) 6)) (e_now env) j (typemask TY_A) 3600 (rr_head TY_A 1 @ long_bytes (uint (inet_addrV4 addr))) 6))"
proof -
  obtain d1 i where d1: "DNS_putbyname d domain = Some (d1, i)" "dns_reach d1" "ids (Nodes d1) (name_key domain) = Some i"
    by (rule put_reach [OF assms])
  obtain d2 j where d2: "DNS_putbyaddr (e_pton6 env) d1 addr = Some (d2, j)" "dns_reach d2" "ids (Nodes d1) \<subseteq>\<^sub>m ids (Nodes d2)"
    unfolding DNS_putbyaddr_def Let_def by (rule put_reach [OF d1(2) nonul_addr_name [of "scan_ds 4 addr" "e_pton6 env" addr]])
  show ?thesis by (rule that [OF d1 d2]) (simp add: set_nameserver_def d1(1) d2(1) Let_def)
qed

subsection \<open>A configured server\<close>

lemma nwalk_length: "nwalk d c p ls = Some (d', i) \<Longrightarrow> length (Nodes d') \<le> length (Nodes d) + length ls"
proof (induction ls arbitrary: d p)
  case (Cons l ls)
  obtain d1 k where lk: "link_child d p l = (d1, k)" by (cases "link_child d p l")
  obtain e j where "newnode d = (e, j)" by (cases "newnode d")
  then have "length (Nodes d1) = Suc (length (Nodes d))"
    using lk newnode_nodes by (fastforce simp: link_child_def Let_def NewLabel_nodes)
  then show ?case using Cons.prems lk Cons.IH [of d1 k] Cons.IH [of d]
    by (force split: option.splits if_splits)
qed simp

lemma putbyname_length:
  assumes "DNS_putbyname d name = Some (d', i)"
  shows "length (Nodes d') \<le> length (Nodes d) + 36"
proof -
  obtain e where e: "nwalk d True 1 (if nlabels name 0 0 = [''''] then [] else rev (nlabels name 0 0)) = Some (e, i)"
      "length (Nodes d') = length (Nodes e)"
    using assms by (auto simp: DNS_putbyname_def nsearch_def Let_def split: option.splits)
  show ?thesis using nwalk_length [OF e(1)] e(2) nlabels_le [of name 0 0] by (auto simp: MAXLEV_def split: if_splits)
qed

text \<open>A record is put in front of those of its node, unless it is there.\<close>

lemma putattr_new:
  assumes "nid < length (Nodes d)" "flag \<notin> a_flag ` set (n_attr (nd d nid))"
  shows "n_attr (nd (fst (DNS_putattr d now nid flag ttl data leng)) k) =
    (if k = nid then \<lparr>a_flag = flag, a_date = now, a_ttl = ttl, a_leng = leng, a_data = take leng data\<rparr> # n_attr (nd d nid) else n_attr (nd d k))"
proof -
  obtain d1 i where n: "NewRecord d (attr_size + leng) = (d1, i)" by (cases "NewRecord d (attr_size + leng)")
  then have "Nodes d1 = Nodes d" by (auto simp: NewRecord_def Let_def)
  moreover have "\<not> list_ex (\<lambda>a. flag = a_flag a \<and> leng = a_leng a \<and> take leng (a_data a) = take leng data) (n_attr (nd d nid))"
    using assms(2) by (auto simp: list_ex_iff)
  ultimately show ?thesis using n assms(1) by (auto simp: DNS_putattr_def upd_node_def)
qed

lemma putattr_ids [simp]: "ids (Nodes (fst (DNS_putattr d now nid flag ttl data leng))) = ids (Nodes d)"
proof -
  obtain e k where n: "NewRecord d (attr_size + leng) = (e, k)" by (cases "NewRecord d (attr_size + leng)")
  then have "Nodes e = Nodes d" by (auto simp: NewRecord_def Let_def)
  then show ?thesis using n by (auto simp: DNS_putattr_def upd_node_ids same_place_def)
qed

lemma reversed_address: "length bs = 4 \<Longrightarrow> long_bytes (uint (inet_addrV4 (ltoa4 bs))) = rev bs"
proof -
  assume l: "length bs = 4"
  then obtain a b c e where bs: "bs = [a, b, c, e]" by (auto simp: numeral_eq_Suc length_Suc_conv)
  have "map byte (scan_ds 4 (ltoa4 bs)) = bs" unfolding show_octets_dotted [OF l] by (simp add: bs byte_uc)
  then have i: "inet_addrV4 (ltoa4 bs) = le_int bs" using l by (simp add: inet_addrV4_def Let_def)
  define n where "n = uc a + 256 * (uc b + 256 * (uc c + 256 * uc e))"
  have u255: "uc x \<le> 255" for x using uc_less [of x] by linarith
  have "n < 4294967296" using u255 [of a] u255 [of b] u255 [of c] u255 [of e] by (simp add: n_def)
  moreover have "le_int bs = of_nat n" by (simp add: le_int_def bs n_def)
  ultimately have u: "uint (le_int bs) = int n" by (simp add: unsigned_of_nat take_bit_nat_eq_self)
  have low: "byte (int (uc x + 256 * m)) = x" for x m
  proof -
    have "nat (int (uc x + 256 * m) mod 256) = (uc x + 256 * m) mod 256" by (metis nat_int of_nat_mod of_nat_numeral)
    also have "\<dots> = uc x" unfolding mod_mult_self2 by simp
    finally show ?thesis by (simp only: byte_def char_of_uc)
  qed
  have "(x + 256 * m) div 256 = m" if "x < 256" for x m :: nat using that by simp
  then have d: "n div 256 = uc b + 256 * (uc c + 256 * uc e)" "n div 256 div 256 = uc c + 256 * uc e" "n div 256 div 256 div 256 = uc e + 256 * 0"
    by (simp_all only: n_def uc_less)
  have "long_bytes (int n) = map (byte \<circ> int) [n div 256 div 256 div 256, n div 256 div 256, n div 256, n]"
    by (simp add: long_bytes_def short_bytes_def drop_bit_eq_div zdiv_int div_mult2_eq [symmetric] zdiv_zmult2_eq [symmetric])
  also have "\<dots> = rev bs" unfolding d(3) unfolding d(2) unfolding d(1) unfolding n_def by (simp only: list.map comp_apply low bs) simp
  finally show ?thesis unfolding i u .
qed

lemma getns1_one:
  assumes "snd (DNS_getattr d now i (typemask TY_NS) 0 32) = [rr_head TY_NS 1 @ long_bytes (int j)]"
    "snd (DNS_getattr d now j (typemask TY_A) 0 32) = [rr_head TY_A 1 @ addr]" "j < length (Nodes d)" "j < 2 ^ 32" "length addr = 4"
  shows "getns1 d now nsc i [] = Some [\<lparr>va_family = AF_INET, va_addr = addr, va_port = 53\<rparr>]"
proof -
  have len: "length (rr_head t c) = 2" for t c by (simp add: rr_head_def)
  have "getLong (rr_head TY_NS 1 @ long_bytes (int j)) 2 = Some (word_of_int (int j), 6)"
    using getLong_any [of 2 "rr_head TY_NS 1" "int j" "[]"] by (simp add: len)
  moreover have "unat (word_of_int (int j) :: u32) = j" using assms(4) by (simp add: unat_of_nat)
  moreover have "VSA_btosa AF_INET (drop 2 (rr_head TY_A 1 @ addr)) 53 = \<lparr>va_family = AF_INET, va_addr = addr, va_port = 53\<rparr>"
    using assms(5) by (simp add: VSA_btosa_def len AF_INET_def AF_INET6_def)
  ultimately show ?thesis using assms(1-3) by (simp add: getns1_def Let_def)
qed

lemma configured_server:
  assumes "dns_reach d" "all_attrs (\<lambda>as. as = []) (Nodes d)" "length (Nodes d) < 2 ^ 31" "nonul domain" "length bs = 4"
  obtains d' i where "set_nameserver env d domain (ltoa4 bs) = Some d'" "ids (Nodes d) \<subseteq>\<^sub>m ids (Nodes d')" "ids (Nodes d') (name_key domain) = Some i"
    "getns1 d' now nsc i [] = Some [\<lparr>va_family = AF_INET, va_addr = rev bs, va_port = 53\<rparr>]"
proof -
  obtain d1 i d2 j where q: "DNS_putbyname d domain = Some (d1, i)" "dns_reach d1" "ids (Nodes d1) (name_key domain) = Some i"
    "DNS_putbyaddr (e_pton6 env) d1 (ltoa4 bs) = Some (d2, j)" "dns_reach d2" "ids (Nodes d1) \<subseteq>\<^sub>m ids (Nodes d2)"
    "set_nameserver env d domain (ltoa4 bs) = Some (fst (DNS_putattr (fst (DNS_putattr d2 (e_now env) i (typemask TY_NS) 3600
       (rr_head TY_NS 1 @ long_bytes (int j)) 6)) (e_now env) j (typemask TY_A) 3600 (rr_head TY_A 1 @ long_bytes (uint (inet_addrV4 (ltoa4 bs)))) 6))"
    by (rule set_nameserver_total [OF assms(1,4)])
  define ns where "ns = \<lparr>a_flag = typemask TY_NS, a_date = e_now env, a_ttl = 3600, a_leng = 6, a_data = rr_head TY_NS 1 @ long_bytes (int j)\<rparr>"
  define ad where "ad = \<lparr>a_flag = typemask TY_A, a_date = e_now env, a_ttl = 3600, a_leng = 6, a_data = rr_head TY_A 1 @ rev bs\<rparr>"
  define d3 where "d3 = fst (DNS_putattr d2 (e_now env) i (typemask TY_NS) 3600 (rr_head TY_NS 1 @ long_bytes (int j)) 6)"
  define d4 where "d4 = fst (DNS_putattr d3 (e_now env) j (typemask TY_A) 3600 (rr_head TY_A 1 @ rev bs) 6)"
  have len: "length (rr_head t c) = 2" "length (long_bytes n) = 4" for t c n by (simp_all add: rr_head_def long_bytes_def short_bytes_def)
  have "res_ok d" using assms(1) all_attrs_mono [OF assms(2), of "list_all (att_ok (length (Nodes d)))"] by (simp add: res_ok_def recs_ok_def)
  note p = res_ok_put [OF this assms(4) q(1)]
  note p2 = res_ok_putaddr [OF p(1) q(4)]
  have small: "length (Nodes d2) < 2 ^ 32"
    using assms(3) putbyname_length [OF q(1)] q(4) putbyname_length unfolding DNS_putbyaddr_def Let_def by fastforce
  have "all_attrs (\<lambda>as. as = []) (Nodes d2)"
    using all_attrs_putbyname [OF assms(2) _ q(1)] q(4) unfolding DNS_putbyaddr_def Let_def by (auto intro: all_attrs_putbyname)
  then have none: "n_attr (nd d2 k) = []" if "k < length (Nodes d2)" for k using that by (rule all_attrsD)
  have i: "i < length (Nodes d2)" using p(4) p2(2) by simp
  have a3: "n_attr (nd d3 k) = (if k = i then [ns] else [])" if "k < length (Nodes d2)" for k
    using putattr_new [OF i, of "typemask TY_NS"] none that i by (simp add: d3_def ns_def len)
  have l3: "length (Nodes d3) = length (Nodes d2)" by (simp add: d3_def)
  have m: "\<not> matches_flag (typemask TY_NS) ad" "matches_flag (typemask TY_NS) ns" "matches_flag (typemask TY_A) ad" "\<not> matches_flag (typemask TY_A) ns"
    by (simp_all add: matches_flag_def ns_def ad_def typemask_def ty_defs)
  have "typemask TY_A \<notin> a_flag ` set (n_attr (nd d3 j))" using a3 [OF p2(4)] by (auto simp: ns_def typemask_def ty_defs)
  then have a4: "n_attr (nd d4 k) = (if k = j then [ad] else []) @ (if k = i then [ns] else [])" if "k < length (Nodes d2)" for k
    using putattr_new [of j d3 "typemask TY_A" "e_now env" 3600 "rr_head TY_A 1 @ rev bs" 6 k] p2(4) l3 a3 that assms(5)
    by (auto simp: d4_def ad_def len)
  have "snd (DNS_getattr d4 now i (typemask TY_NS) 0 32) = [a_data ns]" "snd (DNS_getattr d4 now j (typemask TY_A) 0 32) = [a_data ad]"
    unfolding getattr_0 using a4 [OF i] a4 [OF p2(4)] m by auto
  moreover have "j < length (Nodes d4)" "j < 2 ^ 32" using p2(4) small by (simp_all add: d4_def d3_def)
  ultimately have "getns1 d4 now nsc i [] = Some [\<lparr>va_family = AF_INET, va_addr = rev bs, va_port = 53\<rparr>]"
    using assms(5) by (intro getns1_one) (simp_all add: ns_def ad_def)
  moreover have "set_nameserver env d domain (ltoa4 bs) = Some d4" using q(7) by (simp add: d4_def d3_def reversed_address [OF assms(5)])
  moreover have "ids (Nodes d4) = ids (Nodes d2)" by (simp add: d4_def d3_def)
  moreover have "ids (Nodes d) \<subseteq>\<^sub>m ids (Nodes d2)" using put_reach [OF assms(1,4)] q(1,6) by (metis map_le_trans option.inject prod.inject)
  ultimately show ?thesis using that ids_le [OF q(6,3)] by metis
qed

subsection \<open>Reachable states\<close>

text \<open>
  The uses of the table: a name is asked for (\<^verbatim>\<open>getRRbynameaddr\<close>), a message is decoded, whatever it holds and whether or not its
  records are stored, records are looked up in an array of \<open>rrc\<close> entries, a name server is configured.
\<close>

inductive resolver_reach :: "dns \<Rightarrow> bool" where
  start: "resolver_reach init_dns"
| query: "resolver_reach d \<Longrightarrow> nonul name \<Longrightarrow> DNS_putbyname d name = Some (d', i) \<Longrightarrow> resolver_reach d'"
| response: "resolver_reach (rs_dns st) \<Longrightarrow> dumpResponse env store st resp = Some (st', h, n) \<Longrightarrow> resolver_reach (rs_dns st')"
| lookup: "resolver_reach (l_dns st) \<Longrightarrow> nid < length (Nodes (l_dns st)) \<Longrightarrow>
    lookupCache (rrc + 1) now ttl qtype rrc st nid [] = Some (st', rrv) \<Longrightarrow> resolver_reach (l_dns st')"
| nameserver: "resolver_reach d \<Longrightarrow> nonul domain \<Longrightarrow> set_nameserver env d domain addr = Some d' \<Longrightarrow> resolver_reach d'"

lemma lookup_from_res_ok:
  assumes "res_ok (l_dns st)" "nid < length (Nodes (l_dns st))"
  shows "\<exists>st' rrv. lookupCache (rrc + 1) now ttl qtype rrc st nid [] = Some (st', rrv) \<and> length rrv \<le> rrc \<and> res_ok (l_dns st')"
  using lookupCache_returns [of "length (Nodes (l_dns st))" st nid rrc "[]" "rrc + 1" now ttl qtype] assms
  by (auto simp: lookup_ok_def returns_def res_ok_def)

lemma resolver_ok: "resolver_reach d \<Longrightarrow> res_ok d"
proof (induction rule: resolver_reach.induct)
  case start
  show ?case by (rule res_ok_init)
next
  case (query d name d' i)
  then show ?case by (blast intro: res_ok_put(1))
next
  case (response st env store resp st' h n)
  then show ?case by (blast intro: dump_response_ok)
next
  case (lookup st nid rrc now ttl qtype st' rrv)
  then show ?case using lookup_from_res_ok [OF lookup.IH lookup.hyps(2), of rrc now ttl qtype] by auto
next
  case (nameserver d domain env addr d')
  then show ?case by (blast intro: set_nameserver_ok)
qed

subsection \<open>Properties\<close>

text \<open>C8: Whatever responses arrive, every record in the table is well-formed: it carries its type in its first byte and is kept under the mask of that
  type, or under none when it is out of date, and a record that leads to a name holds the number of a node of the table. The links form a tree
  and no store has left the memory of the table.\<close>

theorem records_well_formed: "resolver_reach d \<Longrightarrow> dns_ok d \<and> recs_ok d"
  using resolver_ok reach_ok by (auto simp: res_ok_def)

theorem records_well_formed_witness:
  "\<exists>d. set_nameserver \<lparr>e_now = 1, e_ltoa6 = id, e_pton6 = (\<lambda>_. None)\<rparr> init_dns ''example.com'' ''10.1.2.3'' = Some d \<and> recs_ok d"
proof -
  obtain d where d: "set_nameserver \<lparr>e_now = 1, e_ltoa6 = id, e_pton6 = (\<lambda>_. None)\<rparr> init_dns ''example.com'' ''10.1.2.3'' = Some d"
    by (rule set_nameserver_total [OF dns_reach.start, of "''example.com''"]) (simp, blast)
  then have "resolver_reach d" by (rule resolver_reach.nameserver [OF resolver_reach.start, rotated]) simp
  then show ?thesis using records_well_formed d by blast
qed

text \<open>C20: In every state of the resolver \<^verbatim>\<open>lookupCache\<close> returns, also when responses have made aliases that form a loop: the calls nest at most as deep as
  there are places in the array, which is not overrun, and the resolver goes on from a state that can be reached.\<close>

theorem lookup_returns:
  assumes "resolver_reach (l_dns st)" and "nid < length (Nodes (l_dns st))"
  shows "\<exists>st' rrv. lookupCache (rrc + 1) now ttl qtype rrc st nid [] = Some (st', rrv) \<and> length rrv \<le> rrc \<and> resolver_reach (l_dns st')"
  using lookup_from_res_ok [OF resolver_ok [OF assms(1)] assms(2), of rrc now ttl qtype] resolver_reach.lookup [OF assms] by blast

theorem lookup_returns_witness:
  "\<exists>st' rrv. lookupCache 65 1000 0 1 64 \<lparr>l_dns = init_dns, Phase = 0\<rparr> 1 [] = Some (st', rrv) \<and> length rrv \<le> 64"
  using lookup_returns [of "\<lparr>l_dns = init_dns, Phase = 0\<rparr>" 1 64 1000 0 1] resolver_reach.start
  by (auto simp: init_dns_def numeral_plus_one)

text \<open>C21: In every state of the resolver the servers to ask for a name are found: \<^verbatim>\<open>getns\<close> ends at the root, follows no number out of the table, and stores at most
  37 entries, one for each domain the name can lie in, more than the size it was given or than are configured.\<close>

theorem getns_returns:
  assumes "resolver_reach d" and "1 \<le> nid" and "nid < length (Nodes d)"
  shows "\<exists>r. getns d now dsort rss nslist nid nsc = Some r \<and> length r \<le> max nsc (length nslist) + 37"
proof -
  have t: "tree_ok (Nodes d)" using resolver_ok [OF assms(1)] reach_ok by (auto simp: res_ok_def dns_ok_def)
  let ?s = "sortns dsort rss (conf_servers nslist 0)"
  have "length (path (Nodes d) nid) \<le> 36"
    using tree_okD(5) [OF t _ assms(3)] path_simps(2) [OF t] assms(2) by (cases "nid = 1") (simp_all add: path_ok_def MAXLEV_def)
  moreover have "length ?s \<le> length nslist" using length_conf_servers [of nslist 0] by simp
  ultimately show ?thesis
    using getns_walk_returns [OF resolver_ok [OF assms(1)] assms(2,3), of now nsc ?s] unfolding getns_def by fastforce
qed

theorem getns_returns_witness:
  "\<exists>r. getns init_dns 1000 False [] [\<lparr>va_family = AF_INET, va_addr = ''1234'', va_port = 53\<rparr>] 1 128 = Some r \<and> length r \<le> 165"
  using getns_returns [OF resolver_reach.start, of 1 1000 False "[]" "[\<lparr>va_family = AF_INET, va_addr = ''1234'', va_port = 53\<rparr>]" 128]
  by (simp add: init_dns_def)

text \<open>C38: The test for a full array comes after a server is stored, and \<^verbatim>\<open>getns\<close> goes on to the next domain when one has filled it: when the
  servers of a domain reach the size of the array, the result is those servers and one more for every domain around it, up to the root, that
  has a server with an address. Each of them is stored behind the end of the array.\<close>

theorem servers_overrun:
  assumes "resolver_reach d" and "1 \<le> nid" and "nid < length (Nodes d)"
    and "getns1 d now nsc nid (sortns dsort rss (conf_servers nslist 0)) = Some s" and "nsc \<le> length s"
  shows "getns d now dsort rss nslist nid nsc = Some (s @ concat (map (first_server d now) (domains_above (Nodes d) nid)))"
proof -
  have "getns d now dsort rss nslist nid nsc = getns_walk d now nsc (DNS_parent d nid) s"
    using assms(2,4) by (simp add: getns_def getns_walk.simps [of _ _ _ nid])
  then show ?thesis using getns_walk_full [OF resolver_ok [OF assms(1)] assms(2,3,5)] by simp
qed

theorem servers_overrun_witness:
  "\<exists>d r i. DNS_getbyname d ''www.example'' = Some i \<and> getns d 1000 False [] [\<lparr>va_family = AF_INET, va_addr = ''1234'', va_port = 53\<rparr>] i 1 = Some r
    \<and> 1 < length r"
proof -
  let ?cs = "[\<lparr>va_family = AF_INET, va_addr = ''1234'', va_port = 53\<rparr>]"
  obtain d0 i where d0: "DNS_putbyname init_dns ''www.example'' = Some (d0, i)" "dns_reach d0" "ids (Nodes d0) (name_key ''www.example'') = Some i"
    by (rule put_reach [OF dns_reach.start, of "''www.example''"]) simp_all
  have e: "all_attrs (\<lambda>as. as = []) (Nodes d0)" by (rule all_attrs_putbyname [OF all_attrs_init _ d0(1)]) simp_all
  have "length (Nodes d0) < 2 ^ 31" using putbyname_length [OF d0(1)] by (simp add: init_dns_def)
  then obtain d p
    where d: "set_nameserver \<lparr>e_now = 1, e_ltoa6 = id, e_pton6 = (\<lambda>_. None)\<rparr> d0 ''example'' (ltoa4 ''abcd'') = Some d" "ids (Nodes d0) \<subseteq>\<^sub>m ids (Nodes d)"
      "ids (Nodes d) (name_key ''example'') = Some p" "getns1 d 1000 1 p [] = Some [\<lparr>va_family = AF_INET, va_addr = rev ''abcd'', va_port = 53\<rparr>]"
    by (rule configured_server [OF d0(2) e, of "''example''" "''abcd''"]) simp_all
  have reach: "resolver_reach d"
    by (rule resolver_reach.nameserver [OF resolver_reach.query [OF resolver_reach.start _ d0(1)] _ d(1)]) simp_all
  have k: "name_key ''www.example'' = [''www'', ''example'']" "name_key ''example'' = [''example'']" by code_simp+
  have ok: "res_ok d" by (rule resolver_ok [OF reach])
  then have t: "tree_ok (Nodes d)" using reach_ok by (auto simp: res_ok_def dns_ok_def)
  have wi: "ids (Nodes d) (name_key ''www.example'') = Some i" by (rule ids_le [OF d(2)]) (rule d0(3))
  have i: "1 \<le> i" "i < length (Nodes d)" "lower (path (Nodes d) i) = [''www'', ''example'']"
    using wi unfolding ids_iff [OF t] k by blast+
  have pp: "1 \<le> p" "p < length (Nodes d)" "lower (path (Nodes d) p) = [''example'']" using d(3) unfolding ids_iff [OF t] k by blast+
  have "2 \<le> i" using i(1,3) path_simps(2) [OF t] by (cases "i = 1") auto
  then obtain p' where p': "n_parent (nd d i) = Some p'" "1 \<le> p'" "p' < i" using tree_okD(4) [OF t _ i(2)] by blast
  then have "lower (path (Nodes d) p') = [''example'']" using path_simps(3) [OF t \<open>2 \<le> i\<close> i(2)] i(3) by (simp add: lower_def)
  then have "p' = p" using path_inject [OF t p'(2) _ pp(1,2)] p'(3) i(2) pp(3) by simp
  have c: "sortns False [] (conf_servers ?cs 0) = ?cs"
    by (simp add: sortns_def conf_servers.simps [of ?cs 0] conf_servers.simps [of ?cs "Suc 0"] RES_getns1_def)
  obtain s where s: "getns1 d 1000 1 i ?cs = Some s" using getns1_returns [OF ok i(2)] by blast
  then have "1 \<le> length s" using getns1_loop_prefix prefix_length_le by (fastforce simp: getns1_def)
  moreover have "first_server d 1000 p = [\<lparr>va_family = AF_INET, va_addr = rev ''abcd'', va_port = 53\<rparr>]"
    using d(4) by (simp add: first_server_def)
  moreover have "domains_above (Nodes d) i = p # domains_above (Nodes d) p"
    using p'(1,3) \<open>p' = p\<close> by (simp add: domains_above.simps [of _ i])
  ultimately have "\<exists>r. getns d 1000 False [] ?cs i 1 = Some r \<and> 1 < length r"
    using servers_overrun [OF reach i(1,2), of 1000 1 False "[]" ?cs s] s c by auto
  moreover have "DNS_getbyname d ''www.example'' = Some i"
    using getbyname_ids [of d "''www.example''"] ok reach_ok wi by (auto simp: res_ok_def)
  ultimately show ?thesis by blast
qed

text \<open>C37: The address of a name server that is configured for a domain is taken as an int whose first byte is the first number, and stored with its most
  significant byte first: on a little-endian machine the server that is asked has the numbers of the address in reverse order.\<close>

theorem configured_server_reversed:
  assumes "dns_reach d" and "all_attrs (\<lambda>as. as = []) (Nodes d)" and "length (Nodes d) < 2 ^ 31" and "nonul domain" and "length bs = 4"
  shows "\<exists>d' i. set_nameserver env d domain (ltoa4 bs) = Some d' \<and> DNS_getbyname d' domain = Some i
    \<and> getns1 d' now nsc i [] = Some [\<lparr>va_family = AF_INET, va_addr = rev bs, va_port = 53\<rparr>]"
proof -
  obtain d' i where d: "set_nameserver env d domain (ltoa4 bs) = Some d'" "ids (Nodes d') (name_key domain) = Some i"
    "getns1 d' now nsc i [] = Some [\<lparr>va_family = AF_INET, va_addr = rev bs, va_port = 53\<rparr>]"
    by (rule configured_server [OF assms])
  have "res_ok d" using assms(1) all_attrs_mono [OF assms(2), of "list_all (att_ok (length (Nodes d)))"] by (simp add: res_ok_def recs_ok_def)
  then have "dns_ok d'" using set_nameserver_ok [OF _ assms(4) d(1)] reach_ok by (auto simp: res_ok_def)
  then have "DNS_getbyname d' domain = Some i" using getbyname_ids [OF _ assms(4)] d(2) by simp
  then show ?thesis using d by blast
qed

theorem configured_server_reversed_witness:
  "\<exists>d' i. set_nameserver \<lparr>e_now = 1, e_ltoa6 = id, e_pton6 = (\<lambda>_. None)\<rparr> init_dns ''example.com'' ''10.1.2.3'' = Some d'
    \<and> DNS_getbyname d' ''example.com'' = Some i
    \<and> getns1 d' 5 128 i [] = Some [\<lparr>va_family = AF_INET, va_addr = [CHR 0x03, CHR 0x02, CHR 0x01, CHR 0x0A], va_port = 53\<rparr>]"
proof -
  have "ltoa4 [CHR 0x0A, CHR 0x01, CHR 0x02, CHR 0x03] = ''10.1.2.3''" by code_simp
  moreover have "length (Nodes init_dns) < 2 ^ 31" by (simp add: init_dns_def)
  moreover have "all_attrs (\<lambda>as. as = []) (Nodes init_dns)" by (simp add: all_attrs_init)
  ultimately show ?thesis
    using configured_server_reversed [OF dns_reach.start, of "''example.com''" "[CHR 0x0A, CHR 0x01, CHR 0x02, CHR 0x03]"
        "\<lparr>e_now = 1, e_ltoa6 = id, e_pton6 = (\<lambda>_. None)\<rparr>" 5 128] by simp
qed

end
