(* ===== verification/Spec2Isabelle.thy ===== *)
theory Spec2Isabelle
  imports VStr StrLib StrScan MimeCodes ListScan UrlEsc HashTab HostMatch HostList HostParse HostConf HostTable HostReturns HostMask Codec HeaderEdit UrlPath UrlSite HttpAuth DnsResolver
begin

text \<open>
  A verification library for DeleGate 9.9, a proxy server for many protocols (\<open>src/delegate\<close>).

  \<^bold>\<open>The program.\<close> A DeleGate process reads its configuration (\<^verbatim>\<open>HOSTLIST\<close>, \<^verbatim>\<open>RELIABLE\<close>, \<^verbatim>\<open>MOUNT\<close>, ...), accepts
  connections, decides with \<^emph>\<open>host lists\<close> who may use what, and relays requests and messages, whose
  headers, URLs and contents it rewrites on the way. All of it is written on top of a layer of
  string buffers that carry their bounds, and of string routines that split, match, escape and
  encode. The gateways themselves are relaying loops over sockets; what decides and what
  transforms is in the parts modelled here. The calls between them: the list scanner feeds the
  parser of host list entries, the parser and the string table feed the table of named lists,
  the evaluation of a list uses the glob matcher, the port, user and address tests, and other lists
  of the table; the resolver decodes responses into a table of names and looks hosts up in it; the header routines use the word and line scanners; every scanner stores through the checked buffers.

  \<^bold>\<open>Conventions.\<close> The build is that with the checked strings (\<^verbatim>\<open>QS\<close>), 64-bit, with signed \<^verbatim>\<open>char\<close>. A C string is
  the list of its characters before the terminator; a pointer into it is the suffix it points
  to, a null pointer is \<open>None\<close>. Memory that is written is explicit: a buffer (record \<open>vstr\<close>), an array of a table,
  the state of the host lists (record \<open>hl_sys\<close>). Machine integers are words, or ints with \<open>i32\<close> and
  \<open>sat64\<close> written out. A read or a store outside of an object is a value (\<open>None\<close>, or the flag \<open>vbad\<close> of a
  buffer and \<open>ht_bad\<close> of the table of lists), never silently dropped. What the code asks of the outside, the resolver, the interfaces, the clock, address files,
  is a field of the record \<open>hl_env\<close> or a parameter.

  \<^bold>\<open>Theories, code and results.\<close>
  \<^item> \<open>Prelude\<close>: the C types and library calls the others share (\<^verbatim>\<open>strchr\<close>, \<^verbatim>\<open>strncasecmp\<close>, \<^verbatim>\<open>atoi\<close>, \<^verbatim>\<open>sscanf\<close>).
  \<^item> \<open>VStr\<close> (\<open>rary/ystring.cpp\<close>, \<open>include/ystring.h\<close>): the checked buffers. Any sequence of their operations
    stays inside the buffer as long as no pointer is moved to a negative index, which is not checked; copying truncates to what fits. The locale \<open>char_sink\<close> states what a
    place to put characters promises, and is interpreted for buffers and for streams.
  \<^item> \<open>StrLib\<close>, \<open>StrScan\<close> (\<open>rary/String.cpp\<close>): numbers with units and saturation, case, the glob matcher (equal to the
    glob relation), words, lines, vectors, nested brackets.
  \<^item> \<open>ListScan\<close> (\<open>rary/String.cpp\<close>): \<^verbatim>\<open>scan_ListX\<close> and what is built on it. Lists written with escapes or with
    groups in braces are read back; the locale \<open>list_writer\<close> states what a way of writing an element must ensure.
  \<^item> \<open>MimeCodes\<close> (\<open>mimekit/mimecodes.cpp\<close>): Base64 and Quoted-Printable, round trips and line widths; and where a table is indexed by a signed character.
  \<^item> \<open>UrlEsc\<close> (\<open>rary/urlesc.cpp\<close>): percent escapes, round trips, comparison of escaped URLs.
  \<^item> \<open>HashTab\<close> (\<open>rary/hash.cpp\<close>, \<open>rary/strid.cpp\<close>): open addressing refines a map while there is room; the
    locale \<open>string_table\<close> is the interface the table of host lists relies on.
  \<^item> \<open>HostMatch\<close>, \<open>HostList\<close> (\<open>src/hostlist.cpp\<close>, \<open>include/vaddr.h\<close>, \<open>src/hostlist.h\<close>): the tests of an entry and \<^verbatim>\<open>VA_hostIsinListX\<close>. A list whose
    entries do not redirect the comparison (locale \<open>steady_list\<close>) evaluates to the formula it denotes; references are
    followed to a depth of \<open>HL_MAXDEPTH\<close>.
  \<^item> \<open>HostParse\<close>, \<open>HostMask\<close> (\<open>makeHost\<close> of \<open>src/hostlist.cpp\<close>): the text of an entry, and what masks and ranges accept.
  \<^item> \<open>HostConf\<close>, \<open>HostTable\<close>, \<open>HostReads\<close>, \<open>HostReturns\<close> (\<open>addHostList1\<close>, \<open>addHostListTab\<close> and around; \<open>enableClientIdent\<close> and
    \<open>scan_RELIABLE\<close> of \<open>src/master.cpp\<close>): building lists. An entry may be copied to the lists of lexical and virtual hosts, and its users add their hosts to those
    asked by the Ident protocol, each by a nested call. The mutual recursion of \<open>addHostList1\<close> and \<open>makeHost\<close> has a fuel that bounds the depth of calls, and
    \<open>None\<close> means only that it ran out; a store outside of the table sets \<open>ht_bad\<close>. More fuel gives the same result (\<open>addHostList1_more\<close>). For texts without groups the depth is at most
    the length of an element, plus three for each \<^verbatim>\<open>@\<close> in it and in the left-over buffer, plus six (\<open>depth\<close>, \<open>fuel\<close>, \<open>init_fuel\<close>);
    two adjacent groups exhaust every fuel. The table keeps its invariant in every reachable configuration, and a definition changes just the list it names
    and gives it one entry for each element (\<open>entry_of\<close>). The names given to the resolver's cache are kept as a log (\<open>hostcache_predef\<close>).
  \<^item> \<open>Codec\<close> (\<open>rary/cksum.cpp\<close>, \<open>rary/bsort.cpp\<close>, \<open>rary/codec.cpp\<close>, \<open>rary/uu.cpp\<close>): the check sum, a sort, two codecs.
  \<^item> \<open>Rfc822\<close>, \<open>HeaderEdit\<close> (\<open>mimekit/rfc822.cpp\<close>): the fields of a message header. What is stored is read back when it is plain, an edit with a value that does not end in a line end
    does not move the end of the header, removing fields is filtering them; and where this fails.
  \<^item> \<open>Url\<close>, \<open>UrlPath\<close>, \<open>UrlSite\<close> (\<open>src/url.cpp\<close>): the parts of a URL. Removing the dot elements of a path is a stack machine
    and leaves none, except in front of a query; sites are taken apart into what they were put together from, as long
    as the credentials fit into their buffers; a port moved into the path comes back.
  \<^item> \<open>Http\<close>, \<open>HttpAuth\<close> (\<open>src/httphead.cpp\<close>): methods, request lines and authorization. The configured methods are exactly the allowed
    ones; credentials that are forwarded are read back through the encoder, the header scanner, the decoder and the
    escaper of the other theories.
  \<^item> \<open>DnsNode\<close>, \<open>DnsTree\<close>, \<open>DnsNames\<close> (\<open>resolvy/dnsnode.cpp\<close>): the resolver's table of domain names, nodes linked by parent, child and
    peer with memory banks behind them (record \<open>dns\<close>). In every reachable table (\<open>dns_reach\<close>) the links are a tree, and the table
    refines a map from lists of labels, as the code cuts names at 36 labels, to numbers; the locale \<open>name_ids\<close> is this promise, from which a client has that
    numbers identify names, and is interpreted for the tree. The searches along links are partial functions, shown to return.
  \<^item> \<open>DnsAddr\<close> (\<open>resolvy/dnsnode.cpp\<close>, \<open>rary/vsaddr.cpp\<close>): names of addresses, and which records a query with a maximum age finds.
  \<^item> \<open>DnsWire\<close>, \<open>DnsCodec\<close> (\<open>resolvy/resolv.cpp\<close>, \<open>resolvy/dns.h\<close>): messages. Headers, questions and compressed names are read back; on every message the decoder of names
    returns, without a store outside of its buffer and without a read further from its start than the size of the buffer; the encoder of answers does
    store outside. A read behind the bytes of a message is \<open>None\<close>.
  \<^item> \<open>DnsAnswer\<close>, \<open>DnsLookup\<close> (\<open>resolvy/resolv.cpp\<close>): decoder and table together: the address in a response is found under its
    name. The fuel of \<^verbatim>\<open>lookupCache\<close> is the depth of calls, and one more than the size of the array
    is enough, since a nested call has stored a record before.
  \<^item> \<open>DnsServers\<close>, \<open>DnsResolver\<close> (\<open>resolvy/resolv.cpp\<close>): name servers, and the states of the resolver (\<open>resolver_reach\<close>): whatever messages arrive, the records are
    well-formed, lookups return whatever the aliases, and the servers to ask are found. Where not: configured addresses are reversed, and each domain around the host adds one server to an array that is full.

  \<^bold>\<open>Errors found.\<close> Properties that describe an unintended behaviour are stated like the others: a
  pair of groups that is read for ever, masks \<^verbatim>\<open>/32\<close> and \<^verbatim>\<open>/@B4\<close>, the list of reliable hosts that stays \<^verbatim>\<open>*\<close>, or is stored into a table that was never allocated, protected
  lists that grow, an interface entry that leaks into the entries behind it, header edits that
  reach other fields, reads and stores before a table, dots that go up over the host, passwords that are too long to be
  hidden or to be forwarded whole, a method that stays allowed, domain names that are too deep to be told apart, records that
  expire when they are stored, answers and servers that run over their buffers, name servers asked at a reversed address.

  \<^bold>\<open>Not modelled.\<close> The gateways of the protocols, the sockets and the resolver's exchange with name servers, TLS and filters,
  the cache, logging and administration are system calls and relaying loops; the tables of the
  character code conversion are data; \<open>pds/md5\<close> is third-party code. Of the files modelled, routines that
  only print, log or register buffers are left out, as is the mapping of mail addresses in \<open>rfc822.cpp\<close>, which
  consists of callbacks of the news gateway. Buffers whose size is a compile-time maximum (\<^verbatim>\<open>MAX_MIMEHEAD\<close>) are taken as large enough in \<open>Rfc822\<close>.
\<close>

end
